(* ===== verification/Wos_Prelude.thy ===== *)
theory Wos_Prelude
  imports Main "HOL-Library.Word"
begin

text \<open>
  The prelude of the development: the machine integers of the kernel
  (\<^verbatim>\<open>kernel/include/types.h\<close>), the error codes of the application interface
  (\<^verbatim>\<open>include/wabi.h\<close>), the alignment macros, and the generic facts on words, lists
  and counting that the components share.

  Conventions of the whole development.
  \<^item> A \<^verbatim>\<open>uint8_t\<close>, \<^verbatim>\<open>uint32_t\<close> or \<^verbatim>\<open>uint64_t\<close> whose wrap-around can matter is a word of that
    width.  Array indices, loop counters and counts that the surrounding checks bound are
    natural numbers; each component says which of its counters those are.
  \<^item> A C function that returns a negated \<^verbatim>\<open>W_E*\<close> code or a value returns a value of type
    \<open>'a res\<close>, which is the sum \<open>werr + 'a\<close>.
  \<^item> A call of \<^verbatim>\<open>panic()\<close>, which never returns, is the value \<open>None\<close> of an option.
  \<^item> A C string is the list of its bytes, without the terminating NUL; a buffer with a length is a
    list of bytes.
\<close>

unbundle bit_operations_syntax

section \<open>Machine integers and error codes\<close>

type_synonym u8 = "8 word"
type_synonym u16 = "16 word"
type_synonym u32 = "32 word"
type_synonym u64 = "64 word"

datatype werr =
    W_EPERM | W_ENOENT | W_ESRCH | W_EIO | W_ENODEV | W_E2BIG | W_ENOEXEC | W_EBADF
  | W_ECHILD | W_ENOMEM | W_EACCES | W_EFAULT | W_EBUSY | W_EEXIST | W_EXDEV | W_ENOTDIR
  | W_EISDIR | W_EINVAL | W_ENFILE | W_EMFILE | W_ENOSPC | W_ESPIPE | W_EPIPE | W_ERANGE
  | W_ENAMETOOLONG | W_ENOSYS | W_ENOTEMPTY | W_EFBIG

type_synonym 'a res = "werr + 'a"

text \<open>The numbers behind the codes; a failing call returns the negation of one of them.\<close>

fun errno_value :: "werr \<Rightarrow> int" where
  "errno_value W_EPERM = 1"
| "errno_value W_ENOENT = 2"
| "errno_value W_ESRCH = 3"
| "errno_value W_EIO = 5"
| "errno_value W_ENODEV = 19"
| "errno_value W_E2BIG = 7"
| "errno_value W_ENOEXEC = 8"
| "errno_value W_EBADF = 9"
| "errno_value W_ECHILD = 10"
| "errno_value W_ENOMEM = 12"
| "errno_value W_EACCES = 13"
| "errno_value W_EFAULT = 14"
| "errno_value W_EBUSY = 16"
| "errno_value W_EEXIST = 17"
| "errno_value W_EXDEV = 18"
| "errno_value W_ENOTDIR = 20"
| "errno_value W_EISDIR = 21"
| "errno_value W_EINVAL = 22"
| "errno_value W_ENFILE = 23"
| "errno_value W_EMFILE = 24"
| "errno_value W_ENOSPC = 28"
| "errno_value W_ESPIPE = 29"
| "errno_value W_EPIPE = 32"
| "errno_value W_ERANGE = 34"
| "errno_value W_ENAMETOOLONG = 36"
| "errno_value W_ENOSYS = 38"
| "errno_value W_ENOTEMPTY = 39"
| "errno_value W_EFBIG = 27"

definition PAGE_SIZE :: nat where
  "PAGE_SIZE = 4096"

definition LOW_MEMORY_LIMIT :: nat where
  "LOW_MEMORY_LIMIT = 1024 * 1024 * 1024"

definition align_up :: "u64 \<Rightarrow> u64 \<Rightarrow> u64" where
  "align_up x a = (x + (a - 1)) AND NOT (a - 1)"

definition align_down :: "u64 \<Rightarrow> u64 \<Rightarrow> u64" where
  "align_down x a = x AND NOT (a - 1)"

text \<open>Physical memory, read through the identity map: a little-endian machine.\<close>

type_synonym memory = "u64 \<Rightarrow> u8"

definition read32 :: "memory \<Rightarrow> u64 \<Rightarrow> u32" where
  "read32 m a = ucast (m a) OR push_bit 8 (ucast (m (a + 1)))
     OR push_bit 16 (ucast (m (a + 2))) OR push_bit 24 (ucast (m (a + 3)))"

definition read64 :: "memory \<Rightarrow> u64 \<Rightarrow> u64" where
  "read64 m a = ucast (read32 m a) OR push_bit 32 (ucast (read32 m (a + 4)))"

section \<open>Shared facts\<close>

named_theorems wos_consts \<open>the numeric constants of the source, unfolded on demand\<close>

declare PAGE_SIZE_def [wos_consts]
declare LOW_MEMORY_LIMIT_def [wos_consts]

lemma page_size_pos [simp]: "0 < PAGE_SIZE"
  by (simp add: PAGE_SIZE_def)

subsection \<open>Words\<close>

lemma word_and_not_mask_eq:
  fixes x :: "'a::len word"
  shows "x AND NOT (mask n) = push_bit n (drop_bit n x)"
  by (rule bit_word_eqI) (auto simp: bit_simps)

lemma pow2_minus_1_mask: "(2 ^ n - 1 :: 'a::len word) = mask n"
  by (simp add: mask_eq_decr_exp)

lemma unat_mask_word: "unat (mask n :: 'a::len word) = mask (min LENGTH('a) n)"
  by (simp add: unat_eq_nat_uint uint_mask_eq nat_mask_eq)

lemma unat_lt_2_64: "unat (x :: u64) < 2 ^ 64"
  using unsigned_less[of x, where 'a = nat] by simp

lemma unat_lt_2_32: "unat (x :: u32) < 2 ^ 32"
  using unsigned_less[of x, where 'a = nat] by simp

lemma unat_ucast_up:
  "LENGTH('a) \<le> LENGTH('b) \<Longrightarrow> unat (ucast (x :: 'a::len word) :: 'b::len word) = unat x"
  by (simp add: unsigned_ucast_eq take_bit_nat_eq_self less_le_trans [OF unsigned_less])

lemma unat_ucast_32_64 [simp]: "unat (ucast (x :: u32) :: u64) = unat x"
  by (rule unat_ucast_up) simp

lemma unat_align_down: "unat (align_down x (2 ^ n)) = unat x div 2 ^ n * 2 ^ n"
proof -
  have "align_down x (2 ^ n) = push_bit n (drop_bit n x)"
    by (simp add: align_down_def pow2_minus_1_mask word_and_not_mask_eq)
  also have "unat \<dots> = take_bit 64 (push_bit n (drop_bit n (unat x)))"
    using unat_lt_2_64[of x] by (simp add: unsigned_push_bit_eq unsigned_drop_bit_eq take_bit_nat_eq_self)
  also have "push_bit n (drop_bit n (unat x)) = unat x div 2 ^ n * 2 ^ n"
    by (simp add: push_bit_eq_mult drop_bit_eq_div)
  also have "take_bit 64 (unat x div 2 ^ n * 2 ^ n) = unat x div 2 ^ n * 2 ^ n"
    by (rule take_bit_nat_eq_self)
      (rule le_less_trans [OF div_times_less_eq_dividend unat_lt_2_64])
  finally show ?thesis .
qed

lemma align_up_down: "align_up x a = align_down (x + (a - 1)) a"
  unfolding align_up_def align_down_def by (rule refl)

lemma unat_add_small: "unat x + unat y < 2 ^ 64 \<Longrightarrow> unat (x + y :: u64) = unat x + unat y"
  unfolding unat_word_ariths by simp

lemma unat_align_up:
  assumes "n < 64" "unat x + (2 ^ n - 1) < 2 ^ 64"
  shows "unat (align_up x (2 ^ n)) = (unat x + (2 ^ n - 1)) div 2 ^ n * 2 ^ n"
proof -
  have m: "unat (2 ^ n - 1 :: u64) = 2 ^ n - 1"
    using assms(1) unfolding pow2_minus_1_mask unat_mask_word by (simp add: mask_eq_exp_minus_1)
  have "unat (x + (2 ^ n - 1)) = unat x + (2 ^ n - 1)"
    using assms(2) m by (simp add: unat_add_small)
  then show ?thesis by (simp add: align_up_down unat_align_down)
qed

lemma unat_align_up_page:
  assumes "unat x + 4095 < 2 ^ 64"
  shows "unat (align_up x 4096) = (unat x + 4095) div 4096 * 4096"
  using unat_align_up[of 12 x] assms by simp

lemma unat_align_down_page: "unat (align_down x 4096) = unat x div 4096 * 4096"
  using unat_align_down[of x 12] by simp

lemma unat_of_nat_u64: "n < 2 ^ 64 \<Longrightarrow> unat (of_nat n :: u64) = n"
  using take_bit_nat_eq_self[of n 64] unfolding unsigned_of_nat by simp

lemma unat_power_u64: "k < 64 \<Longrightarrow> unat (2 ^ k :: u64) = 2 ^ k"
  using unat_of_nat_u64[of "2 ^ k"] power_strict_increasing[of k 64 "2 :: nat"] by simp

lemma unat_add_index:
  "unat (start :: u64) + i < 2 ^ 64 \<Longrightarrow> unat (start + of_nat i) = unat start + i"
proof -
  assume a: "unat start + i < 2 ^ 64"
  then have "unat (of_nat i :: u64) = i"
    using take_bit_nat_eq_self[of i 64] unfolding unsigned_of_nat by simp
  then show ?thesis using a by (simp add: unat_add_small)
qed

lemma multiple_below_ceiling:
  fixes a m x :: nat
  assumes "0 < a" "a dvd m" "m < (x + (a - 1)) div a * a"
  shows "m < x"
proof -
  obtain q where q: "m = a * q" using assms(2) by blast
  then have "q + 1 \<le> (x + (a - 1)) div a" using assms(1,3) by (simp add: mult.commute)
  then have "(q + 1) * a \<le> x + (a - 1)" using assms(1) by (simp add: less_eq_div_iff_mult_less_eq)
  then show ?thesis using q assms(1) by (simp add: algebra_simps)
qed

lemma ceiling_ge:
  fixes a x :: nat
  assumes "0 < a"
  shows "x \<le> (x + (a - 1)) div a * a"
proof -
  have "x + (a - 1) = (x + (a - 1)) div a * a + (x + (a - 1)) mod a" by simp
  moreover have "(x + (a - 1)) mod a \<le> a - 1"
    using assms mod_less_divisor[of a "x + (a - 1)"] by linarith
  ultimately show ?thesis by linarith
qed

subsection \<open>Byte buffers\<close>

text \<open>Copying bytes into a buffer at an offset.\<close>

definition memcpy_at :: "u8 list \<Rightarrow> nat \<Rightarrow> u8 list \<Rightarrow> u8 list" where
  "memcpy_at buf off src = take off buf @ src @ drop (off + length src) buf"

lemma memcpy_at_length [simp]: "off + length src \<le> length buf \<Longrightarrow> length (memcpy_at buf off src) = length buf"
  by (simp add: memcpy_at_def)

lemma memcpy_at_read: "off \<le> length buf \<Longrightarrow> length src = n \<Longrightarrow> take n (drop off (memcpy_at buf off src)) = src"
  by (simp add: memcpy_at_def)

lemma memcpy_at_restore:
  assumes "off + n \<le> length buf" "length src = n"
  shows "memcpy_at (memcpy_at buf off src) off (take n (drop off buf)) = buf"
proof -
  have "take off buf @ take n (drop off buf) @ drop (off + n) buf = buf"
    by (metis add.commute append_take_drop_id drop_drop)
  then show ?thesis using assms by (simp add: memcpy_at_def)
qed

lemma memcpy_at_whole: "length src = length buf \<Longrightarrow> memcpy_at buf 0 src = src"
  by (simp add: memcpy_at_def)

subsection \<open>Counting\<close>

lemma card_insert_new: "finite A \<Longrightarrow> x \<notin> A \<Longrightarrow> card (insert x A) = Suc (card A)"
  by (rule card_insert_disjoint)

end
