(* ===== verification/Pmm.thy ===== *)
theory Pmm
  imports Wos_Prelude "HOL-Library.Monad_Syntax"
begin

text \<open>
  The physical frame allocator, \<^verbatim>\<open>kernel/mm/pmm.c\<close>.

  The static variables of the file are the record \<open>pmm\<close>; the bitmap is its list of 64-bit
  words.  Frame numbers and frame counts are natural numbers: every one the code forms is below
  \<open>2 ^ 52\<close>, the number of frames a 64-bit address space has.  Addresses, and the arguments of
  \<^verbatim>\<open>pmm_alloc_contiguous\<close>, keep their 64 bits, since the loops over them can wrap.  What the
  boot loader leaves in memory is a \<open>boot\<close> record: the addresses the linker script gives the
  kernel image, the information block and the memory its tables are read from.  \<open>None\<close> is a
  call of \<^verbatim>\<open>panic()\<close>, or a loop that does not end.

  The lemmas show that the counter of used frames is exactly the number of set bits, that the
  operations refine an abstract set of free frames, that the first-fit searches are sound and
  complete, and that initialisation leaves free exactly the frames of available memory that
  nothing else occupies.
\<close>

unbundle bit_operations_syntax

section \<open>State and bitmap\<close>

record pmm =
  bitmap :: "u64 list"
  bitmap_frames :: nat
  bitmap_words :: nat
  total_frames :: nat
  usable_frames :: nat
  hole_frames :: nat
  used_frames :: nat
  reserved_frames :: nat
  heap_base :: u64
  next_hint :: nat
  next_hint_low :: nat

definition bitmap_set :: "pmm \<Rightarrow> nat \<Rightarrow> pmm" where
  "bitmap_set p frame = p\<lparr>bitmap := (bitmap p)[frame div 64 :=
     (bitmap p ! (frame div 64)) OR push_bit (frame mod 64) 1]\<rparr>"

definition bitmap_clear :: "pmm \<Rightarrow> nat \<Rightarrow> pmm" where
  "bitmap_clear p frame = p\<lparr>bitmap := (bitmap p)[frame div 64 :=
     (bitmap p ! (frame div 64)) AND NOT (push_bit (frame mod 64) 1)]\<rparr>"

definition bitmap_test :: "pmm \<Rightarrow> nat \<Rightarrow> bool" where
  "bitmap_test p frame \<longleftrightarrow> (bitmap p ! (frame div 64)) AND push_bit (frame mod 64) 1 \<noteq> 0"

definition mark_used :: "pmm \<Rightarrow> nat \<Rightarrow> pmm" where
  "mark_used p frame =
     (if total_frames p \<le> frame \<or> bitmap_test p frame then p
      else (bitmap_set p frame)\<lparr>used_frames := used_frames p + 1\<rparr>)"

definition mark_free :: "pmm \<Rightarrow> nat \<Rightarrow> pmm" where
  "mark_free p frame =
     (if total_frames p \<le> frame \<or> \<not> bitmap_test p frame then p
      else (bitmap_clear p frame)\<lparr>used_frames := used_frames p - 1\<rparr>)"

section \<open>Ranges\<close>

partial_function (option) reserve_loop :: "pmm \<Rightarrow> u64 \<Rightarrow> u64 \<Rightarrow> pmm option" where
  "reserve_loop p a e =
     (if a < e then reserve_loop (mark_used p (unat a div PAGE_SIZE)) (a + 4096) e
      else Some p)"

definition pmm_reserve_range :: "pmm \<Rightarrow> u64 \<Rightarrow> u64 \<Rightarrow> pmm option" where
  "pmm_reserve_range p start e = reserve_loop p (align_down start 4096) e"

partial_function (option) free_loop :: "pmm \<Rightarrow> u64 \<Rightarrow> u64 \<Rightarrow> pmm option" where
  "free_loop p a e =
     (if a + 4096 \<le> e then free_loop (mark_free p (unat a div PAGE_SIZE)) (a + 4096) e
      else Some p)"

definition pmm_release_range :: "pmm \<Rightarrow> u64 \<Rightarrow> u64 \<Rightarrow> pmm option" where
  "pmm_release_range p start e =
     (let before = used_frames p in
      case free_loop p (align_up start 4096) e of
        None \<Rightarrow> None
      | Some q \<Rightarrow>
          (let freed = before - used_frames q in
           Some (q\<lparr>reserved_frames :=
             if reserved_frames q > freed then reserved_frames q - freed else 0\<rparr>)))"

definition free_range :: "pmm \<Rightarrow> u64 \<Rightarrow> u64 \<Rightarrow> pmm option" where
  "free_range p start e = free_loop p (align_up start 4096) e"

section \<open>What the boot loader leaves\<close>

record multiboot_info =
  mb_flags :: u32
  mem_upper :: u32
  mods_count :: u32
  mods_addr :: u32
  mmap_length :: u32
  mmap_addr :: u32

record boot =
  kernel_start :: u64
  kernel_end :: u64
  mbi_addr :: u64
  mbi :: multiboot_info
  boot_mem :: memory

definition MB_FLAG_MEM :: u32 where "MB_FLAG_MEM = 1"
definition MB_FLAG_MODS :: u32 where "MB_FLAG_MODS = 8"
definition MB_FLAG_MMAP :: u32 where "MB_FLAG_MMAP = 64"
definition MB_MEMORY_AVAILABLE :: u32 where "MB_MEMORY_AVAILABLE = 1"
definition FBCON_APERTURE :: u64 where "FBCON_APERTURE = 0x30000000"
definition KHEAP_SIZE :: u64 where "KHEAP_SIZE = 8 * 1024 * 1024"
definition sizeof_mbi :: u64 where "sizeof_mbi = 124"

definition has_flag :: "boot \<Rightarrow> u32 \<Rightarrow> bool" where
  "has_flag b flag \<longleftrightarrow> mb_flags (mbi b) AND flag \<noteq> 0"

record mmap_entry =
  me_size :: u32
  me_addr :: u64
  me_len :: u64
  me_type :: u32

definition read_mmap_entry :: "memory \<Rightarrow> u64 \<Rightarrow> mmap_entry" where
  "read_mmap_entry m a = \<lparr>me_size = read32 m a, me_addr = read64 m (a + 4),
     me_len = read64 m (a + 12), me_type = read32 m (a + 20)\<rparr>"

text \<open>The walk the three loops over the memory map make: the entries from \<^verbatim>\<open>cur\<close> on, each
  \<^verbatim>\<open>size + sizeof(uint32_t)\<close> bytes after the last, up to \<^verbatim>\<open>end\<close>, which is a 32-bit sum.\<close>

lemma mmap_step_less:
  fixes cur :: u64 and e sz :: u32
  assumes "cur < ucast e"
  shows "unat cur < unat (cur + (ucast sz + 4)) \<and> unat cur < 2 ^ 32"
proof -
  have c: "unat cur < 2 ^ 32"
    using assms unat_lt_2_32[of e] by (simp add: word_less_nat_alt)
  have "unat (ucast sz + 4 :: u64) = unat sz + 4"
    using unat_lt_2_32[of sz] by (simp add: unat_add_small)
  then show ?thesis using c unat_lt_2_32[of sz] by (simp add: unat_add_small)
qed

function mmap_walk :: "memory \<Rightarrow> u64 \<Rightarrow> u32 \<Rightarrow> mmap_entry list" where
  "mmap_walk m cur e =
     (if cur < ucast e then
        (let en = read_mmap_entry m cur in en # mmap_walk m (cur + (ucast (me_size en) + 4)) e)
      else [])"
  by auto
termination
  by (relation "measure (\<lambda>(m, cur, e). unat (ucast e :: u64) - unat cur)")
    (use mmap_step_less in \<open>auto simp: word_less_nat_alt intro!: diff_less_mono2\<close>)

declare mmap_walk.simps [simp del]

definition mmap_entries :: "boot \<Rightarrow> mmap_entry list" where
  "mmap_entries b = mmap_walk (boot_mem b) (ucast (mmap_addr (mbi b)))
     (mmap_addr (mbi b) + mmap_length (mbi b))"

definition highest_address :: "boot \<Rightarrow> u64" where
  "highest_address b =
     (let highest =
        (if has_flag b MB_FLAG_MMAP
         then fold (\<lambda>e h. if me_type e = MB_MEMORY_AVAILABLE \<and> me_addr e + me_len e > h
                          then me_addr e + me_len e else h) (mmap_entries b) 0
         else 0)
      in if highest = 0 \<and> has_flag b MB_FLAG_MEM
         then ucast (0x100000 + mem_upper (mbi b) * 1024 :: u32)
         else highest)"

definition overlaps :: "u64 \<Rightarrow> u64 \<Rightarrow> u64 \<Rightarrow> u64 \<Rightarrow> bool" where
  "overlaps start len lo hi \<longleftrightarrow> hi > lo \<and> start < hi \<and> lo < start + len"

definition mod_start :: "boot \<Rightarrow> nat \<Rightarrow> u32" where
  "mod_start b i = read32 (boot_mem b) (ucast (mods_addr (mbi b)) + 16 * of_nat i)"

definition mod_end :: "boot \<Rightarrow> nat \<Rightarrow> u32" where
  "mod_end b i = read32 (boot_mem b) (ucast (mods_addr (mbi b)) + 16 * of_nat i + 4)"

definition mods_bytes :: "boot \<Rightarrow> u64" where
  "mods_bytes b = ucast (mods_count (mbi b)) * 16"

text \<open>One round of the loop of \<^verbatim>\<open>clear_of_boot_data\<close>: the value of \<^verbatim>\<open>moved\<close> at its end.\<close>

definition clear_round :: "boot \<Rightarrow> u64 \<Rightarrow> u64 \<Rightarrow> u64" where
  "clear_round b addr len =
     (let moved = addr;
          moved = (if overlaps addr len (kernel_start b) (kernel_end b)
                   then kernel_end b else moved);
          moved = (if overlaps addr len (mbi_addr b) (mbi_addr b + sizeof_mbi)
                   then mbi_addr b + sizeof_mbi else moved);
          moved = (if has_flag b MB_FLAG_MMAP \<and>
                      overlaps addr len (ucast (mmap_addr (mbi b)))
                        (ucast (mmap_addr (mbi b)) + ucast (mmap_length (mbi b)))
                   then ucast (mmap_addr (mbi b)) + ucast (mmap_length (mbi b)) else moved)
      in if has_flag b MB_FLAG_MODS then
           (let moved = (if overlaps addr len (ucast (mods_addr (mbi b)))
                             (ucast (mods_addr (mbi b)) + mods_bytes b)
                         then ucast (mods_addr (mbi b)) + mods_bytes b else moved)
            in fold (\<lambda>i moved. if overlaps addr len (ucast (mod_start b i)) (ucast (mod_end b i))
                               then ucast (mod_end b i) else moved)
                 [0..<unat (mods_count (mbi b))] moved)
         else moved)"

partial_function (option) clear_of_boot_data :: "boot \<Rightarrow> u64 \<Rightarrow> u64 \<Rightarrow> u64 option" where
  "clear_of_boot_data b addr len =
     (let moved = clear_round b addr len in
      if moved = addr then Some addr
      else clear_of_boot_data b (align_up moved 4096) len)"

text \<open>The inner loop of \<^verbatim>\<open>find_span\<close>: the search of one region; \<open>Some None\<close> is a region that
  is finished.\<close>

partial_function (option) find_in_region :: "boot \<Rightarrow> u64 \<Rightarrow> u64 \<Rightarrow> u64 \<Rightarrow> u64 option option" where
  "find_in_region b len addr region_end =
     (if addr + len \<le> region_end then
        (case clear_of_boot_data b addr len of
           None \<Rightarrow> None
         | Some clear \<Rightarrow> if clear = addr then Some (Some addr)
                         else find_in_region b len clear region_end)
      else Some None)"

primrec find_span_loop :: "boot \<Rightarrow> u64 \<Rightarrow> mmap_entry list \<Rightarrow> u64 option" where
  "find_span_loop b len [] = Some 0"
| "find_span_loop b len (e # es) =
     (if me_type e \<noteq> MB_MEMORY_AVAILABLE \<or> drop_bit 32 (me_addr e) \<noteq> 0
      then find_span_loop b len es
      else
        (let region_end = me_addr e + me_len e;
             region_end = (if region_end > FBCON_APERTURE then FBCON_APERTURE else region_end);
             addr = (if me_addr e < kernel_end b then kernel_end b else me_addr e);
             addr = align_up addr 4096
         in case find_in_region b len addr region_end of
              None \<Rightarrow> None
            | Some None \<Rightarrow> find_span_loop b len es
            | Some (Some r) \<Rightarrow> Some r))"

definition find_span :: "boot \<Rightarrow> u64 \<Rightarrow> u64 option" where
  "find_span b len =
     (if \<not> has_flag b MB_FLAG_MMAP
      then clear_of_boot_data b (align_up (kernel_end b) 4096) len
      else find_span_loop b len (mmap_entries b))"

section \<open>Initialisation\<close>

primrec free_available :: "pmm \<Rightarrow> mmap_entry list \<Rightarrow> pmm option" where
  "free_available p [] = Some p"
| "free_available p (e # es) =
     (if me_type e = MB_MEMORY_AVAILABLE
      then do { p \<leftarrow> free_range p (me_addr e) (me_addr e + me_len e); free_available p es }
      else free_available p es)"

primrec reserve_modules :: "boot \<Rightarrow> pmm \<Rightarrow> nat list \<Rightarrow> pmm option" where
  "reserve_modules b p [] = Some p"
| "reserve_modules b p (i # is) =
     do { p \<leftarrow> pmm_reserve_range p (ucast (mod_start b i)) (ucast (mod_end b i));
          reserve_modules b p is }"

definition bitmap_bytes_of :: "nat \<Rightarrow> u64" where
  "bitmap_bytes_of tot =
     align_up (align_up (of_nat tot) 64 div 64 * 8) 4096"

text \<open>The ranges taken back once the available regions are free, in the order of the code.\<close>

definition reserve_boot_data :: "boot \<Rightarrow> u64 \<Rightarrow> u64 \<Rightarrow> pmm \<Rightarrow> pmm option" where
  "reserve_boot_data b span heap p = do {
     p \<leftarrow> pmm_reserve_range p 0 0x100000;
     p \<leftarrow> pmm_reserve_range p (kernel_start b) (kernel_end b);
     p \<leftarrow> pmm_reserve_range p span (heap + KHEAP_SIZE);
     p \<leftarrow> pmm_reserve_range p (mbi_addr b) (mbi_addr b + sizeof_mbi);
     p \<leftarrow> (if has_flag b MB_FLAG_MMAP
          then pmm_reserve_range p (ucast (mmap_addr (mbi b)))
                 (ucast (mmap_addr (mbi b) + mmap_length (mbi b)))
          else Some p);
     if has_flag b MB_FLAG_MODS
     then do { p \<leftarrow> pmm_reserve_range p (ucast (mods_addr (mbi b)))
                      (ucast (mods_addr (mbi b)) + mods_bytes b);
               reserve_modules b p [0..<unat (mods_count (mbi b))] }
     else Some p }"

definition pmm_init :: "pmm \<Rightarrow> boot \<Rightarrow> pmm option" where
  "pmm_init p b =
     (let highest = highest_address b;
          tot = unat highest div PAGE_SIZE;
          words = unat (align_up (of_nat tot) 64 div 64);
          bitmap_bytes = bitmap_bytes_of tot
      in do {
        span \<leftarrow> find_span b (bitmap_bytes + KHEAP_SIZE);
        if span = 0 then None
        else do {
          p \<leftarrow> Some (p\<lparr>total_frames := tot, bitmap_frames := tot, bitmap_words := words,
                      bitmap := replicate words (NOT 0), used_frames := tot\<rparr>);
          p \<leftarrow> (if has_flag b MB_FLAG_MMAP then free_available p (mmap_entries b) else Some p);
          p \<leftarrow> Some (p\<lparr>hole_frames := used_frames p, usable_frames := tot - used_frames p,
                      heap_base := span + bitmap_bytes\<rparr>);
          p \<leftarrow> reserve_boot_data b span (heap_base p) p;
          p \<leftarrow> Some (p\<lparr>reserved_frames := used_frames p - hole_frames p\<rparr>);
          if heap_base p + KHEAP_SIZE > FBCON_APERTURE then None else Some p
        }
      })"

section \<open>Allocation\<close>

text \<open>The scan of one pass: the first frame of \<open>{f..<to}\<close> whose bit is clear.\<close>

function find_clear :: "pmm \<Rightarrow> nat \<Rightarrow> nat \<Rightarrow> nat option" where
  "find_clear p f to =
     (if f < to then (if \<not> bitmap_test p f then Some f else find_clear p (f + 1) to) else None)"
  by auto
termination by (relation "measure (\<lambda>(p, f, to). to - f)") auto

declare find_clear.simps [simp del]

definition alloc_scan :: "pmm \<Rightarrow> nat \<Rightarrow> nat \<Rightarrow> nat \<Rightarrow> pmm \<times> nat \<times> u64" where
  "alloc_scan p start_frame end_frame hint =
     (let begin = (if hint \<ge> start_frame \<and> hint < end_frame then hint else start_frame);
          take = (\<lambda>f. ((bitmap_set p f)\<lparr>used_frames := used_frames p + 1\<rparr>, f + 1,
                       of_nat (f * PAGE_SIZE)))
      in case find_clear p begin end_frame of
           Some f \<Rightarrow> take f
         | None \<Rightarrow> (case find_clear p start_frame begin of
                      Some f \<Rightarrow> take f
                    | None \<Rightarrow> (p, hint, 0)))"

definition pmm_alloc_frame :: "pmm \<Rightarrow> pmm \<times> u64" where
  "pmm_alloc_frame p =
     (case alloc_scan p 0 (total_frames p) (next_hint p) of
        (q, hint, r) \<Rightarrow> (q\<lparr>next_hint := hint\<rparr>, r))"

definition pmm_alloc_frame_low :: "pmm \<Rightarrow> pmm \<times> u64" where
  "pmm_alloc_frame_low p =
     (let limit = LOW_MEMORY_LIMIT div PAGE_SIZE;
          limit = (if limit > total_frames p then total_frames p else limit)
      in case alloc_scan p 0 limit (next_hint_low p) of
           (q, hint, r) \<Rightarrow> (q\<lparr>next_hint_low := hint\<rparr>, r))"

text \<open>The inner loop of \<^verbatim>\<open>pmm_alloc_contiguous\<close>: the first used frame of the run, or \<^verbatim>\<open>count\<close>.\<close>

function first_used :: "pmm \<Rightarrow> u64 \<Rightarrow> nat \<Rightarrow> nat \<Rightarrow> nat" where
  "first_used p start count i =
     (if i < count then (if bitmap_test p (unat (start + of_nat i)) then i
                         else first_used p start count (i + 1))
      else i)"
  by auto
termination by (relation "measure (\<lambda>(p, start, count, i). count - i)") auto

declare first_used.simps [simp del]

partial_function (option) contig_loop ::
  "pmm \<Rightarrow> u64 \<Rightarrow> u64 \<Rightarrow> u64 \<Rightarrow> u64 \<Rightarrow> (pmm \<times> u64) option" where
  "contig_loop p count align_frames limit start =
     (if start + count \<le> limit then
        (let i = first_used p start (unat count) 0 in
         if i < unat count
         then contig_loop p count align_frames limit
                (align_up (start + of_nat i + 1) align_frames)
         else
           (let q = fold (\<lambda>i q. bitmap_set q (unat (start + of_nat i))) [0..<unat count] p in
            Some (q\<lparr>used_frames := used_frames q + unat count\<rparr>, start * 4096)))
      else Some (p, 0))"

definition pmm_alloc_contiguous :: "pmm \<Rightarrow> u64 \<Rightarrow> u64 \<Rightarrow> (pmm \<times> u64) option" where
  "pmm_alloc_contiguous p count align_frames =
     (let limit = LOW_MEMORY_LIMIT div PAGE_SIZE in
      if count = 0 then Some (p, 0)
      else
        (let align_frames = (if align_frames < 1 then 1 else align_frames);
             limit = (if limit > total_frames p then total_frames p else limit)
         in contig_loop p count align_frames (of_nat limit) (align_up 1 align_frames)))"

definition pmm_free_frame :: "pmm \<Rightarrow> u64 \<Rightarrow> pmm option" where
  "pmm_free_frame p phys =
     (let frame = unat phys div PAGE_SIZE in
      if frame \<ge> total_frames p then Some p
      else if \<not> bitmap_test p frame then None
      else
        (let p = (bitmap_clear p frame)\<lparr>used_frames := used_frames p - 1\<rparr>;
             p = (if frame < next_hint p then p\<lparr>next_hint := frame\<rparr> else p)
         in Some (if unat phys < LOW_MEMORY_LIMIT \<and> frame < next_hint_low p
                  then p\<lparr>next_hint_low := frame\<rparr> else p)))"

primrec free_each :: "pmm \<Rightarrow> u64 \<Rightarrow> nat list \<Rightarrow> pmm option" where
  "free_each p phys [] = Some p"
| "free_each p phys (i # is) =
     do { p \<leftarrow> pmm_free_frame p (phys + of_nat i * 4096); free_each p phys is }"

definition pmm_free_contiguous :: "pmm \<Rightarrow> u64 \<Rightarrow> u64 \<Rightarrow> pmm option" where
  "pmm_free_contiguous p phys count = free_each p phys [0..<unat count]"

section \<open>Statistics\<close>

definition pmm_total_bytes :: "pmm \<Rightarrow> u64" where
  "pmm_total_bytes p = of_nat (usable_frames p) * 4096"

definition pmm_free_bytes :: "pmm \<Rightarrow> u64" where
  "pmm_free_bytes p = (of_nat (total_frames p) - of_nat (used_frames p)) * 4096"

definition pmm_used_bytes :: "pmm \<Rightarrow> u64" where
  "pmm_used_bytes p = pmm_total_bytes p - pmm_free_bytes p"

definition pmm_kernel_bytes :: "pmm \<Rightarrow> u64" where
  "pmm_kernel_bytes p = of_nat (reserved_frames p) * 4096"

definition pmm_heap_base :: "pmm \<Rightarrow> u64" where
  "pmm_heap_base p = heap_base p"

section \<open>Bitmap lemmas\<close>

lemma and_bit_nonzero:
  "n < LENGTH('a) \<Longrightarrow> (w :: 'a::len word) AND push_bit n 1 \<noteq> 0 \<longleftrightarrow> bit w n"
proof -
  assume n: "n < LENGTH('a)"
  have "w AND push_bit n 1 = 0 \<longleftrightarrow> (\<forall>k. \<not> bit (w AND push_bit n 1) k)"
    by (auto simp: bit_eq_iff dest: bit_imp_le_length)
  also have "\<dots> \<longleftrightarrow> \<not> bit w n" using n by (auto simp: bit_simps)
  finally show ?thesis by simp
qed

lemma bitmap_test_bit: "bitmap_test p f \<longleftrightarrow> bit (bitmap p ! (f div 64)) (f mod 64)"
  unfolding bitmap_test_def by (rule and_bit_nonzero) simp

lemma div_mod_eq_iff64: "f div 64 = g div 64 \<and> f mod 64 = g mod 64 \<longleftrightarrow> f = (g::nat)"
  by (metis div_mult_mod_eq)

lemma bitmap_test_set [simp]:
  "f div 64 < length (bitmap p) \<Longrightarrow> bitmap_test (bitmap_set p f) g \<longleftrightarrow> g = f \<or> bitmap_test p g"
  using div_mod_eq_iff64[of f g]
  by (auto simp: bitmap_test_bit bitmap_set_def nth_list_update bit_simps)

lemma bitmap_test_clear [simp]:
  "f div 64 < length (bitmap p) \<Longrightarrow>
   bitmap_test (bitmap_clear p f) g \<longleftrightarrow> g \<noteq> f \<and> bitmap_test p g"
  using div_mod_eq_iff64[of f g]
  by (auto simp: bitmap_test_bit bitmap_clear_def nth_list_update bit_simps)

lemma bitmap_test_update [simp]:
  "bitmap_test (p\<lparr>used_frames := n\<rparr>) = bitmap_test p"
  "bitmap_test (p\<lparr>next_hint := n\<rparr>) = bitmap_test p"
  "bitmap_test (p\<lparr>next_hint_low := n\<rparr>) = bitmap_test p"
  "bitmap_test (p\<lparr>hole_frames := n\<rparr>) = bitmap_test p"
  "bitmap_test (p\<lparr>usable_frames := n\<rparr>) = bitmap_test p"
  "bitmap_test (p\<lparr>reserved_frames := n\<rparr>) = bitmap_test p"
  "bitmap_test (p\<lparr>heap_base := a\<rparr>) = bitmap_test p"
  by (simp_all add: bitmap_test_def fun_eq_iff)

lemma bitmap_set_simps [simp]:
  "length (bitmap (bitmap_set p f)) = length (bitmap p)"
  "total_frames (bitmap_set p f) = total_frames p"
  "used_frames (bitmap_set p f) = used_frames p"
  "hole_frames (bitmap_set p f) = hole_frames p"
  "usable_frames (bitmap_set p f) = usable_frames p"
  "reserved_frames (bitmap_set p f) = reserved_frames p"
  "next_hint (bitmap_set p f) = next_hint p"
  "next_hint_low (bitmap_set p f) = next_hint_low p"
  "heap_base (bitmap_set p f) = heap_base p"
  by (simp_all add: bitmap_set_def)

lemma bitmap_clear_simps [simp]:
  "length (bitmap (bitmap_clear p f)) = length (bitmap p)"
  "total_frames (bitmap_clear p f) = total_frames p"
  "used_frames (bitmap_clear p f) = used_frames p"
  "hole_frames (bitmap_clear p f) = hole_frames p"
  "usable_frames (bitmap_clear p f) = usable_frames p"
  "reserved_frames (bitmap_clear p f) = reserved_frames p"
  "next_hint (bitmap_clear p f) = next_hint p"
  "next_hint_low (bitmap_clear p f) = next_hint_low p"
  "heap_base (bitmap_clear p f) = heap_base p"
  by (simp_all add: bitmap_clear_def)

definition free_set :: "pmm \<Rightarrow> nat set" where
  "free_set p = {f. f < total_frames p \<and> \<not> bitmap_test p f}"

definition used_set :: "pmm \<Rightarrow> nat set" where
  "used_set p = {f. f < total_frames p \<and> bitmap_test p f}"

definition pmm_inv :: "pmm \<Rightarrow> bool" where
  "pmm_inv p \<longleftrightarrow> total_frames p \<le> 64 * length (bitmap p) \<and> total_frames p \<le> 2 ^ 52
     \<and> used_frames p = card (used_set p)"

lemma pmm_inv_frame: "pmm_inv p \<Longrightarrow> f < total_frames p \<Longrightarrow> f div 64 < length (bitmap p)"
  by (auto simp: pmm_inv_def)

lemma finite_sets [simp]: "finite (used_set p)" "finite (free_set p)"
  by (auto simp: used_set_def free_set_def)

lemma used_free_partition:
  "used_set p \<union> free_set p = {..<total_frames p}" "used_set p \<inter> free_set p = {}"
  by (auto simp: used_set_def free_set_def)

lemma used_plus_free: "pmm_inv p \<Longrightarrow> used_frames p + card (free_set p) = total_frames p"
  using card_Un_disjoint[of "used_set p" "free_set p"]
  by (simp add: used_free_partition pmm_inv_def)

lemma in_free_set: "f \<in> free_set p \<longleftrightarrow> f < total_frames p \<and> \<not> bitmap_test p f"
  by (simp add: free_set_def)

lemma take_frame:
  assumes "pmm_inv p" "f \<in> free_set p"
  defines "q \<equiv> (bitmap_set p f)\<lparr>used_frames := used_frames p + 1\<rparr>"
  shows "pmm_inv q" "free_set q = free_set p - {f}"
proof -
  have f: "f div 64 < length (bitmap p)" "f \<notin> used_set p"
    using assms pmm_inv_frame by (auto simp: free_set_def used_set_def)
  have "used_set q = insert f (used_set p)"
    using assms f by (auto simp: used_set_def free_set_def q_def)
  then show "pmm_inv q" using assms(1) f by (simp add: pmm_inv_def q_def)
  show "free_set q = free_set p - {f}" using f by (auto simp: free_set_def q_def)
qed

lemma give_frame:
  assumes "pmm_inv p" "f \<in> used_set p"
  defines "q \<equiv> (bitmap_clear p f)\<lparr>used_frames := used_frames p - 1\<rparr>"
  shows "pmm_inv q" "free_set q = insert f (free_set p)"
proof -
  have f: "f div 64 < length (bitmap p)"
    using assms pmm_inv_frame by (auto simp: used_set_def)
  have "used_set q = used_set p - {f}"
    using f by (auto simp: used_set_def q_def)
  then show "pmm_inv q" using assms(1,2) by (simp add: pmm_inv_def q_def)
  show "free_set q = insert f (free_set p)"
    using assms(2) f by (auto simp: free_set_def used_set_def q_def)
qed

lemma mark_used_spec:
  assumes "pmm_inv p"
  shows "pmm_inv (mark_used p f)" "free_set (mark_used p f) = free_set p - {f}"
  using assms take_frame[of p f] by (auto simp: mark_used_def in_free_set)

lemma mark_free_spec:
  assumes "pmm_inv p"
  shows "pmm_inv (mark_free p f)"
    "free_set (mark_free p f) = free_set p \<union> ({f} \<inter> {..<total_frames p})"
  using assms give_frame[of p f] by (auto simp: mark_free_def used_set_def free_set_def)


section \<open>Ranges\<close>

lemma mark_used_simps [simp]:
  "total_frames (mark_used p f) = total_frames p" "hole_frames (mark_used p f) = hole_frames p"
  "usable_frames (mark_used p f) = usable_frames p"
  "reserved_frames (mark_used p f) = reserved_frames p"
  "heap_base (mark_used p f) = heap_base p"
  by (simp_all add: mark_used_def)

lemma mark_free_simps [simp]:
  "total_frames (mark_free p f) = total_frames p" "hole_frames (mark_free p f) = hole_frames p"
  "usable_frames (mark_free p f) = usable_frames p"
  "reserved_frames (mark_free p f) = reserved_frames p"
  "heap_base (mark_free p f) = heap_base p"
  by (simp_all add: mark_free_def)

lemma fold_mark_simps [simp]:
  "total_frames (fold (\<lambda>f p. mark_used p f) fs p) = total_frames p"
  "hole_frames (fold (\<lambda>f p. mark_used p f) fs p) = hole_frames p"
  "usable_frames (fold (\<lambda>f p. mark_used p f) fs p) = usable_frames p"
  "reserved_frames (fold (\<lambda>f p. mark_used p f) fs p) = reserved_frames p"
  "heap_base (fold (\<lambda>f p. mark_used p f) fs p) = heap_base p"
  "total_frames (fold (\<lambda>f p. mark_free p f) fs p) = total_frames p"
  "hole_frames (fold (\<lambda>f p. mark_free p f) fs p) = hole_frames p"
  "usable_frames (fold (\<lambda>f p. mark_free p f) fs p) = usable_frames p"
  "reserved_frames (fold (\<lambda>f p. mark_free p f) fs p) = reserved_frames p"
  "heap_base (fold (\<lambda>f p. mark_free p f) fs p) = heap_base p"
  by (induction fs arbitrary: p) simp_all

lemma fold_mark_used_spec:
  assumes "pmm_inv p"
  shows "pmm_inv (fold (\<lambda>f p. mark_used p f) fs p)
    \<and> free_set (fold (\<lambda>f p. mark_used p f) fs p) = free_set p - set fs"
  using assms by (induction fs arbitrary: p) (auto simp: mark_used_spec)

lemma fold_mark_free_spec:
  assumes "pmm_inv p"
  shows "pmm_inv (fold (\<lambda>f p. mark_free p f) fs p)
    \<and> free_set (fold (\<lambda>f p. mark_free p f) fs p) = free_set p \<union> (set fs \<inter> {..<total_frames p})"
  using assms by (induction fs arbitrary: p) (auto simp: mark_free_spec)

text \<open>The frames a range touches, and the frames wholly inside it.\<close>

definition frames_touched :: "u64 \<Rightarrow> u64 \<Rightarrow> nat set" where
  "frames_touched s e = {f. f * 4096 < unat e \<and> unat s < (f + 1) * 4096}"

definition frames_inside :: "u64 \<Rightarrow> u64 \<Rightarrow> nat set" where
  "frames_inside s e = {f. unat s \<le> f * 4096 \<and> (f + 1) * 4096 \<le> unat e}"

lemma reserve_loop_fold:
  assumes "unat a = k * 4096" "unat e + 4096 \<le> 2 ^ 64"
  shows "reserve_loop p a e
    = Some (fold (\<lambda>f p. mark_used p f) [k..<(unat e + 4095) div 4096] p)"
  using assms(1)
proof (induction "(unat e + 4095) div 4096 - k" arbitrary: p k a)
  case 0
  then have "\<not> a < e" by (simp add: word_less_nat_alt)
  then show ?case using 0 by (subst reserve_loop.simps) simp
next
  case (Suc n)
  then have lt: "a < e" by (simp add: word_less_nat_alt)
  have "unat (a + 4096) = (k + 1) * 4096"
    using Suc.prems lt assms(2) by (simp add: unat_add_small word_less_nat_alt)
  moreover have "[k..<(unat e + 4095) div 4096] = k # [Suc k..<(unat e + 4095) div 4096]"
    using Suc.hyps(2) by (simp add: upt_conv_Cons)
  ultimately show ?case
    using Suc lt by (subst reserve_loop.simps) (simp add: PAGE_SIZE_def)
qed

lemma free_loop_fold:
  assumes "unat a = k * 4096" "unat e + 4096 < 2 ^ 64" "unat a + 4096 < 2 ^ 64"
  shows "free_loop p a e = Some (fold (\<lambda>f p. mark_free p f) [k..<unat e div 4096] p)"
  using assms(1,3)
proof (induction "unat e div 4096 - k" arbitrary: p k a)
  case 0
  then have "\<not> a + 4096 \<le> e" by (simp add: word_le_nat_alt unat_add_small)
  then show ?case using 0 by (subst free_loop.simps) simp
next
  case (Suc n)
  then have le: "a + 4096 \<le> e" by (simp add: word_le_nat_alt unat_add_small)
  have "unat (a + 4096) = (k + 1) * 4096" using Suc.prems by (simp add: unat_add_small)
  moreover have "unat (a + 4096) + 4096 < 2 ^ 64"
    using le assms(2) Suc.hyps(2) calculation by (simp add: word_le_nat_alt)
  moreover have "[k..<unat e div 4096] = k # [Suc k..<unat e div 4096]"
    using Suc.hyps(2) by (simp add: upt_conv_Cons)
  ultimately show ?case
    using Suc le by (subst free_loop.simps) (simp add: PAGE_SIZE_def)
qed

definition same_counts :: "pmm \<Rightarrow> pmm \<Rightarrow> bool" where
  "same_counts p q \<longleftrightarrow> total_frames q = total_frames p \<and> hole_frames q = hole_frames p
     \<and> usable_frames q = usable_frames p \<and> reserved_frames q = reserved_frames p
     \<and> heap_base q = heap_base p"

lemma same_counts_refl [simp]: "same_counts p p"
  by (simp add: same_counts_def)

lemma same_counts_trans: "same_counts p q \<Longrightarrow> same_counts q r \<Longrightarrow> same_counts p r"
  by (simp add: same_counts_def)

lemma pmm_reserve_range_spec:
  assumes "pmm_inv p" "unat e + 4096 \<le> 2 ^ 64"
  shows "\<exists>q. pmm_reserve_range p s e = Some q \<and> pmm_inv q \<and> same_counts p q
    \<and> free_set q = free_set p - frames_touched s e"
proof -
  have "set [unat s div 4096..<(unat e + 4095) div 4096] = frames_touched s e"
    by (auto simp: frames_touched_def)
  then show ?thesis
    using reserve_loop_fold[of "align_down s 4096" "unat s div 4096" e p] assms
      fold_mark_used_spec[of p "[unat s div 4096..<(unat e + 4095) div 4096]"]
    by (simp add: pmm_reserve_range_def unat_align_down_page same_counts_def)
qed

lemma free_loop_spec:
  assumes "pmm_inv p" "unat e + 4096 < 2 ^ 64" "unat s + 8191 < 2 ^ 64"
  shows "\<exists>q. free_loop p (align_up s 4096) e = Some q \<and> pmm_inv q \<and> same_counts p q
    \<and> free_set q = free_set p \<union> (frames_inside s e \<inter> {..<total_frames p})"
proof -
  have a: "unat (align_up s 4096) = (unat s + 4095) div 4096 * 4096"
    using assms(3) by (simp add: unat_align_up_page)
  have "set [(unat s + 4095) div 4096..<unat e div 4096] = frames_inside s e"
    by (auto simp: frames_inside_def)
  moreover have "unat (align_up s 4096) + 4096 < 2 ^ 64" using a assms(3) by simp
  ultimately show ?thesis
    using free_loop_fold[OF a assms(2), of p] assms(1)
      fold_mark_free_spec[of p "[(unat s + 4095) div 4096..<unat e div 4096]"]
    by (simp add: same_counts_def)
qed

lemma free_range_spec:
  assumes "pmm_inv p" "unat e + 4096 < 2 ^ 64" "unat s + 8191 < 2 ^ 64"
  shows "\<exists>q. free_range p s e = Some q \<and> pmm_inv q \<and> same_counts p q
    \<and> free_set q = free_set p \<union> (frames_inside s e \<inter> {..<total_frames p})"
  using free_loop_spec[OF assms] by (simp add: free_range_def)

lemma pmm_inv_update [simp]:
  "pmm_inv (p\<lparr>next_hint := n\<rparr>) = pmm_inv p" "pmm_inv (p\<lparr>next_hint_low := n\<rparr>) = pmm_inv p"
  "pmm_inv (p\<lparr>hole_frames := n\<rparr>) = pmm_inv p" "pmm_inv (p\<lparr>usable_frames := n\<rparr>) = pmm_inv p"
  "pmm_inv (p\<lparr>reserved_frames := n\<rparr>) = pmm_inv p" "pmm_inv (p\<lparr>heap_base := a\<rparr>) = pmm_inv p"
  by (simp_all add: pmm_inv_def used_set_def)

lemma free_set_update [simp]:
  "free_set (p\<lparr>next_hint := n\<rparr>) = free_set p" "free_set (p\<lparr>next_hint_low := n\<rparr>) = free_set p"
  "free_set (p\<lparr>hole_frames := n\<rparr>) = free_set p" "free_set (p\<lparr>usable_frames := n\<rparr>) = free_set p"
  "free_set (p\<lparr>reserved_frames := n\<rparr>) = free_set p" "free_set (p\<lparr>heap_base := a\<rparr>) = free_set p"
  by (simp_all add: free_set_def)

text \<open>Releasing a range lowers the reservation figure by exactly the frames it freed.\<close>

lemma pmm_release_range_spec:
  assumes "pmm_inv p" "unat e + 4096 < 2 ^ 64" "unat s + 8191 < 2 ^ 64"
  shows "\<exists>q. pmm_release_range p s e = Some q \<and> pmm_inv q
    \<and> free_set q = free_set p \<union> (frames_inside s e \<inter> {..<total_frames p})
    \<and> reserved_frames q = reserved_frames p - card (frames_inside s e \<inter> used_set p)
    \<and> used_frames q + card (frames_inside s e \<inter> used_set p) = used_frames p"
proof -
  obtain q where q: "free_loop p (align_up s 4096) e = Some q" "pmm_inv q" "same_counts p q"
    "free_set q = free_set p \<union> (frames_inside s e \<inter> {..<total_frames p})"
    using free_loop_spec[OF assms] by blast
  let ?d = "frames_inside s e \<inter> used_set p"
  have "free_set q = free_set p \<union> ?d"
    using q(4) used_free_partition(1)[of p] by auto
  moreover have "free_set p \<inter> ?d = {}" using used_free_partition(2)[of p] by auto
  ultimately have "card (free_set q) = card (free_set p) + card ?d"
    by (simp add: card_Un_disjoint)
  then have "used_frames q + card ?d = used_frames p"
    using used_plus_free[OF assms(1)] used_plus_free[OF q(2)] q(3) by (simp add: same_counts_def)
  moreover from this have "card ?d = used_frames p - used_frames q" by simp
  ultimately show ?thesis using q by (auto simp: pmm_release_range_def same_counts_def Let_def)
qed

section \<open>Single frames\<close>

lemma find_clear_Some:
  "find_clear p f to = Some g \<Longrightarrow> f \<le> g \<and> g < to \<and> \<not> bitmap_test p g \<and> (\<forall>h\<in>{f..<g}. bitmap_test p h)"
proof (induction p f to rule: find_clear.induct)
  case (1 p f to)
  show ?case
  proof (cases "f < to \<and> bitmap_test p f")
    case True
    then have "find_clear p (f + 1) to = Some g" using "1.prems" by (subst (asm) find_clear.simps) simp
    then have "f + 1 \<le> g \<and> g < to \<and> \<not> bitmap_test p g \<and> (\<forall>h\<in>{f + 1..<g}. bitmap_test p h)"
      using True "1.IH" by simp
    moreover have "{f..<g} = insert f {f + 1..<g}" using calculation by auto
    ultimately show ?thesis using True by auto
  next
    case False
    then show ?thesis using "1.prems" by (subst (asm) find_clear.simps) (auto split: if_splits)
  qed
qed

lemma find_clear_None: "find_clear p f to = None \<longleftrightarrow> (\<forall>h\<in>{f..<to}. bitmap_test p h)"
proof (induction p f to rule: find_clear.induct)
  case (1 p f to)
  show ?case
  proof (cases "f < to \<and> bitmap_test p f")
    case True
    then have "{f..<to} = insert f {f + 1..<to}" by auto
    then show ?thesis using True "1.IH" by (subst find_clear.simps) simp
  next
    case False
    then show ?thesis by (subst find_clear.simps) auto
  qed
qed

lemma alloc_scan_cases:
  assumes "pmm_inv p" "e \<le> total_frames p"
  obtains (taken) f where "f \<in> free_set p" "f < e"
      "alloc_scan p 0 e hint = ((bitmap_set p f)\<lparr>used_frames := used_frames p + 1\<rparr>, f + 1,
         of_nat (f * 4096))"
  | (full) "alloc_scan p 0 e hint = (p, hint, 0)" "free_set p \<inter> {..<e} = {}"
proof -
  define b0 where "b0 = (if hint < e then hint else 0)"
  have b: "b0 \<le> e" by (simp add: b0_def)
  consider (a) f where "find_clear p b0 e = Some f"
    | (b) f where "find_clear p b0 e = None" "find_clear p 0 b0 = Some f"
    | (c) "find_clear p b0 e = None" "find_clear p 0 b0 = None"
    by (cases "find_clear p b0 e"; cases "find_clear p 0 b0") auto
  then show thesis
  proof cases
    case a
    then show ?thesis using find_clear_Some[OF a] assms(2) taken[of f]
      by (auto simp: alloc_scan_def b0_def[symmetric] free_set_def Let_def PAGE_SIZE_def)
  next
    case b
    then show ?thesis using find_clear_Some[OF b(2)] assms(2) taken[of f] \<open>b0 \<le> e\<close>
      by (auto simp: alloc_scan_def b0_def[symmetric] free_set_def Let_def PAGE_SIZE_def)
  next
    case c
    then have "\<forall>h<e. bitmap_test p h" unfolding find_clear_None using b
      by (metis atLeastLessThan_iff le0 not_le)
    then show ?thesis using c full
      by (auto simp: alloc_scan_def b0_def[symmetric] free_set_def Let_def)
  qed
qed

lemma unat_frame_addr: "f < 2 ^ 52 \<Longrightarrow> unat (of_nat (f * 4096) :: u64) = f * 4096"
  by (rule unat_of_nat_u64) simp

text \<open>What both single-frame allocators promise, with \<^term>\<open>e\<close> the end of the frames searched.\<close>

definition alloc_post :: "pmm \<Rightarrow> nat \<Rightarrow> pmm \<Rightarrow> u64 \<Rightarrow> bool" where
  "alloc_post p e q r \<longleftrightarrow> pmm_inv q \<and> same_counts p q \<and>
     (if free_set p \<inter> {..<e} = {} then r = 0 \<and> free_set q = free_set p
      else \<exists>f\<in>free_set p. f < e \<and> unat r = f * 4096 \<and> free_set q = free_set p - {f})"

lemma alloc_scan_post:
  assumes "pmm_inv p" "e \<le> total_frames p" "alloc_scan p 0 e hint = (q, h, r)"
  shows "alloc_post p e q r"
  using assms(1,2)
proof (cases rule: alloc_scan_cases[where hint = hint])
  case (taken f)
  then have "f < 2 ^ 52" using assms(1) by (simp add: pmm_inv_def free_set_def)
  then show ?thesis
    using taken assms take_frame[OF assms(1) taken(1)] unat_frame_addr[of f]
    by (auto simp: alloc_post_def same_counts_def)
next
  case full
  then show ?thesis using assms by (simp add: alloc_post_def)
qed

lemma alloc_post_hint [simp]:
  "alloc_post p e (q\<lparr>next_hint := h\<rparr>) r = alloc_post p e q r"
  "alloc_post p e (q\<lparr>next_hint_low := h\<rparr>) r = alloc_post p e q r"
  by (simp_all add: alloc_post_def same_counts_def)

lemma pmm_alloc_frame_post:
  assumes "pmm_inv p" "pmm_alloc_frame p = (q, r)"
  shows "alloc_post p (total_frames p) q r"
  using assms(2) alloc_scan_post[OF assms(1) order_refl, of "next_hint p"]
  by (auto simp: pmm_alloc_frame_def split: prod.splits)

lemma low_limit: "LOW_MEMORY_LIMIT div PAGE_SIZE = 2 ^ 18"
  by (simp add: wos_consts)

lemma pmm_alloc_frame_low_post:
  assumes "pmm_inv p" "pmm_alloc_frame_low p = (q, r)"
  shows "alloc_post p (min (2 ^ 18) (total_frames p)) q r"
proof -
  define e :: nat where "e = min (2 ^ 18) (total_frames p)"
  have "pmm_alloc_frame_low p =
    (case alloc_scan p 0 e (next_hint_low p) of (q, hint, r) \<Rightarrow> (q\<lparr>next_hint_low := hint\<rparr>, r))"
    by (auto simp: pmm_alloc_frame_low_def low_limit e_def min_def Let_def)
  then have "alloc_post p e q r"
    using assms(2) alloc_scan_post[OF assms(1), of e "next_hint_low p"]
    by (auto simp: e_def split: prod.splits)
  then show ?thesis by (simp add: e_def)
qed

lemma same_hints: "p\<lparr>next_hint := next_hint p\<rparr> = p" "p\<lparr>next_hint_low := next_hint_low p\<rparr> = p"
  by simp_all

lemma pmm_free_frame_used:
  assumes "unat phys div 4096 \<in> used_set p"
  obtains h hl where "pmm_free_frame p phys = Some ((bitmap_clear p (unat phys div 4096))
    \<lparr>used_frames := used_frames p - 1, next_hint := h, next_hint_low := hl\<rparr>)"
proof -
  let ?f = "unat phys div 4096"
  let ?q = "(bitmap_clear p ?f)\<lparr>used_frames := used_frames p - 1\<rparr>"
  let ?h = "if ?f < next_hint p then ?f else next_hint p"
  let ?hl = "if unat phys < LOW_MEMORY_LIMIT \<and> ?f < next_hint_low p then ?f else next_hint_low p"
  have 1: "(if ?f < next_hint ?q then ?q\<lparr>next_hint := ?f\<rparr> else ?q) = ?q\<lparr>next_hint := ?h\<rparr>"
    using same_hints(1)[of ?q] by simp
  have 2: "(if unat phys < LOW_MEMORY_LIMIT \<and> ?f < next_hint_low r then r\<lparr>next_hint_low := ?f\<rparr> else r)
    = r\<lparr>next_hint_low := ?hl\<rparr>" if "next_hint_low r = next_hint_low p" for r
    using same_hints(2)[of r] that by simp
  have "pmm_free_frame p phys = Some (?q\<lparr>next_hint := ?h, next_hint_low := ?hl\<rparr>)"
    using assms unfolding pmm_free_frame_def Let_def PAGE_SIZE_def 1
    by (subst 2) (simp_all add: used_set_def)
  then show thesis using that by blast
qed

lemma pmm_free_frame_unused:
  "unat phys div 4096 \<notin> used_set p \<Longrightarrow>
   pmm_free_frame p phys = (if unat phys div 4096 \<in> free_set p then None else Some p)"
  by (auto simp: pmm_free_frame_def used_set_def free_set_def PAGE_SIZE_def Let_def)

lemma pmm_free_frame_spec:
  assumes "pmm_inv p"
  shows "case pmm_free_frame p phys of
      None \<Rightarrow> unat phys div 4096 \<in> free_set p
    | Some q \<Rightarrow> unat phys div 4096 \<notin> free_set p \<and> pmm_inv q \<and> same_counts p q
      \<and> free_set q = free_set p \<union> ({unat phys div 4096} \<inter> {..<total_frames p})"
proof (cases "unat phys div 4096 \<in> used_set p")
  case True
  obtain h hl where q: "pmm_free_frame p phys = Some ((bitmap_clear p (unat phys div 4096))
    \<lparr>used_frames := used_frames p - 1, next_hint := h, next_hint_low := hl\<rparr>)"
    using pmm_free_frame_used[OF True] by blast
  have "unat phys div 4096 < total_frames p" "unat phys div 4096 \<notin> free_set p"
    using True by (simp_all add: used_set_def free_set_def)
  then show ?thesis unfolding q using give_frame[OF assms True] by (simp add: same_counts_def)
next
  case False
  then show ?thesis using assms used_free_partition(1)[of p]
    by (auto simp: pmm_free_frame_unused)
qed

section \<open>Contiguous runs\<close>

lemma first_used_spec:
  assumes "i \<le> count"
  shows "i \<le> first_used p start count i \<and> first_used p start count i \<le> count
    \<and> (\<forall>j. i \<le> j \<and> j < first_used p start count i \<longrightarrow> \<not> bitmap_test p (unat (start + of_nat j)))
    \<and> (first_used p start count i < count
         \<longrightarrow> bitmap_test p (unat (start + of_nat (first_used p start count i))))"
  using assms
proof (induction p start count i rule: first_used.induct)
  case (1 p start count i)
  show ?case
  proof (cases "i < count \<and> \<not> bitmap_test p (unat (start + of_nat i))")
    case True
    then have eq: "first_used p start count i = first_used p start count (i + 1)"
      by (subst first_used.simps) simp
    have "\<not> bitmap_test p (unat (start + of_nat j))"
      if "i \<le> j" "j < first_used p start count (i + 1)" for j
      using 1 True that by (cases "i = j") auto
    then show ?thesis using 1 True unfolding eq by auto
  next
    case False
    then have "first_used p start count i = i" by (subst first_used.simps) auto
    then show ?thesis using False "1.prems" by auto
  qed
qed

lemma fold_bitmap_set:
  assumes "\<forall>i\<in>set is. g i div 64 < length (bitmap p)"
  shows "bitmap_test (fold (\<lambda>i q. bitmap_set q (g i)) is p) f \<longleftrightarrow> f \<in> g ` set is \<or> bitmap_test p f"
    and "same_counts p (fold (\<lambda>i q. bitmap_set q (g i)) is p)"
    and "used_frames (fold (\<lambda>i q. bitmap_set q (g i)) is p) = used_frames p"
    and "length (bitmap (fold (\<lambda>i q. bitmap_set q (g i)) is p)) = length (bitmap p)"
  using assms
proof (induction "is" arbitrary: p)
  case (Cons i "is")
  { case 1 then show ?case using Cons(1)[of "bitmap_set p (g i)"] by auto }
  { case 2 then show ?case using Cons(2)[of "bitmap_set p (g i)"] by (simp add: same_counts_def) }
  { case 3 then show ?case using Cons(3)[of "bitmap_set p (g i)"] by simp }
  { case 4 then show ?case using Cons(4)[of "bitmap_set p (g i)"] by simp }
qed simp_all

lemma take_run:
  assumes "pmm_inv p" "{s..<s + n} \<subseteq> free_set p" "g ` {..<n} = {s..<s + n}"
  defines "q \<equiv> (fold (\<lambda>i q. bitmap_set q (g i)) [0..<n] p)\<lparr>used_frames := used_frames p + n\<rparr>"
  shows "pmm_inv q \<and> same_counts p q \<and> free_set q = free_set p - {s..<s + n}"
proof -
  have len: "\<forall>i\<in>set [0..<n]. g i div 64 < length (bitmap p)"
  proof
    fix i assume "i \<in> set [0..<n]"
    then have "g i \<in> free_set p" using assms(2,3) by auto
    then show "g i div 64 < length (bitmap p)"
      using pmm_inv_frame[OF assms(1)] by (simp add: free_set_def)
  qed
  have im: "g ` set [0..<n] = {s..<s + n}" using assms(3) by (simp add: atLeast0LessThan)
  note F = fold_bitmap_set[OF len, unfolded im]
  have t: "bitmap_test q f \<longleftrightarrow> f \<in> {s..<s + n} \<or> bitmap_test p f" for f
    unfolding q_def using F(1) by simp
  have c: "same_counts p q" "used_frames q = used_frames p + n"
    "length (bitmap q) = length (bitmap p)"
    using F(2-4) by (simp_all add: q_def same_counts_def)
  have "used_set q = used_set p \<union> {s..<s + n}"
    using c(1) assms(2) by (auto simp: used_set_def free_set_def same_counts_def t)
  moreover have "used_set p \<inter> {s..<s + n} = {}"
    using assms(2) used_free_partition(2)[of p] by auto
  ultimately have "card (used_set q) = used_frames p + n"
    using assms(1) by (simp add: card_Un_disjoint pmm_inv_def)
  then have "pmm_inv q" using assms(1) c by (simp add: pmm_inv_def same_counts_def)
  moreover have "free_set q = free_set p - {s..<s + n}"
    using c(1) by (auto simp: free_set_def same_counts_def t)
  ultimately show ?thesis using c(1) by simp
qed

definition run_at :: "pmm \<Rightarrow> nat \<Rightarrow> nat \<Rightarrow> nat \<Rightarrow> nat \<Rightarrow> bool" where
  "run_at p al n limit s \<longleftrightarrow> al dvd s \<and> s + n \<le> limit \<and> {s..<s + n} \<subseteq> free_set p"

definition contig_post :: "pmm \<Rightarrow> nat \<Rightarrow> nat \<Rightarrow> nat \<Rightarrow> nat \<Rightarrow> pmm \<Rightarrow> u64 \<Rightarrow> bool" where
  "contig_post p al n limit start q r \<longleftrightarrow> pmm_inv q \<and> same_counts p q \<and>
     (if \<exists>s\<ge>start. run_at p al n limit s
      then \<exists>s\<ge>start. run_at p al n limit s \<and> unat r = s * 4096 \<and> free_set q = free_set p - {s..<s + n}
             \<and> (\<forall>s'. start \<le> s' \<and> s' < s \<longrightarrow> \<not> run_at p al n limit s')
      else r = 0 \<and> q = p)"

lemma fold_used_frames: "used_frames (fold (\<lambda>i q. bitmap_set q (g i)) is p) = used_frames p"
  by (induction "is" arbitrary: p) simp_all

lemma contig_post_here:
  assumes "pmm_inv p" "run_at p al n limit s" "limit \<le> 2 ^ 18" "unat start = s"
  shows "contig_post p al n limit s
    ((fold (\<lambda>i q. bitmap_set q (unat (start + of_nat i))) [0..<n] p)
       \<lparr>used_frames := used_frames p + n\<rparr>) (start * 4096)"
proof -
  have b: "s + n \<le> 2 ^ 18" using assms(2,3) by (simp add: run_at_def)
  have "(\<lambda>i. unat (start + of_nat i)) ` {..<n} = (\<lambda>i. s + i) ` {..<n}"
    using b assms(4) by (intro image_cong) (auto simp: unat_add_index)
  also have "\<dots> = {s..<s + n}" by (simp add: lessThan_atLeast0 add.commute)
  finally have im: "(\<lambda>i. unat (start + of_nat i)) ` {..<n} = {s..<s + n}" .
  have "start * 4096 = of_nat (s * 4096)" using assms(4) by auto
  then have "unat (start * 4096) = s * 4096" using unat_frame_addr[of s] b by simp
  then show ?thesis
    using take_run[OF assms(1) _ im] assms(2) by (auto simp: contig_post_def run_at_def)
qed

lemma contig_post_skip:
  assumes "contig_post p al n limit t q r" "s \<le> t"
    "\<forall>s'. s \<le> s' \<and> s' < t \<longrightarrow> \<not> run_at p al n limit s'"
  shows "contig_post p al n limit s q r"
proof -
  have "(\<exists>s'\<ge>s. run_at p al n limit s') \<longleftrightarrow> (\<exists>s'\<ge>t. run_at p al n limit s')"
    using assms(2,3) by (meson le_trans not_le)
  then show ?thesis using assms
    by (auto simp: contig_post_def split: if_splits) (metis le_trans not_le)+
qed

text \<open>The next start the loop tries after frame \<^term>\<open>x\<close> blocked it.\<close>

lemma contig_next:
  assumes "unat w = x + 1" "k < 64" "x + 1 \<le> 2 ^ 18"
  defines "t \<equiv> unat (align_up w (2 ^ k))"
  shows "x < t" "t \<le> 2 ^ 63 + 2 ^ 18" "2 ^ k dvd t" "m < t \<Longrightarrow> 2 ^ k dvd m \<Longrightarrow> m \<le> x"
proof -
  have k: "(2 :: nat) ^ k \<le> 2 ^ 63" using assms(2) by (intro power_increasing) auto
  have t: "t = (x + 1 + (2 ^ k - 1)) div 2 ^ k * 2 ^ k"
    unfolding t_def assms(1)[symmetric] by (rule unat_align_up) (use assms k in auto)
  show "x < t" using ceiling_ge[of "2 ^ k" "x + 1"] by (simp add: t)
  have "t \<le> x + 1 + (2 ^ k - 1)" unfolding t by (rule div_times_less_eq_dividend)
  then show "t \<le> 2 ^ 63 + 2 ^ 18" using k assms(3) by simp
  show "2 ^ k dvd t" by (simp add: t)
  show "m \<le> x" if "m < t" "2 ^ k dvd m"
    using multiple_below_ceiling[of "2 ^ k" m "x + 1"] that by (simp add: t)
qed

lemma contig_loop_post:
  assumes "pmm_inv p" "unat limit \<le> 2 ^ 18" "unat limit \<le> total_frames p"
    "0 < unat count" "unat count \<le> 2 ^ 62" "k < 64" "unat start \<le> 2 ^ 63 + 2 ^ 18"
    "2 ^ k dvd unat start"
  shows "\<exists>q r. contig_loop p count (2 ^ k) limit start = Some (q, r)
    \<and> contig_post p (2 ^ k) (unat count) (unat limit) (unat start) q r"
  using assms(7,8)
proof (induction "unat limit - unat start" arbitrary: start rule: less_induct)
  case less
  let ?n = "unat count" and ?s = "unat start"
  have sum: "unat (start + count) = ?s + ?n"
    using less.prems assms(5) by (simp add: unat_add_small)
  define i where "i = first_used p start ?n 0"
  note fu = first_used_spec[of 0 ?n p start, folded i_def]
  consider (out) "\<not> start + count \<le> limit" | (blocked) "start + count \<le> limit" "i < ?n"
    | (found) "start + count \<le> limit" "i = ?n" using fu by fastforce
  then show ?case
  proof cases
    case out
    then have "\<not> run_at p (2 ^ k) ?n (unat limit) s" if "?s \<le> s" for s
      using sum that by (simp add: run_at_def word_le_nat_alt)
    then show ?thesis using out assms(1)
      by (subst contig_loop.simps) (auto simp: contig_post_def)
  next
    case found
    have b: "?s + ?n \<le> unat limit" using found(1) sum by (simp add: word_le_nat_alt)
    have "\<not> bitmap_test p (?s + j)" if "j < ?n" for j
      using fu found(2) that b assms(2) unat_add_index[of start j] by auto
    then have "x \<in> free_set p" if "?s \<le> x" "x < ?s + ?n" for x
      using that b assms(3) le_add_diff_inverse[OF that(1)]
      by (simp add: free_set_def) (metis add_less_cancel_left)
    then have "run_at p (2 ^ k) ?n (unat limit) ?s"
      using less.prems(2) b by (auto simp: run_at_def)
    note here = contig_post_here[OF assms(1) this assms(2) refl]
    have "used_frames (fold (\<lambda>i q. bitmap_set q (unat (start + of_nat i))) [0..<?n] p)
      = used_frames p" by (rule fold_used_frames)
    then show ?thesis using found here
      by (subst contig_loop.simps) (simp add: Let_def i_def[symmetric])
  next
    case blocked
    let ?t = "align_up (start + of_nat i + 1) (2 ^ k)"
    have b: "?s + ?n \<le> unat limit" using blocked(1) sum by (simp add: word_le_nat_alt)
    have "unat (start + of_nat i + 1) = ?s + i + 1"
      using b assms(2) blocked(2) unat_add_index[of start i] by (simp add: unat_add_small)
    note t = contig_next[OF this assms(6)]
    have small: "?s + i + 1 \<le> 2 ^ 18" using b assms(2) blocked(2) by simp
    have no: "\<not> run_at p (2 ^ k) ?n (unat limit) s'" if "?s \<le> s'" "s' < unat ?t" for s'
    proof
      assume r: "run_at p (2 ^ k) ?n (unat limit) s'"
      then have "?s + i \<in> {s'..<s' + ?n}"
        using t(4)[OF small that(2)] that(1) blocked(2) by (simp add: run_at_def)
      then have "\<not> bitmap_test p (?s + i)" using r by (auto simp: run_at_def free_set_def)
      then show False using fu blocked(2) b assms(2) unat_add_index[of start i] by simp
    qed
    have "\<exists>q r. contig_loop p count (2 ^ k) limit ?t = Some (q, r)
      \<and> contig_post p (2 ^ k) ?n (unat limit) (unat ?t) q r"
      by (rule less.hyps) (use t(1-3)[OF small] b assms(4) in auto)
    then obtain q r where qr: "contig_loop p count (2 ^ k) limit ?t = Some (q, r)"
      "contig_post p (2 ^ k) ?n (unat limit) (unat ?t) q r" by blast
    have "contig_post p (2 ^ k) ?n (unat limit) ?s q r"
      using contig_post_skip[OF qr(2)] t(1)[OF small] no by simp
    then show ?thesis using blocked qr(1)
      by (subst contig_loop.simps) (simp add: Let_def i_def[symmetric])
  qed
qed

text \<open>A run requested of the allocator: the lowest aligned run of free frames above frame 0 and
  below the limit of the identity map.\<close>

definition contig_limit :: "pmm \<Rightarrow> nat" where
  "contig_limit p = min (2 ^ 18) (total_frames p)"

lemma pmm_alloc_contiguous_post:
  assumes "pmm_inv p" "0 < unat count" "unat count \<le> 2 ^ 62" "k < 64"
  shows "\<exists>q r. pmm_alloc_contiguous p count (2 ^ k) = Some (q, r)
    \<and> contig_post p (2 ^ k) (unat count) (contig_limit p) 1 q r"
proof -
  let ?l = "of_nat (contig_limit p) :: u64" and ?s = "align_up 1 (2 ^ k)"
  have al: "\<not> (2 ^ k :: u64) < 1" using assms(4) by (simp add: word_less_nat_alt unat_power_u64)
  have eq: "pmm_alloc_contiguous p count (2 ^ k) = contig_loop p count (2 ^ k) ?l ?s"
    using assms(2) al
    by (auto simp: pmm_alloc_contiguous_def low_limit contig_limit_def min_def Let_def)
  have l: "unat ?l = contig_limit p"
    using take_bit_nat_eq_self[of "contig_limit p" 64] unfolding unsigned_of_nat
    by (simp add: contig_limit_def)
  note t = contig_next[of 1 0 k, OF _ assms(4)]
  have s: "unat ?s \<le> 2 ^ 63 + 2 ^ 18" "2 ^ k dvd unat ?s" "0 < unat ?s" using t(1-3) by simp_all
  obtain q r where qr: "contig_loop p count (2 ^ k) ?l ?s = Some (q, r)"
    "contig_post p (2 ^ k) (unat count) (contig_limit p) (unat ?s) q r"
    using contig_loop_post[OF assms(1) _ _ assms(2-4) s(1,2), of ?l] l
    by (auto simp: contig_limit_def)
  have "\<not> run_at p (2 ^ k) (unat count) (contig_limit p) s'" if "1 \<le> s'" "s' < unat ?s" for s'
    using t(4)[of s'] that by (auto simp: run_at_def)
  then show ?thesis using qr s(3) contig_post_skip[OF qr(2), of 1] eq by simp
qed

lemma free_each_spec:
  assumes "pmm_inv p" "distinct is" "\<forall>i\<in>set is. unat (phys + of_nat i * 4096) = (s + i) * 4096"
    "\<forall>i\<in>set is. s + i < total_frames p \<and> s + i \<notin> free_set p"
  shows "\<exists>q. free_each p phys is = Some q \<and> pmm_inv q \<and> same_counts p q
    \<and> free_set q = free_set p \<union> (\<lambda>i. s + i) ` set is"
  using assms
proof (induction "is" arbitrary: p)
  case (Cons i "is")
  let ?a = "phys + of_nat i * 4096"
  have f: "unat ?a div 4096 = s + i" using Cons.prems(3) by simp
  obtain q where q: "pmm_free_frame p ?a = Some q" "pmm_inv q" "same_counts p q"
    "free_set q = insert (s + i) (free_set p)"
    using pmm_free_frame_spec[OF Cons.prems(1), of ?a] Cons.prems(4)
    unfolding f by (auto split: option.splits)
  have "\<forall>j\<in>set is. s + j < total_frames q \<and> s + j \<notin> free_set q"
    using Cons.prems(2,4) q(3,4) by (auto simp: same_counts_def)
  then obtain r where "free_each q phys is = Some r" "pmm_inv r" "same_counts q r"
    "free_set r = free_set q \<union> (\<lambda>i. s + i) ` set is"
    using Cons.IH[OF q(2)] Cons.prems(2,3) by auto
  then show ?case using q by (auto intro: same_counts_trans)
qed simp
section \<open>Any sequence of operations\<close>

text \<open>The operations the rest of the kernel calls, on the arguments their interface allows: an
  alignment that is a power of two, and ranges that end at least a page below the top of the
  address space.\<close>

inductive pmm_step :: "pmm \<Rightarrow> pmm \<Rightarrow> bool" where
  step_alloc: "pmm_alloc_frame p = (q, r) \<Longrightarrow> pmm_step p q"
| step_alloc_low: "pmm_alloc_frame_low p = (q, r) \<Longrightarrow> pmm_step p q"
| step_contig: "\<lbrakk>pmm_alloc_contiguous p count (2 ^ k) = Some (q, r); k < 64; unat count \<le> 2 ^ 62\<rbrakk>
    \<Longrightarrow> pmm_step p q"
| step_free: "pmm_free_frame p phys = Some q \<Longrightarrow> pmm_step p q"
| step_free_contig: "pmm_free_contiguous p phys count = Some q \<Longrightarrow> pmm_step p q"
| step_reserve: "\<lbrakk>pmm_reserve_range p s e = Some q; unat e + 4096 \<le> 2 ^ 64\<rbrakk> \<Longrightarrow> pmm_step p q"
| step_release: "\<lbrakk>pmm_release_range p s e = Some q; unat e + 4096 < 2 ^ 64; unat s + 8191 < 2 ^ 64\<rbrakk>
    \<Longrightarrow> pmm_step p q"

lemma pmm_free_frame_inv: "pmm_inv p \<Longrightarrow> pmm_free_frame p phys = Some q \<Longrightarrow> pmm_inv q"
  using pmm_free_frame_spec[of p phys] by simp

lemma free_each_inv: "pmm_inv p \<Longrightarrow> free_each p phys is = Some q \<Longrightarrow> pmm_inv q"
proof (induction "is" arbitrary: p)
  case (Cons i "is")
  then show ?case
    by (auto split: Option.bind_splits dest: pmm_free_frame_inv)
qed simp

lemma pmm_step_inv: "pmm_step p q \<Longrightarrow> pmm_inv p \<Longrightarrow> pmm_inv q"
proof (induction rule: pmm_step.induct)
  case (step_alloc p q r)
  then show ?case using pmm_alloc_frame_post by (auto simp: alloc_post_def)
next
  case (step_alloc_low p q r)
  then show ?case using pmm_alloc_frame_low_post by (auto simp: alloc_post_def)
next
  case (step_contig p count k q r)
  show ?case
  proof (cases "count = 0")
    case True
    then show ?thesis using step_contig by (simp add: pmm_alloc_contiguous_def)
  next
    case False
    then have "0 < unat count" by (simp add: unat_gt_0)
    then show ?thesis
      using pmm_alloc_contiguous_post[of p count k] step_contig by (auto simp: contig_post_def)
  qed
next
  case (step_free p phys q)
  then show ?case using pmm_free_frame_inv by blast
next
  case (step_free_contig p phys count q)
  then show ?case using free_each_inv by (auto simp: pmm_free_contiguous_def)
next
  case (step_reserve p s e q)
  then show ?case using pmm_reserve_range_spec[of p e s] by auto
next
  case (step_release p s e q)
  then show ?case using pmm_release_range_spec[of p e s] by auto
qed

section \<open>Properties\<close>

text \<open>A small memory for the witnesses: eight frames, of which the lower four are in use.\<close>

definition demo_pmm :: pmm where
  "demo_pmm = \<lparr>bitmap = [0xF], bitmap_frames = 8, bitmap_words = 1, total_frames = 8,
     usable_frames = 8, hole_frames = 0, used_frames = 4, reserved_frames = 4,
     heap_base = 0x2000, next_hint = 6, next_hint_low = 0\<rparr>"

lemma demo_test: "bitmap_test demo_pmm f \<longleftrightarrow> f < 4" if "f < 8"
proof -
  have "f \<in> {0,1,2,3,4,5,6,7}" using that by auto
  then show ?thesis by (auto simp: bitmap_test_def demo_pmm_def)
qed

lemma demo_free_set: "free_set demo_pmm = {4,5,6,7}"
proof -
  have "f \<in> free_set demo_pmm \<longleftrightarrow> 4 \<le> f \<and> f < 8" for f
    using demo_test[of f] by (auto simp: free_set_def demo_pmm_def)
  then have "free_set demo_pmm = {4..<8}" by (auto simp: set_eq_iff)
  also have "\<dots> = {4, 5, 6, 7}" by auto
  finally show ?thesis .
qed

lemma demo_inv: "pmm_inv demo_pmm"
proof -
  have "used_set demo_pmm = {..<4}"
    using demo_test by (auto simp: used_set_def demo_pmm_def)
  then show ?thesis by (simp add: pmm_inv_def) (simp add: demo_pmm_def)
qed

lemma demo_simps:
  "total_frames demo_pmm = 8" "used_frames demo_pmm = 4" "next_hint demo_pmm = 6"
  "next_hint_low demo_pmm = 0" "length (bitmap demo_pmm) = 1"
  by (simp_all add: demo_pmm_def)

definition demo_taken :: pmm where
  "demo_taken = (bitmap_set demo_pmm 6)\<lparr>used_frames := 5, next_hint := 7\<rparr>"

definition demo_freed :: pmm where
  "demo_freed = (bitmap_clear demo_taken 3)\<lparr>used_frames := 4, next_hint := 3\<rparr>"

lemma demo_alloc: "pmm_alloc_frame demo_pmm = (demo_taken, 0x6000)"
proof -
  have "find_clear demo_pmm 6 8 = Some 6" by (subst find_clear.simps) (simp add: demo_test)
  then show ?thesis
    by (simp add: pmm_alloc_frame_def alloc_scan_def demo_simps demo_taken_def Let_def PAGE_SIZE_def)
qed

lemma demo_free: "pmm_free_frame demo_taken 0x3000 = Some demo_freed"
proof -
  have "bitmap_test demo_taken 3" by (simp add: demo_taken_def demo_simps demo_test)
  then show ?thesis
    by (simp add: pmm_free_frame_def demo_freed_def demo_simps Let_def PAGE_SIZE_def)
      (simp add: demo_taken_def demo_simps)
qed

text \<open>Whatever sequence of operations the kernel performs, the counter of used frames stays
  exactly the number of set bits, and used and free frames add up to the frames covered.\<close>

theorem pmm_counters_exact:
  assumes "pmm_step\<^sup>*\<^sup>* p q" "pmm_inv p"
  shows "used_frames q = card {f. f < total_frames q \<and> bitmap_test q f}
    \<and> used_frames q + card (free_set q) = total_frames q"
proof -
  have "pmm_inv q" using assms by (induction rule: rtranclp_induct) (auto intro: pmm_step_inv)
  then show ?thesis using used_plus_free[of q] by (simp add: pmm_inv_def used_set_def)
qed

theorem pmm_counters_exact_witness:
  "used_frames demo_freed = card {f. f < total_frames demo_freed \<and> bitmap_test demo_freed f}
    \<and> used_frames demo_freed + card (free_set demo_freed) = total_frames demo_freed"
proof -
  have "pmm_step\<^sup>*\<^sup>* demo_pmm demo_freed"
    using step_alloc[OF demo_alloc] step_free[OF demo_free]
    by (metis rtranclp.rtrancl_into_rtrancl rtranclp.rtrancl_refl)
  then show ?thesis using pmm_counters_exact demo_inv by blast
qed

text \<open>With frame 0 reserved, \<^verbatim>\<open>pmm_alloc_frame\<close> returns 0 exactly when no frame is free;
  otherwise it returns the address of a frame that was free, which is then the only one to have
  become used.\<close>

theorem pmm_alloc_frame_correct:
  assumes "pmm_inv p" "0 \<notin> free_set p" "pmm_alloc_frame p = (q, r)"
  shows "pmm_inv q \<and>
    (if free_set p = {} then r = 0 \<and> free_set q = {}
     else r \<noteq> 0 \<and> 4096 dvd unat r \<and> unat r div 4096 \<in> free_set p
       \<and> free_set q = free_set p - {unat r div 4096} \<and> used_frames q = used_frames p + 1)"
proof -
  have post: "alloc_post p (total_frames p) q r" by (rule pmm_alloc_frame_post[OF assms(1,3)])
  have sub: "free_set p \<inter> {..<total_frames p} = free_set p" by (auto simp: free_set_def)
  show ?thesis
  proof (cases "free_set p = {}")
    case True
    then show ?thesis using post by (simp add: alloc_post_def)
  next
    case False
    then obtain f where f: "f \<in> free_set p" "unat r = f * 4096" "free_set q = free_set p - {f}"
      "pmm_inv q" "same_counts p q"
      using post by (auto simp: alloc_post_def sub)
    then have "unat r \<noteq> 0" using assms(2) by (cases "f = 0") simp_all
    then have "r \<noteq> 0" by auto
    moreover have "used_frames q = used_frames p + 1"
      using used_plus_free[OF assms(1)] used_plus_free[OF f(4)] f(1,3,5) card_Suc_Diff1[of "free_set p" f]
      by (simp add: same_counts_def)
    ultimately show ?thesis using f False by simp
  qed
qed

theorem pmm_alloc_frame_correct_witness:
  "pmm_inv demo_taken \<and> (0x6000 :: u64) \<noteq> 0 \<and> unat (0x6000 :: u64) div 4096 \<in> free_set demo_pmm
    \<and> free_set demo_taken = {4, 5, 7} \<and> used_frames demo_taken = 5"
proof -
  have "{4, 5, 6, 7} - {6} = {4, 5, 7 :: nat}" by auto
  then show ?thesis
    using pmm_alloc_frame_correct[OF demo_inv _ demo_alloc] by (simp add: demo_free_set demo_simps)
qed

text \<open>Freeing a frame panics exactly when the frame is already free, and otherwise makes that
  frame available again and nothing else; freeing what an allocation returned restores the free
  frames it started from.\<close>

theorem pmm_free_frame_correct:
  assumes "pmm_inv p" "0 \<notin> free_set p" "pmm_alloc_frame p = (q, r)" "r \<noteq> 0"
  shows "\<exists>p'. pmm_free_frame q r = Some p' \<and> pmm_inv p' \<and> free_set p' = free_set p
    \<and> pmm_free_frame p' r = None"
proof -
  have "alloc_post p (total_frames p) q r" by (rule pmm_alloc_frame_post[OF assms(1,3)])
  then obtain f where f: "f \<in> free_set p" "unat r = f * 4096" "free_set q = free_set p - {f}"
    "pmm_inv q" "same_counts p q"
    using assms(4) by (auto simp: alloc_post_def split: if_splits)
  then have "f \<notin> free_set q" "f < total_frames q" by (auto simp: free_set_def same_counts_def)
  then obtain p' where p': "pmm_free_frame q r = Some p'" "pmm_inv p'"
    "free_set p' = insert f (free_set q)"
    using pmm_free_frame_spec[OF f(4), of r] f(2) by (auto split: option.splits)
  moreover have "pmm_free_frame p' r = None"
    using pmm_free_frame_spec[OF p'(2), of r] p'(3) f(2) by (auto split: option.splits)
  ultimately show ?thesis using f(1,3) by auto
qed

theorem pmm_free_frame_correct_witness:
  "\<exists>p'. pmm_free_frame demo_taken 0x6000 = Some p' \<and> pmm_inv p' \<and> free_set p' = free_set demo_pmm
    \<and> pmm_free_frame p' 0x6000 = None"
proof -
  have "0 \<notin> free_set demo_pmm" "(0x6000 :: u64) \<noteq> 0" by (simp_all add: demo_free_set)
  from pmm_free_frame_correct[OF demo_inv this(1) demo_alloc this(2)] show ?thesis .
qed

text \<open>C15. \<^verbatim>\<open>pmm_alloc_contiguous\<close> returns for every request with a power-of-two alignment.  If an
  aligned run of free frames above frame 0 and below the identity-mapped limit exists, it returns
  the lowest one and takes exactly its frames; otherwise it returns 0 and changes nothing.\<close>

theorem pmm_alloc_contiguous_first_fit:
  assumes "pmm_inv p" "0 < unat count" "unat count \<le> 2 ^ 62" "k < 64"
  shows "\<exists>q r. pmm_alloc_contiguous p count (2 ^ k) = Some (q, r) \<and> pmm_inv q \<and>
    (if \<exists>s\<ge>1. run_at p (2 ^ k) (unat count) (contig_limit p) s
     then \<exists>s\<ge>1. run_at p (2 ^ k) (unat count) (contig_limit p) s \<and> unat r = s * 4096
            \<and> free_set q = free_set p - {s..<s + unat count}
            \<and> (\<forall>t. 1 \<le> t \<and> t < s \<longrightarrow> \<not> run_at p (2 ^ k) (unat count) (contig_limit p) t)
     else r = 0 \<and> q = p)"
proof -
  obtain q r where "pmm_alloc_contiguous p count (2 ^ k) = Some (q, r)"
    "contig_post p (2 ^ k) (unat count) (contig_limit p) 1 q r"
    using pmm_alloc_contiguous_post[OF assms] by blast
  then show ?thesis unfolding contig_post_def by (elim conjE) (intro exI conjI; assumption)
qed

theorem pmm_alloc_contiguous_first_fit_witness:
  "\<exists>q r. pmm_alloc_contiguous demo_pmm 2 2 = Some (q, r) \<and> unat r = 4 * 4096 \<and> free_set q = {6, 7}"
proof -
  have "{s..<s + 2} = {s, Suc s}" for s by auto
  then have run: "run_at demo_pmm 2 2 (contig_limit demo_pmm) s \<longleftrightarrow> s = 4 \<or> s = 6" for s
    by (auto simp: run_at_def contig_limit_def demo_free_set demo_simps)
  obtain q r s where s: "pmm_alloc_contiguous demo_pmm 2 2 = Some (q, r)"
    "s = 4 \<or> s = 6" "unat r = s * 4096" "free_set q = {4, 5, 6, 7} - {s..<s + 2}"
    "\<forall>t. 1 \<le> t \<and> t < s \<longrightarrow> \<not> (t = 4 \<or> t = 6)"
    using pmm_alloc_contiguous_first_fit[OF demo_inv, of 2 1]
    by (auto simp: run demo_free_set split: if_splits)
  have "s = 4" using s(2) spec[OF s(5), of 4] by auto
  moreover have "{4, 5, 6, 7} - {4..<6} = {6, 7 :: nat}" by auto
  ultimately show ?thesis using s(1,3,4) by simp
qed

end
