(* ===== verification/Pmm_Init.thy ===== *)
theory Pmm_Init
  imports Pmm
begin

text \<open>
  Initialisation of the frame allocator, the second half of \<^verbatim>\<open>kernel/mm/pmm.c\<close>: the search for a
  gap that holds the bitmap and the kernel heap, and what \<^verbatim>\<open>pmm_init\<close> leaves free.

  \<open>obstructions\<close> lists the ranges the boot loader and the kernel occupy.  The lemmas show that
  \<^verbatim>\<open>clear_of_boot_data\<close> ends and returns the least page-aligned address clear of all of them,
  that \<^verbatim>\<open>find_span\<close> finds a gap exactly when there is one, and that afterwards a frame is free
  exactly when it lies in available memory and outside everything reserved.
\<close>

unbundle bit_operations_syntax

section \<open>Clear of the boot data\<close>

definition obstructions :: "boot \<Rightarrow> (u64 \<times> u64) list" where
  "obstructions b =
     [(kernel_start b, kernel_end b), (mbi_addr b, mbi_addr b + sizeof_mbi)]
     @ (if has_flag b MB_FLAG_MMAP
        then [(ucast (mmap_addr (mbi b)), ucast (mmap_addr (mbi b)) + ucast (mmap_length (mbi b)))]
        else [])
     @ (if has_flag b MB_FLAG_MODS
        then (ucast (mods_addr (mbi b)), ucast (mods_addr (mbi b)) + mods_bytes b)
             # map (\<lambda>i. (ucast (mod_start b i), ucast (mod_end b i)))
                 [0..<unat (mods_count (mbi b))]
        else [])"

definition is_clear :: "boot \<Rightarrow> u64 \<Rightarrow> u64 \<Rightarrow> bool" where
  "is_clear b addr len \<longleftrightarrow> (\<forall>(lo, hi)\<in>set (obstructions b). \<not> overlaps addr len lo hi)"

text \<open>What the boot loader is relied on for: the kernel and the information block lie below one
  tebibyte, the memory map does not run past the 32-bit address space its pointer lives in, and
  available memory lies inside the 52 bits of a physical address.\<close>

definition boot_ok :: "boot \<Rightarrow> bool" where
  "boot_ok b \<longleftrightarrow> 0 < unat (kernel_end b) \<and> unat (kernel_end b) < 2 ^ 40 \<and> unat (mbi_addr b) < 2 ^ 40
     \<and> unat (mmap_addr (mbi b)) + unat (mmap_length (mbi b)) < 2 ^ 32
     \<and> (\<forall>e\<in>set (mmap_entries b). me_type e = MB_MEMORY_AVAILABLE \<longrightarrow>
          unat (me_addr e) + unat (me_len e) \<le> 2 ^ 52)"

lemma clear_round_fold:
  "clear_round b addr len =
     fold (\<lambda>(lo, hi) moved. if overlaps addr len lo hi then hi else moved) (obstructions b) addr"
  by (simp add: clear_round_def obstructions_def Let_def fold_map comp_def)

lemma fold_last_hit:
  fixes obs :: "(u64 \<times> u64) list" and addr len m :: u64
  defines "F \<equiv> fold (\<lambda>(lo, hi) moved. if overlaps addr len lo hi then hi else moved)"
  shows "(\<forall>lo hi. (lo, hi) \<in> set obs \<longrightarrow> \<not> overlaps addr len lo hi) \<and> F obs m = m
    \<or> (\<exists>lo hi. (lo, hi) \<in> set obs \<and> overlaps addr len lo hi \<and> F obs m = hi)"
proof (induction obs rule: rev_induct)
  case (snoc x xs)
  obtain lo hi where x: "x = (lo, hi)" by (cases x)
  have "F (xs @ [x]) m = (if overlaps addr len lo hi then hi else F xs m)"
    by (simp add: F_def x)
  then show ?case using snoc by (cases "overlaps addr len lo hi") (auto simp: x)
qed (simp add: F_def)

lemma clear_round_cases:
  obtains (clear) "is_clear b addr len" "clear_round b addr len = addr"
  | (hit) lo hi where "(lo, hi) \<in> set (obstructions b)" "overlaps addr len lo hi"
      "clear_round b addr len = hi" "addr < hi"
proof -
  consider "is_clear b addr len" "clear_round b addr len = addr"
    | lo hi where "(lo, hi) \<in> set (obstructions b)" "overlaps addr len lo hi"
      "clear_round b addr len = hi"
    using fold_last_hit[of "obstructions b" addr len addr]
    unfolding clear_round_fold is_clear_def by blast
  then show thesis using clear hit by cases (auto simp: overlaps_def)
qed

lemma mods_bytes_bound: "unat (ucast (mods_addr (mbi b)) + mods_bytes b) < 2 ^ 37"
proof -
  have c: "unat (mods_count (mbi b)) < 2 ^ 32" "unat (mods_addr (mbi b)) < 2 ^ 32"
    by (rule unat_lt_2_32)+
  have "unat (mods_bytes b) = unat (mods_count (mbi b)) * 16"
    using c(1) unfolding mods_bytes_def by (simp add: unat_word_ariths)
  then show ?thesis using c by (simp add: unat_add_small)
qed

lemma obstruction_bound:
  assumes "boot_ok b" "(lo, hi) \<in> set (obstructions b)"
  shows "unat hi < 2 ^ 41"
proof -
  have "unat (mbi_addr b + sizeof_mbi) < 2 ^ 41"
    using assms(1) by (simp add: boot_ok_def sizeof_mbi_def unat_add_small)
  moreover have "unat (ucast (mmap_addr (mbi b)) + ucast (mmap_length (mbi b)) :: u64) < 2 ^ 41"
    using assms(1) by (simp add: boot_ok_def unat_add_small)
  moreover have "unat (ucast (mod_end b i) :: u64) < 2 ^ 41" for i
    using unat_lt_2_32[of "mod_end b i"] by simp
  ultimately show ?thesis
    using assms mods_bytes_bound[of b] unfolding obstructions_def
    by (auto simp: boot_ok_def split: if_splits)
qed

lemma overlaps_later:
  assumes "overlaps addr len lo hi" "unat addr \<le> unat x" "unat x < unat hi"
    "unat x + unat len < 2 ^ 64"
  shows "overlaps x len lo hi"
  using assms by (auto simp: overlaps_def word_less_nat_alt unat_add_small)

lemma clear_of_boot_data_clear:
  "is_clear b addr len \<Longrightarrow> clear_of_boot_data b addr len = Some addr"
  by (subst clear_of_boot_data.simps, rule clear_round_cases[of b addr len])
    (auto simp: is_clear_def)

text \<open>The address returned by \<^verbatim>\<open>clear_of_boot_data\<close>: the least one, in steps of a page.\<close>

definition next_clear :: "boot \<Rightarrow> u64 \<Rightarrow> u64 \<Rightarrow> u64 \<Rightarrow> bool" where
  "next_clear b len addr r \<longleftrightarrow> unat addr \<le> unat r \<and> is_clear b r len
     \<and> (r = addr \<or> 4096 dvd unat r \<and> unat r \<le> 2 ^ 41)
     \<and> (\<forall>x. unat addr \<le> unat x \<and> unat x < unat r \<and> 4096 dvd unat x \<longrightarrow> \<not> is_clear b x len)"

lemma clear_of_boot_data_spec:
  assumes "boot_ok b" "unat len \<le> 2 ^ 62"
  shows "\<exists>r. clear_of_boot_data b addr len = Some r \<and> next_clear b len addr r"
proof (induction "2 ^ 41 - unat addr" arbitrary: addr rule: less_induct)
  case less
  show ?case
  proof (cases rule: clear_round_cases[of b addr len])
    case clear
    then show ?thesis by (auto simp: clear_of_boot_data_clear next_clear_def)
  next
    case (hit lo hi)
    let ?t = "align_up hi 4096"
    have hi: "unat hi < 2 ^ 41" using obstruction_bound[OF assms(1) hit(1)] .
    then have t: "unat ?t = (unat hi + 4095) div 4096 * 4096" by (simp add: unat_align_up_page)
    have lt: "unat addr < unat hi" using hit(4) by (simp add: word_less_nat_alt)
    have ge: "unat hi \<le> unat ?t" unfolding t using ceiling_ge[of 4096 "unat hi"] by simp
    have le: "unat ?t \<le> 2 ^ 41" using hi unfolding t by simp
    obtain r where r: "clear_of_boot_data b ?t len = Some r" "next_clear b len ?t r"
      using less[of ?t] diff_less_mono2[of "unat addr" "unat ?t" "2 ^ 41"] lt ge hi by force
    have "\<not> is_clear b x len" if "unat addr \<le> unat x" "unat x < unat ?t" "4096 dvd unat x" for x
    proof -
      have "unat x < unat hi"
        using multiple_below_ceiling[of 4096 "unat x" "unat hi"] that(2,3) by (simp add: t)
      then have "overlaps x len lo hi"
        using overlaps_later[OF hit(2) that(1)] assms(2) hi by simp
      then show ?thesis using hit(1) by (auto simp: is_clear_def)
    qed
    moreover have "4096 dvd unat ?t" unfolding t by simp
    ultimately have "next_clear b len addr r"
      using r(2) lt ge le unfolding next_clear_def by (meson le_trans less_imp_le not_le)
    then show ?thesis using r(1) hit by (subst clear_of_boot_data.simps) (auto simp: Let_def)
  qed
qed

section \<open>A gap for the bitmap and the heap\<close>

definition region_top :: "mmap_entry \<Rightarrow> nat" where
  "region_top e = min (unat (me_addr e) + unat (me_len e)) (unat FBCON_APERTURE)"

definition gap_in :: "boot \<Rightarrow> u64 \<Rightarrow> mmap_entry \<Rightarrow> u64 \<Rightarrow> bool" where
  "gap_in b len e r \<longleftrightarrow> me_type e = MB_MEMORY_AVAILABLE \<and> unat (me_addr e) < 2 ^ 32
     \<and> unat (me_addr e) \<le> unat r \<and> unat (kernel_end b) \<le> unat r \<and> 4096 dvd unat r
     \<and> unat r + unat len \<le> region_top e \<and> is_clear b r len"

lemma find_in_region_spec:
  assumes "boot_ok b" "unat len \<le> 2 ^ 41" "4096 dvd unat addr" "unat addr \<le> 2 ^ 41"
  shows "\<exists>res. find_in_region b len addr rend = Some res \<and>
    (case res of
       Some r \<Rightarrow> unat addr \<le> unat r \<and> 4096 dvd unat r \<and> unat r + unat len \<le> unat rend \<and> is_clear b r len
     | None \<Rightarrow> \<forall>x. unat addr \<le> unat x \<and> 4096 dvd unat x \<and> unat x + unat len \<le> unat rend
                   \<longrightarrow> \<not> is_clear b x len)"
proof (cases "addr + len \<le> rend")
  case False
  then have "unat rend < unat addr + unat len"
    using assms(2,4) by (simp add: word_le_nat_alt unat_add_small)
  then show ?thesis using False by (subst find_in_region.simps) auto
next
  case True
  obtain r where r: "clear_of_boot_data b addr len = Some r" "next_clear b len addr r"
    using clear_of_boot_data_spec[OF assms(1), of len addr] assms(2) by auto
  have rs: "4096 dvd unat r" "unat r \<le> 2 ^ 41" "is_clear b r len" "unat addr \<le> unat r"
    using r(2) assms(3,4) by (auto simp: next_clear_def)
  have sum: "r + len \<le> rend \<longleftrightarrow> unat r + unat len \<le> unat rend"
    using rs(2) assms(2) by (simp add: word_le_nat_alt unat_add_small)
  have 2: "find_in_region b len r rend = (if r + len \<le> rend then Some (Some r) else Some None)"
    by (subst find_in_region.simps) (simp add: clear_of_boot_data_clear[OF rs(3)])
  have "find_in_region b len addr rend = (if r + len \<le> rend then Some (Some r) else Some None)"
    using True r(1) by (cases "r = addr") (subst find_in_region.simps, simp add: 2)+
  moreover have "\<not> is_clear b x len"
    if "\<not> r + len \<le> rend" "unat addr \<le> unat x" "4096 dvd unat x" "unat x + unat len \<le> unat rend" for x
    using r(2) that sum by (auto simp: next_clear_def)
  ultimately show ?thesis using rs sum by (cases "r + len \<le> rend") auto
qed

lemma drop_bit_32_zero: "drop_bit 32 (a :: u64) = 0 \<longleftrightarrow> unat a < 2 ^ 32"
proof -
  have "drop_bit 32 a = 0 \<longleftrightarrow> unat (drop_bit 32 a) = 0" by (simp add: unsigned_eq_0_iff)
  also have "\<dots> \<longleftrightarrow> unat a div 2 ^ 32 = 0" 
    using unat_lt_2_64[of a]
    by (subst unsigned_drop_bit_eq) (simp add: drop_bit_eq_div take_bit_nat_eq_self)
  finally show ?thesis by (simp add: div_eq_0_iff)
qed

text \<open>The region the search of an entry covers: from its aligned start to its top.\<close>

lemma region_search:
  assumes "boot_ok b" "e \<in> set (mmap_entries b)" "me_type e = MB_MEMORY_AVAILABLE"
    "drop_bit 32 (me_addr e) = 0"
  defines "rend \<equiv> if me_addr e + me_len e > FBCON_APERTURE then FBCON_APERTURE
                  else me_addr e + me_len e"
    and "start \<equiv> align_up (if me_addr e < kernel_end b then kernel_end b else me_addr e) 4096"
  shows "unat rend = region_top e" "4096 dvd unat start" "unat start \<le> 2 ^ 41"
    "4096 dvd x \<Longrightarrow> unat start \<le> x \<longleftrightarrow> unat (me_addr e) \<le> x \<and> unat (kernel_end b) \<le> x"
proof -
  have e: "unat (me_addr e) + unat (me_len e) \<le> 2 ^ 52" "unat (me_addr e) < 2 ^ 32"
    using assms(1-4) by (auto simp: boot_ok_def drop_bit_32_zero)
  show "unat rend = region_top e"
    using e by (auto simp: rend_def region_top_def word_less_nat_alt unat_add_small)
  define m where "m = max (unat (me_addr e)) (unat (kernel_end b))"
  have m: "m < 2 ^ 40" using e assms(1) by (simp add: m_def boot_ok_def)
  have "unat (if me_addr e < kernel_end b then kernel_end b else me_addr e) = m"
    by (auto simp: m_def word_less_nat_alt max_def)
  then have s: "unat start = (m + 4095) div 4096 * 4096"
    unfolding start_def using m by (subst unat_align_up_page) auto
  then show "4096 dvd unat start" "unat start \<le> 2 ^ 41" using m by auto
  have "m \<le> unat start" unfolding s using ceiling_ge[of 4096 m] by simp
  then show "unat start \<le> x \<longleftrightarrow> unat (me_addr e) \<le> x \<and> unat (kernel_end b) \<le> x" if "4096 dvd x"
    using multiple_below_ceiling[of 4096 x m] that s by (auto simp: m_def not_le)
qed

lemma find_span_loop_spec:
  assumes "boot_ok b" "unat len \<le> 2 ^ 41" "set es \<subseteq> set (mmap_entries b)"
  shows "\<exists>r. find_span_loop b len es = Some r \<and>
    (if \<exists>e\<in>set es. \<exists>x. gap_in b len e x then r \<noteq> 0 \<and> (\<exists>e\<in>set es. gap_in b len e r) else r = 0)"
  using assms(3)
proof (induction es)
  case (Cons e es)
  then obtain r where r: "find_span_loop b len es = Some r"
    "if \<exists>e\<in>set es. \<exists>x. gap_in b len e x then r \<noteq> 0 \<and> (\<exists>e\<in>set es. gap_in b len e r) else r = 0"
    by auto
  show ?case
  proof (cases "me_type e = MB_MEMORY_AVAILABLE \<and> drop_bit 32 (me_addr e) = 0")
    case False
    then have "\<not> gap_in b len e x" for x by (auto simp: gap_in_def drop_bit_32_zero)
    then show ?thesis using False r by (simp split: if_splits)
  next
    case True
    define rend where "rend = (if me_addr e + me_len e > FBCON_APERTURE then FBCON_APERTURE
                else me_addr e + me_len e)"
    define start where
      "start = align_up (if me_addr e < kernel_end b then kernel_end b else me_addr e) 4096"
    have "e \<in> set (mmap_entries b)" using Cons.prems by simp
    note rs = region_search[OF assms(1) this conjunct1[OF True] conjunct2[OF True],
        folded rend_def start_def]
    obtain res where res: "find_in_region b len start rend = Some res"
      "case res of
         Some r \<Rightarrow> unat start \<le> unat r \<and> 4096 dvd unat r \<and> unat r + unat len \<le> unat rend \<and> is_clear b r len
       | None \<Rightarrow> \<forall>x. unat start \<le> unat x \<and> 4096 dvd unat x \<and> unat x + unat len \<le> unat rend
                     \<longrightarrow> \<not> is_clear b x len"
      using find_in_region_spec[OF assms(1,2) rs(2,3)] by blast
    have gap: "gap_in b len e x \<longleftrightarrow> unat start \<le> unat x \<and> 4096 dvd unat x
      \<and> unat x + unat len \<le> unat rend \<and> is_clear b x len" for x
      using rs(1) rs(4)[of "unat x"] True unfolding gap_in_def drop_bit_32_zero by auto
    show ?thesis
    proof (cases res)
      case None
      then have "\<not> gap_in b len e x" for x using res(2) gap by auto
      then show ?thesis using True r res(1) None by (simp add: rend_def[symmetric] start_def[symmetric] Let_def split: if_splits)
    next
      case (Some x)
      then have g: "gap_in b len e x" using res(2) gap by simp
      then have "0 < unat x" using assms(1) by (simp add: gap_in_def boot_ok_def)
      then have "x \<noteq> 0" by auto
      then show ?thesis using True g res(1) Some
        by (auto simp: Let_def rend_def[symmetric] start_def[symmetric])
    qed
  qed
qed simp

lemma find_span_spec:
  assumes "boot_ok b" "unat len \<le> 2 ^ 41" "has_flag b MB_FLAG_MMAP"
  shows "\<exists>r. find_span b len = Some r \<and>
    (if \<exists>e\<in>set (mmap_entries b). \<exists>x. gap_in b len e x
     then r \<noteq> 0 \<and> (\<exists>e\<in>set (mmap_entries b). gap_in b len e r) else r = 0)"
  using find_span_loop_spec[OF assms(1,2) order_refl] assms(3) by (simp add: find_span_def)

section \<open>What initialisation leaves\<close>

text \<open>The frames of memory the map calls available, and those that must never be handed out.\<close>

definition available_frames :: "boot \<Rightarrow> nat set" where
  "available_frames b =
     (\<Union>e\<in>{e\<in>set (mmap_entries b). me_type e = MB_MEMORY_AVAILABLE}.
        frames_inside (me_addr e) (me_addr e + me_len e))"

definition module_frames :: "boot \<Rightarrow> nat set" where
  "module_frames b =
     (if has_flag b MB_FLAG_MODS
      then frames_touched (ucast (mods_addr (mbi b))) (ucast (mods_addr (mbi b)) + mods_bytes b)
        \<union> (\<Union>i<unat (mods_count (mbi b)). frames_touched (ucast (mod_start b i)) (ucast (mod_end b i)))
      else {})"

definition reserved_at_boot :: "boot \<Rightarrow> u64 \<Rightarrow> u64 \<Rightarrow> nat set" where
  "reserved_at_boot b span len =
     frames_touched 0 0x100000 \<union> frames_touched (kernel_start b) (kernel_end b)
     \<union> frames_touched span (span + len) \<union> frames_touched (mbi_addr b) (mbi_addr b + sizeof_mbi)
     \<union> frames_touched (ucast (mmap_addr (mbi b))) (ucast (mmap_addr (mbi b) + mmap_length (mbi b)))
     \<union> module_frames b"

lemma available_below:
  "{f. f < t \<and> (\<exists>e\<in>set (mmap_entries b). me_type e = MB_MEMORY_AVAILABLE
      \<and> f \<in> frames_inside (me_addr e) (me_addr e + me_len e))} = available_frames b \<inter> {..<t}"
  by (auto simp: available_frames_def)

lemma free_available_spec:
  assumes "pmm_inv p" "\<forall>e\<in>set es. me_type e = MB_MEMORY_AVAILABLE \<longrightarrow>
    unat (me_addr e) + unat (me_len e) \<le> 2 ^ 52"
  shows "\<exists>q. free_available p es = Some q \<and> pmm_inv q \<and> same_counts p q
    \<and> free_set q = free_set p \<union> {f. f < total_frames p \<and>
        (\<exists>e\<in>set es. me_type e = MB_MEMORY_AVAILABLE \<and> f \<in> frames_inside (me_addr e) (me_addr e + me_len e))}"
  using assms
proof (induction es arbitrary: p)
  case Nil
  then show ?case by simp
next
  case (Cons e es)
  show ?case
  proof (cases "me_type e = MB_MEMORY_AVAILABLE")
    case True
    then have b: "unat (me_addr e) + unat (me_len e) \<le> 2 ^ 52" using Cons.prems(2) by simp
    then have "unat (me_addr e + me_len e) = unat (me_addr e) + unat (me_len e)"
      by (simp add: unat_add_small)
    then obtain p' where p': "free_range p (me_addr e) (me_addr e + me_len e) = Some p'" "pmm_inv p'"
      "same_counts p p'"
      "free_set p' = free_set p \<union> (frames_inside (me_addr e) (me_addr e + me_len e) \<inter> {..<total_frames p})"
      using free_range_spec[OF Cons.prems(1), of "me_addr e + me_len e" "me_addr e"] b by auto
    obtain q where q: "free_available p' es = Some q" "pmm_inv q" "same_counts p' q"
      "free_set q = free_set p' \<union> {f. f < total_frames p' \<and>
        (\<exists>e\<in>set es. me_type e = MB_MEMORY_AVAILABLE \<and> f \<in> frames_inside (me_addr e) (me_addr e + me_len e))}"
      using Cons.IH[OF p'(2)] Cons.prems(2) by auto
    have "total_frames p' = total_frames p" using p'(3) by (simp add: same_counts_def)
    then have "free_set q = free_set p \<union> {f. f < total_frames p \<and> (\<exists>e\<in>set (e # es).
      me_type e = MB_MEMORY_AVAILABLE \<and> f \<in> frames_inside (me_addr e) (me_addr e + me_len e))}"
      unfolding q(4) p'(4) using True by auto
    then show ?thesis using True p'(1) q(1,2) same_counts_trans[OF p'(3) q(3)] by simp
  next
    case False
    then show ?thesis using Cons by simp
  qed
qed

lemma reserve_modules_spec:
  assumes "pmm_inv p"
  shows "\<exists>q. reserve_modules b p is = Some q \<and> pmm_inv q \<and> same_counts p q
    \<and> free_set q = free_set p - (\<Union>i\<in>set is. frames_touched (ucast (mod_start b i)) (ucast (mod_end b i)))"
  using assms
proof (induction "is" arbitrary: p)
  case (Cons i "is")
  obtain p' where p': "pmm_reserve_range p (ucast (mod_start b i)) (ucast (mod_end b i)) = Some p'"
    "pmm_inv p'" "same_counts p p'"
    "free_set p' = free_set p - frames_touched (ucast (mod_start b i)) (ucast (mod_end b i))"
    using pmm_reserve_range_spec[OF Cons.prems, of "ucast (mod_end b i)"] unat_lt_2_32[of "mod_end b i"]
    by (auto simp del: of_nat_mult)
  then show ?case using Cons.IH[OF p'(2)] same_counts_trans[OF p'(3)] by auto
qed simp

lemma fresh_pmm:
  fixes p :: pmm
  assumes "tot \<le> 64 * words" "tot \<le> 2 ^ 52"
  defines "q \<equiv> p\<lparr>total_frames := tot, bitmap_frames := tot, bitmap_words := words,
    bitmap := replicate words (NOT 0), used_frames := tot\<rparr>"
  shows "pmm_inv q" "free_set q = {}"
proof -
  have t: "bitmap_test q f" if "f < tot" for f
    using that assms(1) by (simp add: bitmap_test_bit q_def bit_simps)
  then show "free_set q = {}" by (auto simp: free_set_def q_def)
  have "used_set q = {..<tot}" using t by (auto simp: used_set_def q_def)
  then show "pmm_inv q" using assms by (simp add: pmm_inv_def)
qed

lemma fold_max_bound:
  assumes "\<forall>e\<in>set es. me_type e = MB_MEMORY_AVAILABLE \<longrightarrow>
    unat (me_addr e) + unat (me_len e) \<le> 2 ^ 52" "unat h \<le> 2 ^ 52"
  shows "unat (fold (\<lambda>e h. if me_type e = MB_MEMORY_AVAILABLE \<and> me_addr e + me_len e > h
    then me_addr e + me_len e else h) es h) \<le> 2 ^ 52"
  using assms
proof (induction es arbitrary: h)
  case (Cons e es)
  have "unat (if me_type e = MB_MEMORY_AVAILABLE \<and> me_addr e + me_len e > h
    then me_addr e + me_len e else h) \<le> 2 ^ 52"
    using Cons.prems by (auto simp: unat_add_small)
  then show ?case using Cons by simp
qed simp

lemma highest_address_bound:
  assumes "boot_ok b" shows "unat (highest_address b) \<le> 2 ^ 52"
proof -
  have "unat (0x100000 + mem_upper (mbi b) * 1024 :: u32) \<le> 2 ^ 52"
    using unat_lt_2_32[of "0x100000 + mem_upper (mbi b) * 1024"] by simp
  moreover have "unat (fold (\<lambda>e h. if me_type e = MB_MEMORY_AVAILABLE \<and> me_addr e + me_len e > h
    then me_addr e + me_len e else h) (mmap_entries b) 0) \<le> 2 ^ 52"
    using assms by (intro fold_max_bound) (auto simp: boot_ok_def)
  ultimately show ?thesis by (simp add: highest_address_def Let_def)
qed

lemma bitmap_sizes:
  assumes "tot \<le> 2 ^ 40"
  shows "tot \<le> 64 * unat (align_up (of_nat tot) 64 div 64 :: u64)"
    "unat (bitmap_bytes_of tot) \<le> 2 ^ 40"
proof -
  have n: "unat (of_nat tot :: u64) = tot" using assms by (intro unat_of_nat_u64) simp
  have up: "unat (align_up (of_nat tot) 64) = (tot + 63) div 64 * 64"
    using unat_align_up[of 6 "of_nat tot"] n assms by simp
  then have w: "unat (align_up (of_nat tot) 64 div 64 :: u64) = (tot + 63) div 64"
    by (simp add: unat_div)
  then show "tot \<le> 64 * unat (align_up (of_nat tot) 64 div 64 :: u64)"
    using ceiling_ge[of 64 tot] by simp
  have "(tot + 63) div 64 \<le> (2 ^ 40 + 63) div 64" using assms by (intro div_le_mono) simp
  then have "(tot + 63) div 64 * 8 \<le> 2 ^ 40 - 4096" by simp
  moreover from this have "unat (align_up (of_nat tot) 64 div 64 * 8 :: u64) = (tot + 63) div 64 * 8"
    by (subst unat_word_ariths(2)) (simp add: w)
  ultimately show "unat (bitmap_bytes_of tot) \<le> 2 ^ 40"
    unfolding bitmap_bytes_of_def by (subst unat_align_up_page) auto
qed

lemma reserve_boot_data_spec:
  assumes "boot_ok b" "pmm_inv p" "unat (span + len) + 4096 \<le> 2 ^ 64" "has_flag b MB_FLAG_MMAP"
    "heap + KHEAP_SIZE = span + len"
  shows "\<exists>q. reserve_boot_data b span heap p = Some q
    \<and> pmm_inv q \<and> same_counts p q \<and> free_set q = free_set p - reserved_at_boot b span len"
proof -
  note R = pmm_reserve_range_spec and T = same_counts_trans
  obtain p1 where 1: "pmm_reserve_range p 0 0x100000 = Some p1" "pmm_inv p1" "same_counts p p1"
    "free_set p1 = free_set p - frames_touched 0 0x100000"
    using R[OF assms(2), of "0x100000" 0] by auto
  obtain p2 where 2: "pmm_reserve_range p1 (kernel_start b) (kernel_end b) = Some p2" "pmm_inv p2"
    "same_counts p1 p2" "free_set p2 = free_set p1 - frames_touched (kernel_start b) (kernel_end b)"
    using R[OF 1(2), of "kernel_end b" "kernel_start b"] assms(1) by (auto simp: boot_ok_def)
  obtain p3 where 3: "pmm_reserve_range p2 span (span + len) = Some p3" "pmm_inv p3"
    "same_counts p2 p3" "free_set p3 = free_set p2 - frames_touched span (span + len)"
    using R[OF 2(2) assms(3), of span] by auto
  obtain p4 where 4: "pmm_reserve_range p3 (mbi_addr b) (mbi_addr b + sizeof_mbi) = Some p4"
    "pmm_inv p4" "same_counts p3 p4"
    "free_set p4 = free_set p3 - frames_touched (mbi_addr b) (mbi_addr b + sizeof_mbi)"
    using R[OF 3(2), of "mbi_addr b + sizeof_mbi" "mbi_addr b"] assms(1)
    by (auto simp: boot_ok_def sizeof_mbi_def unat_add_small)
  let ?me = "mmap_addr (mbi b) + mmap_length (mbi b)"
  obtain p5 where 5: "pmm_reserve_range p4 (ucast (mmap_addr (mbi b))) (ucast ?me) = Some p5"
    "pmm_inv p5" "same_counts p4 p5"
    "free_set p5 = free_set p4 - frames_touched (ucast (mmap_addr (mbi b))) (ucast ?me)"
    using R[OF 4(2), of "ucast ?me" "ucast (mmap_addr (mbi b))"] unat_lt_2_32[of ?me] by auto
  have s: "same_counts p p5"
    by (rule T[OF 1(3) T[OF 2(3) T[OF 3(3) T[OF 4(3) 5(3)]]]])
  show ?thesis
  proof (cases "has_flag b MB_FLAG_MODS")
    case False
    then show ?thesis using 1 2 3 4 5 s assms(4,5)
      by (auto simp: reserve_boot_data_def reserved_at_boot_def module_frames_def)
  next
    case True
    obtain p6 where 6: "pmm_reserve_range p5 (ucast (mods_addr (mbi b)))
        (ucast (mods_addr (mbi b)) + mods_bytes b) = Some p6" "pmm_inv p6" "same_counts p5 p6"
      "free_set p6 = free_set p5 - frames_touched (ucast (mods_addr (mbi b)))
        (ucast (mods_addr (mbi b)) + mods_bytes b)"
      using R[OF 5(2), of "ucast (mods_addr (mbi b)) + mods_bytes b" "ucast (mods_addr (mbi b))"] mods_bytes_bound[of b] by auto
    show ?thesis
      using reserve_modules_spec[OF 6(2), of b "[0..<unat (mods_count (mbi b))]"]
        1 2 3 4 5 6 True T[OF s] T[OF 6(3)] assms(4,5)
      by (auto simp: reserve_boot_data_def reserved_at_boot_def module_frames_def)
  qed
qed

definition boot_frames :: "boot \<Rightarrow> nat" where
  "boot_frames b = unat (highest_address b) div 4096"

definition boot_span_len :: "boot \<Rightarrow> u64" where
  "boot_span_len b = bitmap_bytes_of (boot_frames b) + KHEAP_SIZE"

lemma boot_sizes:
  assumes "boot_ok b"
  shows "boot_frames b \<le> 2 ^ 40" "unat (boot_span_len b) \<le> 2 ^ 41"
    "boot_frames b \<le> 64 * unat (align_up (of_nat (boot_frames b)) 64 div 64 :: u64)"
proof -
  show t: "boot_frames b \<le> 2 ^ 40"
    using highest_address_bound[OF assms] div_le_mono[of _ "2 ^ 52" 4096] by (simp add: boot_frames_def)
  note bs = bitmap_sizes[OF t]
  show "boot_frames b \<le> 64 * unat (align_up (of_nat (boot_frames b)) 64 div 64 :: u64)" by (rule bs(1))
  show "unat (boot_span_len b) \<le> 2 ^ 41"
    using bs(2) by (simp add: boot_span_len_def KHEAP_SIZE_def unat_add_small)
qed

text \<open>What \<^verbatim>\<open>pmm_init\<close> leaves, given the gap \<^term>\<open>span\<close> it found.\<close>

definition init_post :: "boot \<Rightarrow> u64 \<Rightarrow> pmm \<Rightarrow> bool" where
  "init_post b span q \<longleftrightarrow>
     (let avail = available_frames b \<inter> {..<boot_frames b};
          taken = reserved_at_boot b span (boot_span_len b)
      in pmm_inv q \<and> total_frames q = boot_frames b \<and> free_set q = avail - taken
         \<and> usable_frames q = card avail \<and> hole_frames q = boot_frames b - card avail
         \<and> reserved_frames q = card (avail \<inter> taken)
         \<and> heap_base q = span + bitmap_bytes_of (boot_frames b))"

lemma init_counts:
  assumes "pmm_inv p" "pmm_inv q" "total_frames q = total_frames p" "free_set q = free_set p - T"
  shows "used_frames q - used_frames p = card (free_set p \<inter> T)"
proof -
  have "card (free_set p) = card (free_set p - T) + card (free_set p \<inter> T)"
    by (subst card_Un_disjoint[symmetric]) (auto intro: arg_cong[where f = card])
  then show ?thesis
    using used_plus_free[OF assms(1)] used_plus_free[OF assms(2)] assms(3,4) by simp
qed

lemma pmm_init_spec:
  assumes "boot_ok b" "has_flag b MB_FLAG_MMAP"
    "e \<in> set (mmap_entries b)" "gap_in b (boot_span_len b) e x"
  shows "\<exists>q span. pmm_init p b = Some q \<and> init_post b span q
    \<and> (\<exists>e\<in>set (mmap_entries b). gap_in b (boot_span_len b) e span)"
proof -
  let ?t = "boot_frames b" and ?len = "boot_span_len b"
  let ?w = "unat (align_up (of_nat ?t) 64 div 64 :: u64)" and ?bb = "bitmap_bytes_of ?t"
  note sz = boot_sizes[OF assms(1)]
  obtain span where sp: "find_span b ?len = Some span" "span \<noteq> 0"
    "\<exists>e\<in>set (mmap_entries b). gap_in b ?len e span"
    using find_span_spec[OF assms(1) sz(2) assms(2)] assms(3,4) by (auto split: if_splits)
  define p0 where "p0 = p\<lparr>total_frames := ?t, bitmap_frames := ?t, bitmap_words := ?w,
    bitmap := replicate ?w (NOT 0), used_frames := ?t\<rparr>"
  have p0: "pmm_inv p0" "free_set p0 = {}" "total_frames p0 = ?t"
    using fresh_pmm[OF sz(3), of p] sz(1) by (simp_all add: p0_def)
  let ?avail = "available_frames b \<inter> {..<?t}" and ?taken = "reserved_at_boot b span ?len"
  obtain p1 where p1: "free_available p0 (mmap_entries b) = Some p1" "pmm_inv p1" "same_counts p0 p1"
    "free_set p1 = ?avail"
    using free_available_spec[OF p0(1), of "mmap_entries b"] assms(1) p0(2,3)
    by (auto simp: boot_ok_def available_below)
  define p2 where "p2 = p1\<lparr>hole_frames := used_frames p1, usable_frames := ?t - used_frames p1,
    heap_base := span + ?bb\<rparr>"
  have top: "unat span + unat ?len \<le> unat FBCON_APERTURE"
    using sp(3) by (auto simp: gap_in_def region_top_def)
  then have fit: "unat (span + ?len) + 4096 \<le> 2 ^ 64" "\<not> span + ?len > FBCON_APERTURE"
    by (simp_all add: FBCON_APERTURE_def unat_add_small word_less_nat_alt)
  have p2: "pmm_inv p2" "free_set p2 = ?avail" "total_frames p2 = ?t"
    using p1 p0(3) by (simp_all add: p2_def same_counts_def)
  obtain q where q: "reserve_boot_data b span (heap_base p2) p2 = Some q" "pmm_inv q"
    "same_counts p2 q" "free_set q = ?avail - ?taken"
    using reserve_boot_data_spec[OF assms(1) p2(1) fit(1) assms(2), of "heap_base p2"] p2(2)
    by (auto simp: p2_def boot_span_len_def add.assoc)
  let ?r = "q\<lparr>reserved_frames := used_frames q - hole_frames q\<rparr>"
  have "pmm_init p b = Some ?r"
    using sp(1,2) p1(1) q(1,3) fit(2) assms(2)
    by (simp add: pmm_init_def boot_frames_def[symmetric] PAGE_SIZE_def p0_def p2_def
        same_counts_def Let_def boot_span_len_def add.assoc)
  moreover have "init_post b span ?r"
  proof -
    have "used_frames p1 + card ?avail = ?t" "total_frames p1 = ?t"
      using used_plus_free[OF p1(2)] p1(3,4) p0(3) by (simp_all add: same_counts_def)
    moreover have "used_frames q - used_frames p2 = card (?avail \<inter> ?taken)"
      using init_counts[OF p2(1) q(2), of ?taken] q(3,4) p2(2) by (simp add: same_counts_def)
    ultimately show ?thesis
      using q(2-4) by (simp add: init_post_def same_counts_def p2_def Let_def)
        (metis add_diff_cancel_left' add_diff_cancel_right')
  qed
  ultimately show ?thesis using sp(3) by blast
qed

section \<open>Properties\<close>

text \<open>A machine for the witnesses: 64 MiB of memory in one region, the kernel in the second
  megabyte, the information block and the memory map below it.\<close>

definition demo_mem :: memory where
  "demo_mem a = (if a = 0x9000 then 20 else if a = 0x900F then 4 else if a = 0x9014 then 1 else 0)"

definition demo_boot :: boot where
  "demo_boot = \<lparr>kernel_start = 0x100000, kernel_end = 0x200000, mbi_addr = 0x8000,
     mbi = \<lparr>mb_flags = 0x40, mem_upper = 0, mods_count = 0, mods_addr = 0, mmap_length = 24,
       mmap_addr = 0x9000\<rparr>, boot_mem = demo_mem\<rparr>"

definition demo_region :: mmap_entry where
  "demo_region = \<lparr>me_size = 20, me_addr = 0, me_len = 0x4000000, me_type = 1\<rparr>"

lemma demo_entries: "mmap_entries demo_boot = [demo_region]"
proof -
  have "read_mmap_entry demo_mem 0x9000 = demo_region"
    by (simp add: read_mmap_entry_def read64_def read32_def demo_mem_def demo_region_def)
  moreover have "mmap_walk demo_mem 0x9018 0x9018 = []" by (subst mmap_walk.simps) simp
  ultimately have "mmap_walk demo_mem 0x9000 0x9018 = [demo_region]"
    by (subst mmap_walk.simps) (simp add: demo_region_def)
  then show ?thesis by (simp add: mmap_entries_def demo_boot_def)
qed

lemma demo_flags: "has_flag demo_boot MB_FLAG_MMAP" "\<not> has_flag demo_boot MB_FLAG_MODS"
  by (simp_all add: has_flag_def demo_boot_def MB_FLAG_MMAP_def MB_FLAG_MODS_def)

lemma demo_boot_ok: "boot_ok demo_boot"
  by (simp add: boot_ok_def demo_entries) (simp add: demo_boot_def demo_region_def)

lemma demo_frames: "boot_frames demo_boot = 16384"
  using demo_flags by (simp add: boot_frames_def highest_address_def demo_entries demo_region_def
      MB_MEMORY_AVAILABLE_def)

lemma demo_span_len: "boot_span_len demo_boot = 0x801000"
  by (simp add: boot_span_len_def demo_frames bitmap_bytes_of_def align_up_def KHEAP_SIZE_def)

lemma demo_gap: "gap_in demo_boot (boot_span_len demo_boot) demo_region 0x200000"
  using demo_flags by (simp add: gap_in_def demo_span_len region_top_def is_clear_def obstructions_def
      overlaps_def MB_MEMORY_AVAILABLE_def FBCON_APERTURE_def sizeof_mbi_def)
   (simp add: demo_boot_def demo_region_def)



text \<open>The figures reported after initialisation: the total is the memory of the available
  regions, the free figure is the free frames, and what is in use is exactly what the kernel
  reserved of that memory; holes between the regions count as neither.\<close>

theorem pmm_init_statistics:
  assumes "boot_ok b" "has_flag b MB_FLAG_MMAP" "e \<in> set (mmap_entries b)"
    "gap_in b (boot_span_len b) e x" "pmm_init p b = Some q"
  shows "unat (pmm_total_bytes q) = 4096 * card (available_frames b \<inter> {..<boot_frames b})
    \<and> unat (pmm_free_bytes q) = 4096 * card (free_set q)
    \<and> pmm_used_bytes q = pmm_kernel_bytes q
    \<and> unat (pmm_kernel_bytes q) + unat (pmm_free_bytes q) = unat (pmm_total_bytes q)"
proof -
  let ?a = "available_frames b \<inter> {..<boot_frames b}"
  obtain span where sp: "init_post b span q" using pmm_init_spec[OF assms(1-4), of p] assms(5) by auto
  let ?t = "reserved_at_boot b span (boot_span_len b)"
  have i: "pmm_inv q" "free_set q = ?a - ?t" "usable_frames q = card ?a"
    "reserved_frames q = card (?a \<inter> ?t)" "total_frames q = boot_frames b"
    using sp by (simp_all add: init_post_def Let_def)
  have split: "card ?a = card (?a - ?t) + card (?a \<inter> ?t)"
    by (subst card_Un_disjoint[symmetric]) (auto intro: arg_cong[where f = card])
  have "card ?a \<le> card {..<boot_frames b}" by (rule card_mono) auto
  then have le: "card ?a \<le> 2 ^ 40" using boot_sizes(1)[OF assms(1)] by simp
  have le2: "card (?a - ?t) \<le> 2 ^ 40" "card (?a \<inter> ?t) \<le> 2 ^ 40" using split le by simp_all
  have un: "unat (of_nat n * 4096 :: u64) = 4096 * n" if "n \<le> 2 ^ 40" for n
    using unat_of_nat_u64[of "n * 4096"] that by simp
  have free: "pmm_free_bytes q = of_nat (card (free_set q)) * 4096"
    using used_plus_free[OF i(1)] unfolding pmm_free_bytes_def
    by (metis add_diff_cancel_left' of_nat_add)
  have 1: "unat (pmm_total_bytes q) = 4096 * card ?a" "unat (pmm_free_bytes q) = 4096 * card (?a - ?t)"
    "unat (pmm_kernel_bytes q) = 4096 * card (?a \<inter> ?t)"
    using un[OF le] un[OF le2(1)] un[OF le2(2)] i(2-4)
    by (simp_all add: pmm_total_bytes_def free pmm_kernel_bytes_def)
  have "pmm_total_bytes q = pmm_kernel_bytes q + pmm_free_bytes q"
    using split i(2-4) by (simp add: pmm_total_bytes_def free pmm_kernel_bytes_def algebra_simps)
  then have "pmm_used_bytes q = pmm_kernel_bytes q" by (simp add: pmm_used_bytes_def)
  then show ?thesis using 1 split i(2) by simp
qed

theorem pmm_init_statistics_witness:
  "\<exists>q. pmm_init demo_pmm demo_boot = Some q \<and> pmm_used_bytes q = pmm_kernel_bytes q
    \<and> unat (pmm_kernel_bytes q) + unat (pmm_free_bytes q) = unat (pmm_total_bytes q)"
proof -
  have e: "demo_region \<in> set (mmap_entries demo_boot)" by (simp add: demo_entries)
  obtain q where q: "pmm_init demo_pmm demo_boot = Some q"
    using pmm_init_spec[OF demo_boot_ok demo_flags(1) e demo_gap, of demo_pmm] by blast
  from pmm_init_statistics[OF demo_boot_ok demo_flags(1) e demo_gap q] q show ?thesis by blast
qed

text \<open>The search for that gap ends, and it is complete: \<^verbatim>\<open>find_span\<close> returns 0 exactly when
  no page-aligned place of the wanted length exists above the kernel in any available region, and
  otherwise returns one.\<close>

theorem find_span_complete:
  assumes "boot_ok b" "unat len \<le> 2 ^ 41" "has_flag b MB_FLAG_MMAP"
  shows "\<exists>r. find_span b len = Some r
    \<and> (r = 0 \<longleftrightarrow> \<not> (\<exists>e\<in>set (mmap_entries b). \<exists>x. gap_in b len e x))
    \<and> (r \<noteq> 0 \<longrightarrow> (\<exists>e\<in>set (mmap_entries b). gap_in b len e r))"
  using find_span_spec[OF assms] by (auto split: if_splits)

theorem find_span_complete_witness:
  "\<exists>r. find_span demo_boot 0x801000 = Some r \<and> r \<noteq> 0 \<and> gap_in demo_boot 0x801000 demo_region r"
  using find_span_complete[OF demo_boot_ok, of "0x801000"] demo_flags(1) demo_gap
  by (auto simp: demo_entries demo_span_len)

end
