(* ===== verification/Allocator.thy ===== *)
theory Allocator
  imports Wos_Prelude
begin

text \<open>
  The contract of a byte allocator, which the kernel heap (\<^verbatim>\<open>kernel/mm/kheap.c\<close>) and the heap of the
  application library (\<^verbatim>\<open>lib/wkernel/src/malloc.c\<close>) both promise, and what any client that allocates
  and frees through it can rely on.  \<open>client_run\<close> is such a client: a list of requests, each of which
  allocates or gives back one of the pointers it holds.
\<close>

datatype request = Alloc u64 | Release nat

text \<open>The client holds a list of pointers; a failed allocation adds none.\<close>

fun client_run ::
  "('s \<Rightarrow> u64 \<Rightarrow> ('s \<times> u64) option) \<Rightarrow> ('s \<Rightarrow> u64 \<Rightarrow> 's option) \<Rightarrow> 's \<Rightarrow> u64 list \<Rightarrow> request list
   \<Rightarrow> ('s \<times> u64 list) option" where
  "client_run al re s ps [] = Some (s, ps)"
| "client_run al re s ps (Alloc n # rs) =
     (case al s n of
        None \<Rightarrow> None
      | Some (s', p) \<Rightarrow> client_run al re s' (if p = 0 then ps else p # ps) rs)"
| "client_run al re s ps (Release i # rs) =
     (if i < length ps
      then (case re s (ps ! i) of
              None \<Rightarrow> None
            | Some s' \<Rightarrow> client_run al re s' (take i ps @ drop (Suc i) ps) rs)
      else client_run al re s ps rs)"

fun request_ok :: "request \<Rightarrow> bool" where
  "request_ok (Alloc n) \<longleftrightarrow> 0 < unat n \<and> unat n \<le> 2 ^ 62"
| "request_ok (Release i) \<longleftrightarrow> True"

text \<open>The pointers a client holds are those of the live payloads, each once.\<close>

definition holds ::
  "('s \<Rightarrow> (u64 \<times> nat) set \<Rightarrow> bool) \<Rightarrow> 's \<Rightarrow> u64 list \<Rightarrow> (u64 \<times> nat) set \<Rightarrow> bool" where
  "holds repr s ps live \<longleftrightarrow> repr s live \<and> fst ` live = set ps \<and> distinct ps"

text \<open>\<open>repr s live\<close>: the live payloads of state \<open>s\<close> are the pointers and lengths of \<open>live\<close>.\<close>

locale heap_allocator =
  fixes repr :: "'s \<Rightarrow> (u64 \<times> nat) set \<Rightarrow> bool"
    and alloc :: "'s \<Rightarrow> u64 \<Rightarrow> ('s \<times> u64) option"
    and release :: "'s \<Rightarrow> u64 \<Rightarrow> 's option"
  assumes live_disjoint: "\<lbrakk>repr s live; (p, n) \<in> live; (q, k) \<in> live; (p, n) \<noteq> (q, k)\<rbrakk>
      \<Longrightarrow> p \<noteq> q \<and> {unat p..<unat p + n} \<inter> {unat q..<unat q + k} = {}"
    and alloc_law: "\<lbrakk>repr s live; 0 < unat sz; unat sz \<le> 2 ^ 62\<rbrakk>
      \<Longrightarrow> \<exists>s' p. alloc s sz = Some (s', p) \<and>
            (if p = 0 then repr s' live
             else \<exists>n\<ge>unat sz. (p, n) \<notin> live \<and> repr s' (insert (p, n) live))"
    and release_law: "\<lbrakk>repr s live; (p, n) \<in> live\<rbrakk>
      \<Longrightarrow> \<exists>s'. release s p = Some s' \<and> repr s' (live - {(p, n)})"
begin

lemma holds_alloc:
  assumes "holds repr s ps live" "0 < unat sz" "unat sz \<le> 2 ^ 62"
  shows "\<exists>s' p live'. alloc s sz = Some (s', p) \<and> holds repr s' (if p = 0 then ps else p # ps) live'"
proof -
  obtain s' p where a: "alloc s sz = Some (s', p)"
    "if p = 0 then repr s' live else \<exists>n\<ge>unat sz. (p, n) \<notin> live \<and> repr s' (insert (p, n) live)"
    using alloc_law[of s live sz] assms by (auto simp: holds_def)
  show ?thesis
  proof (cases "p = 0")
    case True
    then show ?thesis using a assms(1) by (auto simp: holds_def)
  next
    case False
    then obtain n where n: "(p, n) \<notin> live" "repr s' (insert (p, n) live)" using a(2) by auto
    have "p \<notin> set ps"
    proof
      assume "p \<in> set ps"
      then obtain k where k: "(p, k) \<in> live" using assms(1) by (force simp: holds_def)
      then show False using live_disjoint[OF n(2), of p n p k] n(1) by auto
    qed
    then have "holds repr s' (p # ps) (insert (p, n) live)" using n assms(1) by (simp add: holds_def)
    then show ?thesis using a(1) False by auto
  qed
qed

lemma holds_release:
  assumes "holds repr s ps live" "i < length ps"
  shows "\<exists>s' live'. release s (ps ! i) = Some s' \<and> holds repr s' (take i ps @ drop (Suc i) ps) live'"
proof -
  have "ps ! i \<in> fst ` live" using assms by (simp add: holds_def)
  then obtain n where n: "(ps ! i, n) \<in> live" by force
  obtain s' where s': "release s (ps ! i) = Some s'" "repr s' (live - {(ps ! i, n)})"
    using release_law[OF _ n, of s] assms(1) by (auto simp: holds_def)
  have split: "ps = take i ps @ ps ! i # drop (Suc i) ps" using assms(2) by (rule id_take_nth_drop)
  then have d: "distinct (take i ps @ ps ! i # drop (Suc i) ps)" using assms(1) by (simp add: holds_def)
  have "fst ` (live - {(ps ! i, n)}) = fst ` live - {ps ! i}"
  proof -
    have "fst x \<noteq> ps ! i" if "x \<in> live" "x \<noteq> (ps ! i, n)" for x
      using live_disjoint[of s live "ps ! i" n "fst x" "snd x"] assms(1) n that
      by (auto simp: holds_def)
    then show ?thesis by auto
  qed
  also have "\<dots> = set (take i ps @ drop (Suc i) ps)"
  proof -
    have "fst ` live = set (take i ps @ ps ! i # drop (Suc i) ps)"
      using assms(1) split by (simp add: holds_def)
    then show ?thesis using d by auto
  qed
  finally have "holds repr s' (take i ps @ drop (Suc i) ps) (live - {(ps ! i, n)})"
    using s'(2) d by (simp add: holds_def)
  then show ?thesis using s'(1) by blast
qed

lemma client_run_safe:
  assumes "holds repr s ps live" "list_all request_ok rs"
  shows "\<exists>s' ps' live'. client_run alloc release s ps rs = Some (s', ps') \<and> holds repr s' ps' live'"
  using assms
proof (induction rs arbitrary: s ps live)
  case (Cons r rs)
  show ?case
  proof (cases r)
    case (Alloc n)
    then obtain s' p live' where "alloc s n = Some (s', p)" "holds repr s' (if p = 0 then ps else p # ps) live'"
      using holds_alloc[OF Cons.prems(1), of n] Cons.prems(2) by auto
    then show ?thesis using Cons.IH Cons.prems(2) Alloc by fastforce
  next
    case (Release i)
    show ?thesis
    proof (cases "i < length ps")
      case True
      then obtain s' live' where "release s (ps ! i) = Some s'"
        "holds repr s' (take i ps @ drop (Suc i) ps) live'"
        using holds_release[OF Cons.prems(1)] by blast
      then show ?thesis using Cons.IH Cons.prems(2) Release True by fastforce
    next
      case False
      then show ?thesis using Cons Release by auto
    qed
  qed
qed auto

end

end
