(* ===== verification/Kheap.thy ===== *)
theory Kheap
  imports Allocator
begin

text \<open>
  The kernel heap, \<^verbatim>\<open>kernel/mm/kheap.c\<close>: a first-fit free list with splitting and coalescing.

  The block headers are a store from addresses to \<open>block\<close> records, read and written field by
  field as the code does; 0 is the null pointer.  The bytes of the payloads are a second store,
  which only \<^verbatim>\<open>kzalloc\<close> writes.  \<open>kmalloc\<close> is a value of an option because its walk along the list
  ends only if the list does.

  A heap represents a list of blocks \<open>(address, size, free)\<close> when the headers form a doubly linked
  list of them and they tile the arena.  \<open>alloc_blocks\<close> and \<open>free_block\<close> are the operations on
  that list; the lemmas show that the pointer code implements them and keeps the invariant, from
  which follow that payloads never overlap and that freeing what was allocated restores the heap.
\<close>

unbundle bit_operations_syntax

section \<open>State and operations\<close>

record block =
  bmagic :: u32
  bsize :: u64
  bfree :: bool
  bnext :: u64
  bprev :: u64

record kheap =
  headers :: "u64 \<Rightarrow> block"
  payload :: "u64 \<Rightarrow> u8"
  heap_head :: u64
  heap_total :: u64
  heap_used :: u64

definition KHEAP_MAGIC :: u32 where "KHEAP_MAGIC = 0x57484541"
definition MIN_SPLIT :: u64 where "MIN_SPLIT = 32"
definition sizeof_block :: u64 where "sizeof_block = 40"

text \<open>An assignment to one field of the header at an address.\<close>

definition set_hdr :: "(u64 \<Rightarrow> block) \<Rightarrow> u64 \<Rightarrow> (block \<Rightarrow> block) \<Rightarrow> u64 \<Rightarrow> block" where
  "set_hdr m a f = m(a := f (m a))"

definition kheap_init :: "kheap \<Rightarrow> u64 \<Rightarrow> u64 \<Rightarrow> kheap" where
  "kheap_init h base sz =
     h\<lparr>heap_head := base, heap_total := sz, heap_used := 0,
       headers := (headers h)(base := \<lparr>bmagic = KHEAP_MAGIC, bsize = sz - sizeof_block,
         bfree = True, bnext = 0, bprev = 0\<rparr>)\<rparr>"

text \<open>The search of \<^verbatim>\<open>kmalloc\<close>: the first free block that is large enough, or 0.\<close>

partial_function (option) find_fit :: "(u64 \<Rightarrow> block) \<Rightarrow> u64 \<Rightarrow> u64 \<Rightarrow> u64 option" where
  "find_fit m sz b =
     (if b = 0 then Some 0
      else if \<not> bfree (m b) \<or> bsize (m b) < sz then find_fit m sz (bnext (m b))
      else Some b)"

definition split_block :: "(u64 \<Rightarrow> block) \<Rightarrow> u64 \<Rightarrow> u64 \<Rightarrow> u64 \<Rightarrow> block" where
  "split_block m b sz =
     (let rest = b + sizeof_block + sz;
          m = m(rest := \<lparr>bmagic = KHEAP_MAGIC, bsize = bsize (m b) - sz - sizeof_block,
                         bfree = True, bnext = bnext (m b), bprev = b\<rparr>);
          m = (if bnext (m b) \<noteq> 0 then set_hdr m (bnext (m b)) (bprev_update (\<lambda>_. rest)) else m);
          m = set_hdr m b (bnext_update (\<lambda>_. rest))
      in set_hdr m b (bsize_update (\<lambda>_. sz)))"

definition kmalloc :: "kheap \<Rightarrow> u64 \<Rightarrow> (kheap \<times> u64) option" where
  "kmalloc h sz =
     (if sz = 0 then Some (h, 0)
      else
        (let sz = align_up sz 8 in
         case find_fit (headers h) sz (heap_head h) of
           None \<Rightarrow> None
         | Some b \<Rightarrow>
             if b = 0 then Some (h, 0)
             else
               (let m = headers h;
                    m = (if bsize (m b) \<ge> sz + sizeof_block + MIN_SPLIT
                         then split_block m b sz else m);
                    m = set_hdr m b (bfree_update (\<lambda>_. False))
                in Some (h\<lparr>headers := m, heap_used := heap_used h + bsize (m b)\<rparr>,
                         b + sizeof_block))))"

definition kzalloc :: "kheap \<Rightarrow> u64 \<Rightarrow> (kheap \<times> u64) option" where
  "kzalloc h sz =
     (case kmalloc h sz of
        None \<Rightarrow> None
      | Some (h, p) \<Rightarrow>
          if p \<noteq> 0 then
            (let b = p - sizeof_block in
             Some (h\<lparr>payload := fold (\<lambda>i m. m(p + of_nat i := 0))
                       [0..<unat (bsize (headers h b))] (payload h)\<rparr>, p))
          else Some (h, p))"

definition coalesce_with_next :: "(u64 \<Rightarrow> block) \<Rightarrow> u64 \<Rightarrow> u64 \<Rightarrow> block" where
  "coalesce_with_next m b =
     (let n = bnext (m b) in
      if n = 0 \<or> \<not> bfree (m n) \<or> \<not> bfree (m b) then m
      else
        (let m = set_hdr m b (bsize_update (\<lambda>_. bsize (m b) + (bsize (m n) + sizeof_block)));
             m = set_hdr m b (bnext_update (\<lambda>_. bnext (m n)))
         in if bnext (m n) \<noteq> 0 then set_hdr m (bnext (m n)) (bprev_update (\<lambda>_. b)) else m))"

definition kfree :: "kheap \<Rightarrow> u64 \<Rightarrow> kheap option" where
  "kfree h ptr =
     (if ptr = 0 then Some h
      else
        (let b = ptr - sizeof_block; m = headers h in
         if bmagic (m b) \<noteq> KHEAP_MAGIC then None
         else if bfree (m b) then None
         else
           (let m = set_hdr m b (bfree_update (\<lambda>_. True));
                used = heap_used h - bsize (m b);
                m = coalesce_with_next m b;
                m = (if bprev (m b) \<noteq> 0 then coalesce_with_next m (bprev (m b)) else m)
            in Some (h\<lparr>headers := m, heap_used := used\<rparr>))))"

definition kheap_used_bytes :: "kheap \<Rightarrow> u64" where "kheap_used_bytes h = heap_used h"
definition kheap_total_bytes :: "kheap \<Rightarrow> u64" where "kheap_total_bytes h = heap_total h"
definition kheap_free_bytes :: "kheap \<Rightarrow> u64" where "kheap_free_bytes h = heap_total h - heap_used h"

section \<open>The block list\<close>

type_synonym blocks = "(u64 \<times> u64 \<times> bool) list"

text \<open>\<open>seg m p c bs p' c'\<close>: following the headers from \<open>c\<close>, whose predecessor is \<open>p\<close>, passes
  exactly the blocks \<open>bs\<close> and arrives at \<open>c'\<close>, whose predecessor is \<open>p'\<close>.\<close>

fun seg :: "(u64 \<Rightarrow> block) \<Rightarrow> u64 \<Rightarrow> u64 \<Rightarrow> blocks \<Rightarrow> u64 \<Rightarrow> u64 \<Rightarrow> bool" where
  "seg m p c [] p' c' \<longleftrightarrow> p = p' \<and> c = c'"
| "seg m p c ((a, s, f) # bs) p' c' \<longleftrightarrow> c = a \<and> a \<noteq> 0 \<and> bmagic (m a) = KHEAP_MAGIC \<and> bsize (m a) = s
     \<and> bfree (m a) = f \<and> bprev (m a) = p \<and> seg m a (bnext (m a)) bs p' c'"

text \<open>The blocks lie one after another from \<open>n\<close> to \<open>e\<close>, headers included.\<close>

fun tiles :: "nat \<Rightarrow> blocks \<Rightarrow> nat \<Rightarrow> bool" where
  "tiles n [] e \<longleftrightarrow> n = e"
| "tiles n ((a, s, f) # bs) e \<longleftrightarrow> unat a = n \<and> 8 dvd unat s \<and> tiles (n + 40 + unat s) bs e"

definition coalesced :: "blocks \<Rightarrow> bool" where
  "coalesced bs \<longleftrightarrow> successively (\<lambda>(a, s, f) (a', s', f'). \<not> (f \<and> f')) bs"

definition used_total :: "blocks \<Rightarrow> nat" where
  "used_total bs = sum_list (map (\<lambda>(a, s, f). if f then 0 else unat s) bs)"

definition heap_repr :: "kheap \<Rightarrow> blocks \<Rightarrow> bool" where
  "heap_repr h bs \<longleftrightarrow> (\<exists>p. seg (headers h) 0 (heap_head h) bs p 0)
     \<and> tiles (unat (heap_head h)) bs (unat (heap_head h) + unat (heap_total h))
     \<and> 0 < unat (heap_head h) \<and> 8 dvd unat (heap_head h)
     \<and> unat (heap_head h) + unat (heap_total h) < 2 ^ 63
     \<and> coalesced bs \<and> unat (heap_used h) = used_total bs"

lemma seg_append:
  "seg m p c (xs @ ys) p' c' \<longleftrightarrow> (\<exists>q d. seg m p c xs q d \<and> seg m q d ys p' c')"
proof (induction xs arbitrary: p c)
  case (Cons x xs)
  then show ?case by (cases x) simp
qed simp

lemma seg_frame:
  assumes "\<And>x. x \<in> fst ` set bs \<Longrightarrow> m' x = m x"
  shows "seg m' p c bs p' c' \<longleftrightarrow> seg m p c bs p' c'"
  using assms by (induction m p c bs p' c' rule: seg.induct) auto

lemma seg_nonnull: "seg m p c bs p' c' \<Longrightarrow> 0 \<notin> fst ` set bs"
  by (induction m p c bs p' c' rule: seg.induct) auto

lemma tiles_append: "tiles n (xs @ ys) e \<longleftrightarrow> (\<exists>k. tiles n xs k \<and> tiles k ys e)"
proof (induction xs arbitrary: n)
  case (Cons x xs)
  then show ?case by (cases x) simp
qed simp

lemma tiles_le: "tiles n bs e \<Longrightarrow> n \<le> e"
proof (induction bs arbitrary: n)
  case (Cons x bs)
  obtain a s f where x: "x = (a, s, f)" by (cases x)
  have "n + 40 + unat s \<le> e" using Cons.IH[of "n + 40 + unat s"] Cons.prems by (simp add: x)
  then show ?case by simp
qed simp

lemma tiles_addr:
  "tiles n bs e \<Longrightarrow> (a, s, f) \<in> set bs \<Longrightarrow> n \<le> unat a \<and> unat a + 40 + unat s \<le> e"
proof (induction bs arbitrary: n)
  case (Cons x bs)
  obtain a' s' f' where x: "x = (a', s', f')" by (cases x)
  have t: "tiles (n + 40 + unat s') bs e" and n: "unat a' = n" using Cons.prems(1) by (simp_all add: x)
  show ?case
  proof (cases "(a, s, f) = x")
    case True
    then show ?thesis using tiles_le[OF t] n by (simp add: x)
  next
    case False
    then show ?thesis using Cons.IH[OF t] Cons.prems(2) by simp
  qed
qed simp

lemma tiles_distinct: "tiles n bs e \<Longrightarrow> distinct (map fst bs)"
proof (induction bs arbitrary: n)
  case (Cons x bs)
  obtain a s f where x: "x = (a, s, f)" by (cases x)
  have t: "tiles (n + 40 + unat s) bs e" and n: "unat a = n" using Cons.prems by (simp_all add: x)
  have "a \<notin> fst ` set bs"
  proof
    assume "a \<in> fst ` set bs"
    then obtain s' f' where "(a, s', f') \<in> set bs" by auto
    then show False using tiles_addr[OF t] n by fastforce
  qed
  then show ?case using Cons.IH[OF t] by (simp add: x)
qed simp


lemma tiles_used: "tiles n bs e \<Longrightarrow> n + used_total bs \<le> e"
proof (induction bs arbitrary: n)
  case (Cons x bs)
  obtain a s f where x: "x = (a, s, f)" by (cases x)
  show ?case using Cons.IH[of "n + 40 + unat s"] Cons.prems by (auto simp: x used_total_def)
qed (simp add: used_total_def)

lemma empty_simps [simp]: "used_total [] = 0" "coalesced []"
  by (simp_all add: used_total_def coalesced_def)

lemma used_total_append: "used_total (xs @ ys) = used_total xs + used_total ys"
  by (simp add: used_total_def)

lemma used_total_Cons: "used_total ((a, s, f) # bs) = (if f then 0 else unat s) + used_total bs"
  by (simp add: used_total_def)

lemma coalesced_Cons_iff:
  "coalesced ((a, s, f) # bs) \<longleftrightarrow> coalesced bs \<and> (bs \<noteq> [] \<longrightarrow> \<not> (f \<and> snd (snd (hd bs))))"
  by (cases bs) (auto simp: coalesced_def)

lemma coalesced_append_iff:
  "coalesced (xs @ ys) \<longleftrightarrow> coalesced xs \<and> coalesced ys
     \<and> (xs \<noteq> [] \<and> ys \<noteq> [] \<longrightarrow> \<not> (snd (snd (last xs)) \<and> snd (snd (hd ys))))"
  by (auto simp: coalesced_def successively_append_iff split: prod.splits)

lemmas coalesced_simps = coalesced_Cons_iff coalesced_append_iff

section \<open>Allocation\<close>

text \<open>Writing the back pointer of the block after the one being changed, if there is one.\<close>

definition relink :: "(u64 \<Rightarrow> block) \<Rightarrow> u64 \<Rightarrow> u64 \<Rightarrow> u64 \<Rightarrow> block" where
  "relink m c q = (if c \<noteq> 0 then set_hdr m c (bprev_update (\<lambda>_. q)) else m)"

lemma relink_other [simp]: "x \<noteq> c \<Longrightarrow> relink m c q x = m x"
  by (simp add: relink_def set_hdr_def)

lemma seg_relink:
  assumes "seg m p c bs p' 0" "distinct (map fst bs)"
  shows "\<exists>p''. seg (relink m c q) q c bs p'' 0"
proof (cases bs)
  case (Cons x bs')
  obtain a s f where x: "x = (a, s, f)" by (cases x)
  have a: "c = a" "a \<noteq> 0" "bmagic (m a) = KHEAP_MAGIC" "bsize (m a) = s" "bfree (m a) = f"
    "seg m a (bnext (m a)) bs' p' 0" using assms(1) by (simp_all add: Cons x)
  have "relink m a q y = m y" if "y \<in> fst ` set bs'" for y
    using assms(2) that by (intro relink_other) (auto simp: Cons x)
  then have "seg (relink m a q) a (bnext (m a)) bs' p' 0"
    using a(6) by (subst seg_frame[where m = m]) auto
  moreover have "relink m a q a = (m a)\<lparr>bprev := q\<rparr>" using a(2) by (simp add: relink_def set_hdr_def)
  ultimately show ?thesis using a by (auto simp: Cons x)
qed (use assms in simp)

text \<open>The specification of an allocation: the first free block that is large enough is used whole,
  or cut in two when the remainder is worth keeping.\<close>

definition fits :: "u64 \<Rightarrow> u64 \<times> u64 \<times> bool \<Rightarrow> bool" where
  "fits sz = (\<lambda>(a, s, f). f \<and> sz \<le> s)"

definition cut :: "u64 \<Rightarrow> u64 \<Rightarrow> u64 \<Rightarrow> blocks" where
  "cut sz a s =
     (if unat sz + 72 \<le> unat s then [(a, sz, False), (a + 40 + sz, s - sz - 40, True)]
      else [(a, s, False)])"

fun alloc_blocks :: "u64 \<Rightarrow> blocks \<Rightarrow> (blocks \<times> u64) option" where
  "alloc_blocks sz [] = None"
| "alloc_blocks sz ((a, s, f) # bs) =
     (if fits sz (a, s, f) then Some (cut sz a s @ bs, a + 40)
      else map_option (\<lambda>(bs', r). ((a, s, f) # bs', r)) (alloc_blocks sz bs))"

lemma alloc_blocks_None: "alloc_blocks sz bs = None \<longleftrightarrow> (\<forall>b\<in>set bs. \<not> fits sz b)"
  by (induction sz bs rule: alloc_blocks.induct) auto

lemma alloc_blocks_split:
  "\<forall>b\<in>set xs. \<not> fits sz b \<Longrightarrow> fits sz (a, s, f) \<Longrightarrow>
   alloc_blocks sz (xs @ (a, s, f) # ys) = Some (xs @ cut sz a s @ ys, a + 40)"
proof (induction xs)
  case (Cons x xs)
  then show ?case by (cases x) simp
qed simp

lemma find_fit_seg:
  assumes "seg m p c xs q d" "\<forall>b\<in>set xs. \<not> fits sz b"
  shows "find_fit m sz c = find_fit m sz d"
  using assms
proof (induction xs arbitrary: p c)
  case (Cons x xs)
  obtain a s f where x: "x = (a, s, f)" by (cases x)
  have "find_fit m sz a = find_fit m sz (bnext (m a))"
    using Cons.prems by (subst find_fit.simps) (auto simp: x fits_def not_le)
  then show ?case using Cons by (auto simp: x)
qed simp


lemma split_block_relink:
  assumes "rest = b + 40 + sz" "rest \<noteq> b" "bnext (m b) \<noteq> b" "bnext (m b) \<noteq> rest"
  shows "split_block m b sz = (relink m (bnext (m b)) rest)
    (rest := \<lparr>bmagic = KHEAP_MAGIC, bsize = bsize (m b) - sz - 40, bfree = True,
              bnext = bnext (m b), bprev = b\<rparr>,
     b := (m b)\<lparr>bnext := rest, bsize := sz\<rparr>)"
  using assms by (auto simp: split_block_def relink_def set_hdr_def sizeof_block_def Let_def fun_eq_iff)

text \<open>The arithmetic of a block that is cut: nothing wraps.\<close>

lemma cut_arith:
  fixes a s sz :: u64
  assumes "unat a + 40 + unat s < 2 ^ 63" "unat sz + 72 \<le> unat s"
  shows "unat (a + 40 + sz) = unat a + 40 + unat sz" "unat (s - sz - 40) = unat s - unat sz - 40"
proof -
  show "unat (a + 40 + sz) = unat a + 40 + unat sz"
  proof -
    have "unat (a + 40) = unat a + 40" using assms(1) by (subst unat_add_small) simp_all
    then show ?thesis using assms by (subst unat_add_small) simp_all
  qed
  have "unat (s - sz) = unat s - unat sz" using assms by (intro unat_sub) (simp add: word_le_nat_alt)
  moreover from this have "unat (s - sz - 40) = unat (s - sz) - 40"
    using assms by (subst unat_sub) (auto simp: word_le_nat_alt)
  ultimately show "unat (s - sz - 40) = unat s - unat sz - 40" by simp
qed

lemma seg_split:
  assumes "seg m 0 c (xs @ (a, s, True) # ys) p 0" "tiles n (xs @ (a, s, True) # ys) e" "e < 2 ^ 63"
    "unat sz + 72 \<le> unat s"
  shows "\<exists>p'. seg (set_hdr (split_block m a sz) a (bfree_update (\<lambda>_. False))) 0 c
    (xs @ (a, sz, False) # (a + 40 + sz, s - sz - 40, True) # ys) p' 0"
proof -
  let ?rest = "a + 40 + sz"
  obtain q where q: "seg m 0 c xs q a" "a \<noteq> 0" "bmagic (m a) = KHEAP_MAGIC" "bsize (m a) = s"
    "bprev (m a) = q" "seg m a (bnext (m a)) ys p 0"
    using assms(1) by (auto simp: seg_append)
  have d: "distinct (map fst (xs @ (a, s, True) # ys))" by (rule tiles_distinct[OF assms(2)])
  have ta: "unat a + 40 + unat s \<le> e" using tiles_addr[OF assms(2), of a s True] by simp
  note ar = cut_arith[of a s sz]
  obtain k where k: "tiles n xs k" "unat a = k" "tiles (k + 40 + unat s) ys e"
    using assms(2) by (auto simp: tiles_append)
  have ra: "unat ?rest = unat a + 40 + unat sz" using ar(1) ta assms(3,4) by simp
  have ra': "?rest \<noteq> a" using ra by (metis add_eq_self_zero add.assoc add_is_0 zero_neq_numeral)
  have restx: "?rest \<notin> fst ` set xs"
  proof
    assume "?rest \<in> fst ` set xs"
    then obtain s' f' where "(?rest, s', f') \<in> set xs" by auto
    then show False using tiles_addr[OF k(1)] k(2) ra by fastforce
  qed
  have resty: "?rest \<notin> fst ` set ys"
  proof
    assume "?rest \<in> fst ` set ys"
    then obtain s' f' where "(?rest, s', f') \<in> set ys" by auto
    then show False using tiles_addr[OF k(3)] k(2) ra assms(4) by fastforce
  qed
  have nx: "bnext (m a) = 0 \<or> bnext (m a) \<in> fst ` set ys" using q(6) by (cases ys) auto
  have r0: "?rest \<noteq> 0" using ra by (metis add_is_0 unsigned_0 zero_neq_numeral)
  have x0: "0 \<notin> fst ` set xs" by (rule seg_nonnull[OF q(1)])
  have dd: "a \<notin> fst ` set xs" "a \<notin> fst ` set ys" "fst ` set xs \<inter> fst ` set ys = {}"
    "distinct (map fst ys)" using d by simp_all
  have n: "bnext (m a) \<noteq> a" "bnext (m a) \<noteq> ?rest" "bnext (m a) \<notin> fst ` set xs"
    using nx dd(2) q(2) apply metis
    using nx resty r0 apply metis
    using nx x0 dd(3) by (metis disjoint_iff)
  let ?m = "set_hdr (split_block m a sz) a (bfree_update (\<lambda>_. False))"
  note sp = split_block_relink[where m = m and b = a and sz = sz, OF refl ra' n(1,2)]
  have ma: "?m a = (m a)\<lparr>bnext := ?rest, bsize := sz, bfree := False\<rparr>"
    by (simp add: set_hdr_def sp)
  have mr: "?m ?rest = \<lparr>bmagic = KHEAP_MAGIC, bsize = s - sz - 40, bfree = True,
      bnext = bnext (m a), bprev = a\<rparr>"
    using ra' q(4) by (simp add: set_hdr_def sp)
  have mo: "?m x = relink m (bnext (m a)) ?rest x" if "x \<noteq> a" "x \<noteq> ?rest" for x
    using that by (simp add: set_hdr_def sp)
  have "seg ?m 0 c xs q a"
    using q(1) by (subst seg_frame[where m = m]) (use mo dd(1) restx n(3) in \<open>metis relink_other\<close>)
  moreover obtain p' where "seg (relink m (bnext (m a)) ?rest) ?rest (bnext (m a)) ys p' 0"
    using seg_relink[OF q(6) dd(4)] by blast
  then have "seg ?m ?rest (bnext (m a)) ys p' 0"
    by (subst seg_frame[where m = "relink m (bnext (m a)) ?rest"]) (use mo dd(2) resty in metis)+
  ultimately show ?thesis
    using q ma mr r0 by (auto simp: seg_append)
qed

lemma seg_mark:
  assumes "seg m 0 c (xs @ (a, s, f) # ys) p 0" "distinct (map fst (xs @ (a, s, f) # ys))"
  shows "seg (set_hdr m a (bfree_update (\<lambda>_. g))) 0 c (xs @ (a, s, g) # ys) p 0"
proof -
  let ?m = "set_hdr m a (bfree_update (\<lambda>_. g))"
  obtain q where q: "seg m 0 c xs q a" "a \<noteq> 0" "bmagic (m a) = KHEAP_MAGIC" "bsize (m a) = s"
    "bprev (m a) = q" "seg m a (bnext (m a)) ys p 0"
    using assms(1) by (auto simp: seg_append)
  have o: "?m x = m x" if "x \<noteq> a" for x using that by (simp add: set_hdr_def)
  have "a \<notin> fst ` set xs" "a \<notin> fst ` set ys" using assms(2) by simp_all
  then have "seg ?m 0 c xs q a" "seg ?m a (bnext (m a)) ys p 0"
    using q(1,6) o by (metis seg_frame)+
  then show ?thesis using q by (auto simp: seg_append set_hdr_def)
qed

lemma tiles_cut:
  assumes "tiles n (xs @ (a, s, f) # ys) e" "e < 2 ^ 63" "8 dvd unat sz"
  shows "tiles n (xs @ cut sz a s @ ys) e"
proof (cases "unat sz + 72 \<le> unat s")
  case True
  obtain k where k: "tiles n xs k" "unat a = k" "8 dvd unat s" "tiles (k + 40 + unat s) ys e"
    using assms(1) by (auto simp: tiles_append)
  have b: "unat a + 40 + unat s < 2 ^ 63" using tiles_le[OF k(4)] k(2) assms(2) by simp
  note ar = cut_arith[OF b True]
  have "8 dvd unat s - unat sz - 40"
    using k(3) assms(3) by (intro dvd_diff_nat) auto
  moreover have "k + 40 + unat sz + 40 + (unat s - unat sz - 40) = k + 40 + unat s" using True by simp
  ultimately show ?thesis
    using k assms(3) ar True by (auto simp: tiles_append cut_def ac_simps)
qed (use assms in \<open>auto simp: cut_def tiles_append\<close>)

lemma coalesced_cut:
  assumes "coalesced (xs @ (a, s, True) # ys)"
  shows "coalesced (xs @ cut sz a s @ ys)"
  using assms by (auto simp: coalesced_simps cut_def)

lemma used_cut:
  "used_total (xs @ cut sz a s @ ys) =
     used_total xs + used_total ys + (if unat sz + 72 \<le> unat s then unat sz else unat s)"
  by (simp add: used_total_append used_total_Cons cut_def)

lemma split_test:
  fixes s sz :: u64
  assumes "unat s < 2 ^ 63" "sz \<le> s"
  shows "s \<ge> sz + sizeof_block + MIN_SPLIT \<longleftrightarrow> unat sz + 72 \<le> unat s"
proof -
  have "sz + sizeof_block + MIN_SPLIT = sz + 72" by (simp add: sizeof_block_def MIN_SPLIT_def)
  moreover have "unat (sz + 72) = unat sz + 72"
    using assms by (subst unat_add_small) (simp_all add: word_le_nat_alt)
  ultimately show ?thesis by (simp only: word_le_nat_alt)
qed

text \<open>\<^verbatim>\<open>kmalloc\<close> implements \<^const>\<open>alloc_blocks\<close> on the rounded size.\<close>

lemma kmalloc_found:
  assumes "heap_repr h (xs @ (a, s, True) # ys)" "\<forall>b\<in>set xs. \<not> fits sz b" "sz \<le> s" "sz0 \<noteq> 0"
    "sz = align_up sz0 8" "8 dvd unat sz"
  shows "\<exists>h'. kmalloc h sz0 = Some (h', a + 40) \<and> heap_repr h' (xs @ cut sz a s @ ys)
    \<and> heap_head h' = heap_head h \<and> heap_total h' = heap_total h \<and> payload h' = payload h"
proof -
  let ?bs = "xs @ (a, s, True) # ys" and ?m = "headers h"
  let ?e = "unat (heap_head h) + unat (heap_total h)"
  obtain p where p: "seg ?m 0 (heap_head h) ?bs p 0" using assms(1) by (auto simp: heap_repr_def)
  have t: "tiles (unat (heap_head h)) ?bs ?e" "?e < 2 ^ 63" "coalesced ?bs"
    "unat (heap_used h) = used_total ?bs"
    using assms(1) by (auto simp: heap_repr_def)
  obtain q where q: "seg ?m 0 (heap_head h) xs q a" "a \<noteq> 0" "bsize (?m a) = s" "bfree (?m a)"
    using p by (auto simp: seg_append)
  have "find_fit ?m sz (heap_head h) = find_fit ?m sz a" by (rule find_fit_seg[OF q(1) assms(2)])
  also have "\<dots> = Some a" using q leD[OF assms(3)] by (subst find_fit.simps) simp
  finally have ff: "find_fit ?m sz (heap_head h) = Some a" .
  have s63: "unat s < 2 ^ 63" using tiles_addr[OF t(1), of a s True] t(2) by simp
  note test = split_test[OF s63 assms(3)]
  define m' where "m' = set_hdr (if unat sz + 72 \<le> unat s then split_block ?m a sz else ?m) a
    (bfree_update (\<lambda>_. False))"
  define h' where "h' = h\<lparr>headers := m', heap_used := heap_used h + bsize (m' a)\<rparr>"
  have km: "kmalloc h sz0 = Some (h', a + 40)"
    using assms(4) ff q(2,3) test
    by (simp add: kmalloc_def assms(5)[symmetric] Let_def h'_def m'_def sizeof_block_def)
  have "\<exists>p'. seg m' 0 (heap_head h) (xs @ cut sz a s @ ys) p' 0"
    using seg_split[OF p t(1,2)] seg_mark[OF p tiles_distinct[OF t(1)]]
    by (auto simp: m'_def cut_def)
  moreover from this have "bsize (m' a) = (if unat sz + 72 \<le> unat s then sz else s)"
    by (auto simp: seg_append cut_def split: if_splits)
  moreover have tl: "tiles (unat (heap_head h)) (xs @ cut sz a s @ ys) ?e"
    by (rule tiles_cut[OF t(1,2) assms(6)])
  moreover have "unat (heap_used h + bsize (m' a)) = used_total (xs @ cut sz a s @ ys)"
  proof -
    have u: "used_total (xs @ cut sz a s @ ys) = used_total ?bs + unat (bsize (m' a))"
      unfolding used_cut using calculation(2) by (simp add: used_total_append used_total_Cons)
    then show ?thesis
      using tiles_used[OF tl] t(2,4) by (subst unat_add_small) simp_all
  qed
  ultimately have "heap_repr h' (xs @ cut sz a s @ ys)"
    using assms(1) coalesced_cut[OF t(3)] by (simp add: heap_repr_def h'_def)
  then show ?thesis using km by (auto simp: h'_def)
qed

lemma align8:
  assumes "unat sz0 + 7 < 2 ^ 64"
  shows "8 dvd unat (align_up sz0 8)" "unat sz0 \<le> unat (align_up sz0 8)"
proof -
  have "unat (align_up sz0 8) = (unat sz0 + 7) div 8 * 8"
    using unat_align_up[of 3 sz0] assms by simp
  then show "8 dvd unat (align_up sz0 8)" "unat sz0 \<le> unat (align_up sz0 8)"
    using ceiling_ge[of 8 "unat sz0"] by simp_all
qed

lemma kmalloc_refines:
  assumes "heap_repr h bs" "sz \<noteq> 0" "unat sz + 7 < 2 ^ 64"
  shows "case alloc_blocks (align_up sz 8) bs of
      None \<Rightarrow> kmalloc h sz = Some (h, 0)
    | Some (bs', r) \<Rightarrow> \<exists>h'. kmalloc h sz = Some (h', r) \<and> heap_repr h' bs'
        \<and> heap_head h' = heap_head h \<and> heap_total h' = heap_total h \<and> payload h' = payload h"
proof (cases "\<exists>b\<in>set bs. fits (align_up sz 8) b")
  case True
  then obtain xs b ys where bs: "bs = xs @ b # ys" "fits (align_up sz 8) b"
    "\<forall>b\<in>set xs. \<not> fits (align_up sz 8) b"
    using split_list_first_prop[OF True] by blast
  then obtain a s where b: "b = (a, s, True)" "align_up sz 8 \<le> s" by (auto simp: fits_def)
  show ?thesis
    using kmalloc_found[OF assms(1)[unfolded bs(1) b(1)] bs(3) b(2) assms(2) refl]
      align8(1)[OF assms(3)] alloc_blocks_split[OF bs(3) bs(2)[unfolded b(1)], of ys]
    by (simp add: bs(1) b(1))
next
  case False
  then have none: "alloc_blocks (align_up sz 8) bs = None" by (simp add: alloc_blocks_None)
  obtain p where p: "seg (headers h) 0 (heap_head h) bs p 0"
    using assms(1) by (auto simp: heap_repr_def)
  have "find_fit (headers h) (align_up sz 8) (heap_head h) = Some 0"
    using find_fit_seg[OF p, of "align_up sz 8"] False find_fit.simps[of _ _ 0] by simp
  then show ?thesis using assms(2) by (simp add: none kmalloc_def Let_def)
qed

section \<open>Freeing\<close>

text \<open>The specification: the block is free again and joined with free neighbours.\<close>

fun join_next :: "blocks \<Rightarrow> blocks" where
  "join_next ((a, s, True) # (b, t, True) # bs) = (a, s + (t + 40), True) # bs"
| "join_next bs = bs"

definition free_at :: "blocks \<Rightarrow> u64 \<Rightarrow> u64 \<Rightarrow> blocks \<Rightarrow> blocks" where
  "free_at xs a s ys =
     (let ys' = join_next ((a, s, True) # ys)
      in if xs = [] then ys' else butlast xs @ join_next (last xs # ys'))"

lemma coalesce_none:
  "bnext (m a) = 0 \<or> \<not> bfree (m (bnext (m a))) \<or> \<not> bfree (m a) \<Longrightarrow> coalesce_with_next m a = m"
  by (auto simp: coalesce_with_next_def)

lemma coalesce_relink:
  assumes "n = bnext (m a)" "n \<noteq> 0" "bfree (m n)" "bfree (m a)" "n \<noteq> a" 
  shows "coalesce_with_next m a =
    relink (m(a := (m a)\<lparr>bsize := bsize (m a) + (bsize (m n) + 40), bnext := bnext (m n)\<rparr>)) (bnext (m n)) a"
  using assms by (simp add: coalesce_with_next_def relink_def set_hdr_def sizeof_block_def Let_def)

lemma seg_next: "seg m p c bs p' 0 \<Longrightarrow> c = 0 \<or> c \<in> fst ` set bs"
  by (cases bs) auto

text \<open>Joining at one block, seen from the predecessor it is reached from; no other header changes.\<close>

lemma coalesce_seg:
  assumes "seg m p c ((a, s, f) # bs) p' 0" "distinct (map fst ((a, s, f) # bs))"
  shows "(\<exists>p''. seg (coalesce_with_next m a) p c (join_next ((a, s, f) # bs)) p'' 0)
    \<and> (\<forall>x. x \<notin> fst ` set ((a, s, f) # bs) \<longrightarrow> coalesce_with_next m a x = m x)"
proof -
  have a: "c = a" "a \<noteq> 0" "bmagic (m a) = KHEAP_MAGIC" "bsize (m a) = s" "bfree (m a) = f"
    "bprev (m a) = p" "seg m a (bnext (m a)) bs p' 0" using assms(1) by simp_all
  consider (single) "bs = []" | (keep) b t g cs where "bs = (b, t, g) # cs" "\<not> (f \<and> g)"
    | (join) b t cs where "bs = (b, t, True) # cs" f
    by (cases bs; cases "f \<and> snd (snd (hd bs))") auto
  then show ?thesis
  proof cases
    case single
    then have "coalesce_with_next m a = m" using a(7) by (intro coalesce_none) auto
    then show ?thesis using assms(1) single by (cases f) auto
  next
    case keep
    then have "coalesce_with_next m a = m" using a(5,7) by (intro coalesce_none) auto
    moreover have "join_next ((a, s, f) # bs) = (a, s, f) # bs"
      using keep by (cases f; cases g) auto
    ultimately show ?thesis using assms(1) by auto
  next
    case join
    have b: "bnext (m a) = b" "b \<noteq> 0" "bsize (m b) = t" "bfree (m b)" "seg m b (bnext (m b)) cs p' 0"
      using a(7) join by simp_all
    have d: "a \<noteq> b" "a \<notin> fst ` set cs" "distinct (map fst cs)" using assms(2) join by simp_all
    define m1 where "m1 = m(a := (m a)\<lparr>bsize := s + (t + 40), bnext := bnext (m b)\<rparr>)"
    have co: "coalesce_with_next m a = relink m1 (bnext (m b)) a"
      using coalesce_relink[OF b(1)[symmetric] b(2,4)] a(4,5) b(3) d(1) join(2) by (simp add: m1_def)
    have ne: "bnext (m b) \<noteq> a" using seg_next[OF b(5)] d(2) a(2) by metis
    have "seg m1 b (bnext (m b)) cs p' 0"
      using b(5) d(2) by (subst seg_frame[where m = m]) (auto simp: m1_def)
    then obtain p'' where p'': "seg (relink m1 (bnext (m b)) a) a (bnext (m b)) cs p'' 0"
      using seg_relink[OF _ d(3)] by blast
    have "relink m1 (bnext (m b)) a a = (m a)\<lparr>bsize := s + (t + 40), bnext := bnext (m b)\<rparr>"
      using ne by (simp add: m1_def)
    then have "seg (coalesce_with_next m a) p c (join_next ((a, s, f) # bs)) p'' 0"
      using a p'' join co by simp
    moreover have "coalesce_with_next m a x = m x" if "x \<notin> fst ` set ((a, s, f) # bs)" for x
    proof (cases "x = bnext (m b)")
      case True
      then have "x = 0" using seg_next[OF b(5)] that join by auto
      then show ?thesis using True a(2) by (simp add: co relink_def m1_def)
    next
      case False
      then show ?thesis using that by (auto simp: co m1_def)
    qed
    ultimately show ?thesis by blast
  qed
qed


lemma join_next_tiles:
  assumes "tiles n (b # bs) e" "e < 2 ^ 63"
  shows "tiles n (join_next (b # bs)) e"
proof (cases "b # bs" rule: join_next.cases)
  case (1 a s b' t cs)
  have t: "unat a = n" "8 dvd unat s" "unat b' = n + 40 + unat s" "8 dvd unat t"
    "tiles (n + 40 + unat s + 40 + unat t) cs e" using assms(1) by (simp_all add: 1)
  have "n + 40 + unat s + 40 + unat t < 2 ^ 63" using tiles_le[OF t(5)] assms(2) by simp
  then have "unat (t + 40) = unat t + 40" by (subst unat_add_small) simp_all
  then have "unat (s + (t + 40)) = unat s + (unat t + 40)"
    using \<open>n + 40 + unat s + 40 + unat t < 2 ^ 63\<close> by (subst unat_add_small) simp_all
  then show ?thesis using t by (simp add: 1 ac_simps)
qed (use assms in auto)

lemma used_join_next [simp]: "used_total (join_next bs) = used_total bs"
  by (cases bs rule: join_next.cases) (simp_all add: used_total_Cons)

lemma join_next_addrs: "fst ` set (join_next bs) \<subseteq> fst ` set bs"
  by (cases bs rule: join_next.cases) auto

lemma join_next_hd: "bs \<noteq> [] \<Longrightarrow> join_next bs \<noteq> [] \<and> fst (hd (join_next bs)) = fst (hd bs)
  \<and> snd (snd (hd (join_next bs))) = snd (snd (hd bs))"
  by (cases bs rule: join_next.cases) auto

text \<open>Two joins, at the freed block and at its predecessor, leave no free neighbours.\<close>

lemma coalesced_join:
  assumes "coalesced ys" shows "coalesced (join_next ((a, s, True) # ys))"
proof (cases ys)
  case (Cons y ys')
  obtain b t f where "y = (b, t, f)" by (cases y)
  then show ?thesis using assms Cons by (cases f) (auto simp: coalesced_simps)
qed (simp add: coalesced_simps)

lemma coalesced_free_at:
  assumes "coalesced (xs @ (a, s, False) # ys)"
  shows "coalesced (free_at xs a s ys)"
proof -
  let ?ys = "join_next ((a, s, True) # ys)"
  have ys: "coalesced ?ys" using assms coalesced_join by (auto simp: coalesced_simps)
  show ?thesis
  proof (cases xs rule: rev_cases)
    case Nil
    then show ?thesis using ys by (simp add: free_at_def)
  next
    case (snoc xs' x)
    obtain b t f where x: "x = (b, t, f)" by (cases x)
    have xs: "coalesced (xs' @ [(b, t, f)])" using assms by (simp add: snoc x coalesced_simps)
    obtain s' ys' where j: "?ys = (a, s', True) # ys'"
      by (cases "(a, s, True) # ys" rule: join_next.cases) auto
    show ?thesis
    proof (cases f)
      case True
      then show ?thesis using xs ys j by (auto simp: free_at_def snoc x coalesced_simps)
    next
      case False
      then show ?thesis using xs ys j by (auto simp: free_at_def snoc x coalesced_simps)
    qed
  qed
qed


lemma seg_last: "seg m p c (xs @ [(b, t, f)]) q d \<Longrightarrow> q = b \<and> b \<noteq> 0"
  by (auto simp: seg_append)

lemma free_seg:
  assumes "seg m 0 c (xs @ (a, s, True) # ys) p 0" "tiles n (xs @ (a, s, True) # ys) e" "e < 2 ^ 63"
  defines "m1 \<equiv> coalesce_with_next m a"
  defines "m2 \<equiv> if bprev (m1 a) \<noteq> 0 then coalesce_with_next m1 (bprev (m1 a)) else m1"
  shows "(\<exists>p'. seg m2 0 c (free_at xs a s ys) p' 0) \<and> tiles n (free_at xs a s ys) e"
proof -
  let ?ys = "join_next ((a, s, True) # ys)"
  obtain q where q: "seg m 0 c xs q a" "seg m q a ((a, s, True) # ys) p 0"
    using assms(1) by (auto simp: seg_append)
  obtain k where k: "tiles n xs k" "tiles k ((a, s, True) # ys) e"
    using assms(2) by (auto simp: tiles_append)
  have d: "distinct (map fst (xs @ (a, s, True) # ys))" by (rule tiles_distinct[OF assms(2)])
  then have disj: "x \<notin> fst ` set ((a, s, True) # ys)" if "x \<in> fst ` set xs" for x
    using that by auto
  have "distinct (map fst ((a, s, True) # ys))" using d by simp
  note co = coalesce_seg[OF q(2) this, folded m1_def]
  obtain p1 where p1: "seg m1 q a ?ys p1 0" using co by blast
  have x1: "seg m1 0 c xs q a" using q(1) co disj by (subst seg_frame[where m = m]) auto
  have t1: "tiles k ?ys e" by (rule join_next_tiles[OF k(2) assms(3)])
  obtain s' ys' where j: "?ys = (a, s', True) # ys'"
    by (cases "(a, s, True) # ys" rule: join_next.cases) auto
  have pr: "bprev (m1 a) = q" using p1 j by simp
  show ?thesis
  proof (cases xs rule: rev_cases)
    case Nil
    then have "m2 = m1" using q(1) pr by (simp add: m2_def)
    then show ?thesis
      using Nil x1 p1 t1 k(1) by (auto simp: free_at_def)
  next
    case (snoc xs' x)
    obtain b t f where x: "x = (b, t, f)" by (cases x)
    have qb: "q = b" "b \<noteq> 0" using seg_last[of m1 0 c xs' b t f q a] x1 by (simp_all add: snoc x)
    then have m2: "m2 = coalesce_with_next m1 b" using pr by (simp add: m2_def)
    obtain q' where q': "seg m1 0 c xs' q' b" "seg m1 q' b ((b, t, f) # ?ys) p1 0"
      using x1 p1 qb by (auto simp: snoc x seg_append)
    obtain k' where k': "tiles n xs' k'" "tiles k' ((b, t, f) # ?ys) e"
      using k(1) t1 by (auto simp: snoc x tiles_append)
    note co2 = coalesce_seg[OF q'(2) tiles_distinct[OF k'(2)], folded m2]
    have fa: "free_at xs a s ys = xs' @ join_next ((b, t, f) # ?ys)"
      by (simp add: free_at_def snoc x)
    have "y \<notin> fst ` set ((b, t, f) # ?ys)" if "y \<in> fst ` set xs'" for y
    proof -
      have "y \<noteq> b" "y \<noteq> a" "y \<notin> fst ` set ys" using that d by (auto simp: snoc x)
      moreover from this have "y \<notin> fst ` set ?ys"
        using subsetD[OF join_next_addrs, of y "(a, s, True) # ys"] by auto
      ultimately show ?thesis by simp
    qed
    then have "seg m2 0 c xs' q' b"
      using q'(1) co2 by (subst seg_frame[where m = m1]) auto
    then have "\<exists>p'. seg m2 0 c (free_at xs a s ys) p' 0" using co2 by (auto simp: fa seg_append)
    moreover have "tiles n (free_at xs a s ys) e"
      using k'(1) join_next_tiles[OF k'(2) assms(3)] by (auto simp: fa tiles_append)
    ultimately show ?thesis ..
  qed
qed

lemma used_free_at: "used_total (free_at xs a s ys) = used_total xs + used_total ys"
proof (cases xs rule: rev_cases)
  case (snoc xs' x)
  then show ?thesis
    by (cases x) (simp add: free_at_def Let_def used_total_append used_total_Cons)
qed (simp add: free_at_def used_total_Cons)

lemma kfree_refines:
  assumes "heap_repr h (xs @ (a, s, False) # ys)"
  shows "\<exists>h'. kfree h (a + 40) = Some h' \<and> heap_repr h' (free_at xs a s ys)
    \<and> heap_head h' = heap_head h \<and> heap_total h' = heap_total h \<and> payload h' = payload h"
proof -
  let ?bs = "xs @ (a, s, False) # ys" and ?m = "headers h"
  let ?e = "unat (heap_head h) + unat (heap_total h)"
  obtain p where p: "seg ?m 0 (heap_head h) ?bs p 0" using assms(1) by (auto simp: heap_repr_def)
  have t: "tiles (unat (heap_head h)) ?bs ?e" "?e < 2 ^ 63" "coalesced ?bs"
    "unat (heap_used h) = used_total ?bs"
    using assms(1) by (auto simp: heap_repr_def)
  have a: "bmagic (?m a) = KHEAP_MAGIC" "\<not> bfree (?m a)" "bsize (?m a) = s"
    using p by (auto simp: seg_append)
  have "unat a + 40 + unat s \<le> ?e" using tiles_addr[OF t(1), of a s False] by simp
  then have "unat (a + 40) = unat a + 40" using t(2) by (subst unat_add_small) simp_all
  then have ptr: "a + 40 \<noteq> 0" by (metis add_is_0 unsigned_0 zero_neq_numeral)
  define m0 where "m0 = set_hdr ?m a (bfree_update (\<lambda>_. True))"
  define m1 where "m1 = coalesce_with_next m0 a"
  define m2 where "m2 = (if bprev (m1 a) \<noteq> 0 then coalesce_with_next m1 (bprev (m1 a)) else m1)"
  have s0: "seg m0 0 (heap_head h) (xs @ (a, s, True) # ys) p 0"
    unfolding m0_def by (rule seg_mark[OF p tiles_distinct[OF t(1)]])
  have t0: "tiles (unat (heap_head h)) (xs @ (a, s, True) # ys) ?e"
    using t(1) by (auto simp: tiles_append)
  note fs = free_seg[OF s0 t0 t(2), folded m1_def, folded m2_def]
  define h' where "h' = h\<lparr>headers := m2, heap_used := heap_used h - s\<rparr>"
  have "bsize (m0 a) = s" using a(3) by (simp add: m0_def set_hdr_def)
  then have kf: "kfree h (a + 40) = Some h'"
    using a ptr by (simp add: kfree_def Let_def sizeof_block_def h'_def m0_def[symmetric]
        m1_def[symmetric] m2_def)
  have u: "unat (heap_used h) = used_total xs + used_total ys + unat s"
    using t(4) by (simp add: used_total_append used_total_Cons)
  then have "unat (heap_used h - s) = used_total (free_at xs a s ys)"
    by (subst unat_sub) (auto simp: word_le_nat_alt used_free_at)
  then have "heap_repr h' (free_at xs a s ys)"
    using fs assms coalesced_free_at[OF t(3)] by (auto simp: heap_repr_def h'_def)
  then show ?thesis using kf by (auto simp: h'_def)
qed

section \<open>The allocator contract\<close>

definition payloads :: "blocks \<Rightarrow> (u64 \<times> nat) set" where
  "payloads bs = {(a + 40, unat s) |a s. (a, s, False) \<in> set bs}"

definition kheap_live :: "u64 \<Rightarrow> u64 \<Rightarrow> kheap \<Rightarrow> (u64 \<times> nat) set \<Rightarrow> bool" where
  "kheap_live base sz h live \<longleftrightarrow> (\<exists>bs. heap_repr h bs \<and> live = payloads bs)
     \<and> heap_head h = base \<and> heap_total h = sz"

lemma payloads_append [simp]: "payloads (xs @ ys) = payloads xs \<union> payloads ys"
  by (auto simp: payloads_def)

lemma payloads_Cons [simp]:
  "payloads ((a, s, f) # bs) = (if f then {} else {(a + 40, unat s)}) \<union> payloads bs"
  by (auto simp: payloads_def)

lemma payloads_Nil [simp]: "payloads [] = {}"
  by (simp add: payloads_def)

lemma payloads_join_next [simp]: "payloads (join_next bs) = payloads bs"
  by (cases bs rule: join_next.cases) auto

lemma payloads_free_at: "payloads (free_at xs a s ys) = payloads xs \<union> payloads ys"
proof (cases xs rule: rev_cases)
  case (snoc xs' x)
  then show ?thesis by (cases x) (auto simp: free_at_def Let_def)
qed (simp add: free_at_def)

text \<open>Payload addresses do not wrap, and different payloads do not meet.\<close>

lemma payload_range:
  assumes "tiles n bs e" "e < 2 ^ 63" "(a, s, f) \<in> set bs"
  shows "unat (a + 40) = unat a + 40" "n + 40 \<le> unat (a + 40)" "unat (a + 40) + unat s \<le> e"
proof -
  have b: "n \<le> unat a" "unat a + 40 + unat s \<le> e" using tiles_addr[OF assms(1,3)] by simp_all
  show u: "unat (a + 40) = unat a + 40" using b assms(2) by (subst unat_add_small) simp_all
  show "n + 40 \<le> unat (a + 40)" "unat (a + 40) + unat s \<le> e" using b u by simp_all
qed

lemma tiles_disjoint:
  assumes "tiles n (xs @ (a, s, f) # ys) e" "e < 2 ^ 63" "(b, t, g) \<in> set xs \<union> set ys"
  shows "a + 40 \<noteq> b + 40"
    "{unat (a + 40)..<unat (a + 40) + unat s} \<inter> {unat (b + 40)..<unat (b + 40) + unat t} = {}"
proof -
  obtain k where k: "tiles n xs k" "unat a = k" "tiles (k + 40 + unat s) ys e"
    using assms(1) by (auto simp: tiles_append)
  have r: "unat (a + 40) = unat a + 40" "unat (b + 40) = unat b + 40"
    using payload_range(1)[OF assms(1,2)] assms(3) by auto
  have "unat b + 40 + unat t \<le> unat a \<or> unat a + 40 + unat s \<le> unat b"
    using tiles_addr[OF k(1)] tiles_addr[OF k(3)] k(2) assms(3) by blast
  then show "a + 40 \<noteq> b + 40"
    "{unat (a + 40)..<unat (a + 40) + unat s} \<inter> {unat (b + 40)..<unat (b + 40) + unat t} = {}"
    using r by auto
qed

lemma heap_repr_facts:
  assumes "heap_repr h bs"
  shows "tiles (unat (heap_head h)) bs (unat (heap_head h) + unat (heap_total h))"
    "unat (heap_head h) + unat (heap_total h) < 2 ^ 63"
  using assms by (auto simp: heap_repr_def)

lemma payload_split:
  assumes "(p, n) \<in> payloads bs"
  obtains xs a s ys where "bs = xs @ (a, s, False) # ys" "p = a + 40" "n = unat s"
  using assms by (auto simp: payloads_def dest!: split_list)

lemma payloads_disjoint:
  assumes "heap_repr h bs" "(p, n) \<in> payloads bs" "(q, k) \<in> payloads bs" "(p, n) \<noteq> (q, k)"
  shows "p \<noteq> q \<and> {unat p..<unat p + n} \<inter> {unat q..<unat q + k} = {}"
proof -
  obtain xs a s ys where bs: "bs = xs @ (a, s, False) # ys" and p: "p = a + 40" "n = unat s"
    using payload_split[OF assms(2)] by blast
  obtain b t where q: "(b, t, False) \<in> set bs" "q = b + 40" "k = unat t"
    using assms(3) by (auto simp: payloads_def)
  have "(b, t, False) \<in> set xs \<union> set ys" using q p bs assms(4) by auto
  then show ?thesis
    using tiles_disjoint[OF heap_repr_facts(1)[OF assms(1), unfolded bs] heap_repr_facts(2)[OF assms(1)]]
      p q by blast
qed

lemma kfree_live:
  assumes "heap_repr h bs" "(p, n) \<in> payloads bs"
  shows "\<exists>h' bs'. kfree h p = Some h' \<and> heap_repr h' bs' \<and> payloads bs' = payloads bs - {(p, n)}
    \<and> unat (heap_used h') + n = unat (heap_used h)
    \<and> heap_head h' = heap_head h \<and> heap_total h' = heap_total h"
proof -
  obtain xs a s ys where bs: "bs = xs @ (a, s, False) # ys" and p: "p = a + 40" "n = unat s"
    using payload_split[OF assms(2)] by blast
  obtain h' where h': "kfree h p = Some h'" "heap_repr h' (free_at xs a s ys)"
    "heap_head h' = heap_head h" "heap_total h' = heap_total h"
    using kfree_refines[OF assms(1)[unfolded bs]] p by blast
  have "(p, n) \<notin> payloads xs \<union> payloads ys"
  proof
    assume "(p, n) \<in> payloads xs \<union> payloads ys"
    then obtain b t where "(b, t, False) \<in> set xs \<union> set ys" "p = b + 40"
      by (auto simp: payloads_def)
    then show False
      using tiles_disjoint(1)[OF heap_repr_facts(1)[OF assms(1), unfolded bs] heap_repr_facts(2)[OF assms(1)],
          of b t False] p
      by simp
  qed
  then have "payloads (free_at xs a s ys) = payloads bs - {(p, n)}"
    by (auto simp: payloads_free_at bs p)
  moreover have "unat (heap_used h') + n = unat (heap_used h)"
    using h'(2) assms(1) p by (simp add: heap_repr_def bs used_free_at used_total_append used_total_Cons)
  ultimately show ?thesis using h' by blast
qed

lemma alloc_blocks_payloads:
  assumes "alloc_blocks sz bs = Some (bs', r)"
  shows "\<exists>n. payloads bs' = insert (r, n) (payloads bs) \<and> unat sz \<le> n \<and> (\<exists>a s. (a, s, True) \<in> set bs \<and> r = a + 40)"
  using assms
proof (induction sz bs arbitrary: bs' rule: alloc_blocks.induct)
  case (2 sz a s f bs)
  show ?case
  proof (cases "fits sz (a, s, f)")
    case True
    then have "payloads bs' = insert (r, if unat sz + 72 \<le> unat s then unat sz else unat s)
        (payloads ((a, s, f) # bs))" "r = a + 40" f "unat sz \<le> unat s"
      using 2(2) by (auto simp: fits_def cut_def word_le_nat_alt)
    then show ?thesis by (intro exI[of _ "if unat sz + 72 \<le> unat s then unat sz else unat s"]) auto
  next
    case False
    then obtain bs'' where "alloc_blocks sz bs = Some (bs'', r)" "bs' = (a, s, f) # bs''"
      using 2(2) by auto
    then show ?thesis using 2(1)[OF False] by auto
  qed
qed simp


lemma kmalloc_live:
  assumes "heap_repr h bs" "0 < unat sz" "unat sz \<le> 2 ^ 62"
  shows "\<exists>h' p. kmalloc h sz = Some (h', p) \<and> heap_head h' = heap_head h \<and> heap_total h' = heap_total h \<and>
    (if \<exists>b\<in>set bs. fits (align_up sz 8) b
     then p \<noteq> 0 \<and> (\<exists>n bs'. unat sz \<le> n \<and> (p, n) \<notin> payloads bs \<and> heap_repr h' bs'
            \<and> payloads bs' = insert (p, n) (payloads bs))
     else p = 0 \<and> h' = h)"
proof -
  have sz: "sz \<noteq> 0" "unat sz + 7 < 2 ^ 64" using assms(2,3) by auto
  note ref = kmalloc_refines[OF assms(1) sz]
  show ?thesis
  proof (cases "alloc_blocks (align_up sz 8) bs")
    case None
    then show ?thesis using ref by (auto simp: alloc_blocks_None[symmetric])
  next
    case (Some x)
    obtain bs' p where x: "x = (bs', p)" by (cases x)
    obtain h' where h': "kmalloc h sz = Some (h', p)" "heap_repr h' bs'" "heap_head h' = heap_head h"
      "heap_total h' = heap_total h" using ref Some x by auto
    obtain n a s where n: "payloads bs' = insert (p, n) (payloads bs)" "unat (align_up sz 8) \<le> n"
      "(a, s, True) \<in> set bs" "p = a + 40"
      using alloc_blocks_payloads[OF Some[unfolded x]] by blast
    have f: "\<exists>b\<in>set bs. fits (align_up sz 8) b" 
      using Some alloc_blocks_None[of "align_up sz 8" bs] by auto
    note facts = heap_repr_facts[OF assms(1)]
    have "p \<noteq> 0" using payload_range(1)[OF facts n(3)] n(4) by (metis add_is_0 unsigned_0 zero_neq_numeral)
    moreover have "(p, n) \<notin> payloads bs"
    proof
      assume pn: "(p, n) \<in> payloads bs"
      obtain xs b t ys where bs: "bs = xs @ (b, t, False) # ys" and p: "p = b + 40" "n = unat t"
        by (rule payload_split[OF pn])
      then have "(a, s, True) \<in> set xs \<union> set ys" using n(3) by auto
      then show False using tiles_disjoint(1)[OF facts(1)[unfolded bs] facts(2)] n(4) p by simp
    qed
    moreover have "unat sz \<le> n" using n(2) align8(2)[OF sz(2)] by simp
    ultimately show ?thesis using h' n(1) f by auto
  qed
qed

interpretation kh: heap_allocator "kheap_live base tot" kmalloc kfree for base tot
proof
  show "p \<noteq> q \<and> {unat p..<unat p + n} \<inter> {unat q..<unat q + k} = {}"
    if H: "kheap_live base tot s live" "(p, n) \<in> live" "(q, k) \<in> live" "(p, n) \<noteq> (q, k)" for s live p n q k
  proof -
    obtain bs where "heap_repr s bs" "live = payloads bs" using H(1) by (auto simp: kheap_live_def)
    then show ?thesis using payloads_disjoint[of s bs p n q k] H(2-4) by blast
  qed
  show "\<exists>s' p. kmalloc s sz = Some (s', p) \<and> (if p = 0 then kheap_live base tot s' live
      else \<exists>n\<ge>unat sz. (p, n) \<notin> live \<and> kheap_live base tot s' (insert (p, n) live))"
    if H: "kheap_live base tot s live" "0 < unat sz" "unat sz \<le> 2 ^ 62" for s live sz
  proof -
    obtain bs where bs: "heap_repr s bs" "live = payloads bs" "heap_head s = base" "heap_total s = tot"
      using H(1) by (auto simp: kheap_live_def)
    obtain h' p where k: "kmalloc s sz = Some (h', p)" "heap_head h' = base" "heap_total h' = tot"
      "if \<exists>b\<in>set bs. fits (align_up sz 8) b
       then p \<noteq> 0 \<and> (\<exists>n bs'. unat sz \<le> n \<and> (p, n) \<notin> payloads bs \<and> heap_repr h' bs'
              \<and> payloads bs' = insert (p, n) (payloads bs))
       else p = 0 \<and> h' = s"
      using kmalloc_live[OF bs(1) H(2,3)] bs(3,4) by auto
    show ?thesis
    proof (cases "\<exists>b\<in>set bs. fits (align_up sz 8) b")
      case True
      then obtain n bs' where "p \<noteq> 0" "unat sz \<le> n" "(p, n) \<notin> live" "heap_repr h' bs'"
        "insert (p, n) live = payloads bs'" using k(4) bs(2) by auto
      then show ?thesis using k(1-3) unfolding kheap_live_def by auto
    next
      case False
      then show ?thesis using k(1,4) H(1) by simp
    qed
  qed
  show "\<exists>s'. kfree s p = Some s' \<and> kheap_live base tot s' (live - {(p, n)})"
    if H: "kheap_live base tot s live" "(p, n) \<in> live" for s live p n
  proof -
    obtain bs where bs: "heap_repr s bs" "live = payloads bs" "heap_head s = base" "heap_total s = tot"
      using H(1) by (auto simp: kheap_live_def)
    then obtain h' bs' where "kfree s p = Some h'" "heap_repr h' bs'" "live - {(p, n)} = payloads bs'"
      "heap_head h' = base" "heap_total h' = tot"
      using kfree_live[of s bs p n] H(2) by auto
    then show ?thesis unfolding kheap_live_def by auto
  qed
qed

lemma kheap_init_repr:
  assumes "0 < unat base" "8 dvd unat base" "40 \<le> unat sz" "8 dvd unat sz" "unat base + unat sz < 2 ^ 63"
  shows "heap_repr (kheap_init h base sz) [(base, sz - 40, True)]"
proof -
  have "unat (sz - 40) = unat sz - 40" using assms(3) by (subst unat_sub) (simp_all add: word_le_nat_alt)
  moreover have "8 dvd unat sz - 40" using assms(3,4) by (intro dvd_diff_nat) auto
  moreover have "base \<noteq> 0" using assms(1) by auto
  ultimately show ?thesis using assms
    by (simp add: heap_repr_def kheap_init_def sizeof_block_def coalesced_simps used_total_Cons)
qed

section \<open>Properties\<close>

lemma payload_aligned:
  assumes "heap_repr h bs" "(p, n) \<in> payloads bs"
  shows "8 dvd unat p"
proof -
  have "8 dvd unat a" if "tiles k bs e" "8 dvd k" "(a, s, f) \<in> set bs" for k e a s f
    using that
  proof (induction bs arbitrary: k)
    case (Cons x bs)
    obtain a' s' f' where x: "x = (a', s', f')" by (cases x)
    have "8 dvd k + 40 + unat s'" using Cons.prems by (auto simp: x intro!: dvd_add)
    then show ?case using Cons by (auto simp: x)
  qed simp
  moreover obtain a s where a: "(a, s, False) \<in> set bs" "p = a + 40"
    using assms(2) by (auto simp: payloads_def)
  ultimately have "8 dvd unat a" using assms(1) unfolding heap_repr_def by blast
  then show ?thesis
    using payload_range(1)[OF heap_repr_facts[OF assms(1)] a(1)] a(2) by (auto intro!: dvd_add)
qed

text \<open>Undoing a cut.\<close>

lemma cut_free_at:
  assumes "coalesced (xs @ (a, s, True) # ys)" "sz \<le> s"
  shows "\<exists>k zs. cut sz a s @ ys = (a, k, False) # zs \<and> free_at xs a k zs = xs @ (a, s, True) # ys"
proof -
  have ys: "join_next ((a, t, True) # ys) = (a, t, True) # ys" for t
  proof (cases ys)
    case (Cons y ys')
    then show ?thesis using assms(1) by (cases y) (auto simp: coalesced_simps)
  qed simp
  have fa: "free_at xs a k zs = xs @ (a, s, True) # ys"
    if "join_next ((a, k, True) # zs) = (a, s, True) # ys" for k zs
  proof (cases xs rule: rev_cases)
    case (snoc xs' x)
    then show ?thesis using assms(1) that
      by (cases x) (auto simp: free_at_def coalesced_simps)
  qed (simp add: free_at_def that)
  show ?thesis
  proof (cases "unat sz + 72 \<le> unat s")
    case True
    have "join_next ((a, sz, True) # (a + 40 + sz, s - sz - 40, True) # ys) = (a, s, True) # ys" by simp
    then show ?thesis using True fa by (simp add: cut_def)
  next
    case False
    then show ?thesis using fa ys by (simp add: cut_def)
  qed
qed

lemma coalesce_bfree [simp]: "bfree (coalesce_with_next m b x) = bfree (m x)"
  by (simp add: coalesce_with_next_def set_hdr_def Let_def)

lemma kfree_twice:
  assumes "kfree h p = Some h'" "p \<noteq> 0"
  shows "kfree h' p = None"
proof -
  have "bfree (headers h' (p - sizeof_block))"
    using assms by (auto simp: kfree_def Let_def set_hdr_def split: if_splits)
  then show ?thesis using assms(2) by (simp add: kfree_def Let_def)
qed


lemma finite_payloads [simp]: "finite (payloads bs)"
proof (induction bs)
  case (Cons x bs)
  then show ?case by (cases x) simp
qed simp

lemma payloads_total:
  assumes "tiles n bs e" "e < 2 ^ 63"
  shows "(\<Sum>(p, k)\<in>payloads bs. k) = used_total bs"
  using assms(1)
proof (induction bs arbitrary: n)
  case (Cons x bs)
  obtain a s f where x: "x = (a, s, f)" by (cases x)
  have t: "tiles (n + 40 + unat s) bs e" using Cons.prems by (simp add: x)
  have "(a + 40, unat s) \<notin> payloads bs"
  proof
    assume "(a + 40, unat s) \<in> payloads bs"
    then obtain b u where b: "(b, u, False) \<in> set bs" "a + 40 = b + 40" by (auto simp: payloads_def)
    have "tiles n ([] @ (a, s, f) # bs) e" using Cons.prems by (simp add: x)
    then show False using tiles_disjoint(1)[OF _ assms(2), of n "[]" a s f bs b u False] b by simp
  qed
  then show ?case using Cons.IH[OF t] by (simp add: x used_total_Cons)
qed simp

lemma kheap_live_arena:
  assumes "kheap_live base sz h live"
  shows "unat (kheap_used_bytes h) = (\<Sum>(p, n)\<in>live. n)"
    "(p, n) \<in> live \<Longrightarrow> unat base + 40 \<le> unat p \<and> unat p + n \<le> unat base + unat sz"
proof -
  obtain bs where bs: "heap_repr h bs" "live = payloads bs" "heap_head h = base" "heap_total h = sz"
    using assms by (auto simp: kheap_live_def)
  note facts = heap_repr_facts[OF bs(1)]
  show "unat (kheap_used_bytes h) = (\<Sum>(p, n)\<in>live. n)"
    using payloads_total[OF facts] bs(1,2) by (simp add: kheap_used_bytes_def heap_repr_def)
  show "unat base + 40 \<le> unat p \<and> unat p + n \<le> unat base + unat sz" if pn: "(p, n) \<in> live"
  proof -
    obtain a s where "(a, s, False) \<in> set bs" "p = a + 40" "n = unat s"
      using pn bs(2) by (auto simp: payloads_def)
    then show ?thesis using payload_range(2,3)[OF facts] bs(3,4) by auto
  qed
qed

definition demo_kheap :: kheap where
  "demo_kheap = \<lparr>headers = (\<lambda>_. \<lparr>bmagic = 0, bsize = 0, bfree = False, bnext = 0, bprev = 0\<rparr>),
     payload = (\<lambda>_. 0), heap_head = 0, heap_total = 0, heap_used = 0\<rparr>"



text \<open>\<^verbatim>\<open>kmalloc\<close> of a size up to \<open>2 ^ 62\<close> always returns.  It returns NULL, and changes nothing,
  exactly when no free block holds the size rounded up to eight bytes; otherwise the payload it
  returns is at least as long as asked for, is eight-byte aligned, and is the only change to the
  live payloads.\<close>

theorem kmalloc_correct:
  assumes "heap_repr h bs" "0 < unat sz" "unat sz \<le> 2 ^ 62"
  shows "\<exists>h' p. kmalloc h sz = Some (h', p) \<and>
    (if \<exists>(a, s, f)\<in>set bs. f \<and> align_up sz 8 \<le> s
     then p \<noteq> 0 \<and> 8 dvd unat p \<and> (\<exists>n bs'. unat sz \<le> n \<and> heap_repr h' bs'
            \<and> (p, n) \<notin> payloads bs \<and> payloads bs' = insert (p, n) (payloads bs))
     else p = 0 \<and> h' = h)"
proof -
  have f: "(\<exists>(a, s, f)\<in>set bs. f \<and> align_up sz 8 \<le> s) \<longleftrightarrow> (\<exists>b\<in>set bs. fits (align_up sz 8) b)"
    by (auto simp: fits_def)
  obtain h' p where k: "kmalloc h sz = Some (h', p)"
    "if \<exists>b\<in>set bs. fits (align_up sz 8) b
     then p \<noteq> 0 \<and> (\<exists>n bs'. unat sz \<le> n \<and> (p, n) \<notin> payloads bs \<and> heap_repr h' bs'
            \<and> payloads bs' = insert (p, n) (payloads bs))
     else p = 0 \<and> h' = h"
    using kmalloc_live[OF assms] by blast
  show ?thesis
  proof (cases "\<exists>b\<in>set bs. fits (align_up sz 8) b")
    case True
    then obtain n bs' where n: "p \<noteq> 0" "unat sz \<le> n" "(p, n) \<notin> payloads bs" "heap_repr h' bs'"
      "payloads bs' = insert (p, n) (payloads bs)" using k(2) by auto
    have "(p, n) \<in> payloads bs'" using n(5) by simp
    then have "8 dvd unat p" by (rule payload_aligned[OF n(4)])
    then show ?thesis using k(1) n True unfolding f by auto
  next
    case False
    then show ?thesis using k unfolding f by auto
  qed
qed

theorem kmalloc_correct_witness:
  "\<exists>h' p. kmalloc (kheap_init demo_kheap 0x200000 0x800000) 100 = Some (h', p) \<and> p \<noteq> 0 \<and> 8 dvd unat p"
proof -
  have r: "heap_repr (kheap_init demo_kheap 0x200000 0x800000) [(0x200000, 0x800000 - 40, True)]"
    by (rule kheap_init_repr) simp_all
  have "align_up 100 8 \<le> (0x800000 - 40 :: u64)" by (simp add: align_up_def)
  then show ?thesis using kmalloc_correct[OF r, of 100] by auto
qed

text \<open>C17. Freeing what \<^verbatim>\<open>kmalloc\<close> returned restores the block list and the reported use exactly,
  splitting and coalescing included; freeing the same pointer a second time panics.\<close>

theorem kfree_kmalloc:
  assumes "heap_repr h bs" "0 < unat sz" "unat sz \<le> 2 ^ 62" "kmalloc h sz = Some (h', p)" "p \<noteq> 0"
  shows "\<exists>h''. kfree h' p = Some h'' \<and> heap_repr h'' bs \<and> heap_used h'' = heap_used h
    \<and> kfree h'' p = None"
proof -
  have sz: "sz \<noteq> 0" "unat sz + 7 < 2 ^ 64" using assms(2,3) by auto
  let ?n = "align_up sz 8"
  have "\<exists>b\<in>set bs. fits ?n b"
    using kmalloc_live[OF assms(1-3)] assms(4,5) by (auto split: if_splits)
  from split_list_first_prop[OF this] obtain xs b ys where
    bs: "bs = xs @ b # ys" "fits ?n b" "\<forall>b\<in>set xs. \<not> fits ?n b" by blast
  obtain a s where b: "b = (a, s, True)" "?n \<le> s" using bs(2) by (cases b) (auto simp: fits_def)
  have h': "p = a + 40" "heap_repr h' (xs @ cut ?n a s @ ys)"
    using kmalloc_found[OF assms(1)[unfolded bs(1) b(1)] bs(3) b(2) sz(1) refl align8(1)[OF sz(2)]] assms(4)
    by auto
  obtain k zs where k: "cut ?n a s @ ys = (a, k, False) # zs" "free_at xs a k zs = bs"
    using cut_free_at[of xs a s ys ?n] assms(1) b(2) unfolding bs(1) b(1)
    by (auto simp: heap_repr_def)
  obtain h'' where h'': "kfree h' p = Some h''" "heap_repr h'' bs"
    using kfree_refines[of h' xs a k zs] h' k by auto
  have "heap_used h'' = heap_used h"
    using assms(1) h''(2) by (simp add: heap_repr_def word_unat_eq_iff)
  moreover have "kfree h'' p = None" by (rule kfree_twice[OF h''(1) assms(5)])
  ultimately show ?thesis using h'' by blast
qed

theorem kfree_kmalloc_witness:
  "\<exists>h' p h''. kmalloc (kheap_init demo_kheap 0x200000 0x800000) 100 = Some (h', p) \<and> p \<noteq> 0
    \<and> kfree h' p = Some h'' \<and> heap_used h'' = 0 \<and> kfree h'' p = None"
proof -
  let ?h = "kheap_init demo_kheap 0x200000 0x800000"
  have r: "heap_repr ?h [(0x200000, 0x800000 - 40, True)]"
    by (rule kheap_init_repr) simp_all
  have "align_up 100 8 \<le> (0x800000 - 40 :: u64)" by (simp add: align_up_def)
  then obtain h' p where k: "kmalloc ?h 100 = Some (h', p)" "p \<noteq> 0"
    using kmalloc_live[OF r, of 100] by (auto simp: fits_def)
  then show ?thesis using kfree_kmalloc[OF r _ _ k] by (auto simp: kheap_init_def)
qed


end
