(* ===== verification/Ring.thy ===== *)
theory Ring
  imports Wos_Prelude
begin

text \<open>
  Ring buffers, as the pipe (\<^verbatim>\<open>kernel/fs/pipe.c\<close>) and the two queues of a socket direction
  (\<^verbatim>\<open>kernel/fs/socket.c\<close>) use them: an array, a write position, a read position and a count, both
  positions advanced modulo the capacity.  A ring represents the list of its elements, oldest first.

  \<open>bounded_queue\<close> is the contract a byte stream is built on: filling accepts as much as there is room
  for and draining delivers from the front.  Its client lemma is the integrity of the stream: what
  has been delivered, followed by what is still queued, is exactly what was accepted.
\<close>

section \<open>Operations\<close>

record 'a ring =
  rbuf :: "'a list"
  rhead :: nat
  rtail :: nat
  rcount :: nat

definition ring_push :: "nat \<Rightarrow> 'a \<Rightarrow> 'a ring \<Rightarrow> 'a ring" where
  "ring_push cap x r = r\<lparr>rbuf := (rbuf r)[rhead r := x], rhead := (rhead r + 1) mod cap,
     rcount := rcount r + 1\<rparr>"

definition ring_pop :: "nat \<Rightarrow> 'a ring \<Rightarrow> 'a \<times> 'a ring" where
  "ring_pop cap r = (rbuf r ! rtail r, r\<lparr>rtail := (rtail r + 1) mod cap, rcount := rcount r - 1\<rparr>)"

text \<open>Push while there is input and room; the result has the input not accepted.\<close>

fun ring_fill :: "nat \<Rightarrow> 'a list \<Rightarrow> 'a ring \<Rightarrow> 'a ring \<times> 'a list" where
  "ring_fill cap [] r = (r, [])"
| "ring_fill cap (x # xs) r =
     (if rcount r < cap then ring_fill cap xs (ring_push cap x r) else (r, x # xs))"

text \<open>Pop at most \<open>n\<close> elements; the result has the elements popped.\<close>

fun ring_drain :: "nat \<Rightarrow> nat \<Rightarrow> 'a ring \<Rightarrow> 'a ring \<times> 'a list" where
  "ring_drain cap 0 r = (r, [])"
| "ring_drain cap (Suc n) r =
     (if rcount r > 0
      then (let (x, r') = ring_pop cap r; (r'', xs) = ring_drain cap n r' in (r'', x # xs))
      else (r, []))"

definition empty_ring :: "nat \<Rightarrow> 'a \<Rightarrow> 'a ring" where
  "empty_ring cap x = \<lparr>rbuf = replicate cap x, rhead = 0, rtail = 0, rcount = 0\<rparr>"

section \<open>The list a ring represents\<close>

definition ring_inv :: "nat \<Rightarrow> 'a ring \<Rightarrow> bool" where
  "ring_inv cap r \<longleftrightarrow> 0 < cap \<and> length (rbuf r) = cap \<and> rtail r < cap \<and> rcount r \<le> cap
     \<and> rhead r = (rtail r + rcount r) mod cap"

definition ring_list :: "nat \<Rightarrow> 'a ring \<Rightarrow> 'a list" where
  "ring_list cap r = map (\<lambda>i. rbuf r ! ((rtail r + i) mod cap)) [0..<rcount r]"

lemma ring_list_length [simp]: "length (ring_list cap r) = rcount r"
  by (simp add: ring_list_def)

lemma empty_ring_inv: "0 < cap \<Longrightarrow> ring_inv cap (empty_ring cap x) \<and> ring_list cap (empty_ring cap x) = []"
  by (simp add: empty_ring_def ring_inv_def ring_list_def)

text \<open>Positions less than a capacity apart are different slots.\<close>

lemma mod_slot_neq:
  fixes t i j cap :: nat
  assumes "i < j" "j - i < cap"
  shows "(t + i) mod cap \<noteq> (t + j) mod cap"
proof
  assume "(t + i) mod cap = (t + j) mod cap"
  then have "cap dvd (t + j) - (t + i)" using mod_eq_dvd_iff_nat[of "t + i" "t + j" cap] assms(1) by simp
  then show False using assms by (simp add: nat_dvd_not_less)
qed

lemma ring_push_spec:
  assumes "ring_inv cap r" "rcount r < cap"
  shows "ring_inv cap (ring_push cap x r)" "ring_list cap (ring_push cap x r) = ring_list cap r @ [x]"
proof -
  have h: "rhead r = (rtail r + rcount r) mod cap" "0 < cap" "length (rbuf r) = cap"
    using assms(1) by (simp_all add: ring_inv_def)
  show "ring_inv cap (ring_push cap x r)"
    using assms by (auto simp: ring_inv_def ring_push_def mod_Suc_eq)
  have "rbuf (ring_push cap x r) ! ((rtail r + i) mod cap) = rbuf r ! ((rtail r + i) mod cap)"
    if "i < rcount r" for i
  proof -
    have "rcount r - i < cap" using assms(2) by simp
    then show ?thesis
      using mod_slot_neq[OF that, of cap "rtail r"] h by (simp add: ring_push_def nth_list_update)
  qed
  moreover have "rbuf (ring_push cap x r) ! ((rtail r + rcount r) mod cap) = x"
    using h by (simp add: ring_push_def)
  ultimately show "ring_list cap (ring_push cap x r) = ring_list cap r @ [x]"
    by (simp add: ring_list_def ring_push_def)
qed

lemma ring_pop_spec:
  assumes "ring_inv cap r" "0 < rcount r" "ring_pop cap r = (x, r')"
  shows "ring_inv cap r'" "ring_list cap r = x # ring_list cap r'"
proof -
  have r': "r' = r\<lparr>rtail := (rtail r + 1) mod cap, rcount := rcount r - 1\<rparr>" "x = rbuf r ! rtail r"
    using assms(3) by (simp_all add: ring_pop_def)
  have c: "0 < cap" "rtail r < cap" using assms(1) by (simp_all add: ring_inv_def)
  obtain k where k: "rcount r = Suc k" using assms(2) by (cases "rcount r") auto
  have "((rtail r + 1) mod cap + k) mod cap = (rtail r + Suc k) mod cap"
    using mod_add_left_eq[of "rtail r + 1" cap k] by simp
  then show "ring_inv cap r'" using assms(1) c by (simp add: r' ring_inv_def k)
  have "map (\<lambda>i. rbuf r ! ((rtail r + i) mod cap)) [Suc 0..<Suc k]
    = map (\<lambda>i. rbuf r ! (((rtail r + 1) mod cap + i) mod cap)) [0..<k]"
    unfolding map_Suc_upt[symmetric] map_map
    using mod_add_left_eq[of "rtail r + 1" cap] by simp
  then show "ring_list cap r = x # ring_list cap r'"
    using c by (simp add: ring_list_def r' k upt_rec[of 0] del: upt_Suc)
qed

lemma ring_fill_spec:
  assumes "ring_inv cap r"
  shows "ring_inv cap (fst (ring_fill cap xs r))
    \<and> ring_list cap (fst (ring_fill cap xs r)) = ring_list cap r @ take (cap - rcount r) xs
    \<and> snd (ring_fill cap xs r) = drop (cap - rcount r) xs"
  using assms
proof (induction cap xs r rule: ring_fill.induct)
  case (2 cap x xs r)
  show ?case
  proof (cases "rcount r < cap")
    case True
    note sp = ring_push_spec[OF 2(2) True, of x]
    have "cap - rcount r = Suc (cap - rcount (ring_push cap x r))"
      using True by (simp add: ring_push_def)
    then show ?thesis using 2(1)[OF True sp(1)] sp(2) True by simp
  next
    case False
    then show ?thesis using 2(2) by simp
  qed
qed simp

lemma ring_drain_spec:
  assumes "ring_inv cap r"
  shows "ring_inv cap (fst (ring_drain cap n r))
    \<and> ring_list cap (fst (ring_drain cap n r)) = drop n (ring_list cap r)
    \<and> snd (ring_drain cap n r) = take n (ring_list cap r)"
  using assms
proof (induction cap n r rule: ring_drain.induct)
  case (2 cap n r)
  show ?case
  proof (cases "rcount r > 0")
    case True
    obtain x r' where p: "ring_pop cap r = (x, r')" by (cases "ring_pop cap r")
    note sp = ring_pop_spec[OF 2(2) True p]
    show ?thesis using 2(1)[OF True p[symmetric] refl sp(1)] sp(2) True p
      by (simp add: split_beta)
  next
    case False
    then have "ring_list cap r = []" by (simp add: ring_list_def)
    then show ?thesis using 2(2) False by simp
  qed
qed simp

section \<open>Streams over a bounded queue\<close>

datatype 'a qop = Put "'a list" | Get nat

text \<open>A trace of puts and gets: the final queue, everything accepted and everything delivered.\<close>

fun stream_run ::
  "('a list \<Rightarrow> 's \<Rightarrow> 's \<times> 'a list) \<Rightarrow> (nat \<Rightarrow> 's \<Rightarrow> 's \<times> 'a list) \<Rightarrow> 's \<Rightarrow> 'a qop list
   \<Rightarrow> 's \<times> 'a list \<times> 'a list" where
  "stream_run fill drain s [] = (s, [], [])"
| "stream_run fill drain s (Put xs # ops) =
     (let (s', rest) = fill xs s; (t, acc, del) = stream_run fill drain s' ops
      in (t, take (length xs - length rest) xs @ acc, del))"
| "stream_run fill drain s (Get n # ops) =
     (let (s', ys) = drain n s; (t, acc, del) = stream_run fill drain s' ops
      in (t, acc, ys @ del))"

locale bounded_queue =
  fixes inv :: "'s \<Rightarrow> bool"
    and contents :: "'s \<Rightarrow> 'a list"
    and cap :: nat
    and fill :: "'a list \<Rightarrow> 's \<Rightarrow> 's \<times> 'a list"
    and drain :: "nat \<Rightarrow> 's \<Rightarrow> 's \<times> 'a list"
  assumes bounded: "inv s \<Longrightarrow> length (contents s) \<le> cap"
    and fill_law: "inv s \<Longrightarrow> inv (fst (fill xs s))
      \<and> contents (fst (fill xs s)) = contents s @ take (cap - length (contents s)) xs
      \<and> snd (fill xs s) = drop (cap - length (contents s)) xs"
    and drain_law: "inv s \<Longrightarrow> inv (fst (drain n s))
      \<and> contents (fst (drain n s)) = drop n (contents s) \<and> snd (drain n s) = take n (contents s)"
begin

lemma fill_accepted:
  assumes "inv s" "fill xs s = (s', rest)"
  shows "inv s'" "contents s' = contents s @ take (length xs - length rest) xs"
    "xs = take (length xs - length rest) xs @ rest"
proof -
  have f: "inv s'" "contents s' = contents s @ take (cap - length (contents s)) xs"
    "rest = drop (cap - length (contents s)) xs" using fill_law[OF assms(1), of xs] assms(2) by simp_all
  have t: "take (length xs - length rest) xs = take (cap - length (contents s)) xs"
    by (cases "cap - length (contents s) \<le> length xs") (simp_all add: f(3))
  show "inv s'" "contents s' = contents s @ take (length xs - length rest) xs"
    "xs = take (length xs - length rest) xs @ rest" using f t by simp_all
qed

lemma stream_integrity:
  assumes "inv s" "stream_run fill drain s ops = (t, acc, del)"
  shows "inv t \<and> del @ contents t = contents s @ acc"
  using assms
proof (induction ops arbitrary: s acc del)
  case (Cons op ops)
  show ?case
  proof (cases op)
    case (Put xs)
    obtain s' rest where f: "fill xs s = (s', rest)" by (cases "fill xs s")
    obtain acc' where a: "stream_run fill drain s' ops = (t, acc', del)"
      "acc = take (length xs - length rest) xs @ acc'"
      using Cons.prems(2) by (auto simp: Put f split: prod.splits)
    show ?thesis using Cons.IH[OF fill_accepted(1)[OF Cons.prems(1) f] a(1)]
        fill_accepted(2)[OF Cons.prems(1) f] a(2) by simp
  next
    case (Get n)
    obtain s' ys where d: "drain n s = (s', ys)" by (cases "drain n s")
    obtain del' where a: "stream_run fill drain s' ops = (t, acc, del')" "del = ys @ del'"
      using Cons.prems(2) by (auto simp: Get d split: prod.splits)
    have "inv s'" "contents s' = drop n (contents s)" "ys = take n (contents s)"
      using drain_law[OF Cons.prems(1), of n] d by simp_all
    then show ?thesis using Cons.IH[OF _ a(1)] a(2)
      by (metis append.assoc append_take_drop_id)
  qed
qed simp

end

interpretation rq: bounded_queue "ring_inv cap" "ring_list cap" cap "ring_fill cap" "ring_drain cap" for cap
proof
  show "length (ring_list cap s) \<le> cap" if "ring_inv cap s" for s :: "'a ring"
    using that by (simp add: ring_inv_def)
qed (use ring_fill_spec ring_drain_spec in \<open>simp_all\<close>)

end
