(* ===== verification/Socket.thy ===== *)
theory Socket
  imports Pipe "HOL-Library.Monad_Syntax"
begin

text \<open>
  Local sockets, \<^verbatim>\<open>kernel/fs/socket.c\<close>.

  The state has the table of listeners, the endpoints and connections by address, the kernel heap
  they are allocated from, and for every open file the number of references the socket layer has
  taken with \<^verbatim>\<open>vfs_fd_retain\<close> and not given back with \<^verbatim>\<open>vfs_fd_drop\<close> or handed to a receiver; what
  the file layer does with a reference is its own.  \<open>'f\<close> is \<^verbatim>\<open>file_t\<close>.  The null pointer is 0, a
  backlog is the list of its entries, and following a pointer to nothing is \<open>None\<close>, as a panic of the
  heap is.  A call that sleeps in \<^verbatim>\<open>sched_block\<close> is an outcome of its own: a send that sleeps for room
  keeps what it has left to send, one that sleeps for descriptor slots has done nothing yet.  Waking
  sleepers changes no state here.

  The lemmas show that each direction is a reliable byte stream whose descriptors arrive in order and
  never before the bytes they were sent with, that every reference taken is accounted for, who may
  connect, and what polling promises.
\<close>

section \<open>State\<close>

definition SOCK_CAP :: nat where "SOCK_CAP = 4096"
definition SOCK_FD_CAP :: nat where "SOCK_FD_CAP = 28"
definition SOCK_WRITE_CHUNK :: nat where "SOCK_WRITE_CHUNK = 1024"
definition SOCK_BACKLOG :: nat where "SOCK_BACKLOG = 8"
definition MAX_LISTENERS :: nat where "MAX_LISTENERS = 8"
definition W_ROOT_UID :: u32 where "W_ROOT_UID = 0"
definition sizeof_socket :: u64 where "sizeof_socket = 360"
definition sizeof_conn :: u64 where "sizeof_conn = 11880"

record 'f sock_fd =
  fd_file :: 'f
  fd_at :: u64

record 'f sock_dir =
  buf :: "u8 ring"
  written :: u64
  read :: u64
  fds :: "'f sock_fd ring"

record 'f sock_conn =
  crefs :: int
  closed :: "bool list"
  dir :: "'f sock_dir list"

record socket =
  refs :: int
  listening :: bool
  path :: "u8 list"
  owner :: u32
  backlog :: "u64 list"
  conn :: u64
  side :: nat

record 'f sockets =
  listeners :: "u64 list"
  socks :: "u64 \<Rightarrow> socket option"
  conns :: "u64 \<Rightarrow> 'f sock_conn option"
  heap :: kheap
  fd_refs :: "'f \<Rightarrow> int"

section \<open>Endpoints\<close>

definition zero_socket :: socket where
  "zero_socket = \<lparr>refs = 1, listening = False, path = [], owner = 0, backlog = [], conn = 0, side = 0\<rparr>"

definition socket_alloc :: "'f sockets \<Rightarrow> ('f sockets \<times> u64) option" where
  "socket_alloc st =
     do {
       (h, p) \<leftarrow> kmalloc (heap st) sizeof_socket;
       if p = 0 then Some (st\<lparr>heap := h\<rparr>, 0)
       else Some (st\<lparr>heap := h, socks := (socks st)(p \<mapsto> zero_socket)\<rparr>, p)
     }"

definition out_dir :: "socket \<Rightarrow> 'f sock_conn \<Rightarrow> 'f sock_dir" where
  "out_dir s c = dir c ! side s"

definition in_dir :: "socket \<Rightarrow> 'f sock_conn \<Rightarrow> 'f sock_dir" where
  "in_dir s c = dir c ! (1 - side s)"

definition peer_gone :: "socket \<Rightarrow> 'f sock_conn option \<Rightarrow> bool" where
  "peer_gone s c = (case c of None \<Rightarrow> True | Some c \<Rightarrow> closed c ! (1 - side s))"

definition conn_unref :: "u64 \<Rightarrow> 'f sockets \<Rightarrow> 'f sockets option" where
  "conn_unref a st =
     (if a = 0 then Some st
      else do {
        c \<leftarrow> conns st a;
        let c = c\<lparr>crefs := crefs c - 1\<rparr>;
        if crefs c \<le> 0
        then do {
          h \<leftarrow> kfree (heap st) a;
          Some (st\<lparr>heap := h, conns := (conns st)(a := None)\<rparr>)
        }
        else Some (st\<lparr>conns := (conns st)(a \<mapsto> c)\<rparr>)
      })"

function drop_queued_fds :: "'f sock_dir \<Rightarrow> ('f \<Rightarrow> int) \<Rightarrow> 'f sock_dir \<times> ('f \<Rightarrow> int)" where
  "drop_queued_fds d r =
     (if rcount (fds d) > 0
      then (let (x, q) = ring_pop SOCK_FD_CAP (fds d)
            in drop_queued_fds (d\<lparr>fds := q\<rparr>) (r(fd_file x := r (fd_file x) - 1)))
      else (d, r))"
  by auto
termination by (relation "measure (\<lambda>(d, r). rcount (fds d))") (auto simp: ring_pop_def)

declare drop_queued_fds.simps [simp del]

definition socket_ref :: "u64 \<Rightarrow> 'f sockets \<Rightarrow> 'f sockets option" where
  "socket_ref a st =
     (if a = 0 then Some st
      else do {
        s \<leftarrow> socks st a;
        Some (st\<lparr>socks := (socks st)(a \<mapsto> s\<lparr>refs := refs s + 1\<rparr>)\<rparr>)
      })"

text \<open>The part of \<^verbatim>\<open>socket_unref\<close> that leaves the connection, and the part before it that empties the
  backlog.  The function calls itself for the endpoints of the backlog, which are no listeners; the
  first argument bounds the depth of the calls.\<close>

definition leave_conn :: "socket \<Rightarrow> 'f sockets \<Rightarrow> 'f sockets option" where
  "leave_conn s st =
     (if conn s = 0 then Some st
      else do {
        c \<leftarrow> conns st (conn s);
        let c = c\<lparr>closed := (closed c)[side s := True]\<rparr>;
        let (d, r) = drop_queued_fds (out_dir s c) (fd_refs st);
        let c = c\<lparr>dir := (dir c)[side s := d]\<rparr>;
        let (d, r) = drop_queued_fds (in_dir s c) r;
        let c = c\<lparr>dir := (dir c)[1 - side s := d]\<rparr>;
        conn_unref (conn s) (st\<lparr>conns := (conns st)(conn s \<mapsto> c), fd_refs := r\<rparr>)
      })"

fun each :: "('a \<Rightarrow> 's \<Rightarrow> 's option) \<Rightarrow> 'a list \<Rightarrow> 's \<Rightarrow> 's option" where
  "each f [] st = Some st"
| "each f (x # xs) st = f x st \<bind> each f xs"

fun unref_depth :: "nat \<Rightarrow> u64 \<Rightarrow> 'f sockets \<Rightarrow> 'f sockets option" where
  "unref_depth 0 a st = None"
| "unref_depth (Suc n) a st =
     (if a = 0 then Some st
      else do {
        s \<leftarrow> socks st a;
        let s = s\<lparr>refs := refs s - 1\<rparr>;
        let st = st\<lparr>socks := (socks st)(a \<mapsto> s)\<rparr>;
        if refs s > 0 then Some st
        else do {
          st \<leftarrow> (if listening s
                then each (\<lambda>b. unref_depth n b) (backlog s)
                       (st\<lparr>listeners := map (\<lambda>l. if l = a then 0 else l) (listeners st)\<rparr>)
                else Some st);
          st \<leftarrow> leave_conn s st;
          h \<leftarrow> kfree (heap st) a;
          Some (st\<lparr>heap := h, socks := (socks st)(a := None)\<rparr>)
        }
      })"

definition socket_unref :: "u64 \<Rightarrow> 'f sockets \<Rightarrow> 'f sockets option" where
  "socket_unref a st = unref_depth 2 a st"

section \<open>Making connections\<close>

definition find_listener :: "'f sockets \<Rightarrow> u8 list \<Rightarrow> u64" where
  "find_listener st name =
     (case find (\<lambda>l. l \<noteq> 0 \<and> (case socks st l of Some s \<Rightarrow> path s = name | None \<Rightarrow> False)) (listeners st) of
        Some l \<Rightarrow> l | None \<Rightarrow> 0)"

definition free_slot :: "u64 list \<Rightarrow> nat option" where
  "free_slot ls = find (\<lambda>i. ls ! i = 0) [0..<length ls]"

text \<open>\<^verbatim>\<open>strlcpy\<close> into the field of a path.\<close>

definition path_field :: "u8 list \<Rightarrow> u8 list" where
  "path_field p = take 255 p"

definition socket_listen :: "'f sockets \<Rightarrow> u8 list \<Rightarrow> u32 \<Rightarrow> ('f sockets \<times> u64 res) option" where
  "socket_listen st name uid =
     (if find_listener st name \<noteq> 0 then Some (st, Inl W_EEXIST)
      else case free_slot (listeners st) of
        None \<Rightarrow> Some (st, Inl W_ENFILE)
      | Some slot \<Rightarrow>
          do {
            (st, a) \<leftarrow> socket_alloc st;
            if a = 0 then Some (st, Inl W_ENOMEM)
            else Some (st\<lparr>socks := (socks st)(a \<mapsto> zero_socket\<lparr>listening := True, owner := uid, path := path_field name\<rparr>),
                          listeners := (listeners st)[slot := a]\<rparr>, Inr a)
          })"

definition empty_dir :: "'f \<Rightarrow> 'f sock_dir" where
  "empty_dir f0 = \<lparr>buf = empty_ring SOCK_CAP 0, written = 0, read = 0,
     fds = empty_ring SOCK_FD_CAP \<lparr>fd_file = f0, fd_at = 0\<rparr>\<rparr>"

definition new_conn :: "'f \<Rightarrow> 'f sock_conn" where
  "new_conn f0 = \<lparr>crefs = 2, closed = [False, False], dir = [empty_dir f0, empty_dir f0]\<rparr>"

definition kfree_some :: "u64 \<Rightarrow> kheap \<Rightarrow> kheap option" where
  "kfree_some p h = (if p = 0 then Some h else kfree h p)"

text \<open>\<open>f0\<close> is the \<^verbatim>\<open>file_t\<close> whose bytes are all zero.\<close>

definition connect_alloc :: "'f \<Rightarrow> 'f sockets \<Rightarrow> u64 \<Rightarrow> socket \<Rightarrow> ('f sockets \<times> u64 res) option" where
  "connect_alloc f0 st l ls =
     do {
       (h, c) \<leftarrow> kmalloc (heap st) sizeof_conn;
       (st, mine) \<leftarrow> socket_alloc (st\<lparr>heap := h\<rparr>);
       (st, theirs) \<leftarrow> socket_alloc st;
       if c = 0 \<or> mine = 0 \<or> theirs = 0
       then do {
         h \<leftarrow> kfree_some c (heap st);
         h \<leftarrow> kfree_some mine h;
         h \<leftarrow> kfree_some theirs h;
         Some (st\<lparr>heap := h, socks := (socks st)(mine := None, theirs := None)\<rparr>, Inl W_ENOMEM)
       }
       else
         Some (st\<lparr>conns := (conns st)(c \<mapsto> new_conn f0),
                  socks := (socks st)(mine \<mapsto> zero_socket\<lparr>conn := c, side := 0\<rparr>,
                                      theirs \<mapsto> zero_socket\<lparr>conn := c, side := 1\<rparr>,
                                      l \<mapsto> ls\<lparr>backlog := backlog ls @ [theirs]\<rparr>)\<rparr>, Inr mine)
     }"

definition socket_connect :: "'f \<Rightarrow> 'f sockets \<Rightarrow> u8 list \<Rightarrow> u32 \<Rightarrow> ('f sockets \<times> u64 res) option" where
  "socket_connect f0 st name uid =
     (let l = find_listener st name in
      if l = 0 then Some (st, Inl W_ENOENT)
      else do {
        ls \<leftarrow> socks st l;
        if uid \<noteq> owner ls \<and> uid \<noteq> W_ROOT_UID then Some (st, Inl W_EPERM)
        else if length (backlog ls) \<ge> SOCK_BACKLOG then Some (st, Inl W_EBUSY)
        else connect_alloc f0 st l ls
      })"

definition socket_accept :: "'f sockets \<Rightarrow> u64 \<Rightarrow> ('f sockets \<times> u64 res) outcome option" where
  "socket_accept st a =
     (if a = 0 then Some (Returns (st, Inl W_EBADF))
      else do {
        s \<leftarrow> socks st a;
        if \<not> listening s then Some (Returns (st, Inl W_EBADF))
        else case backlog s of
          [] \<Rightarrow> Some Blocked
        | c # rest \<Rightarrow> Some (Returns (st\<lparr>socks := (socks st)(a \<mapsto> s\<lparr>backlog := rest\<rparr>)\<rparr>, Inr c))
      })"

section \<open>Moving messages\<close>

definition push_fd :: "u64 \<Rightarrow> 'f \<Rightarrow> 'f sock_dir \<times> ('f \<Rightarrow> int) \<Rightarrow> 'f sock_dir \<times> ('f \<Rightarrow> int)" where
  "push_fd len f p =
     (case p of (d, r) \<Rightarrow>
        (d\<lparr>fds := ring_push SOCK_FD_CAP \<lparr>fd_file = f, fd_at = written d + len\<rparr> (fds d)\<rparr>, r(f := r f + 1)))"

datatype send_outcome = Blocked_Fds | Blocked_Bytes nat "u8 list" | Sent "int res"

text \<open>The loop that moves the bytes of one message: \<open>n\<close> are sent, \<open>rest\<close> are left.  A sender that is
  woken tests again whether the peer has gone and goes on from there.\<close>

function send_loop :: "bool \<Rightarrow> 'f sock_dir \<Rightarrow> nat \<Rightarrow> u8 list \<Rightarrow> 'f sock_dir \<times> send_outcome" where
  "send_loop gone d n rest =
     (if rest = [] then (d, Sent (Inr (int_of_count n)))
      else if gone then (d, Sent (if n > 0 then Inr (int_of_count n) else Inl W_EPIPE))
      else if rcount (buf d) < SOCK_CAP
      then (case ring_fill SOCK_CAP rest (buf d) of
              (r, rest') \<Rightarrow>
                send_loop gone (d\<lparr>buf := r, written := written d + of_nat (length rest - length rest')\<rparr>)
                  (n + (length rest - length rest')) rest')
      else (d, Blocked_Bytes n rest))"
  by auto
termination
  by (relation "measure (\<lambda>(gone, d, n, rest). length rest)") (auto dest: ring_fill_shorter[OF _ _ sym])

declare send_loop.simps [simp del]

text \<open>One direction: the descriptors first and together, then the bytes.\<close>

definition send_dir ::
  "bool \<Rightarrow> 'f sock_dir \<Rightarrow> ('f \<Rightarrow> int) \<Rightarrow> u8 list \<Rightarrow> 'f list \<Rightarrow> 'f sock_dir \<times> ('f \<Rightarrow> int) \<times> send_outcome" where
  "send_dir gone d r data fs =
     (if SOCK_FD_CAP - rcount (fds d) < length fs
      then (d, r, if gone then Sent (Inl W_EPIPE) else Blocked_Fds)
      else (case fold (push_fd (of_nat (length data))) fs (d, r) of
              (d, r) \<Rightarrow> (case send_loop gone d 0 data of (d, out) \<Rightarrow> (d, r, out))))"

definition socket_send :: "'f sockets \<Rightarrow> u64 \<Rightarrow> u8 list \<Rightarrow> 'f list \<Rightarrow> ('f sockets \<times> send_outcome) option" where
  "socket_send st a data fs =
     (if a = 0 then Some (st, Sent (Inl W_EBADF))
      else do {
        s \<leftarrow> socks st a;
        if listening s \<or> conn s = 0 then Some (st, Sent (Inl W_EBADF))
        else if length fs > SOCK_FD_CAP then Some (st, Sent (Inl W_EINVAL))
        else do {
          c \<leftarrow> conns st (conn s);
          let (d, r, out) = send_dir (peer_gone s (Some c)) (out_dir s c) (fd_refs st) data fs;
          Some (st\<lparr>conns := (conns st)(conn s \<mapsto> c\<lparr>dir := (dir c)[side s := d]\<rparr>), fd_refs := r\<rparr>, out)
        }
      })"

text \<open>What a sender does when it is woken after it slept with \<open>n\<close> bytes sent and \<open>rest\<close> left.\<close>

definition socket_send_more :: "'f sockets \<Rightarrow> u64 \<Rightarrow> nat \<Rightarrow> u8 list \<Rightarrow> ('f sockets \<times> send_outcome) option" where
  "socket_send_more st a n rest =
     do {
       s \<leftarrow> socks st a;
       c \<leftarrow> conns st (conn s);
       let (d, out) = send_loop (peer_gone s (Some c)) (out_dir s c) n rest;
       Some (st\<lparr>conns := (conns st)(conn s \<mapsto> c\<lparr>dir := (dir c)[side s := d]\<rparr>)\<rparr>, out)
     }"

fun recv_fds :: "nat \<Rightarrow> 'f sock_dir \<Rightarrow> 'f sock_dir \<times> 'f list" where
  "recv_fds 0 d = (d, [])"
| "recv_fds (Suc want) d =
     (if rcount (fds d) > 0 \<and> fd_at (fst (ring_pop SOCK_FD_CAP (fds d))) \<le> read d
      then (let (x, q) = ring_pop SOCK_FD_CAP (fds d);
                (d', fs) = recv_fds want (d\<lparr>fds := q\<rparr>)
            in (d', fd_file x # fs))
      else (d, []))"

definition recv_dir :: "bool \<Rightarrow> 'f sock_dir \<Rightarrow> nat \<Rightarrow> nat \<Rightarrow> ('f sock_dir \<times> u8 list \<times> 'f list) outcome" where
  "recv_dir gone d len want =
     (if rcount (buf d) = 0 \<and> rcount (fds d) = 0 \<and> \<not> gone then Blocked
      else (case ring_drain SOCK_CAP len (buf d) of
              (r, out) \<Rightarrow>
                (let d = d\<lparr>buf := r, read := read d + of_nat (length out)\<rparr>;
                     (d, fs) = recv_fds want d
                 in Returns (d, out, fs))))"

text \<open>The references of the descriptors delivered now belong to the receiver.\<close>

definition hand_over :: "'f list \<Rightarrow> ('f \<Rightarrow> int) \<Rightarrow> 'f \<Rightarrow> int" where
  "hand_over fs r = fold (\<lambda>f r. r(f := r f - 1)) fs r"

definition socket_recv ::
  "'f sockets \<Rightarrow> u64 \<Rightarrow> nat \<Rightarrow> nat \<Rightarrow> ('f sockets \<times> (u8 list \<times> 'f list) res) outcome option" where
  "socket_recv st a len want =
     (if a = 0 then Some (Returns (st, Inl W_EBADF))
      else do {
        s \<leftarrow> socks st a;
        if listening s \<or> conn s = 0 then Some (Returns (st, Inl W_EBADF))
        else do {
          c \<leftarrow> conns st (conn s);
          case recv_dir (peer_gone s (Some c)) (in_dir s c) len want of
            Blocked \<Rightarrow> Some Blocked
          | Returns (d, out, fs) \<Rightarrow>
              Some (Returns (st\<lparr>conns := (conns st)(conn s \<mapsto> c\<lparr>dir := (dir c)[1 - side s := d]\<rparr>),
                               fd_refs := hand_over fs (fd_refs st)\<rparr>, Inr (out, fs)))
        }
      })"

section \<open>Readiness\<close>

definition socket_pollin :: "'f sockets \<Rightarrow> u64 \<Rightarrow> bool option" where
  "socket_pollin st a =
     (if a = 0 then Some True
      else do {
        s \<leftarrow> socks st a;
        if listening s then Some (backlog s \<noteq> [])
        else if conn s = 0 then Some True
        else do {
          c \<leftarrow> conns st (conn s);
          Some (rcount (buf (in_dir s c)) > 0 \<or> rcount (fds (in_dir s c)) > 0 \<or> peer_gone s (Some c))
        }
      })"

definition socket_pollout :: "'f sockets \<Rightarrow> u64 \<Rightarrow> bool option" where
  "socket_pollout st a =
     (if a = 0 then Some False
      else do {
        s \<leftarrow> socks st a;
        if listening s \<or> conn s = 0 then Some False
        else do {
          c \<leftarrow> conns st (conn s);
          if peer_gone s (Some c) then Some True
          else Some (rcount (buf (out_dir s c)) + SOCK_WRITE_CHUNK \<le> SOCK_CAP)
        }
      })"

definition socket_hungup :: "'f sockets \<Rightarrow> u64 \<Rightarrow> bool option" where
  "socket_hungup st a =
     (if a = 0 then Some False
      else do {
        s \<leftarrow> socks st a;
        if listening s \<or> conn s = 0 then Some False
        else do {
          c \<leftarrow> conns st (conn s);
          Some (peer_gone s (Some c) \<and> rcount (buf (in_dir s c)) = 0 \<and> rcount (fds (in_dir s c)) = 0)
        }
      })"

section \<open>One direction is a stream\<close>

definition dir_inv :: "'f sock_dir \<Rightarrow> bool" where
  "dir_inv d \<longleftrightarrow> ring_inv SOCK_CAP (buf d) \<and> ring_inv SOCK_FD_CAP (fds d)
     \<and> written d = read d + of_nat (rcount (buf d))"

definition dir_bytes :: "'f sock_dir \<Rightarrow> u8 list" where
  "dir_bytes d = ring_list SOCK_CAP (buf d)"

definition dir_fds :: "'f sock_dir \<Rightarrow> 'f sock_fd list" where
  "dir_fds d = ring_list SOCK_FD_CAP (fds d)"

lemma dir_lengths [simp]: "length (dir_bytes d) = rcount (buf d)" "length (dir_fds d) = rcount (fds d)"
  by (simp_all add: dir_bytes_def dir_fds_def)

lemma empty_dir_inv: "dir_inv (empty_dir f0)" "dir_bytes (empty_dir f0) = []" "dir_fds (empty_dir f0) = []"
  using empty_ring_inv[of SOCK_CAP "0 :: u8"] empty_ring_inv[of SOCK_FD_CAP "\<lparr>fd_file = f0, fd_at = 0\<rparr>"]
  by (simp_all add: dir_inv_def dir_bytes_def dir_fds_def empty_dir_def SOCK_CAP_def SOCK_FD_CAP_def)
    (simp add: empty_ring_def)

lemma send_loop_spec:
  assumes "dir_inv d" "send_loop gone d n rest = (d', out)"
  shows "dir_inv d' \<and> fds d' = fds d \<and> read d' = read d
    \<and> dir_bytes d' = dir_bytes d @ (if gone then [] else take (SOCK_CAP - rcount (buf d)) rest)
    \<and> out = (if rest = [] then Sent (Inr (int_of_count n))
             else if gone then Sent (if n > 0 then Inr (int_of_count n) else Inl W_EPIPE)
             else if length rest \<le> SOCK_CAP - rcount (buf d) then Sent (Inr (int_of_count (n + length rest)))
             else Blocked_Bytes (n + (SOCK_CAP - rcount (buf d))) (drop (SOCK_CAP - rcount (buf d)) rest))"
proof (cases "rest = [] \<or> gone \<or> \<not> rcount (buf d) < SOCK_CAP")
  case True
  then show ?thesis using assms by (subst (asm) send_loop.simps) (auto split: if_splits)
next
  case False
  let ?room = "SOCK_CAP - rcount (buf d)"
  obtain r rest' where f: "ring_fill SOCK_CAP rest (buf d) = (r, rest')" by (cases "ring_fill SOCK_CAP rest (buf d)")
  have r: "ring_inv SOCK_CAP r" "ring_list SOCK_CAP r = dir_bytes d @ take ?room rest" "rest' = drop ?room rest"
    using ring_fill_spec[of SOCK_CAP "buf d" rest] assms(1) f by (simp_all add: dir_inv_def dir_bytes_def)
  let ?d = "d\<lparr>buf := r, written := written d + of_nat (length rest - length rest')\<rparr>"
  have eq: "send_loop gone ?d (n + (length rest - length rest')) rest' = (d', out)"
    using assms(2) False f by (subst (asm) send_loop.simps) simp
  have rc: "rcount r = rcount (buf d) + min ?room (length rest)" using arg_cong[OF r(2), of length] by (simp add: min.commute)
  have "length rest - length rest' = min ?room (length rest)" using r(3) by simp
  then have inv: "dir_inv ?d" using assms(1) r(1) rc by (simp add: dir_inv_def)
  show ?thesis
  proof (cases "length rest \<le> ?room")
    case True
    then have "rest' = []" using r(3) by simp
    then show ?thesis using eq False True r inv by (subst (asm) send_loop.simps) (auto simp: dir_bytes_def)
  next
    case full: False
    then have "\<not> rcount r < SOCK_CAP" "rest' \<noteq> []" using rc r(3) by auto
    then show ?thesis using eq False full r inv by (subst (asm) send_loop.simps) (auto simp: dir_bytes_def)
  qed
qed

definition message_fd :: "'f sock_dir \<Rightarrow> nat \<Rightarrow> 'f \<Rightarrow> 'f sock_fd" where
  "message_fd d len f = \<lparr>fd_file = f, fd_at = written d + of_nat len\<rparr>"

lemma push_fds_spec:
  assumes "dir_inv d" "rcount (fds d) + length fs \<le> SOCK_FD_CAP"
    "fold (push_fd (of_nat len)) fs (d, r) = (d', r')"
  shows "dir_inv d' \<and> buf d' = buf d \<and> written d' = written d \<and> read d' = read d
    \<and> dir_fds d' = dir_fds d @ map (message_fd d len) fs \<and> r' = (\<lambda>f. r f + int (count_list fs f))"
  using assms
proof (induction fs arbitrary: d r)
  case (Cons f fs)
  let ?d = "d\<lparr>fds := ring_push SOCK_FD_CAP (message_fd d len f) (fds d)\<rparr>"
  have "ring_inv SOCK_FD_CAP (fds d)" "rcount (fds d) < SOCK_FD_CAP" using Cons.prems by (simp_all add: dir_inv_def)
  note p = ring_push_spec[OF this, of "message_fd d len f"]
  have i: "dir_inv ?d" "rcount (fds ?d) + length fs \<le> SOCK_FD_CAP"
    using Cons.prems p by (simp_all add: dir_inv_def ring_push_def)
  have step: "fold (push_fd (of_nat len)) fs (?d, r(f := r f + 1)) = (d', r')"
    using Cons.prems(3) by (simp add: push_fd_def[of _ f "(d, r)"] message_fd_def)
  have m: "map (message_fd ?d len) fs = map (message_fd d len) fs" by (simp add: message_fd_def)
  have "dir_fds ?d = dir_fds d @ [message_fd d len f]" using p(2) by (simp add: dir_fds_def)
  then show ?case using Cons.IH[OF i step] m by auto
qed auto

lemma recv_fds_spec:
  assumes "dir_inv d" "recv_fds want d = (d', fs)"
  shows "dir_inv d' \<and> buf d' = buf d \<and> read d' = read d \<and> written d' = written d
    \<and> (\<exists>qs. dir_fds d = qs @ dir_fds d' \<and> fs = map fd_file qs \<and> (\<forall>q \<in> set qs. fd_at q \<le> read d) \<and> length qs \<le> want
        \<and> (length qs < want \<and> dir_fds d' \<noteq> [] \<longrightarrow> \<not> fd_at (hd (dir_fds d')) \<le> read d))"
  using assms
proof (induction want arbitrary: d fs)
  case (Suc want)
  obtain x q where p: "ring_pop SOCK_FD_CAP (fds d) = (x, q)" by (cases "ring_pop SOCK_FD_CAP (fds d)")
  have ri: "ring_inv SOCK_FD_CAP (fds d)" using Suc.prems(1) by (simp add: dir_inv_def)
  show ?case
  proof (cases "rcount (fds d) > 0")
    case False
    then have "dir_fds d = []" "d' = d" "fs = []" using Suc.prems(2) by (simp_all add: dir_fds_def ring_list_def)
    then show ?thesis using Suc.prems(1) by auto
  next
    case pos: True
    note pp = ring_pop_spec[OF ri pos p]
    show ?thesis
    proof (cases "fd_at x \<le> read d")
      case False
      then have "d' = d" "fs = []" using Suc.prems(2) p pos by simp_all
      then show ?thesis using Suc.prems(1) False pp(2) by (auto simp: dir_fds_def)
    next
      case True
      let ?d = "d\<lparr>fds := q\<rparr>"
      obtain fs' where r: "recv_fds want ?d = (d', fs')" "fs = fd_file x # fs'"
        using Suc.prems(2) p pos True by (auto split: prod.splits)
      have "dir_inv ?d" using Suc.prems(1) pp(1) by (simp add: dir_inv_def)
      from Suc.IH[OF this r(1)] obtain qs where
        "dir_inv d' \<and> buf d' = buf d \<and> read d' = read d \<and> written d' = written d"
        "dir_fds ?d = qs @ dir_fds d'" "fs' = map fd_file qs" "\<forall>q \<in> set qs. fd_at q \<le> read d" "length qs \<le> want"
        "length qs < want \<and> dir_fds d' \<noteq> [] \<longrightarrow> \<not> fd_at (hd (dir_fds d')) \<le> read d" by auto
      then show ?thesis using r(2) pp(2) True
        by (intro conjI exI[of _ "x # qs"]) (auto simp: dir_fds_def)
    qed
  qed
qed auto

lemma hand_over_count: "hand_over fs r = (\<lambda>f. r f - int (count_list fs f))"
  unfolding hand_over_def by (induction fs arbitrary: r) auto

text \<open>A receive on a direction, as taking from the front of two queues.\<close>

lemma recv_dir_spec:
  assumes "dir_inv d" "recv_dir gone d len want = Returns (d', out, fs)"
  shows "dir_inv d' \<and> out = take len (dir_bytes d) \<and> dir_bytes d' = drop len (dir_bytes d)
    \<and> read d' = read d + of_nat (length out) \<and> written d' = written d
    \<and> (\<exists>qs. dir_fds d = qs @ dir_fds d' \<and> fs = map fd_file qs \<and> (\<forall>q \<in> set qs. fd_at q \<le> read d') \<and> length qs \<le> want
        \<and> (length qs < want \<and> dir_fds d' \<noteq> [] \<longrightarrow> \<not> fd_at (hd (dir_fds d')) \<le> read d'))"
proof -
  obtain r xs where dr: "ring_drain SOCK_CAP len (buf d) = (r, xs)" by (cases "ring_drain SOCK_CAP len (buf d)")
  have r: "ring_inv SOCK_CAP r" "ring_list SOCK_CAP r = drop len (dir_bytes d)" "xs = take len (dir_bytes d)"
    using ring_drain_spec[of SOCK_CAP "buf d" len] assms(1) dr by (simp_all add: dir_inv_def dir_bytes_def)
  let ?d = "d\<lparr>buf := r, read := read d + of_nat (length xs)\<rparr>"
  have rf: "recv_fds want ?d = (d', fs)" "out = xs"
    using assms(2) dr by (auto simp: recv_dir_def Let_def split: if_splits prod.splits)
  have rc: "rcount r = rcount (buf d) - len" using arg_cong[OF r(2), of length] by simp
  have "(of_nat (rcount (buf d)) :: u64) = of_nat (length xs) + of_nat (rcount r)"
    unfolding of_nat_add[symmetric] by (simp add: rc r(3) min_def)
  then have "dir_inv ?d" using assms(1) r(1) by (simp add: dir_inv_def algebra_simps)
  from recv_fds_spec[OF this rf(1)] show ?thesis using r rf by (auto simp: dir_bytes_def dir_fds_def)
qed

section \<open>Traces of a direction\<close>

text \<open>What the senders and receivers of one direction do while both ends are open: a send, the
  continuation of a send that slept, and a receive.  The trace collects the bytes and the descriptors
  accepted and delivered.\<close>

datatype 'f dir_op = Send "u8 list" "'f list" | Send_More nat "u8 list" | Recv nat nat

record 'f trace =
  bytes_in :: "u8 list"
  bytes_out :: "u8 list"
  fds_in :: "'f list"
  fds_out :: "'f list"

definition moved :: "'f sock_dir \<Rightarrow> 'f sock_dir \<Rightarrow> u8 list \<Rightarrow> u8 list" where
  "moved d d' data = take (rcount (buf d') - rcount (buf d)) data"

fun dir_step :: "'f dir_op \<Rightarrow> 'f sock_dir \<times> ('f \<Rightarrow> int) \<times> 'f trace \<Rightarrow> 'f sock_dir \<times> ('f \<Rightarrow> int) \<times> 'f trace" where
  "dir_step (Send data fs) (d, r, t) =
     (case send_dir False d r data fs of
        (d', r', out) \<Rightarrow>
          (d', r', t\<lparr>bytes_in := bytes_in t @ moved d d' data,
                     fds_in := fds_in t @ (if out = Blocked_Fds then [] else fs)\<rparr>))"
| "dir_step (Send_More n rest) (d, r, t) =
     (case send_loop False d n rest of (d', out) \<Rightarrow> (d', r, t\<lparr>bytes_in := bytes_in t @ moved d d' rest\<rparr>))"
| "dir_step (Recv len want) (d, r, t) =
     (case recv_dir False d len want of
        Blocked \<Rightarrow> (d, r, t)
      | Returns (d', out, fs) \<Rightarrow>
          (d', hand_over fs r, t\<lparr>bytes_out := bytes_out t @ out, fds_out := fds_out t @ fs\<rparr>))"

definition dir_accounts :: "'f sock_dir \<Rightarrow> ('f \<Rightarrow> int) \<Rightarrow> 'f sock_dir \<times> ('f \<Rightarrow> int) \<times> 'f trace \<Rightarrow> bool" where
  "dir_accounts d0 r0 x \<longleftrightarrow>
     (case x of (d, r, t) \<Rightarrow> dir_inv d
        \<and> bytes_out t @ dir_bytes d = dir_bytes d0 @ bytes_in t
        \<and> fds_out t @ map fd_file (dir_fds d) = map fd_file (dir_fds d0) @ fds_in t
        \<and> (\<forall>f. r f - r0 f = int (count_list (map fd_file (dir_fds d)) f) - int (count_list (map fd_file (dir_fds d0)) f)))"

lemma send_dir_spec:
  assumes "dir_inv d" "length fs \<le> SOCK_FD_CAP" "send_dir gone d r data fs = (d', r', out)"
  shows "dir_inv d' \<and> read d' = read d
    \<and> (if SOCK_FD_CAP - rcount (fds d) < length fs
       then d' = d \<and> r' = r \<and> out = (if gone then Sent (Inl W_EPIPE) else Blocked_Fds)
       else dir_fds d' = dir_fds d @ map (message_fd d (length data)) fs \<and> r' = (\<lambda>f. r f + int (count_list fs f))
         \<and> dir_bytes d' = dir_bytes d @ (if gone then [] else take (SOCK_CAP - rcount (buf d)) data) \<and> out \<noteq> Blocked_Fds)"
proof (cases "SOCK_FD_CAP - rcount (fds d) < length fs")
  case True
  then show ?thesis using assms by (auto simp: send_dir_def)
next
  case False
  obtain d1 r1 where f: "fold (push_fd (of_nat (length data))) fs (d, r) = (d1, r1)"
    by (cases "fold (push_fd (of_nat (length data))) fs (d, r)")
  have "rcount (fds d) \<le> SOCK_FD_CAP" using assms(1) by (simp add: dir_inv_def ring_inv_def)
  then have p: "dir_inv d1" "buf d1 = buf d" "written d1 = written d" "read d1 = read d"
    "dir_fds d1 = dir_fds d @ map (message_fd d (length data)) fs" "r1 = (\<lambda>f. r f + int (count_list fs f))"
    using push_fds_spec[OF assms(1) _ f] False by auto
  have l: "send_loop gone d1 0 data = (d', out)" "r' = r1"
    using assms(3) False f by (auto simp: send_dir_def split: prod.splits)
  have "dir_bytes d1 = dir_bytes d" "dir_fds d' = dir_fds d1"
    using p(2) send_loop_spec[OF p(1) l(1)] by (simp_all add: dir_bytes_def dir_fds_def)
  then show ?thesis using send_loop_spec[OF p(1) l(1)] p l(2) False by (auto split: if_splits)
qed

lemma moved_bytes:
  assumes "dir_bytes d' = dir_bytes d @ take (SOCK_CAP - rcount (buf d)) data"
  shows "dir_bytes d' = dir_bytes d @ moved d d' data"
proof -
  have "rcount (buf d') = rcount (buf d) + min (SOCK_CAP - rcount (buf d)) (length data)"
    using arg_cong[OF assms, of length] by (simp add: min.commute)
  then show ?thesis using assms by (cases "SOCK_CAP - rcount (buf d) \<le> length data") (simp_all add: moved_def min_def)
qed

lemma dir_step_accounts:
  assumes "dir_accounts d0 r0 x" "case op of Send data fs \<Rightarrow> length fs \<le> SOCK_FD_CAP | _ \<Rightarrow> True"
  shows "dir_accounts d0 r0 (dir_step op x)"
proof -
  obtain d r t where x: "x = (d, r, t)" by (cases x)
  have inv: "dir_inv d" and bo: "bytes_out t @ dir_bytes d = dir_bytes d0 @ bytes_in t"
    and fd: "fds_out t @ map fd_file (dir_fds d) = map fd_file (dir_fds d0) @ fds_in t"
    and rf: "\<And>f. r f - r0 f = int (count_list (map fd_file (dir_fds d)) f) - int (count_list (map fd_file (dir_fds d0)) f)"
    using assms(1) x by (auto simp: dir_accounts_def)
  show ?thesis
  proof (cases op)
    case (Send data fs)
    obtain d' r' out where s: "send_dir False d r data fs = (d', r', out)" by (cases "send_dir False d r data fs")
    have sp: "dir_inv d'" using send_dir_spec[OF inv _ s] assms(2) Send by simp
    show ?thesis
    proof (cases "SOCK_FD_CAP - rcount (fds d) < length fs")
      case True
      then have "d' = d" "r' = r" "out = Blocked_Fds" using send_dir_spec[OF inv _ s] assms(2) Send by simp_all
      then show ?thesis using Send s x inv bo fd rf by (simp add: dir_accounts_def moved_def)
    next
      case False
      then have e: "dir_fds d' = dir_fds d @ map (message_fd d (length data)) fs" "r' = (\<lambda>f. r f + int (count_list fs f))"
        "dir_bytes d' = dir_bytes d @ take (SOCK_CAP - rcount (buf d)) data" "out \<noteq> Blocked_Fds"
        using send_dir_spec[OF inv _ s] assms(2) Send by simp_all
      have m: "map fd_file (map (message_fd d (length data)) fs) = fs" by (simp add: message_fd_def comp_def)
      have rr: "r' f - r0 f = int (count_list (map fd_file (dir_fds d')) f) - int (count_list (map fd_file (dir_fds d0)) f)" for f
        using rf[of f] m by (simp add: e(1,2))
      have "fds_out t @ map fd_file (dir_fds d') = map fd_file (dir_fds d0) @ fds_in t @ fs"
        using fd m by (simp add: e(1))
      moreover have "bytes_out t @ dir_bytes d' = dir_bytes d0 @ bytes_in t @ moved d d' data"
        unfolding moved_bytes[OF e(3)] using bo by (metis append.assoc)
      ultimately show ?thesis using Send s x sp rr e(4) by (simp add: dir_accounts_def)
    qed
  next
    case (Send_More n rest)
    obtain d' out where s: "send_loop False d n rest = (d', out)" by (cases "send_loop False d n rest")
    have e: "dir_inv d'" "dir_fds d' = dir_fds d" "dir_bytes d' = dir_bytes d @ take (SOCK_CAP - rcount (buf d)) rest"
      using send_loop_spec[OF inv s] by (simp_all add: dir_fds_def)
    have "bytes_out t @ dir_bytes d' = dir_bytes d0 @ bytes_in t @ moved d d' rest"
      unfolding moved_bytes[OF e(3)] using bo by (metis append.assoc)
    then show ?thesis using Send_More s x e(1,2) fd rf by (simp add: dir_accounts_def)
  next
    case (Recv len want)
    show ?thesis
    proof (cases "recv_dir False d len want")
      case Blocked
      then show ?thesis using Recv x assms(1) by simp
    next
      case (Returns v)
      obtain d' out fs where v: "v = (d', out, fs)" by (cases v)
      from recv_dir_spec[OF inv Returns[unfolded v]] obtain qs where
        e: "dir_inv d'" "out = take len (dir_bytes d)" "dir_bytes d' = drop len (dir_bytes d)"
          "dir_fds d = qs @ dir_fds d'" "fs = map fd_file qs" by blast
      have "bytes_out t @ out @ dir_bytes d' = dir_bytes d0 @ bytes_in t" using bo e(2,3) by simp
      moreover have "fds_out t @ fs @ map fd_file (dir_fds d') = map fd_file (dir_fds d0) @ fds_in t" using fd e(4,5) by simp
      moreover have "hand_over fs r f - r0 f = int (count_list (map fd_file (dir_fds d')) f) - int (count_list (map fd_file (dir_fds d0)) f)" for f
        using rf[of f] e(4,5) by (simp add: hand_over_count)
      ultimately show ?thesis using Recv Returns v x e(1) by (simp add: dir_accounts_def)
    qed
  qed
qed

lemma dir_run_accounts:
  assumes "dir_accounts d0 r0 x" "\<forall>op \<in> set ops. case op of Send data fs \<Rightarrow> length fs \<le> SOCK_FD_CAP | _ \<Rightarrow> True"
  shows "dir_accounts d0 r0 (fold dir_step ops x)"
  using assms
proof (induction ops arbitrary: x)
  case (Cons op ops)
  then have "dir_accounts d0 r0 (dir_step op x)" by (intro dir_step_accounts) simp_all
  then show ?case using Cons by simp
qed simp

section \<open>Properties\<close>

definition no_trace :: "'f trace" where
  "no_trace = \<lparr>bytes_in = [], bytes_out = [], fds_in = [], fds_out = []\<rparr>"

text \<open>C28. Each direction of an open connection is a reliable stream of bytes and of descriptors: through
  any interleaving of sends, sends that slept and continue, and receives, what was delivered followed by
  what is queued is what was queued followed by what was accepted, in order, for the bytes and for the
  descriptors; and the references taken to open files are those of the descriptors still queued.\<close>

theorem socket_stream_integrity:
  assumes "dir_inv d" "\<forall>op \<in> set ops. case op of Send data fs \<Rightarrow> length fs \<le> SOCK_FD_CAP | _ \<Rightarrow> True"
    "fold dir_step ops (d, r, no_trace) = (d', r', t)"
  shows "dir_inv d' \<and> bytes_out t @ dir_bytes d' = dir_bytes d @ bytes_in t
    \<and> fds_out t @ map fd_file (dir_fds d') = map fd_file (dir_fds d) @ fds_in t
    \<and> (\<forall>f. r' f - r f = int (count_list (map fd_file (dir_fds d')) f) - int (count_list (map fd_file (dir_fds d)) f))"
proof -
  have "dir_accounts d r (d, r, no_trace)" using assms(1) by (simp add: dir_accounts_def no_trace_def)
  from dir_run_accounts[OF this assms(2)] show ?thesis using assms(3) by (simp add: dir_accounts_def)
qed

theorem socket_stream_integrity_witness:
  "\<exists>d' r' t. fold dir_step [Send [1, 2, 3] [7 :: nat], Recv 2 4, Recv 5 4] (empty_dir 0, \<lambda>_. 0, no_trace) = (d', r', t)
    \<and> bytes_out t @ dir_bytes d' = bytes_in t \<and> fds_out t @ map fd_file (dir_fds d') = fds_in t"
proof -
  let ?ops = "[Send [1, 2, 3] [7 :: nat], Recv 2 4, Recv 5 4]"
  obtain d' r' t where e: "fold dir_step ?ops (empty_dir 0, \<lambda>_. 0, no_trace) = (d', r', t)"
    by (cases "fold dir_step ?ops (empty_dir 0, \<lambda>_. 0, no_trace)") blast
  from socket_stream_integrity[OF empty_dir_inv(1) _ e] e show ?thesis
    by (simp add: empty_dir_inv SOCK_FD_CAP_def)
qed

text \<open>A descriptor is delivered no earlier than the last byte of the message it was sent with, and
  not later than the first receive after it that asks for descriptors: a send queues its descriptors at
  the position after its last byte, and a receive takes from the front of the queue exactly the
  descriptors whose position has been read, as many as were asked for.\<close>

theorem socket_fd_after_bytes:
  assumes "dir_inv d"
  shows "(\<forall>gone r data fs. length fs \<le> SOCK_FD_CAP - rcount (fds d) \<longrightarrow>
       dir_fds (fst (send_dir gone d r data fs)) = dir_fds d @ map (message_fd d (length data)) fs)
    \<and> (\<forall>gone len want d' out fs. recv_dir gone d len want = Returns (d', out, fs) \<longrightarrow>
       read d' = read d + of_nat (length out)
       \<and> (\<exists>qs. dir_fds d = qs @ dir_fds d' \<and> fs = map fd_file qs \<and> length qs \<le> want
            \<and> (\<forall>q \<in> set qs. fd_at q \<le> read d')
            \<and> (length qs < want \<and> dir_fds d' \<noteq> [] \<longrightarrow> \<not> fd_at (hd (dir_fds d')) \<le> read d')))"
proof (intro conjI allI impI)
  fix gone r data and fs :: "'a list"
  assume l: "length fs \<le> SOCK_FD_CAP - rcount (fds d)"
  obtain d' r' out where s: "send_dir gone d r data fs = (d', r', out)" by (cases "send_dir gone d r data fs")
  show "dir_fds (fst (send_dir gone d r data fs)) = dir_fds d @ map (message_fd d (length data)) fs"
    using send_dir_spec[OF assms _ s] s l by simp
qed (use recv_dir_spec[OF assms] in blast)+

theorem socket_fd_after_bytes_witness:
  "dir_fds (fst (send_dir False (empty_dir (0 :: nat)) (\<lambda>_. 0) [1, 2] [7])) = [\<lparr>fd_file = 7, fd_at = 2\<rparr>]"
proof -
  have "rcount (fds (empty_dir (0 :: nat))) = 0" "written (empty_dir (0 :: nat)) = 0"
    by (simp_all add: empty_dir_def empty_ring_def)
  then show ?thesis
    using conjunct1[OF socket_fd_after_bytes[OF empty_dir_inv(1)[of "0 :: nat"]], rule_format, of "[7]" False "\<lambda>_. 0" "[1, 2]"]
    by (simp add: empty_dir_inv message_fd_def SOCK_FD_CAP_def)
qed

text \<open>Who is refused, and with which error.\<close>

definition connect_error :: "'f sockets \<Rightarrow> u8 list \<Rightarrow> u32 \<Rightarrow> werr option" where
  "connect_error st name uid =
     (case find (\<lambda>l. l \<noteq> 0 \<and> (\<exists>s. socks st l = Some s \<and> path s = name)) (listeners st) of
        None \<Rightarrow> Some W_ENOENT
      | Some l \<Rightarrow>
          if owner (the (socks st l)) \<noteq> uid \<and> uid \<noteq> 0 then Some W_EPERM
          else if length (backlog (the (socks st l))) \<ge> 8 then Some W_EBUSY else None)"

lemma find_listener_find:
  "find_listener st name = (case find (\<lambda>l. l \<noteq> 0 \<and> (\<exists>s. socks st l = Some s \<and> path s = name)) (listeners st) of
     Some l \<Rightarrow> l | None \<Rightarrow> 0)"
proof -
  have "(\<lambda>l. l \<noteq> 0 \<and> (case socks st l of Some s \<Rightarrow> path s = name | None \<Rightarrow> False))
    = (\<lambda>l. l \<noteq> 0 \<and> (\<exists>s. socks st l = Some s \<and> path s = name))" by (auto split: option.splits)
  then show ?thesis by (simp add: find_listener_def)
qed

lemma socket_alloc_cases:
  assumes "socket_alloc st = Some (st', a)"
  shows "listeners st' = listeners st \<and> conns st' = conns st \<and> fd_refs st' = fd_refs st
    \<and> socks st' = (if a = 0 then socks st else (socks st)(a \<mapsto> zero_socket))"
  using assms by (auto simp: socket_alloc_def bind_eq_Some_conv split: if_splits prod.splits)

lemma connect_alloc_cases:
  assumes "connect_alloc f0 st l ls = Some (st', r)"
  shows "(r = Inl W_ENOMEM \<and> listeners st' = listeners st \<and> conns st' = conns st)
    \<or> (\<exists>mine theirs c. r = Inr mine \<and> listeners st' = listeners st
        \<and> socks st' l = Some (ls\<lparr>backlog := backlog ls @ [theirs]\<rparr>) \<and> conns st' c = Some (new_conn f0)
        \<and> (theirs \<noteq> l \<longrightarrow> socks st' theirs = Some (zero_socket\<lparr>conn := c, side := 1\<rparr>))
        \<and> (mine \<noteq> l \<and> mine \<noteq> theirs \<longrightarrow> socks st' mine = Some (zero_socket\<lparr>conn := c, side := 0\<rparr>)))"
proof -
  obtain h c where a1: "kmalloc (heap st) sizeof_conn = Some (h, c)"
    using assms by (cases "kmalloc (heap st) sizeof_conn") (auto simp: connect_alloc_def)
  obtain st1 mine where a2: "socket_alloc (st\<lparr>heap := h\<rparr>) = Some (st1, mine)"
    using assms a1 by (cases "socket_alloc (st\<lparr>heap := h\<rparr>)") (auto simp: connect_alloc_def)
  obtain st2 theirs where a3: "socket_alloc st1 = Some (st2, theirs)"
    using assms a1 a2 by (cases "socket_alloc st1") (auto simp: connect_alloc_def)
  note a = a1 a2 a3
  note s = socket_alloc_cases[OF a(2)] socket_alloc_cases[OF a(3)]
  show ?thesis
  proof (cases "c = 0 \<or> mine = 0 \<or> theirs = 0")
    case True
    then show ?thesis using assms a s by (auto simp: connect_alloc_def bind_eq_Some_conv)
  next
    case False
    then have "r = Inr mine" "st' = st2\<lparr>conns := (conns st2)(c \<mapsto> new_conn f0),
        socks := (socks st2)(mine \<mapsto> zero_socket\<lparr>conn := c, side := 0\<rparr>,
          theirs \<mapsto> zero_socket\<lparr>conn := c, side := 1\<rparr>, l \<mapsto> ls\<lparr>backlog := backlog ls @ [theirs]\<rparr>)\<rparr>"
      using assms a by (simp_all add: connect_alloc_def)
    then show ?thesis using s by (intro disjI2 exI[of _ mine] exI[of _ theirs] exI[of _ c]) simp
  qed
qed


definition demo_sockets :: "nat sockets" where
  "demo_sockets = \<lparr>listeners = [0x5000, 0, 0, 0, 0, 0, 0, 0],
     socks = [0x5000 \<mapsto> zero_socket\<lparr>listening := True, path := [47, 97], owner := 1000\<rparr>,
              0x6000 \<mapsto> zero_socket\<lparr>conn := 0x7000, side := 0\<rparr>],
     conns = [0x7000 \<mapsto> new_conn 0], heap = demo_kheap, fd_refs = (\<lambda>_. 0)\<rparr>"


definition endpoint :: "'f sockets \<Rightarrow> u64 \<Rightarrow> socket \<Rightarrow> 'f sock_conn \<Rightarrow> bool" where
  "endpoint st a s c \<longleftrightarrow> a \<noteq> 0 \<and> socks st a = Some s \<and> \<not> listening s \<and> conn s \<noteq> 0 \<and> conns st (conn s) = Some c
     \<and> side s < 2 \<and> length (dir c) = 2 \<and> (\<forall>i < 2. dir_inv (dir c ! i))"

text \<open>Polling a connected endpoint tells the truth: a receive sleeps exactly when
  \<^verbatim>\<open>socket_pollin\<close> is false, and after \<^verbatim>\<open>socket_pollout\<close> has said yes a send of at most
  \<^verbatim>\<open>SOCK_WRITE_CHUNK\<close> bytes returns without sleeping.\<close>

theorem socket_poll_promise:
  assumes "endpoint st a s c"
  shows "(socket_recv st a len want = Some Blocked \<longleftrightarrow> socket_pollin st a = Some False)
    \<and> (socket_pollout st a = Some True \<and> length data \<le> SOCK_WRITE_CHUNK
        \<longrightarrow> (\<exists>st' r. socket_send st a data [] = Some (st', Sent r)))"
proof
  show "socket_recv st a len want = Some Blocked \<longleftrightarrow> socket_pollin st a = Some False"
    using assms by (auto simp: endpoint_def socket_recv_def socket_pollin_def recv_dir_def Let_def split: outcome.splits prod.splits)
  show "socket_pollout st a = Some True \<and> length data \<le> SOCK_WRITE_CHUNK
        \<longrightarrow> (\<exists>st' r. socket_send st a data [] = Some (st', Sent r))"
  proof
    assume p: "socket_pollout st a = Some True \<and> length data \<le> SOCK_WRITE_CHUNK"
    let ?d = "out_dir s c" and ?gone = "peer_gone s (Some c)"
    have inv: "dir_inv ?d" using assms by (auto simp: endpoint_def out_dir_def)
    obtain d out where l: "send_loop ?gone ?d 0 data = (d, out)" by (cases "send_loop ?gone ?d 0 data")
    have room: "?gone \<or> length data \<le> SOCK_CAP - rcount (buf ?d)"
      using assms p by (auto simp: endpoint_def socket_pollout_def split: if_splits)
    then have "\<exists>r. out = Sent r" using send_loop_spec[OF inv l] by auto
    then show "\<exists>st' r. socket_send st a data [] = Some (st', Sent r)"
      using assms l by (auto simp: endpoint_def socket_send_def send_dir_def)
  qed
qed

lemma demo_endpoint: "endpoint demo_sockets 0x6000 (zero_socket\<lparr>conn := 0x7000, side := 0\<rparr>) (new_conn 0)"
  using empty_dir_inv(1)[of "0 :: nat"]
  by (auto simp: endpoint_def demo_sockets_def zero_socket_def new_conn_def less_2_cases_iff)

theorem socket_poll_promise_witness:
  "socket_pollin demo_sockets 0x6000 = Some False \<and> socket_recv demo_sockets 0x6000 10 0 = Some Blocked"
proof -
  have "rcount (buf (empty_dir (0 :: nat))) = 0" "rcount (fds (empty_dir (0 :: nat))) = 0"
    by (simp_all add: empty_dir_def empty_ring_def)
  then have "socket_pollin demo_sockets 0x6000 = Some False"
    by (simp add: socket_pollin_def demo_sockets_def zero_socket_def new_conn_def in_dir_def peer_gone_def)
  then show ?thesis using socket_poll_promise[OF demo_endpoint, of 10 0] by simp
qed

text \<open>C30. A receive reports the end of the stream too early: when descriptors are queued behind bytes that
  have all been read, a receive that asks for no descriptors returns zero bytes, which is the sign of a
  closed connection, although the peer is there; \<^verbatim>\<open>vfs_read\<close> calls it in this way.\<close>

theorem socket_recv_false_eof:
  assumes "endpoint st a s c" "\<not> peer_gone s (Some c)" "rcount (buf (in_dir s c)) = 0" "0 < rcount (fds (in_dir s c))"
  shows "\<exists>st'. socket_recv st a len 0 = Some (Returns (st', Inr ([], [])))"
proof -
  have "ring_drain SOCK_CAP len (buf (in_dir s c)) = (buf (in_dir s c), [])"
    using assms(3) by (cases len) simp_all
  then show ?thesis using assms
    by (auto simp: endpoint_def socket_recv_def recv_dir_def Let_def)
qed

definition demo_waiting :: "nat sockets" where
  "demo_waiting = demo_sockets\<lparr>conns := [0x7000 \<mapsto> new_conn 0\<lparr>dir := [empty_dir 0,
     (empty_dir 0)\<lparr>fds := ring_push SOCK_FD_CAP \<lparr>fd_file = 3, fd_at = 0\<rparr> (empty_ring SOCK_FD_CAP \<lparr>fd_file = 0, fd_at = 0\<rparr>)\<rparr>]\<rparr>]\<rparr>"

theorem socket_recv_false_eof_witness:
  "\<exists>st'. socket_recv demo_waiting 0x6000 64 0 = Some (Returns (st', Inr ([], [])))"
proof -
  let ?r = "empty_ring SOCK_FD_CAP \<lparr>fd_file = 0 :: nat, fd_at = 0\<rparr>"
  let ?d = "(empty_dir 0)\<lparr>fds := ring_push SOCK_FD_CAP \<lparr>fd_file = 3, fd_at = 0\<rparr> ?r\<rparr>"
  let ?c = "new_conn 0\<lparr>dir := [empty_dir 0, ?d]\<rparr>"
  have "ring_inv SOCK_FD_CAP ?r \<and> rcount ?r = 0"
    using empty_ring_inv[of SOCK_FD_CAP "\<lparr>fd_file = 0 :: nat, fd_at = 0\<rparr>"]
    by (simp add: SOCK_FD_CAP_def) (simp add: empty_ring_def)
  then have "ring_inv SOCK_FD_CAP (ring_push SOCK_FD_CAP \<lparr>fd_file = 3, fd_at = 0\<rparr> ?r)"
    by (intro ring_push_spec) (simp_all add: SOCK_FD_CAP_def)
  then have "dir_inv ?d" using empty_dir_inv(1)[of "0 :: nat"] by (simp add: dir_inv_def)
  then have e: "endpoint demo_waiting 0x6000 (zero_socket\<lparr>conn := 0x7000, side := 0\<rparr>) ?c"
    using empty_dir_inv(1)[of "0 :: nat"]
    by (auto simp: endpoint_def demo_waiting_def demo_sockets_def zero_socket_def new_conn_def less_2_cases_iff)
  show ?thesis
    by (rule socket_recv_false_eof[OF e])
      (simp_all add: peer_gone_def new_conn_def zero_socket_def in_dir_def empty_dir_def empty_ring_def ring_push_def)
qed

lemma drop_queued_fds_spec:
  assumes "dir_inv d" "drop_queued_fds d r = (d', r')"
  shows "dir_inv d' \<and> buf d' = buf d \<and> written d' = written d \<and> read d' = read d \<and> dir_fds d' = []
    \<and> r' = (\<lambda>f. r f - int (count_list (map fd_file (dir_fds d)) f))"
  using assms
proof (induction "rcount (fds d)" arbitrary: d r)
  case 0
  then have "d' = d" "r' = r" "dir_fds d = []"
    by (subst (asm) drop_queued_fds.simps; simp add: dir_fds_def ring_list_def)+
  then show ?case using 0 by simp
next
  case (Suc n)
  obtain x q where p: "ring_pop SOCK_FD_CAP (fds d) = (x, q)" by (cases "ring_pop SOCK_FD_CAP (fds d)")
  have pos: "0 < rcount (fds d)" using Suc(2) by simp
  have "ring_inv SOCK_FD_CAP (fds d)" using Suc.prems(1) by (simp add: dir_inv_def)
  note pp = ring_pop_spec[OF this pos p]
  let ?d = "d\<lparr>fds := q\<rparr>" and ?r = "r(fd_file x := r (fd_file x) - 1)"
  have "drop_queued_fds ?d ?r = (d', r')"
    using Suc.prems(2) pos p by (subst (asm) drop_queued_fds.simps) simp
  moreover have "n = rcount (fds ?d)" "dir_inv ?d"
    using Suc(2) p Suc.prems(1) pp(1) by (auto simp: ring_pop_def dir_inv_def)
  moreover have "dir_fds d = x # dir_fds ?d" using pp(2) by (simp add: dir_fds_def)
  ultimately show ?case using Suc(1)[of ?d ?r] by (auto simp: fun_eq_iff)
qed

text \<open>Closing the last descriptor of a connected endpoint gives back every reference queued in either
  direction, frees the endpoint, marks its side of the connection closed and leaves the bytes queued for
  the peer to be read; the connection itself is freed exactly when the other endpoint is gone already.\<close>

theorem socket_close_releases:
  assumes "endpoint st a s c" "refs s = 1" "length (closed c) = 2" "socket_unref a st = Some st'"
  shows "socks st' a = None \<and> listeners st' = listeners st
    \<and> fd_refs st' = (\<lambda>f. fd_refs st f - int (count_list (map fd_file (dir_fds (dir c ! 0) @ dir_fds (dir c ! 1))) f))
    \<and> (if crefs c \<le> 1 then conns st' (conn s) = None
       else \<exists>c'. conns st' (conn s) = Some c' \<and> crefs c' = crefs c - 1 \<and> closed c' = (closed c)[side s := True]
         \<and> (\<forall>i < 2. dir_bytes (dir c' ! i) = dir_bytes (dir c ! i) \<and> dir_fds (dir c' ! i) = []))"
proof -
  note e = assms(1)[unfolded endpoint_def]
  let ?o = "dir c ! side s" and ?i = "dir c ! (1 - side s)"
  obtain d1 r1 where d1: "drop_queued_fds ?o (fd_refs st) = (d1, r1)" by (cases "drop_queued_fds ?o (fd_refs st)")
  obtain d2 r2 where d2: "drop_queued_fds ?i r1 = (d2, r2)" by (cases "drop_queued_fds ?i r1")
  have sd: "side s = 0 \<or> side s = 1" using e by auto
  note q1 = drop_queued_fds_spec[OF _ d1] and q2 = drop_queued_fds_spec[OF _ d2]
  have inv: "dir_inv ?o" "dir_inv ?i" using e by auto
  let ?c = "c\<lparr>closed := (closed c)[side s := True], dir := (dir c)[side s := d1, 1 - side s := d2]\<rparr>"
  let ?st = "st\<lparr>socks := (socks st)(a \<mapsto> s\<lparr>refs := 0\<rparr>), conns := (conns st)(conn s \<mapsto> ?c), fd_refs := r2\<rparr>"
  have "dir c ! (1 - side s) = ((dir c)[side s := d1]) ! (1 - side s)" using sd by auto
  then have lc: "leave_conn (s\<lparr>refs := 0\<rparr>) (st\<lparr>socks := (socks st)(a \<mapsto> s\<lparr>refs := 0\<rparr>)\<rparr>) = conn_unref (conn s) ?st"
    using e d1 d2 by (simp add: leave_conn_def out_dir_def in_dir_def)
  obtain st2 h where st2: "conn_unref (conn s) ?st = Some st2" "kfree (heap st2) a = Some h"
      "st' = st2\<lparr>heap := h, socks := (socks st2)(a := None)\<rparr>"
    using assms(2,4) e lc
    by (auto simp: socket_unref_def numeral_2_eq_2 bind_eq_Some_conv)
  have r2: "r2 = (\<lambda>f. fd_refs st f - int (count_list (map fd_file (dir_fds (dir c ! 0) @ dir_fds (dir c ! 1))) f))"
    using q1[OF inv(1)] q2[OF inv(2)] sd by (auto simp: fun_eq_iff)
  have b1: "dir_bytes d1 = dir_bytes ?o" "dir_fds d1 = []" and b2: "dir_bytes d2 = dir_bytes ?i" "dir_fds d2 = []"
    using q1[OF inv(1)] q2[OF inv(2)] by (simp_all add: dir_bytes_def)
  have len: "length (dir c) = 2" using e by blast
  have bytes: "dir_bytes (dir ?c ! i) = dir_bytes (dir c ! i) \<and> dir_fds (dir ?c ! i) = []" if "i < 2" for i
  proof (cases "i = side s")
    case True
    then have "dir ?c ! i = d1" using sd len by auto
    then show ?thesis using b1 True by simp
  next
    case False
    then have "i = 1 - side s" using sd that by auto
    then have "dir ?c ! i = d2" using len by simp
    then show ?thesis using b2 \<open>i = 1 - side s\<close> by simp
  qed
  show ?thesis
  proof (cases "crefs c \<le> 1")
    case True
    then obtain h2 where "st2 = ?st\<lparr>heap := h2, conns := (conns ?st)(conn s := None)\<rparr>"
      using st2(1) e by (auto simp: conn_unref_def bind_eq_Some_conv)
    then show ?thesis using True st2(3) r2 by simp
  next
    case False
    then have "st2 = ?st\<lparr>conns := (conns ?st)(conn s \<mapsto> ?c\<lparr>crefs := crefs c - 1\<rparr>)\<rparr>"
      using st2(1) e by (auto simp: conn_unref_def)
    then show ?thesis using False st2(3) r2 bytes by simp
  qed
qed

definition demo_open :: "kheap \<Rightarrow> u64 \<Rightarrow> nat sockets" where
  "demo_open h p = \<lparr>listeners = replicate 8 0, socks = [p \<mapsto> zero_socket\<lparr>conn := 0x7000, side := 0\<rparr>],
     conns = [0x7000 \<mapsto> new_conn 0], heap = h, fd_refs = (\<lambda>_. 0)\<rparr>"

theorem socket_close_releases_witness:
  "\<exists>h p st'. kmalloc (kheap_init demo_kheap 0x200000 0x800000) sizeof_socket = Some (h, p)
    \<and> socket_unref p (demo_open h p) = Some st' \<and> socks st' p = None
    \<and> (\<exists>c. conns st' 0x7000 = Some c \<and> closed c = [True, False])"
proof -
  let ?h = "kheap_init demo_kheap 0x200000 0x800000"
  have r: "heap_repr ?h [(0x200000, 0x800000 - 40, True)]" by (rule kheap_init_repr) simp_all
  have "align_up sizeof_socket 8 \<le> (0x800000 - 40 :: u64)" by (simp add: align_up_def sizeof_socket_def)
  then obtain h p n bs where k: "kmalloc ?h sizeof_socket = Some (h, p)" "p \<noteq> 0" "heap_repr h bs" "(p, n) \<in> payloads bs"
    using kmalloc_live[OF r, of sizeof_socket] by (auto simp: fits_def sizeof_socket_def)
  obtain h' where f: "kfree h p = Some h'" using kfree_live[OF k(3,4)] by auto
  have dr: "drop_queued_fds (empty_dir (0 :: nat)) r = (empty_dir 0, r)" for r
    by (subst drop_queued_fds.simps) (simp add: empty_dir_def empty_ring_def)
  have two: "(2 :: nat) = Suc 1" by simp
  let ?s = "zero_socket\<lparr>conn := 0x7000, side := 0\<rparr>"
  have e: "endpoint (demo_open h p) p ?s (new_conn 0)"
    using empty_dir_inv(1)[of "0 :: nat"] k(2)
    by (auto simp: endpoint_def demo_open_def zero_socket_def new_conn_def less_2_cases_iff)
  have "\<exists>st'. socket_unref p (demo_open h p) = Some st'" using k(2) f dr
    unfolding socket_unref_def two by (simp add: Let_def demo_open_def zero_socket_def leave_conn_def new_conn_def
        conn_unref_def out_dir_def in_dir_def)
  then obtain st' where u: "socket_unref p (demo_open h p) = Some st'" by blast
  have "socks st' p = None" "\<exists>c. conns st' 0x7000 = Some c \<and> closed c = [True, False]"
    using socket_close_releases[OF e _ _ u] by (simp_all add: zero_socket_def new_conn_def) blast
  then show ?thesis using k(1) u by blast
qed

end
