(* ===== verification/Sha1.thy ===== *)
theory Sha1
  imports Wos_Prelude "HOL-Library.Monad_Syntax"
begin

text \<open>
  SHA-1 and what is built on it, the first half of \<^verbatim>\<open>kernel/lib/crypto.c\<close>.

  A byte buffer with a length is a list of bytes.  The context keeps the 64-byte buffer of the code
  and how many of its bytes are in use; the running length keeps its 64 bits.  The padding loop of
  \<^verbatim>\<open>sha1_final\<close> ends only for a context whose buffer is not full, so it and everything above it
  return an option.

  The lemmas show that feeding a message in any pieces gives the digest the standard defines
  for the whole message (\<open>sha1_spec\<close>), that the HMAC over several buffers is the HMAC of their
  concatenation, and that the two key derivation functions return exactly the bytes their
  standards define.
\<close>

unbundle bit_operations_syntax

section \<open>The compression function\<close>

definition rol32 :: "u32 \<Rightarrow> nat \<Rightarrow> u32" where
  "rol32 v n = push_bit n v OR drop_bit (32 - n) v"

definition be32 :: "u8 list \<Rightarrow> nat \<Rightarrow> u32" where
  "be32 block i = push_bit 24 (ucast (block ! (i * 4))) OR push_bit 16 (ucast (block ! (i * 4 + 1)))
     OR push_bit 8 (ucast (block ! (i * 4 + 2))) OR ucast (block ! (i * 4 + 3))"

definition sha1_schedule :: "u8 list \<Rightarrow> u32 list" where
  "sha1_schedule block =
     fold (\<lambda>i w. w @ [rol32 (w ! (i - 3) XOR w ! (i - 8) XOR w ! (i - 14) XOR w ! (i - 16)) 1])
       [16..<80] (map (be32 block) [0..<16])"

type_synonym sha1_regs = "u32 \<times> u32 \<times> u32 \<times> u32 \<times> u32"

definition sha1_round :: "u32 list \<Rightarrow> nat \<Rightarrow> sha1_regs \<Rightarrow> sha1_regs" where
  "sha1_round w i = (\<lambda>(a, b, c, d, e).
     let (f, k) =
       (if i < 20 then ((b AND c) OR (NOT b AND d), 0x5A827999)
        else if i < 40 then (b XOR c XOR d, 0x6ED9EBA1)
        else if i < 60 then ((b AND c) OR (b AND d) OR (c AND d), 0x8F1BBCDC)
        else (b XOR c XOR d, 0xCA62C1D6));
         t = rol32 a 5 + f + e + k + w ! i
     in (t, a, rol32 b 30, c, d))"

definition sha1_block :: "sha1_regs \<Rightarrow> u8 list \<Rightarrow> sha1_regs" where
  "sha1_block st block =
     (let w = sha1_schedule block;
          (s0, s1, s2, s3, s4) = st;
          (a, b, c, d, e) = fold (sha1_round w) [0..<80] st
      in (s0 + a, s1 + b, s2 + c, s3 + d, s4 + e))"

section \<open>The streaming interface\<close>

record sha1_ctx =
  sstate :: sha1_regs
  slength :: u64
  sbuf :: "u8 list"
  sbuffered :: nat

definition SHA1_DIGEST_LEN :: nat where "SHA1_DIGEST_LEN = 20"
definition SHA1_BLOCK_LEN :: nat where "SHA1_BLOCK_LEN = 64"

definition sha1_init :: "sha1_ctx \<Rightarrow> sha1_ctx" where
  "sha1_init ctx = ctx\<lparr>sstate := (0x67452301, 0xEFCDAB89, 0x98BADCFE, 0x10325476, 0xC3D2E1F0),
     slength := 0, sbuffered := 0\<rparr>"

text \<open>The loop over whole blocks, and the bytes left when less than a block remains.\<close>

function sha1_blocks :: "sha1_regs \<Rightarrow> u8 list \<Rightarrow> sha1_regs \<times> u8 list" where
  "sha1_blocks st p =
     (if length p \<ge> SHA1_BLOCK_LEN
      then sha1_blocks (sha1_block st (take SHA1_BLOCK_LEN p)) (drop SHA1_BLOCK_LEN p)
      else (st, p))"
  by auto
termination by (relation "measure (\<lambda>(st, p). length p)") (auto simp: SHA1_BLOCK_LEN_def)

declare sha1_blocks.simps [simp del]

definition sha1_fast :: "sha1_ctx \<Rightarrow> u8 list \<Rightarrow> sha1_ctx" where
  "sha1_fast ctx p =
     (case sha1_blocks (sstate ctx) p of
        (st, rest) \<Rightarrow>
          (let ctx = ctx\<lparr>sstate := st\<rparr> in
           if rest \<noteq> [] then ctx\<lparr>sbuf := memcpy_at (sbuf ctx) 0 rest, sbuffered := length rest\<rparr> else ctx))"

definition sha1_update :: "sha1_ctx \<Rightarrow> u8 list \<Rightarrow> sha1_ctx" where
  "sha1_update ctx p =
     (let ctx = ctx\<lparr>slength := slength ctx + of_nat (length p)\<rparr> in
      if sbuffered ctx \<noteq> 0 then
        (let want = SHA1_BLOCK_LEN - sbuffered ctx;
             tk = (if length p < want then length p else want);
             ctx = ctx\<lparr>sbuf := memcpy_at (sbuf ctx) (sbuffered ctx) (take tk p),
                       sbuffered := sbuffered ctx + tk\<rparr>;
             p = drop tk p
         in if sbuffered ctx < SHA1_BLOCK_LEN then ctx
            else sha1_fast (ctx\<lparr>sstate := sha1_block (sstate ctx) (sbuf ctx), sbuffered := 0\<rparr>) p)
      else sha1_fast ctx p)"

partial_function (option) sha1_pad_loop :: "sha1_ctx \<Rightarrow> sha1_ctx option" where
  "sha1_pad_loop ctx =
     (if sbuffered ctx \<noteq> SHA1_BLOCK_LEN - 8 then sha1_pad_loop (sha1_update ctx [0]) else Some ctx)"

definition be_bytes32 :: "u32 \<Rightarrow> u8 list" where
  "be_bytes32 v = [ucast (drop_bit 24 v), ucast (drop_bit 16 v), ucast (drop_bit 8 v), ucast v]"

definition be_bytes64 :: "u64 \<Rightarrow> u8 list" where
  "be_bytes64 v = map (\<lambda>i. ucast (drop_bit (56 - 8 * i) v)) [0..<8]"

definition digest_bytes :: "sha1_regs \<Rightarrow> u8 list" where
  "digest_bytes = (\<lambda>(a, b, c, d, e). concat (map be_bytes32 [a, b, c, d, e]))"

definition sha1_final :: "sha1_ctx \<Rightarrow> u8 list option" where
  "sha1_final ctx =
     (let bits = slength ctx * 8 in
      do {
        ctx \<leftarrow> sha1_pad_loop (sha1_update ctx [0x80]);
        (let ctx = ctx\<lparr>sbuf := memcpy_at (sbuf ctx) (sbuffered ctx) (be_bytes64 bits)\<rparr>;
             ctx = ctx\<lparr>sstate := sha1_block (sstate ctx) (sbuf ctx), sbuffered := 0\<rparr>
         in Some (digest_bytes (sstate ctx)))
      })"

text \<open>A context on the stack, before it is initialised.\<close>

definition fresh_ctx :: sha1_ctx where
  "fresh_ctx = \<lparr>sstate = (0, 0, 0, 0, 0), slength = 0, sbuf = replicate SHA1_BLOCK_LEN 0, sbuffered = 0\<rparr>"

definition sha1 :: "u8 list \<Rightarrow> u8 list option" where
  "sha1 data = sha1_final (sha1_update (sha1_init fresh_ctx) data)"

section \<open>HMAC and key derivation\<close>

definition hmac_key :: "u8 list \<Rightarrow> u8 list option" where
  "hmac_key key =
     (let k = replicate SHA1_BLOCK_LEN 0 in
      if length key > SHA1_BLOCK_LEN then map_option (memcpy_at k 0) (sha1 key)
      else Some (memcpy_at k 0 key))"

definition hmac_sha1_vector :: "u8 list \<Rightarrow> u8 list list \<Rightarrow> u8 list option" where
  "hmac_sha1_vector key data = do {
     k \<leftarrow> hmac_key key;
     inner \<leftarrow> (let pad = map (\<lambda>b. b XOR 0x36) k;
                  ctx = sha1_update (sha1_init fresh_ctx) pad;
                  ctx = fold (\<lambda>d ctx. sha1_update ctx d) data ctx
              in sha1_final ctx);
     (let pad = map (\<lambda>b. b XOR 0x5C) k;
          ctx = sha1_update (sha1_init fresh_ctx) pad;
          ctx = sha1_update ctx inner
      in sha1_final ctx) }"

definition hmac_sha1 :: "u8 list \<Rightarrow> u8 list \<Rightarrow> u8 list option" where
  "hmac_sha1 key data = hmac_sha1_vector key [data]"

definition xor_bytes :: "u8 list \<Rightarrow> u8 list \<Rightarrow> u8 list" where
  "xor_bytes xs ys = map2 (XOR) xs ys"

text \<open>The loop of \<^verbatim>\<open>pbkdf2_block\<close>, with the iterations left.\<close>

fun pbkdf2_iter :: "u8 list \<Rightarrow> nat \<Rightarrow> u8 list \<Rightarrow> u8 list \<Rightarrow> u8 list option" where
  "pbkdf2_iter pass 0 u out = Some out"
| "pbkdf2_iter pass (Suc n) u out =
     do { u \<leftarrow> hmac_sha1 pass u; pbkdf2_iter pass n u (xor_bytes out u) }"

definition pbkdf2_block :: "u8 list \<Rightarrow> u8 list \<Rightarrow> nat \<Rightarrow> u32 \<Rightarrow> u8 list option" where
  "pbkdf2_block pass salt iterations index =
     do { u \<leftarrow> hmac_sha1_vector pass [salt, be_bytes32 index];
          pbkdf2_iter pass (iterations - 1) u u }"

function pbkdf2_loop :: "u8 list \<Rightarrow> u8 list \<Rightarrow> nat \<Rightarrow> nat \<Rightarrow> nat \<Rightarrow> u8 list \<Rightarrow> u8 list option" where
  "pbkdf2_loop pass salt iterations index left out =
     (if left > 0
      then (let tk = (if left > SHA1_DIGEST_LEN then SHA1_DIGEST_LEN else left)
            in do { block \<leftarrow> pbkdf2_block pass salt iterations (of_nat index);
                    pbkdf2_loop pass salt iterations (index + 1) (left - tk) (out @ take tk block) })
      else Some out)"
  by auto
termination
  by (relation "measure (\<lambda>(pass, salt, iterations, index, left, out). left)")
    (auto simp: SHA1_DIGEST_LEN_def)

declare pbkdf2_loop.simps [simp del]

definition pbkdf2_sha1 :: "u8 list \<Rightarrow> u8 list \<Rightarrow> nat \<Rightarrow> nat \<Rightarrow> u8 list option" where
  "pbkdf2_sha1 pass salt iterations out_len = pbkdf2_loop pass salt iterations 1 out_len []"

function sha1_prf_loop :: "u8 list \<Rightarrow> u8 list \<Rightarrow> u8 list \<Rightarrow> u8 \<Rightarrow> nat \<Rightarrow> u8 list \<Rightarrow> u8 list option" where
  "sha1_prf_loop key label data counter left out =
     (if left > 0
      then (let tk = (if left > SHA1_DIGEST_LEN then SHA1_DIGEST_LEN else left)
            in do { digest \<leftarrow> hmac_sha1_vector key [label @ [0], data, [counter]];
                    sha1_prf_loop key label data (counter + 1) (left - tk) (out @ take tk digest) })
      else Some out)"
  by auto
termination
  by (relation "measure (\<lambda>(key, label, data, counter, left, out). left)")
    (auto simp: SHA1_DIGEST_LEN_def)

declare sha1_prf_loop.simps [simp del]

definition sha1_prf :: "u8 list \<Rightarrow> u8 list \<Rightarrow> u8 list \<Rightarrow> nat \<Rightarrow> u8 list option" where
  "sha1_prf key label data out_len = sha1_prf_loop key label data 0 out_len []"

section \<open>The standard's definition\<close>

text \<open>FIPS 180-4: the message is followed by a one bit, zeroes up to eight bytes short of a block,
  and its length in bits; the digest is the compression function folded over the blocks.\<close>

function chop :: "nat \<Rightarrow> 'a list \<Rightarrow> 'a list list" where
  "chop n xs = (if n = 0 \<or> length xs < n then [] else take n xs # chop n (drop n xs))"
  by auto
termination by (relation "measure (\<lambda>(n, xs). length xs)") auto

declare chop.simps [simp del]

definition sha1_iv :: sha1_regs where
  "sha1_iv = (0x67452301, 0xEFCDAB89, 0x98BADCFE, 0x10325476, 0xC3D2E1F0)"

definition sha1_pad :: "u8 list \<Rightarrow> u8 list" where
  "sha1_pad m = m @ [0x80] @ replicate ((119 - length m mod 64) mod 64) 0 @ be_bytes64 (of_nat (8 * length m))"

text \<open>The compression function as the standard writes it: the schedule as a recurrence, the round
  functions by exclusive or, the rotation as a rotation.\<close>

definition be_word :: "u8 list \<Rightarrow> u32" where
  "be_word bs = fold (\<lambda>b acc. 256 * acc + ucast b) bs 0"

function fips_w :: "u8 list \<Rightarrow> nat \<Rightarrow> u32" where
  "fips_w m t =
     (if t < 16 then be_word (take 4 (drop (4 * t) m))
      else word_rotl 1 (fips_w m (t - 3) XOR fips_w m (t - 8) XOR fips_w m (t - 14) XOR fips_w m (t - 16)))"
  by auto
termination by (relation "measure snd") auto

declare fips_w.simps [simp del]

definition fips_f :: "nat \<Rightarrow> u32 \<Rightarrow> u32 \<Rightarrow> u32 \<Rightarrow> u32" where
  "fips_f t x y z =
     (if t < 20 then (x AND y) XOR (NOT x AND z)
      else if 40 \<le> t \<and> t < 60 then (x AND y) XOR (x AND z) XOR (y AND z)
      else x XOR y XOR z)"

definition fips_k :: "nat \<Rightarrow> u32" where
  "fips_k t = [0x5A827999, 0x6ED9EBA1, 0x8F1BBCDC, 0xCA62C1D6] ! (t div 20)"

definition fips_round :: "u8 list \<Rightarrow> nat \<Rightarrow> sha1_regs \<Rightarrow> sha1_regs" where
  "fips_round m t = (\<lambda>(a, b, c, d, e).
     (word_rotl 5 a + fips_f t b c d + e + fips_k t + fips_w m t, a, word_rotl 30 b, c, d))"

definition fips_block :: "sha1_regs \<Rightarrow> u8 list \<Rightarrow> sha1_regs" where
  "fips_block st m =
     (let (s0, s1, s2, s3, s4) = st; (a, b, c, d, e) = fold (fips_round m) [0..<80] st
      in (a + s0, b + s1, c + s2, d + s3, e + s4))"

definition sha1_spec :: "u8 list \<Rightarrow> u8 list" where
  "sha1_spec m = digest_bytes (fold (\<lambda>b st. fips_block st b) (chop 64 (sha1_pad m)) sha1_iv)"

lemma rol32_rotl:
  assumes "0 < n" "n < 32"
  shows "rol32 v n = word_rotl n v"
proof (rule bit_word_eqI)
  fix i assume i: "i < LENGTH(32)"
  show "bit (rol32 v n) i = bit (word_rotl n v) i"
  proof (cases "n \<le> i")
    case True
    then have "(i + (32 - n)) mod 32 = i - n" using i assms by (simp add: mod_if)
    moreover have "\<not> bit v (32 - n + i)" using True bit_imp_le_length[of v "32 - n + i"] by auto
    ultimately show ?thesis using i assms True
      by (simp add: rol32_def bit_word_rotl_iff bit_or_iff bit_push_bit_iff bit_drop_bit_eq)
  next
    case False
    then have "(i + (32 - n)) mod 32 = 32 - n + i" using i assms by simp
    then show ?thesis using i assms False
      by (simp add: rol32_def bit_word_rotl_iff bit_or_iff bit_push_bit_iff bit_drop_bit_eq)
  qed
qed

lemma shift_in_byte: "256 * acc + ucast (b :: u8) = push_bit 8 acc OR (ucast b :: u32)" for acc :: u32
proof -
  have "256 * acc = push_bit 8 acc" by (simp add: push_bit_eq_mult mult.commute)
  moreover have "push_bit 8 acc + ucast b = push_bit 8 acc OR (ucast b :: u32)"
    by (rule disjunctive_add) (auto simp: bit_push_bit_iff bit_ucast_iff dest: bit_imp_le_length)
  ultimately show ?thesis by simp
qed

lemma be32_be_word:
  assumes "4 * i + 4 \<le> length block"
  shows "be32 block i = be_word (take 4 (drop (4 * i) block))"
proof -
  have t: "take 4 (drop (4 * i) block) =
    [block ! (i * 4), block ! (i * 4 + 1), block ! (i * 4 + 2), block ! (i * 4 + 3)]"
    using assms by (intro nth_equalityI) (auto simp: less_Suc_eq numeral_eq_Suc mult.commute)
  show ?thesis unfolding t be32_def be_word_def by (simp add: shift_in_byte push_bit_or) (simp add: or.assoc)
qed

lemma schedule_prefix:
  assumes "length block = 64" "16 \<le> n"
  shows "fold (\<lambda>i w. w @ [rol32 (w ! (i - 3) XOR w ! (i - 8) XOR w ! (i - 14) XOR w ! (i - 16)) 1])
    [16..<n] (map (be32 block) [0..<16]) = map (fips_w block) [0..<n]"
  using assms(2)
proof (induction n rule: dec_induct)
  case base
  show ?case using assms(1) by (auto simp: be32_be_word fips_w.simps simp del: upt_conv_Cons)
next
  case (step n)
  then show ?case by (simp add: rol32_rotl fips_w.simps[of block n])
qed

lemma sha1_round_fips:
  assumes "i < 80" "w ! i = fips_w m i"
  shows "sha1_round w i st = fips_round m i st"
proof -
  have ch: "(x AND y) OR (NOT x AND z) = (x AND y) XOR (NOT x AND z)" for x y z :: u32
    by (rule bit_word_eqI) (auto simp: bit_or_iff bit_and_iff bit_xor_iff bit_not_iff)
  have maj: "(x AND y) OR (x AND z) OR (y AND z) = (x AND y) XOR (x AND z) XOR (y AND z)" for x y z :: u32
    by (rule bit_word_eqI) (auto simp: bit_or_iff bit_and_iff bit_xor_iff)
  have k: "fips_k i = (if i < 20 then 0x5A827999 else if i < 40 then 0x6ED9EBA1
    else if i < 60 then 0x8F1BBCDC else 0xCA62C1D6)"
  proof -
    consider "i div 20 = 0" "i < 20" | "i div 20 = 1" "20 \<le> i" "i < 40"
      | "i div 20 = 2" "40 \<le> i" "i < 60" | "i div 20 = 3" "60 \<le> i"
      using assms(1) by linarith
    then show ?thesis by cases (simp_all add: fips_k_def)
  qed
  show ?thesis
    by (cases st) (simp add: sha1_round_def fips_round_def fips_f_def k ch maj rol32_rotl assms(2))
qed

lemma sha1_block_fips:
  assumes "length block = 64"
  shows "sha1_block st block = fips_block st block"
proof -
  have s: "sha1_schedule block = map (fips_w block) [0..<80]"
    unfolding sha1_schedule_def using assms by (intro schedule_prefix) simp_all
  have "fold (sha1_round (sha1_schedule block)) [0..<80] st = fold (fips_round block) [0..<80] st"
    unfolding s by (intro fold_cong refl) (auto intro!: sha1_round_fips)
  then show ?thesis by (simp add: sha1_block_def fips_block_def Let_def add.commute split: prod.splits)
qed

lemma chop_lengths: "b \<in> set (chop n xs) \<Longrightarrow> length b = n"
proof (induction n xs rule: chop.induct)
  case (1 n xs)
  then show ?case by (cases "n = 0 \<or> length xs < n") (auto simp: chop.simps[of n xs])
qed

lemma sha1_spec_blocks:
  "sha1_spec m = digest_bytes (fold (\<lambda>b st. sha1_block st b) (chop 64 (sha1_pad m)) sha1_iv)"
proof -
  have "fold (\<lambda>b st. fips_block st b) (chop 64 (sha1_pad m)) sha1_iv
    = fold (\<lambda>b st. sha1_block st b) (chop 64 (sha1_pad m)) sha1_iv"
    by (intro fold_cong refl) (simp add: sha1_block_fips chop_lengths)
  then show ?thesis by (simp add: sha1_spec_def)
qed

section \<open>Streaming\<close>

definition ctx_repr :: "sha1_ctx \<Rightarrow> u8 list \<Rightarrow> bool" where
  "ctx_repr ctx m \<longleftrightarrow> sha1_blocks sha1_iv m = (sstate ctx, take (sbuffered ctx) (sbuf ctx))
     \<and> sbuffered ctx < 64 \<and> length (sbuf ctx) = 64 \<and> slength ctx = of_nat (length m)"

lemma sha1_blocks_short: "length p < 64 \<Longrightarrow> sha1_blocks st p = (st, p)"
  by (subst sha1_blocks.simps) (simp add: SHA1_BLOCK_LEN_def)

lemma sha1_blocks_long:
  "64 \<le> length p \<Longrightarrow> sha1_blocks st p = sha1_blocks (sha1_block st (take 64 p)) (drop 64 p)"
  by (subst sha1_blocks.simps) (simp add: SHA1_BLOCK_LEN_def)

lemma sha1_blocks_block: "length b = 64 \<Longrightarrow> sha1_blocks st (b @ p) = sha1_blocks (sha1_block st b) p"
  by (subst sha1_blocks_long) auto

lemma sha1_blocks_append:
  "sha1_blocks st p = (st', r) \<Longrightarrow> sha1_blocks st (p @ q) = sha1_blocks st' (r @ q)"
proof (induction st p rule: sha1_blocks.induct)
  case (1 st p)
  show ?case
  proof (cases "64 \<le> length p")
    case True
    then show ?thesis using 1 by (simp add: sha1_blocks_long SHA1_BLOCK_LEN_def)
  next
    case False
    then show ?thesis using 1(2) by (simp add: sha1_blocks_short)
  qed
qed

lemma sha1_blocks_rest: "sha1_blocks st p = (st', r) \<Longrightarrow> length r < 64 \<and> length r = length p mod 64"
proof (induction st p rule: sha1_blocks.induct)
  case (1 st p)
  show ?case
  proof (cases "64 \<le> length p")
    case True
    then show ?thesis using 1 by (simp add: sha1_blocks_long SHA1_BLOCK_LEN_def le_mod_geq)
  next
    case False
    then show ?thesis using 1(2) by (auto simp: sha1_blocks_short)
  qed
qed

lemma sha1_blocks_fold:
  "fst (sha1_blocks st p) = fold (\<lambda>b st. sha1_block st b) (chop 64 p) st"
proof (induction st p rule: sha1_blocks.induct)
  case (1 st p)
  show ?case
  proof (cases "64 \<le> length p")
    case True
    then show ?thesis using 1 chop.simps[of 64 p] by (simp add: sha1_blocks_long SHA1_BLOCK_LEN_def)
  next
    case False
    then show ?thesis using chop.simps[of 64 p] by (simp add: sha1_blocks_short)
  qed
qed

lemma ctx_init: "length (sbuf ctx) = 64 \<Longrightarrow> ctx_repr (sha1_init ctx) []"
  by (simp add: ctx_repr_def sha1_init_def sha1_blocks_short sha1_iv_def)

lemma fast_repr:
  assumes "sbuffered ctx = 0" "length (sbuf ctx) = 64" "sha1_blocks sha1_iv m = sha1_blocks (sstate ctx) p"
    "slength ctx = of_nat (length m)"
  shows "ctx_repr (sha1_fast ctx p) m"
proof -
  obtain st r where r: "sha1_blocks (sstate ctx) p = (st, r)" by (cases "sha1_blocks (sstate ctx) p")
  have "length r < 64" using sha1_blocks_rest[OF r] by simp
  then show ?thesis using assms r by (auto simp: sha1_fast_def ctx_repr_def memcpy_at_def Let_def)
qed

lemma update_repr:
  assumes "ctx_repr ctx m"
  shows "ctx_repr (sha1_update ctx p) (m @ p)"
proof -
  let ?b = "sbuffered ctx" and ?c = "ctx\<lparr>slength := slength ctx + of_nat (length p)\<rparr>"
  let ?old = "take ?b (sbuf ctx)"
  have c: "sha1_blocks sha1_iv m = (sstate ctx, ?old)" "?b < 64" "length (sbuf ctx) = 64"
    "slength ctx = of_nat (length m)" using assms by (simp_all add: ctx_repr_def)
  have app: "sha1_blocks sha1_iv (m @ p) = sha1_blocks (sstate ctx) (?old @ p)"
    by (rule sha1_blocks_append[OF c(1)])
  consider (empty) "?b = 0" | (short) "?b \<noteq> 0" "length p < 64 - ?b" | (long) "?b \<noteq> 0" "64 - ?b \<le> length p"
    by linarith
  then show ?thesis
  proof cases
    case empty
    then have "ctx_repr (sha1_fast ?c p) (m @ p)" using c app by (intro fast_repr) auto
    then show ?thesis using empty by (simp add: sha1_update_def Let_def)
  next
    case short
    then have "sha1_blocks (sstate ctx) (?old @ p) = (sstate ctx, ?old @ p)"
      using c by (intro sha1_blocks_short) simp
    moreover have "?b + length p < 64" using short by simp
    ultimately show ?thesis using short c app
      by (simp add: sha1_update_def Let_def ctx_repr_def SHA1_BLOCK_LEN_def memcpy_at_def)
  next
    case long
    let ?w = "64 - ?b"
    let ?full = "?old @ take ?w p"
    have len: "length ?full = 64" using long c by simp
    have "?old @ p = ?full @ drop ?w p" by simp
    then have "sha1_blocks (sstate ctx) (?old @ p) = sha1_blocks (sha1_block (sstate ctx) ?full) (drop ?w p)"
      using sha1_blocks_block[OF len] by metis
    moreover have "memcpy_at (sbuf ctx) ?b (take ?w p) = ?full"
      using long c by (simp add: memcpy_at_def)
    ultimately show ?thesis
      using long c app len
      by (auto simp: sha1_update_def Let_def SHA1_BLOCK_LEN_def intro!: fast_repr)
  qed
qed


lemma update_fold_repr: "ctx_repr ctx m \<Longrightarrow> ctx_repr (fold (\<lambda>d ctx. sha1_update ctx d) ds ctx) (m @ concat ds)"
proof (induction ds arbitrary: ctx m)
  case (Cons d ds)
  then show ?case using update_repr[OF Cons.prems, of d] by fastforce
qed simp

lemma repr_buffered: "ctx_repr ctx m \<Longrightarrow> sbuffered ctx = length m mod 64"
  using sha1_blocks_rest[of sha1_iv m "sstate ctx" "take (sbuffered ctx) (sbuf ctx)"]
  by (auto simp: ctx_repr_def)

lemma pad_count:
  fixes r :: nat
  assumes "r < 64"
  shows "(120 - r) mod 64 = (if r \<le> 56 then 56 - r else 120 - r)"
  using assms by (simp add: mod_if[of "120 - r"])

lemma pad_count_Suc:
  "(120 - Suc n mod 64) mod 64 = (if n mod 64 = 56 then 63 else (120 - n mod 64) mod 64 - 1)"
proof (cases "n mod 64 = 63")
  case False
  have "n mod 64 < 64" by simp
  with False have "n mod 64 < 63" by linarith
  then show ?thesis using pad_count[of "Suc (n mod 64)"] by (simp add: mod_Suc pad_count)
qed (simp add: mod_Suc)

lemma pad_loop_repr:
  assumes "ctx_repr ctx m"
  shows "\<exists>ctx'. sha1_pad_loop ctx = Some ctx' \<and> sbuffered ctx' = 56
    \<and> ctx_repr ctx' (m @ replicate ((120 - length m mod 64) mod 64) 0)"
  using assms
proof (induction "(120 - length m mod 64) mod 64" arbitrary: ctx m)
  case 0
  have "length m mod 64 < 64" by simp
  then have "length m mod 64 = 56" using 0(1) by (simp add: pad_count split: if_splits)
  then show ?case using 0 repr_buffered[OF 0(2)]
    by (subst sha1_pad_loop.simps) (simp add: SHA1_BLOCK_LEN_def)
next
  case (Suc k)
  have lt: "length m mod 64 < 64" by simp
  have ne: "length m mod 64 \<noteq> 56" using Suc(2) by auto
  have k: "k = (120 - length (m @ [0 :: u8]) mod 64) mod 64"
    using Suc(2) ne by (simp add: pad_count_Suc)
  from Suc(1)[OF k update_repr[OF Suc(3)]]
  obtain ctx' where c: "sha1_pad_loop (sha1_update ctx [0]) = Some ctx'" "sbuffered ctx' = 56"
    "ctx_repr ctx' ((m @ [0]) @ replicate k 0)" using k by auto
  have "sha1_pad_loop ctx = Some ctx'"
    using c(1) ne repr_buffered[OF Suc(3)] by (subst sha1_pad_loop.simps) (simp add: SHA1_BLOCK_LEN_def)
  moreover have "(m @ [0]) @ replicate k 0 = m @ replicate ((120 - length m mod 64) mod 64) (0 :: u8)"
    unfolding Suc(2)[symmetric] by simp
  ultimately show ?case using c(2,3) by metis
qed

lemma be_bytes64_length [simp]: "length (be_bytes64 v) = 8"
  by (simp add: be_bytes64_def)

lemma be_bytes32_length [simp]: "length (be_bytes32 v) = 4"
  by (simp add: be_bytes32_def)

lemma sha1_final_repr:
  assumes "ctx_repr ctx m"
  shows "sha1_final ctx = Some (sha1_spec m)"
proof -
  let ?m1 = "m @ [0x80]" and ?bits = "slength ctx * 8"
  let ?m2 = "?m1 @ replicate ((120 - length ?m1 mod 64) mod 64) 0"
  obtain c where c: "sha1_pad_loop (sha1_update ctx [0x80]) = Some c" "sbuffered c = 56" "ctx_repr c ?m2"
    using pad_loop_repr[OF update_repr[OF assms]] by blast
  have z: "(120 - Suc (length m) mod 64) mod 64 = (119 - length m mod 64) mod 64"
    by (simp add: mod_Suc)
  have b: "?bits = of_nat (8 * length m)" using assms by (simp add: ctx_repr_def)
  have pad: "sha1_pad m = ?m2 @ be_bytes64 ?bits" by (simp add: sha1_pad_def b z)
  have cr: "sha1_blocks sha1_iv ?m2 = (sstate c, take 56 (sbuf c))" "length (sbuf c) = 64"
    using c(2,3) by (simp_all add: ctx_repr_def)
  have buf: "memcpy_at (sbuf c) 56 (be_bytes64 ?bits) = take 56 (sbuf c) @ be_bytes64 ?bits"
    using cr(2) by (simp add: memcpy_at_def)
  have "sha1_blocks sha1_iv (sha1_pad m) = sha1_blocks (sstate c) ((take 56 (sbuf c) @ be_bytes64 ?bits) @ [])"
    unfolding pad using sha1_blocks_append[OF cr(1)] by simp
  also have "\<dots> = (sha1_block (sstate c) (take 56 (sbuf c) @ be_bytes64 ?bits), [])"
    by (subst sha1_blocks_block) (simp_all add: cr(2) sha1_blocks_short)
  finally have "sha1_spec m = digest_bytes (sha1_block (sstate c) (take 56 (sbuf c) @ be_bytes64 ?bits))"
    using sha1_blocks_fold[of sha1_iv "sha1_pad m"] by (simp add: sha1_spec_blocks)
  then show ?thesis using c(1,2) buf by (simp add: sha1_final_def Let_def)
qed

lemma fresh_init: "ctx_repr (sha1_init fresh_ctx) []"
  by (rule ctx_init) (simp add: fresh_ctx_def SHA1_BLOCK_LEN_def)

lemma sha1_eq_spec: "sha1 data = Some (sha1_spec data)"
  unfolding sha1_def using sha1_final_repr[OF update_repr[OF fresh_init]] by simp

lemma sha1_spec_length [simp]: "length (sha1_spec m) = 20"
  by (auto simp: sha1_spec_def digest_bytes_def split: prod.splits)

section \<open>HMAC\<close>

text \<open>RFC 2104, over the digest above.\<close>

definition hmac_key_spec :: "u8 list \<Rightarrow> u8 list" where
  "hmac_key_spec key =
     (let k = (if length key > 64 then sha1_spec key else key) in k @ replicate (64 - length k) 0)"

definition hmac_spec :: "u8 list \<Rightarrow> u8 list \<Rightarrow> u8 list" where
  "hmac_spec key m =
     (let k = hmac_key_spec key
      in sha1_spec (map (\<lambda>b. b XOR 0x5C) k @ sha1_spec (map (\<lambda>b. b XOR 0x36) k @ m)))"

lemma hmac_key_eq: "hmac_key key = Some (hmac_key_spec key)"
  by (simp add: hmac_key_def hmac_key_spec_def sha1_eq_spec memcpy_at_def SHA1_BLOCK_LEN_def Let_def)

lemma hmac_vector_eq: "hmac_sha1_vector key data = Some (hmac_spec key (concat data))"
proof -
  have i: "sha1_final (fold (\<lambda>d ctx. sha1_update ctx d) data (sha1_update (sha1_init fresh_ctx) pad))
    = Some (sha1_spec (pad @ concat data))" for pad
    using sha1_final_repr[OF update_fold_repr[OF update_repr[OF fresh_init]]] by simp
  have o: "sha1_final (sha1_update (sha1_update (sha1_init fresh_ctx) pad) x) = Some (sha1_spec (pad @ x))" for pad x
    using sha1_final_repr[OF update_repr[OF update_repr[OF fresh_init]]] by simp
  show ?thesis by (simp add: hmac_sha1_vector_def hmac_key_eq i o hmac_spec_def Let_def)
qed

lemma hmac_sha1_eq: "hmac_sha1 key data = Some (hmac_spec key data)"
  by (simp add: hmac_sha1_def hmac_vector_eq)

lemma hmac_spec_length [simp]: "length (hmac_spec key m) = 20"
  by (simp add: hmac_spec_def Let_def)


section \<open>Key derivation\<close>

text \<open>PBKDF2 (RFC 8018): block \<open>i\<close> is the exclusive or of the chain of digests that starts from
  the salt and the block's number, and the key is the start of the blocks in order.\<close>

definition pbkdf2_chain :: "u8 list \<Rightarrow> u8 list \<Rightarrow> nat \<Rightarrow> u32 \<Rightarrow> u8 list" where
  "pbkdf2_chain pass salt j i = (hmac_spec pass ^^ j) (hmac_spec pass (salt @ be_bytes32 i))"

definition pbkdf2_f :: "u8 list \<Rightarrow> u8 list \<Rightarrow> nat \<Rightarrow> u32 \<Rightarrow> u8 list" where
  "pbkdf2_f pass salt c i =
     fold (\<lambda>j acc. xor_bytes acc (pbkdf2_chain pass salt j i)) [1..<c] (pbkdf2_chain pass salt 0 i)"

definition blocks_of :: "(nat \<Rightarrow> u8 list) \<Rightarrow> nat \<Rightarrow> nat \<Rightarrow> u8 list" where
  "blocks_of f s n = take n (concat (map f [s..<s + (n + 19) div 20]))"

lemma pbkdf2_chain_length [simp]: "length (pbkdf2_chain pass salt j i) = 20"
  by (cases j) (simp_all add: pbkdf2_chain_def)

lemma xor_bytes_length [simp]: "length (xor_bytes xs ys) = min (length xs) (length ys)"
  by (simp add: xor_bytes_def)

lemma pbkdf2_f_length [simp]: "length (pbkdf2_f pass salt c i) = 20"
proof -
  have "length (fold (\<lambda>j acc. xor_bytes acc (pbkdf2_chain pass salt j i)) js a) = 20"
    if "length a = 20" for js a
    using that by (induction js arbitrary: a) simp_all
  then show ?thesis by (simp add: pbkdf2_f_def)
qed

lemma pbkdf2_iter_eq:
  "pbkdf2_iter pass n (pbkdf2_chain pass salt j i) acc =
     Some (fold (\<lambda>j acc. xor_bytes acc (pbkdf2_chain pass salt j i)) [Suc j..<Suc j + n] acc)"
proof (induction n arbitrary: j acc)
  case (Suc n)
  have "hmac_spec pass (pbkdf2_chain pass salt j i) = pbkdf2_chain pass salt (Suc j) i"
    by (simp add: pbkdf2_chain_def)
  then show ?case using Suc[of "Suc j"]
    by (simp add: hmac_sha1_eq upt_conv_Cons del: upt_Suc)
qed simp

lemma pbkdf2_block_eq: "pbkdf2_block pass salt c i = Some (pbkdf2_f pass salt c i)"
proof -
  have "hmac_sha1_vector pass [salt, be_bytes32 i] = Some (pbkdf2_chain pass salt 0 i)"
    by (simp add: hmac_vector_eq pbkdf2_chain_def)
  moreover have "[Suc 0..<Suc 0 + (c - 1)] = [1..<c]" by (cases c) simp_all
  ultimately show ?thesis
    using pbkdf2_iter_eq[of pass "c - 1" salt 0 i "pbkdf2_chain pass salt 0 i"]
    by (simp add: pbkdf2_block_def pbkdf2_f_def)
qed

lemma blocks_of_0 [simp]: "blocks_of f s 0 = []"
  by (simp add: blocks_of_def)

lemma blocks_of_step:
  assumes "n > 0" "\<And>i. length (f i) = 20"
  shows "blocks_of f s n = take (min n 20) (f s) @ blocks_of f (Suc s) (n - min n 20)"
proof (cases "n \<le> 20")
  case True
  with assms have "(n + 19) div 20 = 1" by simp
  with True show ?thesis by (simp add: blocks_of_def)
next
  case False
  then have d: "(n + 19) div 20 = Suc ((n - 20 + 19) div 20)" by simp
  have "[s..<s + (n + 19) div 20] = s # [Suc s..<Suc s + (n - 20 + 19) div 20]"
    unfolding d by (simp add: upt_conv_Cons del: upt_Suc)
  with False assms(2)[of s] show ?thesis by (simp add: blocks_of_def)
qed

lemma blocks_of_length: "(\<And>i. length (f i) = 20) \<Longrightarrow> length (blocks_of f s n) = n"
proof (induction n arbitrary: s rule: less_induct)
  case (less n)
  then show ?case by (cases "n = 0") (simp_all add: blocks_of_step)
qed

lemma pbkdf2_loop_eq:
  "pbkdf2_loop pass salt c i left out =
     Some (out @ blocks_of (\<lambda>i. pbkdf2_f pass salt c (of_nat i)) i left)"
proof (induction left arbitrary: i out rule: less_induct)
  case (less left)
  show ?case
  proof (cases "left = 0")
    case True
    then show ?thesis by (subst pbkdf2_loop.simps) simp
  next
    case False
    have tk: "(if left > SHA1_DIGEST_LEN then SHA1_DIGEST_LEN else left) = min left 20"
      by (simp add: SHA1_DIGEST_LEN_def)
    show ?thesis using False less[of "left - min left 20" "Suc i"]
      by (subst pbkdf2_loop.simps)
        (simp add: tk pbkdf2_block_eq blocks_of_step[of left] Let_def)
  qed
qed

lemma sha1_prf_loop_eq:
  "sha1_prf_loop key label data (of_nat i) left out =
     Some (out @ blocks_of (\<lambda>i. hmac_spec key (label @ [0] @ data @ [of_nat i])) i left)"
proof (induction left arbitrary: i out rule: less_induct)
  case (less left)
  show ?case
  proof (cases "left = 0")
    case True
    then show ?thesis by (subst sha1_prf_loop.simps) simp
  next
    case False
    have tk: "(if left > SHA1_DIGEST_LEN then SHA1_DIGEST_LEN else left) = min left 20"
      by (simp add: SHA1_DIGEST_LEN_def)
    show ?thesis using False less[of "left - min left 20" "Suc i"]
      by (subst sha1_prf_loop.simps)
        (simp add: tk hmac_vector_eq blocks_of_step[of left] Let_def add.commute)
  qed
qed

section \<open>Properties\<close>


text \<open>\<^verbatim>\<open>hmac_sha1_vector\<close> always returns, and returns the RFC 2104 code of the
  concatenation of the pieces it was given, for a key of any length: a key longer than a block is
  hashed first, and a shorter one is padded with zeroes.\<close>

theorem hmac_sha1_correct: "hmac_sha1_vector key data = Some (hmac_spec key (concat data))"
  by (rule hmac_vector_eq)

text \<open>\<^verbatim>\<open>pbkdf2_sha1\<close> returns exactly the number of bytes asked for, and they are
  the first bytes of the blocks RFC 8018 defines, numbered from one; \<^verbatim>\<open>sha1_prf\<close> returns the
  first bytes of the digests of label, zero byte, data and counter, the counter running from zero.\<close>

theorem key_derivation_correct:
  "pbkdf2_sha1 pass salt c n = Some (blocks_of (\<lambda>i. pbkdf2_f pass salt c (of_nat i)) 1 n)
   \<and> length (blocks_of (\<lambda>i. pbkdf2_f pass salt c (of_nat i)) 1 n) = n
   \<and> sha1_prf key label data n = Some (blocks_of (\<lambda>i. hmac_spec key (label @ [0] @ data @ [of_nat i])) 0 n)"
  using sha1_prf_loop_eq[of key label data 0 n "[]"]
  by (simp add: pbkdf2_sha1_def sha1_prf_def pbkdf2_loop_eq blocks_of_length)

end
