(* ===== verification/Aes.thy ===== *)
theory Aes
  imports Sha1
begin

text \<open>
  AES, from \<^verbatim>\<open>kernel/lib/crypto.c\<close>: the tables, the key schedule and the two ciphers.

  A block is a list of sixteen bytes in the column order of the code.  The round keys are the words
  the expansion wrote.

  The lemmas show that the schedule is the one FIPS 197 defines and that each cipher
  inverts the other, for every key schedule.
\<close>

unbundle bit_operations_syntax

section \<open>The tables and the field\<close>

definition sbox :: "u8 list" where
  "sbox = [
     0x63, 0x7C, 0x77, 0x7B, 0xF2, 0x6B, 0x6F, 0xC5, 0x30, 0x01, 0x67, 0x2B, 0xFE, 0xD7, 0xAB, 0x76,
     0xCA, 0x82, 0xC9, 0x7D, 0xFA, 0x59, 0x47, 0xF0, 0xAD, 0xD4, 0xA2, 0xAF, 0x9C, 0xA4, 0x72, 0xC0,
     0xB7, 0xFD, 0x93, 0x26, 0x36, 0x3F, 0xF7, 0xCC, 0x34, 0xA5, 0xE5, 0xF1, 0x71, 0xD8, 0x31, 0x15,
     0x04, 0xC7, 0x23, 0xC3, 0x18, 0x96, 0x05, 0x9A, 0x07, 0x12, 0x80, 0xE2, 0xEB, 0x27, 0xB2, 0x75,
     0x09, 0x83, 0x2C, 0x1A, 0x1B, 0x6E, 0x5A, 0xA0, 0x52, 0x3B, 0xD6, 0xB3, 0x29, 0xE3, 0x2F, 0x84,
     0x53, 0xD1, 0x00, 0xED, 0x20, 0xFC, 0xB1, 0x5B, 0x6A, 0xCB, 0xBE, 0x39, 0x4A, 0x4C, 0x58, 0xCF,
     0xD0, 0xEF, 0xAA, 0xFB, 0x43, 0x4D, 0x33, 0x85, 0x45, 0xF9, 0x02, 0x7F, 0x50, 0x3C, 0x9F, 0xA8,
     0x51, 0xA3, 0x40, 0x8F, 0x92, 0x9D, 0x38, 0xF5, 0xBC, 0xB6, 0xDA, 0x21, 0x10, 0xFF, 0xF3, 0xD2,
     0xCD, 0x0C, 0x13, 0xEC, 0x5F, 0x97, 0x44, 0x17, 0xC4, 0xA7, 0x7E, 0x3D, 0x64, 0x5D, 0x19, 0x73,
     0x60, 0x81, 0x4F, 0xDC, 0x22, 0x2A, 0x90, 0x88, 0x46, 0xEE, 0xB8, 0x14, 0xDE, 0x5E, 0x0B, 0xDB,
     0xE0, 0x32, 0x3A, 0x0A, 0x49, 0x06, 0x24, 0x5C, 0xC2, 0xD3, 0xAC, 0x62, 0x91, 0x95, 0xE4, 0x79,
     0xE7, 0xC8, 0x37, 0x6D, 0x8D, 0xD5, 0x4E, 0xA9, 0x6C, 0x56, 0xF4, 0xEA, 0x65, 0x7A, 0xAE, 0x08,
     0xBA, 0x78, 0x25, 0x2E, 0x1C, 0xA6, 0xB4, 0xC6, 0xE8, 0xDD, 0x74, 0x1F, 0x4B, 0xBD, 0x8B, 0x8A,
     0x70, 0x3E, 0xB5, 0x66, 0x48, 0x03, 0xF6, 0x0E, 0x61, 0x35, 0x57, 0xB9, 0x86, 0xC1, 0x1D, 0x9E,
     0xE1, 0xF8, 0x98, 0x11, 0x69, 0xD9, 0x8E, 0x94, 0x9B, 0x1E, 0x87, 0xE9, 0xCE, 0x55, 0x28, 0xDF,
     0x8C, 0xA1, 0x89, 0x0D, 0xBF, 0xE6, 0x42, 0x68, 0x41, 0x99, 0x2D, 0x0F, 0xB0, 0x54, 0xBB, 0x16]"

definition inv_sbox :: "u8 list" where
  "inv_sbox = [
     0x52, 0x09, 0x6A, 0xD5, 0x30, 0x36, 0xA5, 0x38, 0xBF, 0x40, 0xA3, 0x9E, 0x81, 0xF3, 0xD7, 0xFB,
     0x7C, 0xE3, 0x39, 0x82, 0x9B, 0x2F, 0xFF, 0x87, 0x34, 0x8E, 0x43, 0x44, 0xC4, 0xDE, 0xE9, 0xCB,
     0x54, 0x7B, 0x94, 0x32, 0xA6, 0xC2, 0x23, 0x3D, 0xEE, 0x4C, 0x95, 0x0B, 0x42, 0xFA, 0xC3, 0x4E,
     0x08, 0x2E, 0xA1, 0x66, 0x28, 0xD9, 0x24, 0xB2, 0x76, 0x5B, 0xA2, 0x49, 0x6D, 0x8B, 0xD1, 0x25,
     0x72, 0xF8, 0xF6, 0x64, 0x86, 0x68, 0x98, 0x16, 0xD4, 0xA4, 0x5C, 0xCC, 0x5D, 0x65, 0xB6, 0x92,
     0x6C, 0x70, 0x48, 0x50, 0xFD, 0xED, 0xB9, 0xDA, 0x5E, 0x15, 0x46, 0x57, 0xA7, 0x8D, 0x9D, 0x84,
     0x90, 0xD8, 0xAB, 0x00, 0x8C, 0xBC, 0xD3, 0x0A, 0xF7, 0xE4, 0x58, 0x05, 0xB8, 0xB3, 0x45, 0x06,
     0xD0, 0x2C, 0x1E, 0x8F, 0xCA, 0x3F, 0x0F, 0x02, 0xC1, 0xAF, 0xBD, 0x03, 0x01, 0x13, 0x8A, 0x6B,
     0x3A, 0x91, 0x11, 0x41, 0x4F, 0x67, 0xDC, 0xEA, 0x97, 0xF2, 0xCF, 0xCE, 0xF0, 0xB4, 0xE6, 0x73,
     0x96, 0xAC, 0x74, 0x22, 0xE7, 0xAD, 0x35, 0x85, 0xE2, 0xF9, 0x37, 0xE8, 0x1C, 0x75, 0xDF, 0x6E,
     0x47, 0xF1, 0x1A, 0x71, 0x1D, 0x29, 0xC5, 0x89, 0x6F, 0xB7, 0x62, 0x0E, 0xAA, 0x18, 0xBE, 0x1B,
     0xFC, 0x56, 0x3E, 0x4B, 0xC6, 0xD2, 0x79, 0x20, 0x9A, 0xDB, 0xC0, 0xFE, 0x78, 0xCD, 0x5A, 0xF4,
     0x1F, 0xDD, 0xA8, 0x33, 0x88, 0x07, 0xC7, 0x31, 0xB1, 0x12, 0x10, 0x59, 0x27, 0x80, 0xEC, 0x5F,
     0x60, 0x51, 0x7F, 0xA9, 0x19, 0xB5, 0x4A, 0x0D, 0x2D, 0xE5, 0x7A, 0x9F, 0x93, 0xC9, 0x9C, 0xEF,
     0xA0, 0xE0, 0x3B, 0x4D, 0xAE, 0x2A, 0xF5, 0xB0, 0xC8, 0xEB, 0xBB, 0x3C, 0x83, 0x53, 0x99, 0x61,
     0x17, 0x2B, 0x04, 0x7E, 0xBA, 0x77, 0xD6, 0x26, 0xE1, 0x69, 0x14, 0x63, 0x55, 0x21, 0x0C, 0x7D]"

definition xtime :: "u8 \<Rightarrow> u8" where
  "xtime v = push_bit 1 v XOR (if v AND 0x80 \<noteq> 0 then 0x1B else 0x00)"

function gmul_loop :: "u8 \<Rightarrow> u8 \<Rightarrow> u8 \<Rightarrow> u8" where
  "gmul_loop a b result =
     (if b \<noteq> 0
      then gmul_loop (xtime a) (drop_bit 1 b) (if b AND 1 \<noteq> 0 then result XOR a else result)
      else result)"
  by auto
termination
proof (relation "measure (\<lambda>(a, b, result). unat b)")
  fix a b result :: u8
  assume "b \<noteq> 0"
  then have "unat b > 0" by (simp add: unat_gt_0)
  then have "unat b div 2 < unat b" by simp
  moreover have "unat (drop_bit 1 b) = unat b div 2" by (simp add: drop_bit_eq_div unat_div)
  ultimately show "((xtime a, drop_bit 1 b, if b AND 1 \<noteq> 0 then result XOR a else result), a, b, result)
    \<in> measure (\<lambda>(a, b, result). unat b)" by simp
qed simp

declare gmul_loop.simps [simp del]

definition gmul :: "u8 \<Rightarrow> u8 \<Rightarrow> u8" where
  "gmul a b = gmul_loop a b 0"

definition sub_word :: "u32 \<Rightarrow> u32" where
  "sub_word w = push_bit 24 (ucast (sbox ! unat (drop_bit 24 w AND 0xFF)))
     OR push_bit 16 (ucast (sbox ! unat (drop_bit 16 w AND 0xFF)))
     OR push_bit 8 (ucast (sbox ! unat (drop_bit 8 w AND 0xFF)))
     OR ucast (sbox ! unat (w AND 0xFF))"

section \<open>The key schedule\<close>

record aes_ctx =
  round_key :: "u32 list"
  rounds :: nat

definition expand_step :: "nat \<Rightarrow> nat \<Rightarrow> u32 list \<times> u8 \<Rightarrow> u32 list \<times> u8" where
  "expand_step nk i = (\<lambda>(w, rcon).
     let t = w ! (i - 1);
         (t, rcon) =
           (if i mod nk = 0
            then (sub_word (push_bit 8 t OR drop_bit 24 t) XOR push_bit 24 (ucast rcon), xtime rcon)
            else if nk > 6 \<and> i mod nk = 4 then (sub_word t, rcon)
            else (t, rcon))
     in (w @ [w ! (i - nk) XOR t], rcon))"

definition expand_words :: "nat \<Rightarrow> u8 list \<Rightarrow> nat \<Rightarrow> u32 list" where
  "expand_words nk key r = fst (fold (expand_step nk) [nk..<4 * (r + 1)] (map (be32 key) [0..<nk], 1))"

definition aes_expand_key :: "u8 list \<Rightarrow> nat \<Rightarrow> aes_ctx option" where
  "aes_expand_key key key_len =
     (let expand = (\<lambda>nk. let r = nk + 6 in Some \<lparr>round_key = expand_words nk key r, rounds = r\<rparr>)
      in if key_len = 16 then expand 4
         else if key_len = 24 then expand 6
         else if key_len = 32 then expand 8
         else None)"

definition aes_set_encrypt_key :: "u8 list \<Rightarrow> nat \<Rightarrow> aes_ctx option" where
  "aes_set_encrypt_key key key_len = aes_expand_key key key_len"

definition aes_set_decrypt_key :: "u8 list \<Rightarrow> nat \<Rightarrow> aes_ctx option" where
  "aes_set_decrypt_key key key_len = aes_expand_key key key_len"

section \<open>The ciphers\<close>

definition add_round_key :: "u8 list \<Rightarrow> u32 list \<Rightarrow> u8 list" where
  "add_round_key state w =
     concat (map (\<lambda>c. map (\<lambda>r. state ! (4 * c + r) XOR ucast (drop_bit (24 - 8 * r) (w ! c))) [0..<4]) [0..<4])"

definition sub_bytes :: "u8 list \<Rightarrow> u8 list" where
  "sub_bytes state = map (\<lambda>b. sbox ! unat b) state"

definition inv_sub_bytes :: "u8 list \<Rightarrow> u8 list" where
  "inv_sub_bytes state = map (\<lambda>b. inv_sbox ! unat b) state"

definition shift_rows :: "u8 list \<Rightarrow> u8 list" where
  "shift_rows state = concat (map (\<lambda>c. map (\<lambda>r. state ! (4 * ((c + r) mod 4) + r)) [0..<4]) [0..<4])"

definition inv_shift_rows :: "u8 list \<Rightarrow> u8 list" where
  "inv_shift_rows state = concat (map (\<lambda>c. map (\<lambda>r. state ! (4 * ((c + 4 - r) mod 4) + r)) [0..<4]) [0..<4])"

definition mix_column :: "u8 \<Rightarrow> u8 \<Rightarrow> u8 \<Rightarrow> u8 \<Rightarrow> u8 list" where
  "mix_column a0 a1 a2 a3 =
     [xtime a0 XOR (xtime a1 XOR a1) XOR a2 XOR a3,
      a0 XOR xtime a1 XOR (xtime a2 XOR a2) XOR a3,
      a0 XOR a1 XOR xtime a2 XOR (xtime a3 XOR a3),
      (xtime a0 XOR a0) XOR a1 XOR a2 XOR xtime a3]"

definition inv_mix_column :: "u8 \<Rightarrow> u8 \<Rightarrow> u8 \<Rightarrow> u8 \<Rightarrow> u8 list" where
  "inv_mix_column a0 a1 a2 a3 =
     [gmul a0 14 XOR gmul a1 11 XOR gmul a2 13 XOR gmul a3 9,
      gmul a0 9 XOR gmul a1 14 XOR gmul a2 11 XOR gmul a3 13,
      gmul a0 13 XOR gmul a1 9 XOR gmul a2 14 XOR gmul a3 11,
      gmul a0 11 XOR gmul a1 13 XOR gmul a2 9 XOR gmul a3 14]"

definition each_column :: "(u8 \<Rightarrow> u8 \<Rightarrow> u8 \<Rightarrow> u8 \<Rightarrow> u8 list) \<Rightarrow> u8 list \<Rightarrow> u8 list" where
  "each_column f state =
     concat (map (\<lambda>c. f (state ! (4 * c)) (state ! (4 * c + 1)) (state ! (4 * c + 2)) (state ! (4 * c + 3))) [0..<4])"

definition aes_round :: "aes_ctx \<Rightarrow> nat \<Rightarrow> u8 list \<Rightarrow> u8 list" where
  "aes_round ctx round state =
     (let state = sub_bytes state;
          state = shift_rows state;
          state = (if round \<noteq> rounds ctx then each_column mix_column state else state)
      in add_round_key state (drop (4 * round) (round_key ctx)))"

definition aes_encrypt_block :: "aes_ctx \<Rightarrow> u8 list \<Rightarrow> u8 list" where
  "aes_encrypt_block ctx inp =
     fold (aes_round ctx) [1..<rounds ctx + 1] (add_round_key inp (round_key ctx))"

definition aes_inv_round :: "aes_ctx \<Rightarrow> nat \<Rightarrow> u8 list \<Rightarrow> u8 list" where
  "aes_inv_round ctx round state =
     (let state = inv_shift_rows state;
          state = inv_sub_bytes state;
          state = add_round_key state (drop (4 * round) (round_key ctx))
      in if round \<noteq> 0 then each_column inv_mix_column state else state)"

definition aes_decrypt_block :: "aes_ctx \<Rightarrow> u8 list \<Rightarrow> u8 list" where
  "aes_decrypt_block ctx inp =
     fold (aes_inv_round ctx) (rev [0..<rounds ctx])
       (add_round_key inp (drop (4 * rounds ctx) (round_key ctx)))"

section \<open>The field and the tables\<close>

lemma xtime_bit: "xtime v = push_bit 1 v XOR (if bit v 7 then 0x1B else 0)"
  using and_exp_eq_0_iff_not_bit[of v 7] by (simp add: xtime_def)

lemma xtime_xor: "xtime (x XOR y) = xtime x XOR xtime y"
  by (cases "bit x 7"; cases "bit y 7")
    (simp_all add: xtime_bit bit_xor_iff push_bit_xor xor.assoc xor.left_commute xor.commute)

lemma gmul_9: "gmul a 9 = a XOR xtime (xtime (xtime a))"
  by (simp add: gmul_def gmul_loop.simps xor.assoc)

lemma gmul_11: "gmul a 11 = a XOR xtime a XOR xtime (xtime (xtime a))"
  by (simp add: gmul_def gmul_loop.simps xor.assoc)

lemma gmul_13: "gmul a 13 = a XOR xtime (xtime a) XOR xtime (xtime (xtime a))"
  by (simp add: gmul_def gmul_loop.simps xor.assoc)

lemma gmul_14: "gmul a 14 = xtime a XOR xtime (xtime a) XOR xtime (xtime (xtime a))"
  by (simp add: gmul_def gmul_loop.simps xor.assoc)

lemmas gmul_constants = gmul_9 gmul_11 gmul_13 gmul_14

lemma xor_cancel: "x XOR (x XOR y) = (y :: u8)"
  by (simp add: xor.assoc[symmetric])

lemma inv_mix_mix:
  "case mix_column a0 a1 a2 a3 of [b0, b1, b2, b3] \<Rightarrow> inv_mix_column b0 b1 b2 b3 = [a0, a1, a2, a3]"
  unfolding mix_column_def inv_mix_column_def gmul_constants
  by (simp add: xtime_xor xor.assoc xor.left_commute xor.commute xor_cancel)

lemma sbox_all: "list_all (\<lambda>n. unat (sbox ! n) < 256 \<and> inv_sbox ! unat (sbox ! n) = of_nat n) [0..<256]"
  unfolding sbox_def inv_sbox_def by code_simp

lemma inv_sbox_sbox: "inv_sbox ! unat (sbox ! unat b) = b"
proof -
  have "unat b < 256" using unsigned_less[of b, where ?'a = nat] by simp
  then have "unat b \<in> set [0..<256]" by simp
  then show ?thesis using sbox_all by (auto simp: list_all_iff)
qed

section \<open>The ciphers invert each other\<close>

lemma add_round_key_length [simp]: "length (add_round_key s w) = 16"
  by (simp add: add_round_key_def length_concat comp_def sum_list_triv)

lemma shift_rows_length [simp]: "length (shift_rows s) = 16"
  by (simp add: shift_rows_def length_concat comp_def sum_list_triv)

lemma sub_bytes_length [simp]: "length (sub_bytes s) = length s" "length (inv_sub_bytes s) = length s"
  by (simp_all add: sub_bytes_def inv_sub_bytes_def)

lemma columns_length [simp]:
  "length (each_column mix_column s) = 16" "length (each_column inv_mix_column s) = 16"
  by (simp_all add: each_column_def mix_column_def inv_mix_column_def length_concat comp_def sum_list_triv)

lemma block_cases:
  assumes "length s = 16"
  obtains s0 s1 s2 s3 s4 s5 s6 s7 s8 s9 sa sb sc sd se sf where
    "s = [s0, s1, s2, s3, s4, s5, s6, s7, s8, s9, sa, sb, sc, sd, se, sf]"
proof -
  have "[0..<16] = [0, 1, 2, 3, 4, 5, 6, 7, 8, 9, 10, 11, 12, 13, 14, 15 :: nat]" by code_simp
  then have "[s ! 0, s ! 1, s ! 2, s ! 3, s ! 4, s ! 5, s ! 6, s ! 7, s ! 8, s ! 9,
    s ! 10, s ! 11, s ! 12, s ! 13, s ! 14, s ! 15] = s" using assms map_nth[of s] by (simp only: list.map)
  then show ?thesis by (rule that[OF sym])
qed

lemmas four_by_four = upt_rec[of 0 4] upt_rec[of "Suc 0" 4] upt_rec[of "Suc (Suc 0)" 4]
  upt_rec[of "Suc (Suc (Suc 0))" 4] upt_rec[of "Suc (Suc (Suc (Suc 0)))" 4]

lemma add_round_key_twice:
  assumes "length s = 16"
  shows "add_round_key (add_round_key s w) w = s"
  using assms by (rule block_cases) (simp add: add_round_key_def four_by_four xor.assoc)

lemma inv_shift_shift:
  assumes "length s = 16"
  shows "inv_shift_rows (shift_rows s) = s"
  using assms by (rule block_cases) (simp add: shift_rows_def inv_shift_rows_def four_by_four)

lemma inv_sub_sub [simp]: "inv_sub_bytes (sub_bytes s) = s"
  by (simp add: inv_sub_bytes_def sub_bytes_def inv_sbox_sbox comp_def)

lemma inv_columns_columns:
  assumes "length s = 16"
  shows "each_column inv_mix_column (each_column mix_column s) = s"
proof -
  have m: "each_column inv_mix_column (mix_column a0 a1 a2 a3 @ mix_column b0 b1 b2 b3
      @ mix_column c0 c1 c2 c3 @ mix_column d0 d1 d2 d3)
    = [a0, a1, a2, a3, b0, b1, b2, b3, c0, c1, c2, c3, d0, d1, d2, d3]"
    for a0 a1 a2 a3 b0 b1 b2 b3 c0 c1 c2 c3 d0 d1 d2 d3
    using inv_mix_mix[of a0 a1 a2 a3] inv_mix_mix[of b0 b1 b2 b3]
      inv_mix_mix[of c0 c1 c2 c3] inv_mix_mix[of d0 d1 d2 d3]
    by (simp add: mix_column_def each_column_def four_by_four)
  show ?thesis using assms
    by (rule block_cases) (simp add: each_column_def[of mix_column] four_by_four m)
qed

lemma aes_round_length [simp]: "length (aes_round ctx r s) = 16"
  by (simp add: aes_round_def Let_def)

lemma rounds_length:
  "length s = 16 \<Longrightarrow> length (fold (aes_round ctx) rs s) = 16"
  by (induction rs arbitrary: s) simp_all

lemma decrypt_rounds:
  assumes "k < rounds ctx" "length s = 16"
  shows "fold (aes_inv_round ctx) (rev [0..<Suc k])
    (shift_rows (sub_bytes (fold (aes_round ctx) [1..<Suc k] (add_round_key s (round_key ctx))))) = s"
  using assms(1)
proof (induction k)
  case 0
  show ?case using assms(2) by (simp add: aes_inv_round_def inv_shift_shift add_round_key_twice)
next
  case (Suc k)
  let ?e = "fold (aes_round ctx) [1..<Suc k] (add_round_key s (round_key ctx))"
  let ?s = "shift_rows (sub_bytes ?e)"
  have "length ?e = 16" by (rule rounds_length) simp
  then have "aes_inv_round ctx (Suc k) (shift_rows (sub_bytes (aes_round ctx (Suc k) ?e))) = ?s"
    using Suc(2) by (simp add: aes_inv_round_def aes_round_def Let_def inv_shift_shift
      add_round_key_twice inv_columns_columns)
  then show ?case using Suc by simp
qed

lemma decrypt_encrypt:
  assumes "length s = 16"
  shows "aes_decrypt_block ctx (aes_encrypt_block ctx s) = s"
proof (cases "rounds ctx")
  case 0
  then show ?thesis using assms
    by (simp add: aes_decrypt_block_def aes_encrypt_block_def add_round_key_twice)
next
  case (Suc k)
  let ?e = "fold (aes_round ctx) [1..<Suc k] (add_round_key s (round_key ctx))"
  have "add_round_key (aes_round ctx (Suc k) ?e) (drop (4 * Suc k) (round_key ctx)) = shift_rows (sub_bytes ?e)"
    using Suc by (simp add: aes_round_def Let_def add_round_key_twice)
  then show ?thesis using decrypt_rounds[of k ctx s] assms Suc
    by (simp add: aes_decrypt_block_def aes_encrypt_block_def)
qed

lemma encrypt_length [simp]: "length (aes_encrypt_block ctx s) = 16"
  by (simp add: aes_encrypt_block_def rounds_length)

text \<open>There are finitely many blocks, so the injective encryption reaches every one of them, and the
  other composition follows.\<close>

lemma encrypt_onto:
  assumes "length b = 16"
  shows "\<exists>s. length s = 16 \<and> aes_encrypt_block ctx s = b"
proof -
  let ?B = "{s :: u8 list. length s = 16}"
  have "finite ?B" using finite_lists_length_eq[of "UNIV :: u8 set" 16] by simp
  moreover have "aes_encrypt_block ctx ` ?B \<subseteq> ?B" by auto
  moreover have "inj_on (aes_encrypt_block ctx) ?B"
    by (rule inj_on_inverseI[of _ "aes_decrypt_block ctx"]) (simp add: decrypt_encrypt)
  ultimately have "aes_encrypt_block ctx ` ?B = ?B" by (rule endo_inj_surj)
  then have "b \<in> aes_encrypt_block ctx ` ?B" using assms by simp
  then show ?thesis by auto
qed

lemma encrypt_decrypt:
  assumes "length b = 16"
  shows "aes_encrypt_block ctx (aes_decrypt_block ctx b) = b"
  using encrypt_onto[OF assms, of ctx] by (auto simp: decrypt_encrypt)

lemma decrypt_length: "length b = 16 \<Longrightarrow> length (aes_decrypt_block ctx b) = 16"
  using encrypt_onto[of b ctx] by (auto simp: decrypt_encrypt)

section \<open>The standard's definitions\<close>

text \<open>FIPS 197 defines the round keys by a recurrence.\<close>

function fips_key :: "nat \<Rightarrow> u8 list \<Rightarrow> nat \<Rightarrow> u32" where
  "fips_key nk key i =
     (if i < nk \<or> nk = 0 then be_word (take 4 (drop (4 * i) key))
      else fips_key nk key (i - nk) XOR
        (let t = fips_key nk key (i - 1)
         in if i mod nk = 0 then sub_word (word_rotl 8 t) XOR push_bit 24 (ucast ((xtime ^^ (i div nk - 1)) 1))
            else if nk > 6 \<and> i mod nk = 4 then sub_word t
            else t))"
  by auto
termination by (relation "measure (\<lambda>(nk, key, i). i)") auto

declare fips_key.simps [simp del]

lemma expand_prefix:
  assumes "0 < nk" "4 * nk \<le> length key" "nk \<le> n"
  shows "fold (expand_step nk) [nk..<n] (map (be32 key) [0..<nk], 1)
    = (map (fips_key nk key) [0..<n], (xtime ^^ ((n - 1) div nk)) 1)"
  using assms(3)
proof (induction n rule: dec_induct)
  case base
  have "be32 key i = fips_key nk key i" if "i < nk" for i
    using that assms by (simp add: be32_be_word fips_key.simps)
  then show ?case using assms(1) by simp
next
  case (step n)
  have rot: "push_bit 8 t OR drop_bit 24 t = word_rotl 8 t" for t :: u32
    using rol32_rotl[of 8 t] by (simp add: rol32_def)
  have r: "n mod nk = 0 \<Longrightarrow> n div nk = Suc ((n - 1) div nk)" "n mod nk \<noteq> 0 \<Longrightarrow> n div nk = (n - 1) div nk"
    using div_Suc[of "n - 1" nk] mod_Suc[of "n - 1" nk] step(1) assms(1) by auto
  show ?case using step assms(1) r
    by (auto simp: expand_step_def fips_key.simps[of nk key n] rot Let_def xor.commute)
qed

definition fips_ctx :: "u8 list \<Rightarrow> nat \<Rightarrow> aes_ctx" where
  "fips_ctx key nk = \<lparr>round_key = map (fips_key nk key) [0..<4 * (nk + 7)], rounds = nk + 6\<rparr>"

lemma expand_words_eq:
  assumes "0 < nk" "length key = 4 * nk"
  shows "expand_words nk key (nk + 6) = map (fips_key nk key) [0..<4 * (nk + 7)]"
  using expand_prefix[of nk key "4 * (nk + 7)"] assms by (simp add: expand_words_def add.commute)

lemma aes_expand_key_eq:
  assumes "length key = key_len"
  shows "aes_expand_key key key_len =
    (if key_len \<in> {16, 24, 32} then Some (fips_ctx key (key_len div 4)) else None)"
  using assms expand_words_eq[of 4 key] expand_words_eq[of 6 key] expand_words_eq[of 8 key]
  by (simp add: aes_expand_key_def fips_ctx_def Let_def)

section \<open>Properties\<close>

text \<open>C37. For every key schedule the two ciphers are inverse permutations of the sixteen-byte
  blocks: decrypting an encrypted block and encrypting a decrypted block both give the block back.\<close>

theorem aes_inverse:
  assumes "length b = 16"
  shows "length (aes_encrypt_block ctx b) = 16 \<and> aes_decrypt_block ctx (aes_encrypt_block ctx b) = b
    \<and> length (aes_decrypt_block ctx b) = 16 \<and> aes_encrypt_block ctx (aes_decrypt_block ctx b) = b"
  using assms by (simp add: decrypt_encrypt encrypt_decrypt decrypt_length)

theorem aes_inverse_witness:
  "aes_decrypt_block (fips_ctx (replicate 16 0) 4) (aes_encrypt_block (fips_ctx (replicate 16 0) 4) (replicate 16 1))
    = replicate 16 1"
  using aes_inverse[of "replicate 16 1" "fips_ctx (replicate 16 0) 4"] by simp

text \<open>The key expansion accepts exactly the keys of 16, 24 and 32 bytes, and for those it builds
  the schedule FIPS 197 defines, with 10, 12 and 14 rounds, whichever of its two names it is called by.\<close>

theorem aes_key_schedule:
  assumes "length key = n"
  shows "aes_set_encrypt_key key n = (if n \<in> {16, 24, 32} then Some (fips_ctx key (n div 4)) else None)
    \<and> aes_set_decrypt_key key n = aes_set_encrypt_key key n"
  using assms by (simp add: aes_set_encrypt_key_def aes_set_decrypt_key_def aes_expand_key_eq)

theorem aes_key_schedule_witness:
  "aes_set_encrypt_key (replicate 24 7) 24 = Some (fips_ctx (replicate 24 7) 6)
   \<and> aes_set_encrypt_key (replicate 5 7) 5 = None"
  using aes_key_schedule[of "replicate 24 7" 24] aes_key_schedule[of "replicate 5 7" 5]
  by simp

end
