(* ===== verification/Aes_Modes.thy ===== *)
theory Aes_Modes
  imports Aes
begin

text \<open>
  What \<^verbatim>\<open>kernel/lib/crypto.c\<close> builds on AES: the comparison that takes the same time for
  every input, the RFC 3394 key unwrap and AES-CCM.

  A function that fills a caller's buffer and returns a truth value is modelled by the pair of the
  value and the buffer.

  The interface \<open>block_cipher\<close> is what these modes rely on: a permutation of the sixteen-byte
  blocks and its inverse.  The lemmas show that the unwrap accepts exactly the results of the RFC 3394
  wrap and returns what was wrapped, that the CCM code is the CBC-MAC of the blocks RFC 3610 defines,
  and that CCM decryption accepts exactly what CCM encryption produces.
\<close>

unbundle bit_operations_syntax

section \<open>Comparison\<close>

definition crypto_equal :: "u8 list \<Rightarrow> u8 list \<Rightarrow> nat \<Rightarrow> bool" where
  "crypto_equal a b len = (fold (\<lambda>i diff. diff OR (a ! i XOR b ! i)) [0..<len] 0 = 0)"

section \<open>Key unwrap\<close>

text \<open>The step counter, exclusive-ored into the last four bytes of the accumulator.\<close>

definition xor_counter :: "u8 list \<Rightarrow> u32 \<Rightarrow> u8 list" where
  "xor_counter a t = take 4 a @ xor_bytes (drop 4 a) (be_bytes32 t)"

definition unwrap_step :: "(u8 list \<Rightarrow> u8 list) \<Rightarrow> nat \<Rightarrow> nat \<times> nat \<Rightarrow> u8 list \<times> u8 list \<Rightarrow> u8 list \<times> u8 list" where
  "unwrap_step decrypt n = (\<lambda>(j, i) (a, out).
     let t = of_nat n * of_nat j + of_nat i;
         block = decrypt (xor_counter a t @ take 8 (drop ((i - 1) * 8) out))
     in (take 8 block, memcpy_at out ((i - 1) * 8) (drop 8 block)))"

definition unwrap_iv :: "u8 list" where
  "unwrap_iv = replicate 8 0xA6"

definition unwrap_order :: "nat \<Rightarrow> (nat \<times> nat) list" where
  "unwrap_order n = [(j, i). j \<leftarrow> rev [0..<6], i \<leftarrow> rev [1..<n + 1]]"

definition aes_unwrap_key :: "u8 list \<Rightarrow> nat \<Rightarrow> u8 list \<Rightarrow> nat \<Rightarrow> u8 list \<Rightarrow> bool \<times> u8 list" where
  "aes_unwrap_key kek kek_len inp in_len out =
     (if in_len < 16 \<or> in_len mod 8 \<noteq> 0 then (False, out)
      else case aes_set_decrypt_key kek kek_len of
        None \<Rightarrow> (False, out)
      | Some ctx \<Rightarrow>
          (let n = in_len div 8 - 1;
               a = take 8 inp;
               out = memcpy_at out 0 (take (n * 8) (drop 8 inp));
               (a, out) = fold (unwrap_step (aes_decrypt_block ctx) n) (unwrap_order n) (a, out)
           in (crypto_equal a unwrap_iv 8, out)))"

section \<open>CCM\<close>

definition CCM_TAG_LEN :: nat where "CCM_TAG_LEN = 8"
definition CCM_NONCE_LEN :: nat where "CCM_NONCE_LEN = 13"

text \<open>Sixteen zero bytes with the given bytes copied over their start.\<close>

definition zero_padded :: "u8 list \<Rightarrow> u8 list" where
  "zero_padded bytes = memcpy_at (replicate 16 0) 0 bytes"

definition ccm_xor_block :: "u8 list \<Rightarrow> u8 list \<Rightarrow> u8 list" where
  "ccm_xor_block dst src = xor_bytes dst src"

definition ccm_counter :: "u8 list \<Rightarrow> 16 word \<Rightarrow> u8 list" where
  "ccm_counter nonce index = 1 # take CCM_NONCE_LEN nonce @ [ucast (drop_bit 8 index), ucast index]"

text \<open>A loop over a buffer in pieces of at most sixteen bytes, as the additional data past its first
  block and the message go through the chain.\<close>

function ccm_chain :: "aes_ctx \<Rightarrow> u8 list \<Rightarrow> u8 list \<Rightarrow> u8 list" where
  "ccm_chain ctx bytes mac =
     (if bytes = [] then mac
      else ccm_chain ctx (drop 16 bytes)
             (aes_encrypt_block ctx (ccm_xor_block mac (zero_padded (take 16 bytes)))))"
  by auto
termination by (relation "measure (\<lambda>(ctx, bytes, mac). length bytes)") auto

declare ccm_chain.simps [simp del]

definition ccm_first :: "u8 list \<Rightarrow> u8 list \<Rightarrow> nat \<Rightarrow> u8 list" where
  "ccm_first nonce aad plain_len =
     ((if aad \<noteq> [] then 0x40 else 0x00) OR push_bit 3 (of_nat ((CCM_TAG_LEN - 2) div 2)) OR 1)
       # take CCM_NONCE_LEN nonce @ [of_nat (plain_len div 256), of_nat plain_len]"

definition ccm_mac :: "aes_ctx \<Rightarrow> u8 list \<Rightarrow> u8 list \<Rightarrow> u8 list \<Rightarrow> u8 list" where
  "ccm_mac ctx nonce aad plain =
     (let mac = aes_encrypt_block ctx (ccm_first nonce aad (length plain));
          mac =
            (if aad \<noteq> []
             then (let aad_len = length aad;
                       head = [of_nat (aad_len div 256), of_nat aad_len];
                       first = (if aad_len < 14 then aad_len else 14);
                       block = memcpy_at (zero_padded head) 2 (take first aad);
                       mac = aes_encrypt_block ctx (ccm_xor_block mac block)
                   in ccm_chain ctx (drop first aad) mac)
             else mac)
      in ccm_chain ctx plain mac)"

function ccm_ctr_loop :: "aes_ctx \<Rightarrow> u8 list \<Rightarrow> 16 word \<Rightarrow> u8 list \<Rightarrow> u8 list" where
  "ccm_ctr_loop ctx nonce index inp =
     (if inp = [] then []
      else (let stream = aes_encrypt_block ctx (ccm_counter nonce index)
            in xor_bytes (take 16 inp) stream @ ccm_ctr_loop ctx nonce (index + 1) (drop 16 inp)))"
  by auto
termination by (relation "measure (\<lambda>(ctx, nonce, index, inp). length inp)") auto

declare ccm_ctr_loop.simps [simp del]

definition ccm_ctr :: "aes_ctx \<Rightarrow> u8 list \<Rightarrow> u8 list \<Rightarrow> u8 list" where
  "ccm_ctr ctx nonce inp = ccm_ctr_loop ctx nonce 1 inp"

definition ccm_tag :: "aes_ctx \<Rightarrow> u8 list \<Rightarrow> u8 list \<Rightarrow> u8 list" where
  "ccm_tag ctx nonce mac =
     (let s0 = aes_encrypt_block ctx (ccm_counter nonce 0)
      in map (\<lambda>i. mac ! i XOR s0 ! i) [0..<CCM_TAG_LEN])"

text \<open>The bytes written to the output buffer, none when the key is refused.\<close>

definition aes_ccm_encrypt :: "u8 list \<Rightarrow> u8 list \<Rightarrow> u8 list \<Rightarrow> u8 list \<Rightarrow> u8 list" where
  "aes_ccm_encrypt key nonce aad inp =
     (case aes_set_encrypt_key key 16 of
        None \<Rightarrow> []
      | Some ctx \<Rightarrow>
          (let mac = ccm_mac ctx nonce aad inp
           in ccm_ctr ctx nonce inp @ ccm_tag ctx nonce mac))"

definition aes_ccm_decrypt :: "u8 list \<Rightarrow> u8 list \<Rightarrow> u8 list \<Rightarrow> u8 list \<Rightarrow> bool \<times> u8 list" where
  "aes_ccm_decrypt key nonce aad inp =
     (if length inp < CCM_TAG_LEN then (False, [])
      else (let plain_len = length inp - CCM_TAG_LEN
            in case aes_set_encrypt_key key 16 of
                 None \<Rightarrow> (False, [])
               | Some ctx \<Rightarrow>
                   (let out = ccm_ctr ctx nonce (take plain_len inp);
                        tag = ccm_tag ctx nonce (ccm_mac ctx nonce aad out)
                    in (crypto_equal tag (drop plain_len inp) CCM_TAG_LEN, out))))"


section \<open>Buffers\<close>

lemma xor_bytes_twice: "length xs \<le> length ys \<Longrightarrow> xor_bytes (xor_bytes xs ys) ys = xs"
  by (rule nth_equalityI) (simp_all add: xor_bytes_def xor.assoc)

lemma xor_counter_length [simp]: "length a = 8 \<Longrightarrow> length (xor_counter a t) = 8"
  by (simp add: xor_counter_def)

lemma xor_counter_twice [simp]: "length a = 8 \<Longrightarrow> xor_counter (xor_counter a t) t = a"
  by (simp add: xor_counter_def xor_bytes_twice)

lemma diff_or_zero:
  "fold (\<lambda>i diff. diff OR (a ! i XOR b ! i)) is d = (0 :: u8) \<longleftrightarrow> d = 0 \<and> (\<forall>i \<in> set is. a ! i = b ! i)"
proof (induction "is" arbitrary: d)
  case (Cons i "is")
  have "x OR y = 0 \<longleftrightarrow> x = 0 \<and> y = 0" for x y :: u8
    by (auto simp: bit_eq_iff bit_or_iff)
  moreover have "a ! i XOR b ! i = 0 \<longleftrightarrow> a ! i = b ! i"
    by (metis xor.right_neutral xor_cancel xor_self_eq)
  ultimately show ?case using Cons by auto
qed simp

lemma crypto_equal_iff:
  "length a = len \<Longrightarrow> length b = len \<Longrightarrow> crypto_equal a b len \<longleftrightarrow> a = b"
  unfolding crypto_equal_def diff_or_zero by (auto intro!: nth_equalityI)

section \<open>The wrap the unwrap undoes\<close>

text \<open>RFC 3394, over an arbitrary block cipher.\<close>

definition wrap_step :: "(u8 list \<Rightarrow> u8 list) \<Rightarrow> nat \<Rightarrow> nat \<times> nat \<Rightarrow> u8 list \<times> u8 list \<Rightarrow> u8 list \<times> u8 list" where
  "wrap_step encrypt n = (\<lambda>(j, i) (a, r).
     let block = encrypt (a @ take 8 (drop ((i - 1) * 8) r))
     in (xor_counter (take 8 block) (of_nat (n * j + i)), memcpy_at r ((i - 1) * 8) (drop 8 block)))"

definition wrap_order :: "nat \<Rightarrow> (nat \<times> nat) list" where
  "wrap_order n = [(j, i). j \<leftarrow> [0..<6], i \<leftarrow> [1..<n + 1]]"

definition wrap_spec :: "(u8 list \<Rightarrow> u8 list) \<Rightarrow> u8 list \<Rightarrow> u8 list" where
  "wrap_spec encrypt p =
     (let n = length p div 8;
          (a, r) = fold (wrap_step encrypt n) (wrap_order n) (unwrap_iv, p)
      in a @ r)"

lemma unwrap_order_rev: "unwrap_order n = rev (wrap_order n)"
  by (simp add: unwrap_order_def wrap_order_def rev_concat rev_map comp_def)

lemma wrap_order_range: "(j, i) \<in> set (wrap_order n) \<Longrightarrow> 1 \<le> i \<and> i \<le> n"
  by (auto simp: wrap_order_def)

lemma fold_rev_inverse:
  assumes "\<And>x s. x \<in> set xs \<Longrightarrow> P s \<Longrightarrow> P (f x s) \<and> g x (f x s) = s" "P s"
  shows "P (fold f xs s) \<and> fold g (rev xs) (fold f xs s) = s"
  using assms by (induction xs arbitrary: s) simp_all

definition wrap_state :: "nat \<Rightarrow> u8 list \<times> u8 list \<Rightarrow> bool" where
  "wrap_state n = (\<lambda>(a, r). length a = 8 \<and> length r = n * 8)"

locale block_cipher =
  fixes encrypt decrypt :: "u8 list \<Rightarrow> u8 list"
  assumes encrypt_block: "length s = 16 \<Longrightarrow> length (encrypt s) = 16 \<and> decrypt (encrypt s) = s"
    and decrypt_block: "length s = 16 \<Longrightarrow> length (decrypt s) = 16 \<and> encrypt (decrypt s) = s"
begin

lemma unwrap_wrap_step:
  assumes "1 \<le> i" "i \<le> n" "wrap_state n s"
  shows "wrap_state n (wrap_step encrypt n (j, i) s) \<and> unwrap_step decrypt n (j, i) (wrap_step encrypt n (j, i) s) = s"
proof -
  obtain a r where s: "s = (a, r)" and l: "length a = 8" "length r = n * 8"
    using assms(3) by (auto simp: wrap_state_def)
  let ?o = "(i - 1) * 8"
  let ?b = "encrypt (a @ take 8 (drop ?o r))"
  have o: "?o + 8 \<le> length r" using assms(1,2) l by (simp add: diff_mult_distrib)
  then have e: "length ?b = 16" "decrypt ?b = a @ take 8 (drop ?o r)"
    using encrypt_block[of "a @ take 8 (drop ?o r)"] l by auto
  have m: "take 8 (drop ?o (memcpy_at r ?o (drop 8 ?b))) = drop 8 ?b"
    using o e(1) by (intro memcpy_at_read) auto
  show ?thesis using o e m l memcpy_at_restore[OF o, of "drop 8 ?b"]
    by (simp add: s wrap_step_def unwrap_step_def wrap_state_def Let_def)
qed

lemma wrap_unwrap_step:
  assumes "1 \<le> i" "i \<le> n" "wrap_state n s"
  shows "wrap_state n (unwrap_step decrypt n (j, i) s) \<and> wrap_step encrypt n (j, i) (unwrap_step decrypt n (j, i) s) = s"
proof -
  obtain a r where s: "s = (a, r)" and l: "length a = 8" "length r = n * 8"
    using assms(3) by (auto simp: wrap_state_def)
  let ?o = "(i - 1) * 8" and ?a = "xor_counter a (of_nat n * of_nat j + of_nat i)"
  let ?b = "decrypt (?a @ take 8 (drop ?o r))"
  have o: "?o + 8 \<le> length r" using assms(1,2) l by (simp add: diff_mult_distrib)
  then have e: "length ?b = 16" "encrypt ?b = ?a @ take 8 (drop ?o r)"
    using decrypt_block[of "?a @ take 8 (drop ?o r)"] l by auto
  have m: "take 8 (drop ?o (memcpy_at r ?o (drop 8 ?b))) = drop 8 ?b"
    using o e(1) by (intro memcpy_at_read) auto
  show ?thesis using o e m l memcpy_at_restore[OF o, of "drop 8 ?b"]
    by (simp add: s wrap_step_def unwrap_step_def wrap_state_def Let_def)
qed

lemma unwrap_back:
  assumes "length inp = 8 * n + 8"
  defines "u \<equiv> fold (unwrap_step decrypt n) (rev (wrap_order n)) (take 8 inp, drop 8 inp)"
  shows "wrap_state n u \<and> fold (wrap_step encrypt n) (wrap_order n) u = (take 8 inp, drop 8 inp)"
proof -
  have "wrap_state n u \<and> fold (wrap_step encrypt n) (rev (rev (wrap_order n))) u = (take 8 inp, drop 8 inp)"
    unfolding u_def
  proof (rule fold_rev_inverse)
    fix x s assume "x \<in> set (rev (wrap_order n))" "wrap_state n s"
    then show "wrap_state n (unwrap_step decrypt n x s) \<and> wrap_step encrypt n x (unwrap_step decrypt n x s) = s"
      using wrap_unwrap_step[of "snd x" n s "fst x"] wrap_order_range[of "fst x" "snd x" n] by simp
  qed (use assms(1) in \<open>simp add: wrap_state_def\<close>)
  then show ?thesis by simp
qed

lemma unwrap_state:
  "length inp = 8 * n + 8 \<Longrightarrow>
    wrap_state n (fold (unwrap_step decrypt n) (rev (wrap_order n)) (take 8 inp, drop 8 inp))"
  using unwrap_back by blast

lemma wrap_forward:
  assumes "length p = 8 * n"
  defines "w \<equiv> fold (wrap_step encrypt n) (wrap_order n) (unwrap_iv, p)"
  shows "wrap_state n w \<and> fold (unwrap_step decrypt n) (rev (wrap_order n)) w = (unwrap_iv, p)"
  unfolding w_def
proof (rule fold_rev_inverse)
  fix x s assume "x \<in> set (wrap_order n)" "wrap_state n s"
  then show "wrap_state n (wrap_step encrypt n x s) \<and> unwrap_step decrypt n x (wrap_step encrypt n x s) = s"
    using unwrap_wrap_step[of "snd x" n s "fst x"] wrap_order_range[of "fst x" "snd x" n] by simp
qed (use assms(1) in \<open>simp add: wrap_state_def unwrap_iv_def\<close>)

lemma wrap_length: "length p = 8 * n \<Longrightarrow> length (wrap_spec encrypt p) = 8 * n + 8"
  using wrap_forward[of p n] by (auto simp: wrap_spec_def wrap_state_def split: prod.splits)

lemma unwrap_iff:
  assumes "length inp = 8 * n + 8"
  shows "fold (unwrap_step decrypt n) (rev (wrap_order n)) (take 8 inp, drop 8 inp) = (unwrap_iv, p)
    \<longleftrightarrow> length p = 8 * n \<and> inp = wrap_spec encrypt p"
proof
  let ?u = "fold (unwrap_step decrypt n) (rev (wrap_order n)) (take 8 inp, drop 8 inp)"
  assume u: "?u = (unwrap_iv, p)"
  have "wrap_state n ?u \<and> fold (wrap_step encrypt n) (wrap_order n) ?u = (take 8 inp, drop 8 inp)"
    by (rule unwrap_back[OF assms])
  then show "length p = 8 * n \<and> inp = wrap_spec encrypt p"
    using u by (auto simp: wrap_state_def wrap_spec_def)
next
  assume p: "length p = 8 * n \<and> inp = wrap_spec encrypt p"
  let ?w = "fold (wrap_step encrypt n) (wrap_order n) (unwrap_iv, p)"
  have "wrap_state n ?w \<and> fold (unwrap_step decrypt n) (rev (wrap_order n)) ?w = (unwrap_iv, p)"
    using p by (intro wrap_forward) simp
  moreover from this have "?w = (take 8 inp, drop 8 inp)"
    using p by (auto simp: wrap_state_def wrap_spec_def split: prod.splits)
  ultimately show "fold (unwrap_step decrypt n) (rev (wrap_order n)) (take 8 inp, drop 8 inp) = (unwrap_iv, p)"
    by simp
qed

end

interpretation aes: block_cipher "aes_encrypt_block ctx" "aes_decrypt_block ctx" for ctx
  by unfold_locales (simp_all add: decrypt_encrypt encrypt_decrypt decrypt_length)


lemma unwrap_key_iff:
  assumes "aes_set_decrypt_key kek kek_len = Some ctx" "16 \<le> length inp" "length inp mod 8 = 0"
    "length out = length inp - 8"
  shows "aes_unwrap_key kek kek_len inp (length inp) out = (True, p)
    \<longleftrightarrow> length p = length inp - 8 \<and> inp = wrap_spec (aes_encrypt_block ctx) p"
proof -
  let ?n = "length inp div 8 - 1"
  let ?u = "fold (unwrap_step (aes_decrypt_block ctx) ?n) (rev (wrap_order ?n)) (take 8 inp, drop 8 inp)"
  obtain d where "length inp = 8 * d" using assms(3) by (auto simp: mod_eq_0_iff_dvd dvd_def)
  with assms(2) have len: "length inp = 8 * ?n + 8" by simp
  have out: "memcpy_at out 0 (take (?n * 8) (drop 8 inp)) = drop 8 inp"
    using assms(4) len by (simp add: memcpy_at_def)
  have "wrap_state ?n ?u" using aes.unwrap_state[of inp ?n ctx] len by simp
  then have "crypto_equal (fst ?u) unwrap_iv 8 \<longleftrightarrow> fst ?u = unwrap_iv"
    by (intro crypto_equal_iff) (auto simp: wrap_state_def unwrap_iv_def split: prod.splits)
  then have "aes_unwrap_key kek kek_len inp (length inp) out = (fst ?u = unwrap_iv, snd ?u)"
    using assms(1-3) out
    by (simp add: aes_unwrap_key_def unwrap_order_rev Let_def case_prod_beta)
  moreover have "(fst ?u = unwrap_iv, snd ?u) = (True, p) \<longleftrightarrow> ?u = (unwrap_iv, p)"
    by (cases ?u) auto
  moreover have "8 * ?n = length inp - 8" using len by linarith
  ultimately show ?thesis using aes.unwrap_iff[OF len, of ctx p] by simp
qed

section \<open>The standard's CCM\<close>

text \<open>RFC 3610: the blocks authenticated are the first one, the additional data behind its length, and
  the message, the last two padded with zeroes to whole blocks.\<close>

definition pad16 :: "u8 list \<Rightarrow> u8 list" where
  "pad16 xs = xs @ replicate ((16 - length xs mod 16) mod 16) 0"

definition be_bytes16 :: "nat \<Rightarrow> u8 list" where
  "be_bytes16 n = [of_nat (n div 256), of_nat (n mod 256)]"

definition encode_aad :: "u8 list \<Rightarrow> u8 list" where
  "encode_aad aad =
     (if aad = [] then []
      else if length aad < 0xFF00 then be_bytes16 (length aad) @ aad
      else [0xFF, 0xFE] @ be_bytes32 (of_nat (length aad)) @ aad)"

definition ccm_b0 :: "u8 list \<Rightarrow> bool \<Rightarrow> nat \<Rightarrow> u8 list" where
  "ccm_b0 nonce adata plain_len =
     of_nat (64 * of_bool adata + 8 * ((8 - 2) div 2) + (2 - 1)) # nonce @ be_bytes16 plain_len"

definition cbc_mac :: "(u8 list \<Rightarrow> u8 list) \<Rightarrow> u8 list list \<Rightarrow> u8 list" where
  "cbc_mac encrypt blocks = fold (\<lambda>b x. encrypt (xor_bytes x b)) blocks (replicate 16 0)"

definition ccm_mac_spec :: "(u8 list \<Rightarrow> u8 list) \<Rightarrow> u8 list \<Rightarrow> u8 list \<Rightarrow> u8 list \<Rightarrow> u8 list" where
  "ccm_mac_spec encrypt nonce aad plain =
     cbc_mac encrypt (ccm_b0 nonce (aad \<noteq> []) (length plain) # chop 16 (pad16 (encode_aad aad)) @ chop 16 (pad16 plain))"

lemma zero_padded_full: "length bytes \<le> 16 \<Longrightarrow> zero_padded bytes = bytes @ replicate (16 - length bytes) 0"
  by (simp add: zero_padded_def memcpy_at_def)

lemma pad16_step:
  assumes "xs \<noteq> []"
  shows "chop 16 (pad16 xs) = zero_padded (take 16 xs) # chop 16 (pad16 (drop 16 xs))"
proof (cases "16 \<le> length xs")
  case True
  then have "length xs mod 16 = (length xs - 16) mod 16" by (simp add: le_mod_geq)
  then have "pad16 xs = take 16 xs @ pad16 (drop 16 xs)"
    by (simp add: pad16_def append.assoc[symmetric])
  then show ?thesis using True by (simp add: chop.simps[of 16 "_ @ _"] zero_padded_full)
next
  case False
  then have "(16 - length xs mod 16) mod 16 = 16 - length xs" using assms by simp
  then have "pad16 xs = xs @ replicate (16 - length xs) 0" by (simp add: pad16_def)
  moreover have "pad16 [] = []" by (simp add: pad16_def)
  ultimately show ?thesis using False by (simp add: chop.simps[of 16] zero_padded_full)
qed

lemma ccm_chain_eq:
  "ccm_chain ctx bytes mac = fold (\<lambda>b x. aes_encrypt_block ctx (xor_bytes x b)) (chop 16 (pad16 bytes)) mac"
proof (induction ctx bytes mac rule: ccm_chain.induct)
  case (1 ctx bytes mac)
  show ?case
  proof (cases "bytes = []")
    case True
    then show ?thesis by (simp add: ccm_chain.simps pad16_def chop.simps)
  next
    case False
    then show ?thesis using 1 by (subst ccm_chain.simps) (simp add: pad16_step ccm_xor_block_def)
  qed
qed

lemma xor_bytes_zero: "length b = n \<Longrightarrow> xor_bytes (replicate n 0) b = b"
  by (rule nth_equalityI) (simp_all add: xor_bytes_def)

lemma ccm_first_eq:
  assumes "length nonce = 13" "plain_len < 2 ^ 16"
  shows "ccm_first nonce aad plain_len = ccm_b0 nonce (aad \<noteq> []) plain_len"
proof -
  have "(of_nat plain_len :: u8) = of_nat (plain_len mod 256)" by (simp add: word_of_nat_eq_iff take_bit_eq_mod)
  then show ?thesis using assms
    by (simp add: ccm_first_def ccm_b0_def be_bytes16_def CCM_TAG_LEN_def CCM_NONCE_LEN_def)
qed

lemma ccm_aad_eq:
  assumes "aad \<noteq> []" "length aad < 0xFF00"
  shows "chop 16 (pad16 (encode_aad aad)) =
    memcpy_at (zero_padded [of_nat (length aad div 256), of_nat (length aad)]) 2 (take 14 aad)
      # chop 16 (pad16 (drop 14 aad))"
proof -
  have "(of_nat (length aad) :: u8) = of_nat (length aad mod 256)" by (simp add: word_of_nat_eq_iff take_bit_eq_mod)
  then have e: "encode_aad aad = of_nat (length aad div 256) # of_nat (length aad) # aad"
    using assms by (simp add: encode_aad_def be_bytes16_def)
  have "zero_padded (take 16 (encode_aad aad)) =
    memcpy_at (zero_padded [of_nat (length aad div 256), of_nat (length aad)]) 2 (take 14 aad)"
    by (simp add: e zero_padded_def memcpy_at_def numeral_2_eq_2)
  then show ?thesis using pad16_step[of "encode_aad aad"] e by simp
qed

lemma ccm_mac_eq:
  assumes "length nonce = 13" "length aad < 0xFF00" "length plain < 2 ^ 16"
  shows "ccm_mac ctx nonce aad plain = ccm_mac_spec (aes_encrypt_block ctx) nonce aad plain"
proof -
  have b0: "length (ccm_b0 nonce d n) = 16" for d n
    using assms(1) by (simp add: ccm_b0_def be_bytes16_def)
  have f: "take (if length aad < 14 then length aad else 14) aad = take 14 aad"
    "drop (if length aad < 14 then length aad else 14) aad = drop 14 aad" by simp_all
  show ?thesis
  proof (cases "aad = []")
    case True
    then show ?thesis using assms
      by (simp add: ccm_mac_def ccm_mac_spec_def cbc_mac_def ccm_chain_eq ccm_first_eq xor_bytes_zero b0
        encode_aad_def pad16_def chop.simps[of 16 "[]"])
  next
    case False
    then show ?thesis using assms
      by (simp add: ccm_mac_def ccm_mac_spec_def cbc_mac_def ccm_chain_eq ccm_first_eq xor_bytes_zero b0
        ccm_aad_eq f ccm_xor_block_def Let_def)
  qed
qed

section \<open>Counter mode\<close>

lemma ccm_ctr_loop_length [simp]: "length (ccm_ctr_loop ctx nonce i inp) = length inp"
proof (induction ctx nonce i inp rule: ccm_ctr_loop.induct)
  case (1 ctx nonce i inp)
  then show ?case by (subst ccm_ctr_loop.simps) (simp add: Let_def min_def)
qed

lemma ccm_ctr_loop_twice: "ccm_ctr_loop ctx nonce i (ccm_ctr_loop ctx nonce i inp) = inp"
proof (induction ctx nonce i inp rule: ccm_ctr_loop.induct)
  case (1 ctx nonce i inp)
  show ?case
  proof (cases "inp = []")
    case True
    then show ?thesis by (simp add: ccm_ctr_loop.simps)
  next
    case False
    let ?s = "aes_encrypt_block ctx (ccm_counter nonce i)"
    let ?h = "xor_bytes (take 16 inp) ?s" and ?t = "ccm_ctr_loop ctx nonce (i + 1) (drop 16 inp)"
    have e: "ccm_ctr_loop ctx nonce i inp = ?h @ ?t" using False by (subst ccm_ctr_loop.simps) (simp add: Let_def)
    have l: "length ?h = min 16 (length inp)" by simp
    have ht: "take 16 (?h @ ?t) = ?h" "drop 16 (?h @ ?t) = ?t" using l by (auto simp: ccm_ctr_loop.simps)
    have "?h @ ?t \<noteq> []" using False l by (metis append_is_Nil_conv length_0_conv min_def zero_neq_numeral)
    then have "ccm_ctr_loop ctx nonce i (?h @ ?t) = xor_bytes ?h ?s @ ccm_ctr_loop ctx nonce (i + 1) ?t"
      by (subst ccm_ctr_loop.simps) (simp only: ht Let_def if_False)
    also have "\<dots> = take 16 inp @ drop 16 inp" using 1 False by (simp add: xor_bytes_twice)
    finally show ?thesis using e by simp
  qed
qed

lemma ccm_tag_length [simp]: "length (ccm_tag ctx nonce mac) = 8"
  by (simp add: ccm_tag_def Let_def CCM_TAG_LEN_def)

lemma key16: "\<exists>ctx. aes_set_encrypt_key key 16 = Some ctx"
  by (simp add: aes_set_encrypt_key_def aes_expand_key_def Let_def)

lemma ccm_accepts_iff:
  "aes_ccm_decrypt key nonce aad c = (True, p) \<longleftrightarrow> c = aes_ccm_encrypt key nonce aad p"
proof -
  obtain ctx where k: "aes_set_encrypt_key key 16 = Some ctx" using key16 by blast
  have enc: "aes_ccm_encrypt key nonce aad p = ccm_ctr ctx nonce p @ ccm_tag ctx nonce (ccm_mac ctx nonce aad p)" for p
    by (simp add: aes_ccm_encrypt_def k Let_def)
  have ctr: "length (ccm_ctr ctx nonce x) = length x" "ccm_ctr ctx nonce (ccm_ctr ctx nonce x) = x" for x
    by (simp_all add: ccm_ctr_def ccm_ctr_loop_twice)
  show ?thesis
  proof (cases "length c < 8")
    case True
    then have "length c \<noteq> length (aes_ccm_encrypt key nonce aad p)" by (simp add: enc)
    then show ?thesis using True by (auto simp: aes_ccm_decrypt_def CCM_TAG_LEN_def)
  next
    case False
    let ?n = "length c - 8"
    let ?o = "ccm_ctr ctx nonce (take ?n c)"
    have dec: "aes_ccm_decrypt key nonce aad c = (ccm_tag ctx nonce (ccm_mac ctx nonce aad ?o) = drop ?n c, ?o)"
      using False by (simp add: aes_ccm_decrypt_def CCM_TAG_LEN_def k Let_def crypto_equal_iff)
    show ?thesis unfolding dec
    proof
      assume "(ccm_tag ctx nonce (ccm_mac ctx nonce aad ?o) = drop ?n c, ?o) = (True, p)"
      then have "p = ?o" "ccm_tag ctx nonce (ccm_mac ctx nonce aad p) = drop ?n c" by auto
      then show "c = aes_ccm_encrypt key nonce aad p" by (simp add: enc ctr)
    next
      assume c: "c = aes_ccm_encrypt key nonce aad p"
      then have "take ?n c = ccm_ctr ctx nonce p" "drop ?n c = ccm_tag ctx nonce (ccm_mac ctx nonce aad p)"
        by (simp_all add: enc ctr)
      then show "(ccm_tag ctx nonce (ccm_mac ctx nonce aad ?o) = drop ?n c, ?o) = (True, p)" by (simp add: ctr)
    qed
  qed
qed

section \<open>Properties\<close>



text \<open>C39. CCM decryption accepts exactly the frames CCM encryption produces under the same key, nonce
  and additional data, and then returns the message that was encrypted: every encrypted message comes
  back, and no other frame is accepted.\<close>

theorem ccm_accepts_exactly:
  "aes_ccm_decrypt key nonce aad c = (True, p) \<longleftrightarrow> c = aes_ccm_encrypt key nonce aad p"
  by (rule ccm_accepts_iff)

text \<open>The code computed over a frame is the CBC-MAC of the blocks RFC 3610 forms from the nonce,
  the additional data and the message, for a nonce of 13 bytes and lengths the two-byte length fields
  hold.\<close>

theorem ccm_mac_standard:
  assumes "length nonce = 13" "length aad < 0xFF00" "length plain < 2 ^ 16"
  shows "ccm_mac ctx nonce aad plain = ccm_mac_spec (aes_encrypt_block ctx) nonce aad plain"
  using assms by (rule ccm_mac_eq)

theorem ccm_mac_standard_witness:
  "ccm_mac (fips_ctx (replicate 16 0) 4) (replicate 13 1) [1, 2, 3] (replicate 20 9)
    = ccm_mac_spec (aes_encrypt_block (fips_ctx (replicate 16 0) 4)) (replicate 13 1) [1, 2, 3] (replicate 20 9)"
  by (rule ccm_mac_standard) simp_all

end
