(* ===== verification/Kstring.thy ===== *)
theory Kstring
  imports Wos_Prelude "HOL-Library.Monad_Syntax"
begin

text \<open>
  The memory and string routines of the kernel, \<^verbatim>\<open>kernel/lib/string.c\<close>, over the byte-addressed
  memory of the prelude.

  A pointer is a 64-bit address and an access of eight or four bytes is an access of that many
  consecutive bytes, lowest first.  A \<^verbatim>\<open>size_t\<close> is a natural number, which the lemmas bound by the
  size of the address space.  A loop that runs until it meets a NUL byte is a partial function: it
  has no value when memory holds none.

  The lemmas show that the routines that move whole words do what the byte by byte definition
  (\<open>mem_copy\<close>, \<open>mem_fill\<close>) says, that \<^verbatim>\<open>memmove\<close> does so for overlapping ranges, and
  that the string routines return, and return what they should, on NUL-terminated strings
  (\<open>cstr\<close>).
\<close>

unbundle bit_operations_syntax

section \<open>Accesses\<close>

definition load_bytes :: "memory \<Rightarrow> u64 \<Rightarrow> nat \<Rightarrow> u8 list" where
  "load_bytes m a k = map (\<lambda>i. m (a + of_nat i)) [0..<k]"

definition store_bytes :: "memory \<Rightarrow> u64 \<Rightarrow> u8 list \<Rightarrow> memory" where
  "store_bytes m a bs = (\<lambda>x. if unat (x - a) < length bs then bs ! unat (x - a) else m x)"

definition word_bytes :: "nat \<Rightarrow> u64 \<Rightarrow> u8 list" where
  "word_bytes k w = map (\<lambda>i. ucast (drop_bit (8 * i) w)) [0..<k]"

section \<open>Copying and filling\<close>

function copy_words :: "nat \<Rightarrow> memory \<Rightarrow> u64 \<Rightarrow> u64 \<Rightarrow> nat \<Rightarrow> memory \<times> u64 \<times> u64 \<times> nat" where
  "copy_words k m d s n =
     (if k > 0 \<and> n \<ge> k
      then copy_words k (store_bytes m d (load_bytes m s k)) (d + of_nat k) (s + of_nat k) (n - k)
      else (m, d, s, n))"
  by auto
termination by (relation "measure (\<lambda>(k, m, d, s, n). n)") auto

declare copy_words.simps [simp del]

fun copy_up :: "memory \<Rightarrow> u64 \<Rightarrow> u64 \<Rightarrow> nat \<Rightarrow> memory" where
  "copy_up m d s 0 = m"
| "copy_up m d s (Suc n) = copy_up (m(d := m s)) (d + 1) (s + 1) n"

fun copy_down :: "memory \<Rightarrow> u64 \<Rightarrow> u64 \<Rightarrow> nat \<Rightarrow> memory" where
  "copy_down m d s 0 = m"
| "copy_down m d s (Suc n) = copy_down (m(d - 1 := m (s - 1))) (d - 1) (s - 1) n"

definition memcpy :: "memory \<Rightarrow> u64 \<Rightarrow> u64 \<Rightarrow> nat \<Rightarrow> memory" where
  "memcpy m dst src n =
     (let (m, d, s, n) =
        (if dst mod 8 = 0 \<and> src mod 8 = 0 then copy_words 8 m dst src n
         else if dst mod 4 = 0 \<and> src mod 4 = 0 then copy_words 4 m dst src n
         else (m, dst, src, n))
      in copy_up m d s n)"

definition memmove :: "memory \<Rightarrow> u64 \<Rightarrow> u64 \<Rightarrow> nat \<Rightarrow> memory" where
  "memmove m d s n =
     (if d = s \<or> n = 0 then m
      else if d < s then copy_up m d s n
      else copy_down m (d + of_nat n) (s + of_nat n) n)"

function fill_words :: "nat \<Rightarrow> u64 \<Rightarrow> memory \<Rightarrow> u64 \<Rightarrow> nat \<Rightarrow> memory \<times> u64 \<times> nat" where
  "fill_words k w m d n =
     (if k > 0 \<and> n \<ge> k
      then fill_words k w (store_bytes m d (word_bytes k w)) (d + of_nat k) (n - k)
      else (m, d, n))"
  by auto
termination by (relation "measure (\<lambda>(k, w, m, d, n). n)") auto

declare fill_words.simps [simp del]

fun fill_up :: "u8 \<Rightarrow> memory \<Rightarrow> u64 \<Rightarrow> nat \<Rightarrow> memory" where
  "fill_up v m d 0 = m"
| "fill_up v m d (Suc n) = fill_up v (m(d := v)) (d + 1) n"

definition memset :: "memory \<Rightarrow> u64 \<Rightarrow> int \<Rightarrow> nat \<Rightarrow> memory" where
  "memset m dst c n =
     (let v = word_of_int c :: u8;
          (m, d, n) =
            (if dst mod 8 = 0 then fill_words 8 (ucast v * 0x0101010101010101) m dst n
             else if dst mod 4 = 0 then fill_words 4 (ucast (ucast v * 0x01010101 :: u32)) m dst n
             else (m, dst, n))
      in fill_up v m d n)"

fun memcmp :: "memory \<Rightarrow> u64 \<Rightarrow> u64 \<Rightarrow> nat \<Rightarrow> int" where
  "memcmp m x y 0 = 0"
| "memcmp m x y (Suc n) = (if m x \<noteq> m y then uint (m x) - uint (m y) else memcmp m (x + 1) (y + 1) n)"

section \<open>Strings\<close>

partial_function (option) strlen_loop :: "memory \<Rightarrow> u64 \<Rightarrow> u64 option" where
  "strlen_loop m p = (if m p \<noteq> 0 then strlen_loop m (p + 1) else Some p)"

definition strlen :: "memory \<Rightarrow> u64 \<Rightarrow> nat option" where
  "strlen m s = map_option (\<lambda>p. unat (p - s)) (strlen_loop m s)"

partial_function (option) strcmp :: "memory \<Rightarrow> u64 \<Rightarrow> u64 \<Rightarrow> int option" where
  "strcmp m a b =
     (if m a \<noteq> 0 \<and> m a = m b then strcmp m (a + 1) (b + 1) else Some (uint (m a) - uint (m b)))"

fun strncmp :: "memory \<Rightarrow> u64 \<Rightarrow> u64 \<Rightarrow> nat \<Rightarrow> int" where
  "strncmp m a b 0 = 0"
| "strncmp m a b (Suc n) =
     (if m a \<noteq> 0 \<and> m a = m b then strncmp m (a + 1) (b + 1) n else uint (m a) - uint (m b))"

partial_function (option) strcpy :: "memory \<Rightarrow> u64 \<Rightarrow> u64 \<Rightarrow> memory option" where
  "strcpy m d src =
     (let c = m src; m = m(d := c) in if c \<noteq> 0 then strcpy m (d + 1) (src + 1) else Some m)"

definition strlcpy :: "memory \<Rightarrow> u64 \<Rightarrow> u64 \<Rightarrow> nat \<Rightarrow> (memory \<times> nat) option" where
  "strlcpy m dst src n =
     do { len \<leftarrow> strlen m src;
          if n \<noteq> 0
          then (let copy = (if len < n - 1 then len else n - 1);
                    m = memcpy m dst src copy
                in Some (m(dst + of_nat copy := 0), len))
          else Some (m, len) }"

text \<open>A null pointer is the address 0.\<close>

partial_function (option) strchr :: "memory \<Rightarrow> u64 \<Rightarrow> int \<Rightarrow> u64 option" where
  "strchr m s c =
     (if m s \<noteq> 0
      then (if m s = word_of_int c then Some s else strchr m (s + 1) c)
      else Some (if c = 0 then s else 0))"

partial_function (option) strrchr_loop :: "memory \<Rightarrow> u64 \<Rightarrow> int \<Rightarrow> u64 \<Rightarrow> u64 option" where
  "strrchr_loop m s c lst =
     (if m s \<noteq> 0
      then strrchr_loop m (s + 1) c (if m s = word_of_int c then s else lst)
      else Some (if c = 0 then s else lst))"

definition strrchr :: "memory \<Rightarrow> u64 \<Rightarrow> int \<Rightarrow> u64 option" where
  "strrchr m s c = strrchr_loop m s c 0"

section \<open>Reference definitions\<close>

definition mem_copy :: "memory \<Rightarrow> u64 \<Rightarrow> u64 \<Rightarrow> nat \<Rightarrow> memory" where
  "mem_copy m d s n = (\<lambda>a. if unat (a - d) < n then m (s + (a - d)) else m a)"

definition mem_fill :: "memory \<Rightarrow> u64 \<Rightarrow> u8 \<Rightarrow> nat \<Rightarrow> memory" where
  "mem_fill m d v n = (\<lambda>a. if unat (a - d) < n then v else m a)"

text \<open>A NUL-terminated string at an address.\<close>

fun cstr :: "memory \<Rightarrow> u64 \<Rightarrow> u8 list \<Rightarrow> bool" where
  "cstr m a [] \<longleftrightarrow> m a = 0"
| "cstr m a (x # xs) \<longleftrightarrow> m a = x \<and> x \<noteq> 0 \<and> cstr m (a + 1) xs"

text \<open>Copying upwards reads no byte it has already overwritten.\<close>

definition copies_up :: "u64 \<Rightarrow> u64 \<Rightarrow> nat \<Rightarrow> bool" where
  "copies_up d s n \<longleftrightarrow> (\<forall>i j. i < j \<and> j < n \<longrightarrow> d + of_nat i \<noteq> s + of_nat j)"

definition ranges_disjoint :: "u64 \<Rightarrow> u64 \<Rightarrow> nat \<Rightarrow> bool" where
  "ranges_disjoint d s n \<longleftrightarrow> (\<forall>i j. i < n \<and> j < n \<longrightarrow> d + of_nat i \<noteq> s + of_nat j)"

section \<open>Address arithmetic\<close>

lemma address_offset: "\<exists>k < 2 ^ 64. a = d + of_nat k" for a d :: u64
proof -
  have "a = d + of_nat (unat (a - d))" by simp
  then show ?thesis using unat_lt_2_64[of "a - d"] by blast
qed

lemma unat_offset_diff:
  assumes "k < 2 ^ 64" "c \<le> 2 ^ 64"
  shows "unat (of_nat k - of_nat c :: u64) = (if c \<le> k then k - c else 2 ^ 64 + k - c)"
proof (cases "c \<le> k")
  case True
  then have "of_nat k - of_nat c = (of_nat (k - c) :: u64)" by simp
  then show ?thesis using assms True unat_of_nat_u64[of "k - c"] by simp
next
  case False
  have z: "(of_nat (2 ^ 64) :: u64) = 0" by simp
  have "of_nat (2 ^ 64 + k - c) = (of_nat (2 ^ 64 + k) - of_nat c :: u64)"
    using assms by (intro of_nat_diff) simp
  then have e: "of_nat k - of_nat c = (of_nat (2 ^ 64 + k - c) :: u64)" using z by (simp only: of_nat_add add_0)
  have "unat (of_nat (2 ^ 64 + k - c) :: u64) = 2 ^ 64 + k - c"
    using False assms by (intro unat_of_nat_u64) auto
  then show ?thesis using False e by (simp only: if_False)
qed

lemma mem_copy_at:
  "k < 2 ^ 64 \<Longrightarrow> mem_copy m d s n (d + of_nat k) = (if k < n then m (s + of_nat k) else m (d + of_nat k))"
  by (simp add: mem_copy_def unat_of_nat_u64)

lemma mem_copy_at_off:
  "k < 2 ^ 64 \<Longrightarrow> c \<le> 2 ^ 64 \<Longrightarrow> n \<le> 2 ^ 64 \<Longrightarrow> c \<le> n \<Longrightarrow>
   mem_copy m (d + of_nat c) (s + of_nat c) (n - c) (d + of_nat k)
     = (if c \<le> k \<and> k < n then m (s + of_nat k) else m (d + of_nat k))"
  using unat_offset_diff[of k c] by (auto simp: mem_copy_def algebra_simps)

lemma mem_copy_split:
  assumes "copies_up d s n" "c \<le> n" "n \<le> 2 ^ 64"
  shows "mem_copy (mem_copy m d s c) (d + of_nat c) (s + of_nat c) (n - c) = mem_copy m d s n"
proof
  fix a
  obtain k where k: "k < 2 ^ 64" "a = d + of_nat k" using address_offset by blast
  have "mem_copy m d s c (s + of_nat k) = m (s + of_nat k)" if "c \<le> k" "k < n"
  proof -
    obtain i where i: "i < 2 ^ 64" "s + of_nat k = d + of_nat i" using address_offset by blast
    then have "\<not> i < c" using assms(1) that by (metis copies_up_def order.strict_trans2)
    then show ?thesis using i by (simp add: mem_copy_at)
  qed
  then show "mem_copy (mem_copy m d s c) (d + of_nat c) (s + of_nat c) (n - c) a = mem_copy m d s n a"
    using k assms(2,3) by (simp add: mem_copy_at mem_copy_at_off)
qed

lemma copies_up_shift:
  assumes "copies_up d s n"
  shows "copies_up (d + of_nat c) (s + of_nat c) (n - c)"
  unfolding copies_up_def
proof (intro allI impI)
  fix i j assume "i < j \<and> j < n - c"
  then have "d + of_nat (c + i) \<noteq> s + of_nat (c + j)" using assms unfolding copies_up_def by auto
  then show "d + of_nat c + of_nat i \<noteq> s + of_nat c + of_nat j" by (simp add: add.assoc)
qed

lemma mem_copy_1: "mem_copy m d s (Suc 0) = m(d := m s)"
  by (rule ext) (auto simp: mem_copy_def unat_eq_0)

lemma mem_copy_0 [simp]: "mem_copy m d s 0 = m"
  by (simp add: mem_copy_def)

lemma store_load: "store_bytes m d (load_bytes m s k) = mem_copy m d s k"
  by (rule ext) (simp add: store_bytes_def load_bytes_def mem_copy_def)

section \<open>Copying\<close>

lemma copy_up_eq:
  "copies_up d s n \<Longrightarrow> n \<le> 2 ^ 64 \<Longrightarrow> copy_up m d s n = mem_copy m d s n"
proof (induction n arbitrary: m d s)
  case (Suc n)
  have "copies_up (d + 1) (s + 1) n" using copies_up_shift[OF Suc.prems(1), of 1] by simp
  then have "copy_up m d s (Suc n) = mem_copy (mem_copy m d s 1) (d + 1) (s + 1) n"
    using Suc by (simp add: mem_copy_1)
  then show ?case using mem_copy_split[OF Suc.prems(1), of 1 m] Suc.prems(2) by simp
qed simp

lemma copy_words_eq:
  assumes "copies_up d s n" "n \<le> 2 ^ 64" "copy_words k m d s n = (m', d', s', n')"
  shows "\<exists>c \<le> n. m' = mem_copy m d s c \<and> d' = d + of_nat c \<and> s' = s + of_nat c \<and> n' = n - c"
  using assms
proof (induction k m d s n arbitrary: m' d' s' n' rule: copy_words.induct)
  case (1 k m d s n)
  show ?case
  proof (cases "k > 0 \<and> n \<ge> k")
    case True
    let ?m = "mem_copy m d s k"
    have r: "copy_words k ?m (d + of_nat k) (s + of_nat k) (n - k) = (m', d', s', n')"
      using 1(4) True by (subst (asm) copy_words.simps) (simp add: store_load)
    have le: "n - k \<le> 2 ^ 64" using 1(3) by simp
    obtain c where c: "c \<le> n - k" "m' = mem_copy ?m (d + of_nat k) (s + of_nat k) c"
      "d' = d + of_nat k + of_nat c" "s' = s + of_nat k + of_nat c" "n' = n - k - c"
      using 1(1)[OF True copies_up_shift[OF 1(2)] le, of m' d' s' n', unfolded store_load, OF r] by blast
    have kc: "k + c \<le> 2 ^ 64" using c(1) True 1(3) by linarith
    have "copies_up d s (k + c)" using 1(2) c(1) True unfolding copies_up_def by auto
    then have "m' = mem_copy m d s (k + c)"
      using mem_copy_split[of d s "k + c" k m] c(2) kc by simp
    moreover have "k + c \<le> n" using c(1) True by linarith
    ultimately show ?thesis using c by (intro exI[of _ "k + c"]) (simp add: add.assoc)
  next
    case False
    then show ?thesis using 1(4) by (subst (asm) copy_words.simps) (auto intro!: exI[of _ 0])
  qed
qed

lemma memcpy_eq:
  assumes "copies_up d s n" "n \<le> 2 ^ 64"
  shows "memcpy m d s n = mem_copy m d s n"
proof -
  have fin: "copy_up m' d' s' n' = mem_copy m d s n" if "copy_words k m d s n = (m', d', s', n')" for k m' d' s' n'
    using copy_words_eq[OF assms that] copy_up_eq[OF copies_up_shift[OF assms(1)]] mem_copy_split[OF assms(1)]
      assms(2) by auto
  show ?thesis
    using fin[of 8] fin[of 4] copy_up_eq[OF assms] by (auto simp: memcpy_def split: prod.splits)
qed

lemma copy_down_eq:
  assumes "\<And>j. j < n \<Longrightarrow> \<forall>i < j. d + of_nat j \<noteq> s + of_nat i" "n \<le> 2 ^ 64"
  shows "copy_down m (d + of_nat n) (s + of_nat n) n = mem_copy m d s n"
  using assms
proof (induction n arbitrary: m)
  case (Suc n)
  let ?m = "m(d + of_nat n := m (s + of_nat n))"
  have "copy_down m (d + of_nat (Suc n)) (s + of_nat (Suc n)) (Suc n) = mem_copy ?m d s n"
    using Suc by (simp add: algebra_simps)
  also have "\<dots> = mem_copy m d s (Suc n)"
  proof
    fix a
    obtain k where k: "k < 2 ^ 64" "a = d + of_nat k" using address_offset by blast
    have "k < n \<Longrightarrow> ?m (s + of_nat k) = m (s + of_nat k)" using Suc.prems(1)[of n] by auto
    moreover have "k > n \<Longrightarrow> of_nat k \<noteq> (of_nat n :: u64)"
      using k(1) unat_of_nat_u64[of k] unat_of_nat_u64[of n] by auto
    ultimately show "mem_copy ?m d s n a = mem_copy m d s (Suc n) a"
      using k by (cases k n rule: linorder_cases) (simp_all add: mem_copy_at)
  qed
  finally show ?case .
qed simp

lemma memmove_eq:
  assumes "unat d + n \<le> 2 ^ 64" "unat s + n \<le> 2 ^ 64"
  shows "memmove m d s n = mem_copy m d s n"
proof -
  have at: "unat (x + of_nat i) = unat x + i" if "unat x + n \<le> 2 ^ 64" "i < n" for x :: u64 and i
    using that by (intro unat_add_index) simp
  have n: "n \<le> 2 ^ 64" using assms(1) by simp
  consider "d = s" | "d < s" | "s < d" by (rule linorder_cases[of d s])
  then show ?thesis
  proof cases
    case 1
    then show ?thesis by (simp add: memmove_def mem_copy_def fun_eq_iff)
  next
    case 2
    have "copies_up d s n" unfolding copies_up_def
    proof (intro allI impI)
      fix i j assume ij: "i < j \<and> j < n"
      then have "unat (d + of_nat i) < unat (s + of_nat j)"
        using at[OF assms(1), of i] at[OF assms(2), of j] 2 by (simp add: word_less_nat_alt)
      then show "d + of_nat i \<noteq> s + of_nat j" by auto
    qed
    then show ?thesis using 2 less_imp_neq[OF 2] n copy_up_eq[of d s n m] by (simp add: memmove_def)
  next
    case 3
    have "d + of_nat j \<noteq> s + of_nat i" if "j < n" "i < j" for i j
    proof -
      have "unat (s + of_nat i) < unat (d + of_nat j)"
        using at[OF assms(1), of j] at[OF assms(2), of i] that 3 by (simp add: word_less_nat_alt)
      then show ?thesis by auto
    qed
    then show ?thesis using 3 n copy_down_eq[of n d s m] by (auto simp: memmove_def)
  qed
qed

section \<open>Filling\<close>

lemma mem_fill_split:
  assumes "c \<le> n" "n \<le> 2 ^ 64"
  shows "mem_fill (mem_fill m d v c) (d + of_nat c) v (n - c) = mem_fill m d v n"
proof
  fix a
  obtain k where k: "k < 2 ^ 64" "a = d + of_nat k" using address_offset by blast
  then show "mem_fill (mem_fill m d v c) (d + of_nat c) v (n - c) a = mem_fill m d v n a"
    using assms unat_offset_diff[of k c] by (auto simp: mem_fill_def unat_of_nat_u64 algebra_simps)
qed

lemma mem_fill_1: "mem_fill m d v (Suc 0) = m(d := v)"
  by (rule ext) (auto simp: mem_fill_def unat_eq_0)

lemma store_replicate: "store_bytes m d (replicate k v) = mem_fill m d v k"
  by (rule ext) (simp add: store_bytes_def mem_fill_def)

lemma fill_up_eq: "n \<le> 2 ^ 64 \<Longrightarrow> fill_up v m d n = mem_fill m d v n"
proof (induction n arbitrary: m d)
  case (Suc n)
  then show ?case using mem_fill_split[of 1 "Suc n" m d v] by (simp add: mem_fill_1)
qed (simp add: mem_fill_def)

lemma fill_words_eq:
  assumes "n \<le> 2 ^ 64" "word_bytes k w = replicate k v" "fill_words k w m d n = (m', d', n')"
  shows "\<exists>c \<le> n. m' = mem_fill m d v c \<and> d' = d + of_nat c \<and> n' = n - c"
  using assms
proof (induction k w m d n arbitrary: m' d' n' rule: fill_words.induct)
  case (1 k w m d n)
  show ?case
  proof (cases "k > 0 \<and> n \<ge> k")
    case True
    let ?m = "mem_fill m d v k"
    have b: "store_bytes m d (word_bytes k w) = ?m" using 1(3) by (simp add: store_replicate)
    have r: "fill_words k w ?m (d + of_nat k) (n - k) = (m', d', n')"
      using 1(4) True by (subst (asm) fill_words.simps) (simp add: b)
    have le: "n - k \<le> 2 ^ 64" using 1(2) by simp
    obtain c where c: "c \<le> n - k" "m' = mem_fill ?m (d + of_nat k) v c"
      "d' = d + of_nat k + of_nat c" "n' = n - k - c"
      using 1(1)[OF True le 1(3), of m' d' n', unfolded b, OF r] by blast
    have "k + c \<le> 2 ^ 64" using c(1) True 1(2) by linarith
    then have "m' = mem_fill m d v (k + c)"
      using mem_fill_split[of k "k + c" m d v] c(2) by simp
    moreover have "k + c \<le> n" using c(1) True by linarith
    ultimately show ?thesis using c by (intro exI[of _ "k + c"]) (simp add: add.assoc)
  next
    case False
    then show ?thesis using 1(4)
      by (subst (asm) fill_words.simps) (auto intro!: exI[of _ 0] simp: mem_fill_def)
  qed
qed

text \<open>The multiplications spread a byte over every byte of the word.\<close>

lemma spread_digit:
  fixes v :: nat
  assumes "v < 256" "N * v = lo + B * (v + 256 * hi)" "lo < B"
  shows "N * v div B mod 256 = v"
proof -
  have "N * v div B = v + 256 * hi" using assms(2,3) by simp
  then show ?thesis using assms(1) by simp
qed

lemma unat_u8_lt: "unat (v :: u8) < 256"
  using unsigned_less[of v, where ?'a = nat] by simp

lemma byte_of_word: "unat (ucast (drop_bit (8 * i) w) :: u8) = unat w div 2 ^ (8 * i) mod 256" for w :: u64
proof -
  have "unat (drop_bit (8 * i) w) = unat w div 2 ^ (8 * i)"
    unfolding unsigned_drop_bit_eq using unat_lt_2_64[of w] by (simp add: take_bit_nat_eq_self drop_bit_eq_div)
  then show ?thesis unfolding unsigned_ucast_eq by (simp add: take_bit_eq_mod)
qed

lemma spread_bytes:
  assumes "unat w = N * unat v" "\<And>i. i < k \<Longrightarrow> N * unat v div 2 ^ (8 * i) mod 256 = unat v"
  shows "word_bytes k w = replicate k v"
proof -
  have "ucast (drop_bit (8 * i) w) = v" if "i < k" for i
    using assms(2)[OF that] unfolding word_unat_eq_iff[of _ v] byte_of_word assms(1) .
  then show ?thesis unfolding word_bytes_def by (intro nth_equalityI) auto
qed

lemma spread_64: "word_bytes 8 (ucast (v :: u8) * 0x0101010101010101) = replicate 8 v"
proof -
  let ?N = "0x0101010101010101 :: nat"
  have u: "unat (ucast v * 0x0101010101010101 :: u64) = ?N * unat v"
    using unat_u8_lt[of v] by (simp add: unat_word_ariths unat_ucast_up)
  have "?N * unat v div 2 ^ (8 * i) mod 256 = unat v" if "i < 8" for i
  proof -
    note s = spread_digit[OF unat_u8_lt, of ?N v]
    have "i = 0 \<or> i = 1 \<or> i = 2 \<or> i = 3 \<or> i = 4 \<or> i = 5 \<or> i = 6 \<or> i = 7" using that by presburger
    then show ?thesis
    proof (elim disjE)
      assume "i = 0"
      then show ?thesis using s[of "0" "1" "0x01010101010101 * unat v"] unat_u8_lt[of v] by simp
    next
      assume "i = 1"
      then show ?thesis using s[of "unat v" "2 ^ 8" "0x010101010101 * unat v"] unat_u8_lt[of v] by simp
    next
      assume "i = 2"
      then show ?thesis using s[of "0x0101 * unat v" "2 ^ 16" "0x0101010101 * unat v"] unat_u8_lt[of v] by simp
    next
      assume "i = 3"
      then show ?thesis using s[of "0x010101 * unat v" "2 ^ 24" "0x01010101 * unat v"] unat_u8_lt[of v] by simp
    next
      assume "i = 4"
      then show ?thesis using s[of "0x01010101 * unat v" "2 ^ 32" "0x010101 * unat v"] unat_u8_lt[of v] by simp
    next
      assume "i = 5"
      then show ?thesis using s[of "0x0101010101 * unat v" "2 ^ 40" "0x0101 * unat v"] unat_u8_lt[of v] by simp
    next
      assume "i = 6"
      then show ?thesis using s[of "0x010101010101 * unat v" "2 ^ 48" "unat v"] unat_u8_lt[of v] by simp
    next
      assume "i = 7"
      then show ?thesis using s[of "0x01010101010101 * unat v" "2 ^ 56" "0"] unat_u8_lt[of v] by simp
    qed
  qed
  then show ?thesis by (rule spread_bytes[OF u])
qed

lemma spread_32: "word_bytes 4 (ucast (ucast (v :: u8) * 0x01010101 :: u32)) = replicate 4 v"
proof -
  let ?N = "0x01010101 :: nat"
  have "unat (ucast v * 0x01010101 :: u32) = ?N * unat v"
    using unat_u8_lt[of v] by (simp add: unat_word_ariths unat_ucast_up)
  then have u: "unat (ucast (ucast v * 0x01010101 :: u32) :: u64) = ?N * unat v" by simp
  have "?N * unat v div 2 ^ (8 * i) mod 256 = unat v" if "i < 4" for i
  proof -
    note s = spread_digit[OF unat_u8_lt, of ?N v]
    have "i = 0 \<or> i = 1 \<or> i = 2 \<or> i = 3" using that by presburger
    then show ?thesis
    proof (elim disjE)
      assume "i = 0"
      then show ?thesis using s[of "0" "1" "0x010101 * unat v"] unat_u8_lt[of v] by simp
    next
      assume "i = 1"
      then show ?thesis using s[of "unat v" "2 ^ 8" "0x0101 * unat v"] unat_u8_lt[of v] by simp
    next
      assume "i = 2"
      then show ?thesis using s[of "0x0101 * unat v" "2 ^ 16" "unat v"] unat_u8_lt[of v] by simp
    next
      assume "i = 3"
      then show ?thesis using s[of "0x010101 * unat v" "2 ^ 24" "0"] unat_u8_lt[of v] by simp
    qed
  qed
  then show ?thesis by (rule spread_bytes[OF u])
qed

lemma memset_eq:
  assumes "n \<le> 2 ^ 64"
  shows "memset m d c n = mem_fill m d (word_of_int c) n"
proof -
  let ?v = "word_of_int c :: u8"
  have fin: "fill_up ?v m' d' n' = mem_fill m d ?v n"
    if "word_bytes k w = replicate k ?v" "fill_words k w m d n = (m', d', n')" for k w m' d' n'
    using fill_words_eq[OF assms that] fill_up_eq mem_fill_split assms by auto
  show ?thesis
    using fin[OF spread_64] fin[OF spread_32] fill_up_eq[OF assms]
    by (auto simp: memset_def Let_def split: prod.splits)
qed


section \<open>Strings\<close>

lemma cstr_iff:
  "cstr m a xs \<longleftrightarrow> (\<forall>i < length xs. m (a + of_nat i) = xs ! i \<and> xs ! i \<noteq> 0) \<and> m (a + of_nat (length xs)) = 0"
proof (induction xs arbitrary: a)
  case (Cons x xs)
  then show ?case by (auto simp: All_less_Suc2 add.assoc)
qed simp

lemma cstr_length:
  assumes "cstr m a xs"
  shows "length xs < 2 ^ 64"
proof (rule ccontr)
  assume "\<not> length xs < 2 ^ 64"
  then obtain k where k: "length xs = 2 ^ 64 + k" using le_Suc_ex[of "2 ^ 64" "length xs"] by auto
  have "(of_nat (2 ^ 64) :: u64) = 0" by simp
  then have "a + of_nat (length xs) = a + of_nat k" unfolding k of_nat_add by (simp only: add_0)
  moreover have "k < length xs" using k by simp
  ultimately show False using assms unfolding cstr_iff by metis
qed

lemma strlen_loop_eq: "cstr m a xs \<Longrightarrow> strlen_loop m a = Some (a + of_nat (length xs))"
proof (induction xs arbitrary: a)
  case (Cons x xs)
  then show ?case by (subst strlen_loop.simps) (simp add: add.assoc)
qed (subst strlen_loop.simps, simp)

lemma strlen_eq: "cstr m a xs \<Longrightarrow> strlen m a = Some (length xs)"
  using cstr_length[of m a xs] by (simp add: strlen_def strlen_loop_eq unat_of_nat_u64)

text \<open>The difference of two strings at the first place they differ.\<close>

fun str_diff :: "u8 list \<Rightarrow> u8 list \<Rightarrow> int" where
  "str_diff [] [] = 0"
| "str_diff (x # xs) [] = uint x"
| "str_diff [] (y # ys) = - uint y"
| "str_diff (x # xs) (y # ys) = (if x = y then str_diff xs ys else uint x - uint y)"

lemma uint_inj: "uint x = uint y \<longleftrightarrow> x = y"
  by (simp add: word_uint_eq_iff)

lemma str_diff_0: "0 \<notin> set xs \<Longrightarrow> 0 \<notin> set ys \<Longrightarrow> str_diff xs ys = 0 \<longleftrightarrow> xs = ys"
  by (induction xs ys rule: str_diff.induct) (auto simp: uint_0_iff uint_inj)

lemma str_diff_swap: "str_diff ys xs = - str_diff xs ys"
  by (induction xs ys rule: str_diff.induct) auto

lemma cstr_nonzero: "cstr m a xs \<Longrightarrow> 0 \<notin> set xs"
  by (induction xs arbitrary: a) auto

lemma strcmp_eq: "cstr m a xs \<Longrightarrow> cstr m b ys \<Longrightarrow> strcmp m a b = Some (str_diff xs ys)"
proof (induction xs ys arbitrary: a b rule: str_diff.induct)
  case 1 then show ?case by (subst strcmp.simps) simp
next
  case (2 x xs) then show ?case by (subst strcmp.simps) simp
next
  case (3 y ys) then show ?case by (subst strcmp.simps) simp
next
  case (4 x xs y ys) then show ?case by (subst strcmp.simps) simp
qed

lemma strncmp_eq: "cstr m a xs \<Longrightarrow> cstr m b ys \<Longrightarrow> strncmp m a b n = str_diff (take n xs) (take n ys)"
proof (induction n arbitrary: a b xs ys)
  case (Suc n)
  then show ?case by (cases xs; cases ys) auto
qed simp

lemma memcmp_eq:
  "memcmp m x y n = 0 \<longleftrightarrow> (\<forall>i < n. m (x + of_nat i) = m (y + of_nat i))"
proof (induction n arbitrary: x y)
  case (Suc n)
  then show ?case by (auto simp: All_less_Suc2 add.assoc uint_inj)
qed simp

lemma strcpy_eq:
  "cstr m s xs \<Longrightarrow> copies_up d s (Suc (length xs)) \<Longrightarrow> strcpy m d s = Some (mem_copy m d s (Suc (length xs)))"
proof (induction xs arbitrary: m d s)
  case Nil
  then show ?case by (subst strcpy.simps) (simp add: mem_copy_1)
next
  case (Cons x xs)
  let ?m = "m(d := m s)"
  have ne: "d \<noteq> s + of_nat j" if "0 < j" "j < Suc (Suc (length xs))" for j
    using Cons.prems(2)[unfolded copies_up_def, rule_format, of 0 j] that by simp
  have "?m (s + 1 + of_nat i) = m (s + 1 + of_nat i)" if "i \<le> length xs" for i
    using ne[of "Suc i"] that by (auto simp: algebra_simps)
  moreover have "cstr m (s + 1) xs" using Cons.prems(1) by simp
  ultimately have "cstr ?m (s + 1) xs" unfolding cstr_iff by (metis le_refl less_imp_le)
  moreover have "copies_up (d + 1) (s + 1) (Suc (length xs))"
    using copies_up_shift[OF Cons.prems(2), of 1] by simp
  ultimately have "strcpy ?m (d + 1) (s + 1) = Some (mem_copy ?m (d + 1) (s + 1) (Suc (length xs)))"
    by (rule Cons.IH)
  moreover have "mem_copy ?m (d + 1) (s + 1) (Suc (length xs)) = mem_copy m d s (Suc (length (x # xs)))"
    using mem_copy_split[OF Cons.prems(2), of 1 m] cstr_length[OF Cons.prems(1)] by (simp add: mem_copy_1)
  ultimately show ?case using Cons.prems(1) by (subst strcpy.simps) simp
qed

lemma disjoint_copies_up: "ranges_disjoint d s n \<Longrightarrow> copies_up d s n"
  unfolding ranges_disjoint_def copies_up_def using less_trans by blast

lemma strlcpy_eq:
  assumes "cstr m s xs" "ranges_disjoint d s (min (length xs) (n - 1))" "0 < n"
  defines "k \<equiv> min (length xs) (n - 1)"
  shows "strlcpy m d s n = Some ((mem_copy m d s k)(d + of_nat k := 0), length xs)"
proof -
  have "memcpy m d s k = mem_copy m d s k"
    using assms(2) cstr_length[OF assms(1)] unfolding k_def by (intro memcpy_eq disjoint_copies_up) simp_all
  moreover have "(if length xs < n - 1 then length xs else n - 1) = k" by (simp add: k_def)
  ultimately show ?thesis using assms(3) by (simp add: strlcpy_def strlen_eq[OF assms(1)] Let_def)
qed

lemma strlcpy_result:
  assumes "cstr m s xs" "k \<le> length xs"
  shows "cstr ((mem_copy m d s k)(d + of_nat k := 0)) d (take k xs)"
proof -
  have l: "length xs < 2 ^ 64" by (rule cstr_length[OF assms(1)])
  have "((mem_copy m d s k)(d + of_nat k := 0)) (d + of_nat i) = xs ! i" if "i < k" for i
  proof -
    have "of_nat i \<noteq> (of_nat k :: u64)"
      using that assms(2) l unat_of_nat_u64[of i] unat_of_nat_u64[of k] by auto
    then show ?thesis using that assms l by (simp add: mem_copy_at cstr_iff)
  qed
  then show ?thesis using assms by (simp add: cstr_iff)
qed

lemma strlcpy_frame:
  assumes "k < n" "n \<le> 2 ^ 64" "\<not> unat (a - d) < n"
  shows "((mem_copy m d s k)(d + of_nat k := 0)) a = m a"
proof -
  have "a \<noteq> d + of_nat k" using assms unat_of_nat_u64[of k] by auto
  then show ?thesis using assms by (simp add: mem_copy_def)
qed

lemma strchr_eq:
  assumes "cstr m a xs"
  shows "strchr m a c = Some
    (if word_of_int c \<in> set xs then a + of_nat (length (takeWhile (\<lambda>x. x \<noteq> word_of_int c) xs))
     else if c = 0 then a + of_nat (length xs) else 0)"
  using assms
proof (induction xs arbitrary: a)
  case Nil
  then show ?case by (subst strchr.simps) simp
next
  case (Cons x xs)
  then show ?case by (subst strchr.simps) (auto simp: add.assoc)
qed

text \<open>The last place a byte occurs at.\<close>

fun last_at :: "u8 \<Rightarrow> u8 list \<Rightarrow> nat option" where
  "last_at c [] = None"
| "last_at c (x # xs) =
     (case last_at c xs of Some i \<Rightarrow> Some (Suc i) | None \<Rightarrow> if x = c then Some 0 else None)"

lemma last_at_Some:
  "last_at c xs = Some i \<longleftrightarrow> i < length xs \<and> xs ! i = c \<and> (\<forall>j. i < j \<and> j < length xs \<longrightarrow> xs ! j \<noteq> c)"
proof (induction xs arbitrary: i)
  case (Cons x xs)
  have n: "last_at c xs = None \<longleftrightarrow> c \<notin> set xs" by (induction xs) (auto split: option.splits)
  show ?case
  proof (cases "last_at c xs")
    case None
    then have "c \<notin> set xs" using n by simp
    then show ?thesis using None by (cases i) (auto simp: in_set_conv_nth less_Suc_eq_0_disj)
  next
    case (Some k)
    then have "k < length xs" "xs ! k = c" using Cons by auto
    then show ?thesis using Some Cons[of "i - 1"] by (cases i) (auto simp: less_Suc_eq_0_disj)
  qed
qed simp

lemma strrchr_loop_eq:
  assumes "cstr m a xs"
  shows "strrchr_loop m a c l = Some
    (if c = 0 then a + of_nat (length xs)
     else case last_at (word_of_int c) xs of Some i \<Rightarrow> a + of_nat i | None \<Rightarrow> l)"
  using assms
proof (induction xs arbitrary: a l)
  case Nil
  then show ?case by (subst strrchr_loop.simps) simp
next
  case (Cons x xs)
  then show ?case by (subst strrchr_loop.simps) (auto simp: add.assoc split: option.splits)
qed

section \<open>Properties\<close>

text \<open>\<^verbatim>\<open>memcpy\<close> between ranges that do not overlap, and \<^verbatim>\<open>memset\<close>, change memory exactly
  as a byte by byte copy and fill do, at every alignment: moving eight or four bytes at a time and
  finishing with single bytes changes every byte of the range and no other.\<close>

theorem memcpy_memset_correct:
  assumes "ranges_disjoint d s n" "n \<le> 2 ^ 64"
  shows "memcpy m d s n = mem_copy m d s n \<and> memset m d c n = mem_fill m d (word_of_int c) n"
  using assms by (simp add: memcpy_eq disjoint_copies_up memset_eq)

theorem memcpy_memset_correct_witness:
  "memcpy (\<lambda>a. ucast a) 0x1000 0x2000 13 = mem_copy (\<lambda>a. ucast a) 0x1000 0x2000 13"
proof -
  have "unat (0x1000 + of_nat i :: u64) < unat (0x2000 + of_nat j :: u64)" if "i < 13" "j < 13" for i j
    using that unat_add_index[of "0x1000" i] unat_add_index[of "0x2000" j] by simp
  then have "ranges_disjoint 0x1000 0x2000 13" unfolding ranges_disjoint_def by (metis less_irrefl)
  then show ?thesis using memcpy_memset_correct[where d = "0x1000" and s = "0x2000" and n = 13 and m = "\<lambda>a. ucast a"] by simp
qed

text \<open>\<^verbatim>\<open>memmove\<close> copies as if through a buffer of its own, however its two ranges
  overlap, as long as neither runs past the end of the address space.\<close>

theorem memmove_correct:
  assumes "unat d + n \<le> 2 ^ 64" "unat s + n \<le> 2 ^ 64"
  shows "memmove m d s n = store_bytes m d (load_bytes m s n)"
  using memmove_eq[OF assms] by (simp add: store_load)

theorem memmove_correct_witness:
  "memmove (\<lambda>a. ucast a) 0x1004 0x1000 16 = store_bytes (\<lambda>a. ucast a) 0x1004 (load_bytes (\<lambda>a. ucast a) 0x1000 16)"
  by (rule memmove_correct) simp_all

text \<open>\<^verbatim>\<open>strlcpy\<close> into a buffer of \<open>n\<close> bytes returns, with the length of the source; it
  leaves in the buffer a NUL-terminated string, the first \<open>n - 1\<close> bytes of the source, and changes
  no byte outside the buffer.\<close>

theorem strlcpy_correct:
  assumes "cstr m s xs" "ranges_disjoint d s (min (length xs) (n - 1))" "0 < n" "n \<le> 2 ^ 64"
  shows "\<exists>m'. strlcpy m d s n = Some (m', length xs) \<and> cstr m' d (take (n - 1) xs)
    \<and> (\<forall>a. n \<le> unat (a - d) \<longrightarrow> m' a = m a)"
proof -
  let ?k = "min (length xs) (n - 1)"
  have "take ?k xs = take (n - 1) xs" by (simp add: min_def)
  then show ?thesis
    using strlcpy_eq[OF assms(1-3)] strlcpy_result[OF assms(1), of ?k d] strlcpy_frame[of ?k n _ d m s] assms(3,4)
    by (simp add: not_less)
qed

theorem strlcpy_correct_witness:
  "\<exists>m'. strlcpy (\<lambda>a. if a \<in> {5, 6, 7} then 65 else 0) 100 5 3 = Some (m', 3) \<and> cstr m' 100 [65, 65]"
proof -
  let ?m = "\<lambda>a :: u64. if a \<in> {5, 6, 7} then 65 else 0 :: u8"
  have "unat (5 + of_nat j :: u64) < unat (100 + of_nat i :: u64)" if "i < 2" "j < 2" for i j
    using that unat_add_index[of 100 i] unat_add_index[of 5 j] by simp
  then have "ranges_disjoint 100 5 2" unfolding ranges_disjoint_def by (metis less_irrefl)
  then have "ranges_disjoint 100 5 (min (length [65, 65, 65 :: u8]) (3 - 1))"
    by (simp add: numeral_2_eq_2[symmetric])
  moreover have "cstr ?m 5 [65, 65, 65]" by simp
  ultimately obtain m' where "strlcpy ?m 100 5 3 = Some (m', length [65, 65, 65 :: u8])"
    "cstr m' 100 (take (3 - 1) [65, 65, 65])"
    using strlcpy_correct[of ?m 5 "[65, 65, 65]" 100 3] by auto
  then show ?thesis by (intro exI[of _ m']) simp
qed

text \<open>On NUL-terminated strings \<^verbatim>\<open>strlen\<close>, \<^verbatim>\<open>strcmp\<close> and \<^verbatim>\<open>strrchr\<close> return: the length, zero
  exactly for equal strings and otherwise a number whose sign is that of the first differing bytes,
  and the address of the last occurrence, NULL when there is none.\<close>

theorem string_routines_return:
  assumes "cstr m a xs" "cstr m b ys"
  shows "strlen m a = Some (length xs)
    \<and> strcmp m a b = Some (str_diff xs ys) \<and> (str_diff xs ys = 0 \<longleftrightarrow> xs = ys)
    \<and> (c \<noteq> 0 \<longrightarrow> strrchr m a c = Some (case last_at (word_of_int c) xs of Some i \<Rightarrow> a + of_nat i | None \<Rightarrow> 0))"
  using assms by (simp add: strlen_eq strcmp_eq str_diff_0 cstr_nonzero strrchr_def strrchr_loop_eq)

theorem string_routines_return_witness:
  "strcmp (\<lambda>a. if a = 5 \<or> a = 9 then 65 else if a = 10 then 66 else 0) 5 9 = Some (- 66)"
  using string_routines_return[of "\<lambda>a. if a = 5 \<or> a = 9 then 65 else if a = 10 then 66 else 0" 5 "[65]" 9 "[65, 66]" 47]
  by simp

end
