(* ===== verification/Wfs_Disk.thy ===== *)
theory Wfs_Disk
  imports Pmm Kstring
begin

text \<open>
  The bottom of the file system driver \<^verbatim>\<open>kernel/fs/wfs.c\<close>: the devices a volume can live on and the
  block cache.

  The memory disk (\<^verbatim>\<open>kernel/drivers/ramdisk.c\<close>) is modelled over the memory of the prelude.  The ATA
  and USB disks are hardware behind drivers: their two operations are parameters, held in the record
  \<open>disk_ops\<close>, over a state of any type.  What the file system relies on is the interface
  \<open>wfs_device\<close>: a device holds numbered sectors of 512 bytes, a read returns them and a write
  changes those it names and no others.  The memory disk provides it.

  Sector and block numbers are natural numbers, and the 32-bit sums of the code are written with
  \<open>w32\<close>.  The stamps and the clock of the cache keep their 64 bits.

  The lemmas show that the cache is invisible: a block read through it is the block on the device,
  whatever was read and written before.
\<close>

definition w32 :: "nat \<Rightarrow> nat" where
  "w32 n = n mod 2 ^ 32"

lemma w32_small [simp]: "n < 2 ^ 32 \<Longrightarrow> w32 n = n"
  by (simp add: w32_def)

lemma w32_less: "w32 n < 2 ^ 32"
  by (simp add: w32_def)

section \<open>The memory disk\<close>

definition SECTOR_BYTES :: nat where "SECTOR_BYTES = 512"

record ramdisk =
  base :: u64
  sectors :: nat

definition ramdisk_init :: "ramdisk \<Rightarrow> u64 \<Rightarrow> u64 \<Rightarrow> ramdisk \<times> bool" where
  "ramdisk_init r phys bytes =
     (if phys = 0 \<or> bytes < of_nat SECTOR_BYTES then (r, False)
      else if phys + bytes > of_nat LOW_MEMORY_LIMIT then (r, False)
      else (\<lparr>base = phys, sectors = unat (ucast (bytes div of_nat SECTOR_BYTES) :: u32)\<rparr>, True))"

definition ramdisk_present :: "ramdisk \<Rightarrow> bool" where
  "ramdisk_present r = (base r \<noteq> 0)"

definition ramdisk_sector_count :: "ramdisk \<Rightarrow> nat" where
  "ramdisk_sector_count r = sectors r"

definition ramdisk_bytes :: "ramdisk \<Rightarrow> u64" where
  "ramdisk_bytes r = of_nat (sectors r) * of_nat SECTOR_BYTES"

definition ramdisk_release :: "ramdisk \<Rightarrow> pmm \<Rightarrow> (ramdisk \<times> pmm) option" where
  "ramdisk_release r p =
     (if base r = 0 then Some (r, p)
      else case pmm_release_range p (base r) (base r + ramdisk_bytes r) of
        None \<Rightarrow> None
      | Some p \<Rightarrow> Some (\<lparr>base = 0, sectors = 0\<rparr>, p))"

definition in_range :: "ramdisk \<Rightarrow> nat \<Rightarrow> nat \<Rightarrow> bool" where
  "in_range r lba count \<longleftrightarrow> base r \<noteq> 0 \<and> count \<noteq> 0 \<and> w32 (lba + count) \<le> sectors r"

definition sector_address :: "ramdisk \<Rightarrow> nat \<Rightarrow> u64" where
  "sector_address r lba = base r + of_nat lba * of_nat SECTOR_BYTES"

definition ramdisk_read_sectors :: "ramdisk \<Rightarrow> memory \<Rightarrow> nat \<Rightarrow> nat \<Rightarrow> u8 list option" where
  "ramdisk_read_sectors r m lba count =
     (if \<not> in_range r lba count then None
      else Some (load_bytes m (sector_address r lba) (count * SECTOR_BYTES)))"

definition ramdisk_write_sectors :: "ramdisk \<Rightarrow> memory \<Rightarrow> nat \<Rightarrow> nat \<Rightarrow> u8 list \<Rightarrow> memory \<times> bool" where
  "ramdisk_write_sectors r m lba count buf =
     (if \<not> in_range r lba count then (m, False)
      else (store_bytes m (sector_address r lba) (take (count * SECTOR_BYTES) buf), True))"

section \<open>The device of the volume\<close>

datatype wfs_source = WFS_SOURCE_NONE | WFS_SOURCE_ATA | WFS_SOURCE_USB | WFS_SOURCE_RAMDISK

record 'd disk_ops =
  disk_present :: "'d \<Rightarrow> bool"
  disk_read :: "'d \<Rightarrow> nat \<Rightarrow> nat \<Rightarrow> u8 list option"
  disk_write :: "'d \<Rightarrow> nat \<Rightarrow> nat \<Rightarrow> u8 list \<Rightarrow> 'd \<times> bool"

record 'd drives =
  source :: wfs_source
  ata_ops :: "'d disk_ops"
  ata :: 'd
  usb_ops :: "'d disk_ops"
  usb :: 'd
  ram :: ramdisk
  mem :: memory

definition sectors_read :: "'d drives \<Rightarrow> nat \<Rightarrow> nat \<Rightarrow> u8 list option" where
  "sectors_read d lba count =
     (case source d of
        WFS_SOURCE_ATA \<Rightarrow> disk_read (ata_ops d) (ata d) lba count
      | WFS_SOURCE_USB \<Rightarrow> disk_read (usb_ops d) (usb d) lba count
      | WFS_SOURCE_RAMDISK \<Rightarrow> ramdisk_read_sectors (ram d) (mem d) lba count
      | WFS_SOURCE_NONE \<Rightarrow> None)"

definition sectors_write :: "'d drives \<Rightarrow> nat \<Rightarrow> nat \<Rightarrow> u8 list \<Rightarrow> 'd drives \<times> bool" where
  "sectors_write d lba count buf =
     (case source d of
        WFS_SOURCE_ATA \<Rightarrow> (case disk_write (ata_ops d) (ata d) lba count buf of (x, ok) \<Rightarrow> (d\<lparr>ata := x\<rparr>, ok))
      | WFS_SOURCE_USB \<Rightarrow> (case disk_write (usb_ops d) (usb d) lba count buf of (x, ok) \<Rightarrow> (d\<lparr>usb := x\<rparr>, ok))
      | WFS_SOURCE_RAMDISK \<Rightarrow>
          (case ramdisk_write_sectors (ram d) (mem d) lba count buf of (m, ok) \<Rightarrow> (d\<lparr>mem := m\<rparr>, ok))
      | WFS_SOURCE_NONE \<Rightarrow> (d, False))"

section \<open>The block cache\<close>

definition WFS_BLOCK_SIZE :: nat where "WFS_BLOCK_SIZE = 1024"
definition WFS_SECTORS_PER_BLOCK :: nat where "WFS_SECTORS_PER_BLOCK = 2"
definition CACHE_BLOCKS :: nat where "CACHE_BLOCKS = 64"
definition READ_RUN_BLOCKS :: nat where "READ_RUN_BLOCKS = 64"

record slot =
  sl_data :: "u8 list"
  sl_block :: nat
  sl_stamp :: u64

record 'd disk =
  drv :: "'d drives"
  partition_lba :: nat
  cache :: "slot list"
  cache_clock :: u64

definition cache_reset :: "('d, 'z) disk_scheme \<Rightarrow> ('d, 'z) disk_scheme" where
  "cache_reset s = s\<lparr>cache := map (sl_stamp_update (\<lambda>_. 0)) (cache s), cache_clock := 0\<rparr>"

definition cache_find :: "slot list \<Rightarrow> nat \<Rightarrow> nat option" where
  "cache_find cs block =
     find (\<lambda>i. sl_stamp (cs ! i) \<noteq> 0 \<and> sl_block (cs ! i) = block) [0..<CACHE_BLOCKS]"

fun victim_loop :: "slot list \<Rightarrow> nat list \<Rightarrow> nat \<Rightarrow> u64 \<Rightarrow> nat" where
  "victim_loop cs [] worst oldest = worst"
| "victim_loop cs (i # is) worst oldest =
     (if sl_stamp (cs ! i) = 0 then i
      else if sl_stamp (cs ! i) < oldest then victim_loop cs is i (sl_stamp (cs ! i))
      else victim_loop cs is worst oldest)"

definition cache_victim :: "slot list \<Rightarrow> nat" where
  "cache_victim cs = victim_loop cs [0..<CACHE_BLOCKS] 0 (- 1)"

definition block_lba :: "('d, 'z) disk_scheme \<Rightarrow> nat \<Rightarrow> nat" where
  "block_lba s block = w32 (partition_lba s + block * WFS_SECTORS_PER_BLOCK)"

definition block_read :: "('d, 'z) disk_scheme \<Rightarrow> nat \<Rightarrow> ('d, 'z) disk_scheme \<times> u8 list option" where
  "block_read s block =
     (let hit = (\<lambda>s slot.
        let clock = cache_clock s + 1
        in (s\<lparr>cache := (cache s)[slot := (cache s ! slot)\<lparr>sl_stamp := clock\<rparr>], cache_clock := clock\<rparr>,
            Some (sl_data (cache s ! slot))))
      in case cache_find (cache s) block of
           Some slot \<Rightarrow> hit s slot
         | None \<Rightarrow>
             (let slot = cache_victim (cache s)
              in case sectors_read (drv s) (block_lba s block) WFS_SECTORS_PER_BLOCK of
                   None \<Rightarrow> (s\<lparr>cache := (cache s)[slot := (cache s ! slot)\<lparr>sl_stamp := 0\<rparr>]\<rparr>, None)
                 | Some data \<Rightarrow>
                     hit (s\<lparr>cache := (cache s)[slot := (cache s ! slot)\<lparr>sl_data := data, sl_block := block\<rparr>]\<rparr>) slot))"

definition blocks_read :: "('d, 'z) disk_scheme \<Rightarrow> nat \<Rightarrow> nat \<Rightarrow> u8 list option" where
  "blocks_read s first count =
     sectors_read (drv s) (block_lba s first) (count * WFS_SECTORS_PER_BLOCK mod 2 ^ 8)"

definition block_write :: "('d, 'z) disk_scheme \<Rightarrow> nat \<Rightarrow> u8 list \<Rightarrow> ('d, 'z) disk_scheme \<times> bool" where
  "block_write s block buf =
     (let slot = (case cache_find (cache s) block of Some slot \<Rightarrow> slot | None \<Rightarrow> cache_victim (cache s));
          clock = cache_clock s + 1;
          s = s\<lparr>cache := (cache s)[slot := \<lparr>sl_data = buf, sl_block = block, sl_stamp = clock\<rparr>],
                cache_clock := clock\<rparr>
      in case sectors_write (drv s) (block_lba s block) WFS_SECTORS_PER_BLOCK buf of
           (d, ok) \<Rightarrow>
             (let s = s\<lparr>drv := d\<rparr>
              in if \<not> ok then (s\<lparr>cache := (cache s)[slot := (cache s ! slot)\<lparr>sl_stamp := 0\<rparr>]\<rparr>, False)
                 else (s, True)))"

section \<open>What a device promises\<close>

text \<open>A block of the volume, as it is on the device.\<close>

definition disk_block :: "('d drives \<Rightarrow> nat \<Rightarrow> u8 list) \<Rightarrow> ('d, 'z) disk_scheme \<Rightarrow> nat \<Rightarrow> u8 list" where
  "disk_block sector s b = sector (drv s) (partition_lba s + b * 2) @ sector (drv s) (partition_lba s + b * 2 + 1)"

text \<open>A volume of \<open>n\<close> blocks, with a cache that agrees with the device.\<close>

definition volume :: "('d drives \<Rightarrow> nat \<Rightarrow> bool) \<Rightarrow> ('d drives \<Rightarrow> nat \<Rightarrow> u8 list) \<Rightarrow> ('d, 'z) disk_scheme \<Rightarrow> nat \<Rightarrow> bool" where
  "volume good sector s n \<longleftrightarrow> good (drv s) (partition_lba s + n * 2) \<and> partition_lba s + n * 2 \<le> 2 ^ 32
     \<and> length (cache s) = CACHE_BLOCKS
     \<and> (\<forall>i < CACHE_BLOCKS. sl_stamp (cache s ! i) \<noteq> 0 \<longrightarrow>
          sl_block (cache s ! i) < n \<and> sl_data (cache s ! i) = disk_block sector s (sl_block (cache s ! i))
          \<and> (\<forall>j < CACHE_BLOCKS. sl_stamp (cache s ! j) \<noteq> 0 \<and> sl_block (cache s ! j) = sl_block (cache s ! i) \<longrightarrow> j = i))"

lemma victim_loop_less: "worst < k \<Longrightarrow> set is \<subseteq> {..<k} \<Longrightarrow> victim_loop cs is worst oldest < k"
  by (induction cs "is" worst oldest rule: victim_loop.induct) auto

lemma cache_victim_less: "cache_victim cs < CACHE_BLOCKS"
  unfolding cache_victim_def by (rule victim_loop_less) (auto simp: CACHE_BLOCKS_def)

lemma cache_find_Some:
  "cache_find cs b = Some i \<Longrightarrow> i < CACHE_BLOCKS \<and> sl_stamp (cs ! i) \<noteq> 0 \<and> sl_block (cs ! i) = b"
  by (auto simp: cache_find_def find_Some_iff)

definition slot_for :: "slot list \<Rightarrow> nat \<Rightarrow> nat" where
  "slot_for cs b = (case cache_find cs b of Some slot \<Rightarrow> slot | None \<Rightarrow> cache_victim cs)"

lemma slot_for_less: "slot_for cs b < CACHE_BLOCKS"
  using cache_victim_less[of cs] cache_find_Some[of cs b] by (auto simp: slot_for_def split: option.splits)

lemma slot_for_valid:
  assumes "volume good sector s n" "j < CACHE_BLOCKS" "sl_stamp (cache s ! j) \<noteq> 0"
  shows "slot_for (cache s) (sl_block (cache s ! j)) = j"
proof (cases "cache_find (cache s) (sl_block (cache s ! j))")
  case None
  then show ?thesis using assms(2,3) by (auto simp: cache_find_def find_None_iff)
next
  case (Some i)
  then show ?thesis using assms cache_find_Some[OF Some] by (simp add: slot_for_def volume_def)
qed

lemma slot_assign: "c\<lparr>sl_data := x, sl_block := b, sl_stamp := k\<rparr> = \<lparr>sl_data = x, sl_block = b, sl_stamp = k\<rparr>"
  by (cases c) simp

lemma block_lba_small:
  "volume good sector s n \<Longrightarrow> b < n \<Longrightarrow> block_lba s b = partition_lba s + b * 2"
  by (auto simp: volume_def block_lba_def WFS_SECTORS_PER_BLOCK_def)

locale wfs_device =
  fixes good :: "'d drives \<Rightarrow> nat \<Rightarrow> bool"
    and sector :: "'d drives \<Rightarrow> nat \<Rightarrow> u8 list"
  assumes sector_length: "good d n \<Longrightarrow> i < n \<Longrightarrow> length (sector d i) = SECTOR_BYTES"
    and read_law: "good d n \<Longrightarrow> 0 < c \<Longrightarrow> c < 2 ^ 8 \<Longrightarrow> lba + c \<le> n \<Longrightarrow>
      sectors_read d lba c = Some (concat (map (sector d) [lba..<lba + c]))"
    and write_law: "good d n \<Longrightarrow> 0 < c \<Longrightarrow> c < 2 ^ 8 \<Longrightarrow> lba + c \<le> n \<Longrightarrow> length buf = c * SECTOR_BYTES \<Longrightarrow>
      \<exists>d'. sectors_write d lba c buf = (d', True) \<and> good d' n
        \<and> (\<forall>i < n. sector d' i =
              (if lba \<le> i \<and> i < lba + c then take SECTOR_BYTES (drop ((i - lba) * SECTOR_BYTES) buf) else sector d i))"
begin

abbreviation vol :: "('d, 'z) disk_scheme \<Rightarrow> nat \<Rightarrow> bool" where
  "vol s n \<equiv> volume good sector s n"

abbreviation dblock :: "('d, 'z) disk_scheme \<Rightarrow> nat \<Rightarrow> u8 list" where
  "dblock s b \<equiv> disk_block sector s b"

lemma dblock_length: "vol s n \<Longrightarrow> b < n \<Longrightarrow> length (dblock s b) = WFS_BLOCK_SIZE"
  using sector_length[of "drv s" "partition_lba s + n * 2" "partition_lba s + b * 2"]
    sector_length[of "drv s" "partition_lba s + n * 2" "partition_lba s + b * 2 + 1"]
  by (simp add: volume_def disk_block_def SECTOR_BYTES_def WFS_BLOCK_SIZE_def)

lemma sectors_read_block:
  assumes "vol s n" "b < n"
  shows "sectors_read (drv s) (block_lba s b) WFS_SECTORS_PER_BLOCK = Some (dblock s b)"
proof -
  have "[partition_lba s + b * 2..<partition_lba s + b * 2 + 2] = [partition_lba s + b * 2, partition_lba s + b * 2 + 1]"
    by (simp add: upt_rec)
  then show ?thesis
    using read_law[of "drv s" "partition_lba s + n * 2" 2 "partition_lba s + b * 2"] assms
      block_lba_small[OF assms]
    by (simp add: volume_def disk_block_def WFS_SECTORS_PER_BLOCK_def)
qed

lemma sectors_write_block:
  assumes "vol s n" "b < n" "length buf = WFS_BLOCK_SIZE"
  shows "\<exists>d. sectors_write (drv s) (block_lba s b) WFS_SECTORS_PER_BLOCK buf = (d, True)
    \<and> good d (partition_lba s + n * 2)
    \<and> (\<forall>b' < n. disk_block sector (s\<lparr>drv := d\<rparr>) b' = (if b' = b then buf else dblock s b'))"
proof -
  let ?p = "partition_lba s"
  obtain d where d: "sectors_write (drv s) (?p + b * 2) 2 buf = (d, True)" "good d (?p + n * 2)"
    "\<And>i. i < ?p + n * 2 \<Longrightarrow> sector d i = (if ?p + b * 2 \<le> i \<and> i < ?p + b * 2 + 2
      then take SECTOR_BYTES (drop ((i - (?p + b * 2)) * SECTOR_BYTES) buf) else sector (drv s) i)"
    using write_law[of "drv s" "?p + n * 2" 2 "?p + b * 2" buf] assms
    by (auto simp: volume_def WFS_BLOCK_SIZE_def SECTOR_BYTES_def)
  have "sector d (?p + b' * 2) @ sector d (?p + b' * 2 + 1)
    = (if b' = b then buf else sector (drv s) (?p + b' * 2) @ sector (drv s) (?p + b' * 2 + 1))" if "b' < n" for b'
  proof (cases "b' = b")
    case True
    have "take 512 buf @ take 512 (drop 512 buf) = buf"
      using assms(3) by (simp add: WFS_BLOCK_SIZE_def append_take_drop_id)
    then show ?thesis using d(3)[of "?p + b * 2"] d(3)[of "?p + b * 2 + 1"] assms(2) True
      by (simp add: SECTOR_BYTES_def)
  next
    case False
    then have "\<not> (?p + b * 2 \<le> ?p + b' * 2 \<and> ?p + b' * 2 < ?p + b * 2 + 2)"
      "\<not> (?p + b * 2 \<le> ?p + b' * 2 + 1 \<and> ?p + b' * 2 + 1 < ?p + b * 2 + 2)" by linarith+
    then have "sector d (?p + b' * 2) = sector (drv s) (?p + b' * 2)"
      "sector d (?p + b' * 2 + 1) = sector (drv s) (?p + b' * 2 + 1)"
      using d(3)[of "?p + b' * 2"] d(3)[of "?p + b' * 2 + 1"] that by (simp_all only: if_False)
    then show ?thesis using False by simp
  qed
  then show ?thesis using d(1,2) block_lba_small[OF assms(1,2)]
    by (auto simp: disk_block_def WFS_SECTORS_PER_BLOCK_def)
qed

text \<open>What every disk operation leaves alone.\<close>

definition kept :: "('d, 'z) disk_scheme \<Rightarrow> ('d, 'z) disk_scheme \<Rightarrow> bool" where
  "kept s s' \<longleftrightarrow> partition_lba s' = partition_lba s \<and> disk.more s' = disk.more s"

lemma vol_slot:
  assumes "vol s n" "b < n" "good d (partition_lba s + n * 2)" "data = disk_block sector (s\<lparr>drv := d\<rparr>) b"
    "\<forall>b' < n. b' \<noteq> b \<longrightarrow> disk_block sector (s\<lparr>drv := d\<rparr>) b' = dblock s b'"
  shows "vol (s\<lparr>cache := (cache s)[slot_for (cache s) b := \<lparr>sl_data = data, sl_block = b, sl_stamp = st\<rparr>],
    cache_clock := k, drv := d\<rparr>) n"
proof -
  have db: "disk_block sector (s\<lparr>cache := cs, cache_clock := k, drv := d\<rparr>) = disk_block sector (s\<lparr>drv := d\<rparr>)" for cs
    by (rule ext) (simp add: disk_block_def)
  show ?thesis
    using assms slot_for_less[of "cache s" b]
    unfolding volume_def[of good sector "s\<lparr>cache := _, cache_clock := _, drv := _\<rparr>"] db
    by (auto simp: nth_list_update slot_for_valid[OF assms(1)] volume_def)
qed

lemma block_read_law:
  assumes "vol s n" "b < n"
  shows "\<exists>s'. block_read s b = (s', Some (dblock s b)) \<and> vol s' n \<and> kept s s' \<and> drv s' = drv s"
proof -
  let ?i = "slot_for (cache s) b"
  let ?s = "s\<lparr>cache := (cache s)[?i := \<lparr>sl_data = dblock s b, sl_block = b, sl_stamp = cache_clock s + 1\<rparr>],
    cache_clock := cache_clock s + 1, drv := drv s\<rparr>"
  have len: "length (cache s) = CACHE_BLOCKS" and g: "good (drv s) (partition_lba s + n * 2)"
    using assms(1) by (simp_all add: volume_def)
  have "block_read s b = (?s, Some (dblock s b))"
  proof (cases "cache_find (cache s) b")
    case (Some i)
    then have i: "i < CACHE_BLOCKS" "sl_stamp (cache s ! i) \<noteq> 0" "sl_block (cache s ! i) = b"
      using cache_find_Some by auto
    then have "sl_data (cache s ! i) = dblock s b" using assms(1) by (auto simp: volume_def)
    then have "(cache s ! i)\<lparr>sl_stamp := k\<rparr> = \<lparr>sl_data = dblock s b, sl_block = b, sl_stamp = k\<rparr>" for k
      using i(3) by (cases "cache s ! i") simp
    then show ?thesis using Some \<open>sl_data (cache s ! i) = dblock s b\<close>
      by (simp add: block_read_def slot_for_def Let_def)
  next
    case None
    then show ?thesis using sectors_read_block[OF assms] len cache_victim_less[of "cache s"]
      by (simp add: block_read_def slot_for_def slot_assign Let_def)
  qed
  moreover have "vol ?s n" using vol_slot[OF assms g, of "dblock s b"] by simp
  ultimately show ?thesis by (intro exI[of _ ?s]) (simp add: kept_def)
qed

lemma block_write_law:
  assumes "vol s n" "b < n" "length buf = WFS_BLOCK_SIZE"
  shows "\<exists>s'. block_write s b buf = (s', True) \<and> vol s' n \<and> kept s s'
    \<and> (\<forall>b' < n. dblock s' b' = (if b' = b then buf else dblock s b'))"
proof -
  obtain d where d: "sectors_write (drv s) (block_lba s b) WFS_SECTORS_PER_BLOCK buf = (d, True)"
    "good d (partition_lba s + n * 2)"
    "\<forall>b' < n. disk_block sector (s\<lparr>drv := d\<rparr>) b' = (if b' = b then buf else dblock s b')"
    using sectors_write_block[OF assms] by blast
  let ?s = "s\<lparr>cache := (cache s)[slot_for (cache s) b := \<lparr>sl_data = buf, sl_block = b, sl_stamp = cache_clock s + 1\<rparr>],
    cache_clock := cache_clock s + 1, drv := d\<rparr>"
  have "block_write s b buf = (?s, True)"
    using d(1) by (simp add: block_write_def block_lba_def slot_for_def Let_def)
  moreover have "vol ?s n" using vol_slot[OF assms(1,2) d(2), of buf] d(3) assms(2) by simp
  moreover have "\<forall>b' < n. dblock ?s b' = (if b' = b then buf else dblock s b')"
    using d(3) by (simp add: disk_block_def)
  ultimately show ?thesis by (intro exI[of _ ?s]) (simp add: kept_def)
qed

lemma concat_pairs:
  "concat (map f [p + b * 2..<p + (b + c) * 2]) = concat (map (\<lambda>i. f (p + i * 2) @ f (p + i * 2 + 1)) [b..<b + c])"
proof (induction c)
  case (Suc c)
  have "[p + b * 2..<p + (b + Suc c) * 2] = [p + b * 2..<p + (b + c) * 2] @ [p + (b + c) * 2, p + (b + c) * 2 + 1]"
    by simp
  then show ?case using Suc by simp
qed simp

lemma blocks_read_law:
  assumes "vol s n" "0 < c" "c < 128" "b + c \<le> n"
  shows "blocks_read s b c = Some (concat (map (dblock s) [b..<b + c]))"
proof -
  let ?p = "partition_lba s"
  have l: "block_lba s b = ?p + b * 2" using assms by (intro block_lba_small) auto
  have "c * 2 mod 2 ^ 8 = c * 2" using assms(3) by simp
  then have "blocks_read s b c = sectors_read (drv s) (?p + b * 2) (c * 2)"
    by (simp add: blocks_read_def l WFS_SECTORS_PER_BLOCK_def)
  also have "\<dots> = Some (concat (map (sector (drv s)) [?p + b * 2..<?p + b * 2 + c * 2]))"
    using assms by (intro read_law[of "drv s" "?p + n * 2"]) (auto simp: volume_def)
  also have "?p + b * 2 + c * 2 = ?p + (b + c) * 2" by simp
  finally show ?thesis unfolding concat_pairs disk_block_def .
qed

end

section \<open>The memory disk keeps the promise\<close>

definition ram_good :: "'d drives \<Rightarrow> nat \<Rightarrow> bool" where
  "ram_good d n \<longleftrightarrow> source d = WFS_SOURCE_RAMDISK \<and> base (ram d) \<noteq> 0 \<and> n \<le> sectors (ram d)
     \<and> sectors (ram d) < 2 ^ 32"

definition ram_sector :: "'d drives \<Rightarrow> nat \<Rightarrow> u8 list" where
  "ram_sector d i = load_bytes (mem d) (sector_address (ram d) i) SECTOR_BYTES"

lemma load_bytes_length [simp]: "length (load_bytes m a k) = k"
  by (simp add: load_bytes_def)

lemma load_bytes_add: "load_bytes m a (j + k) = load_bytes m a j @ load_bytes m (a + of_nat j) k"
  by (rule nth_equalityI) (auto simp: load_bytes_def nth_append not_less of_nat_diff)

lemma sector_address_add: "sector_address r (i + j) = sector_address r i + of_nat (j * SECTOR_BYTES)"
  by (simp add: sector_address_def algebra_simps)

lemma load_sectors:
  "load_bytes m (sector_address r lba) (c * SECTOR_BYTES)
     = concat (map (\<lambda>i. load_bytes m (sector_address r i) SECTOR_BYTES) [lba..<lba + c])"
proof (induction c)
  case (Suc c)
  have "Suc c * SECTOR_BYTES = c * SECTOR_BYTES + SECTOR_BYTES" by simp
  then show ?case using Suc by (simp only: load_bytes_add sector_address_add[symmetric]) simp
qed (simp add: load_bytes_def)

lemma store_sectors:
  assumes "i < n" "lba + c \<le> n" "n < 2 ^ 32" "length buf = c * SECTOR_BYTES"
  shows "load_bytes (store_bytes m (sector_address r lba) buf) (sector_address r i) SECTOR_BYTES =
    (if lba \<le> i \<and> i < lba + c then take SECTOR_BYTES (drop ((i - lba) * SECTOR_BYTES) buf)
     else load_bytes m (sector_address r i) SECTOR_BYTES)"
proof -
  have at: "unat (sector_address r i + of_nat k - sector_address r lba) =
    (if lba \<le> i then (i - lba) * 512 + k else 2 ^ 64 + (i * 512 + k) - lba * 512)" if "k < 512" for k
  proof -
    have e: "sector_address r i + of_nat k - sector_address r lba = of_nat (i * 512 + k) - of_nat (lba * 512)"
      by (simp add: sector_address_def SECTOR_BYTES_def)
    have b: "i * 512 + k < 2 ^ 64" "lba * 512 \<le> 2 ^ 64" using assms that by simp_all
    have "lba * 512 \<le> i * 512 + k \<longleftrightarrow> lba \<le> i" using that by (intro iffI) linarith+
    moreover have "lba \<le> i \<Longrightarrow> i * 512 + k - lba * 512 = (i - lba) * 512 + k" by (simp add: diff_mult_distrib)
    ultimately show ?thesis unfolding e unat_offset_diff[OF b] by (cases "lba \<le> i") simp_all
  qed
  have lt: "unat (sector_address r i + of_nat k - sector_address r lba) < length buf \<longleftrightarrow> lba \<le> i \<and> i < lba + c"
    if "k < 512" for k
  proof (cases "lba \<le> i")
    case True
    have "(i - lba) * 512 + k < c * 512 \<longleftrightarrow> i - lba < c" using that by (intro iffI) linarith+
    then show ?thesis using at[OF that] True assms(4) by (auto simp: SECTOR_BYTES_def)
  next
    case False
    then show ?thesis using at[OF that] assms by (simp add: SECTOR_BYTES_def)
  qed
  show ?thesis
  proof (cases "lba \<le> i \<and> i < lba + c")
    case True
    have "(i - lba) * 512 + k < length buf" if "k < 512" for k using lt[OF that] at[OF that] True by simp
    then show ?thesis using True lt at assms(4)
      by (intro nth_equalityI) (auto simp: load_bytes_def store_bytes_def SECTOR_BYTES_def)
  next
    case False
    then show ?thesis using lt by (auto simp: load_bytes_def store_bytes_def SECTOR_BYTES_def)
  qed
qed

interpretation rd: wfs_device ram_good ram_sector
proof
  fix d :: "'d drives" and n i
  show "length (ram_sector d i) = SECTOR_BYTES" by (simp add: ram_sector_def)
next
  fix d :: "'d drives" and n c lba
  assume "ram_good d n" "0 < c" "c < 2 ^ 8" "lba + c \<le> n"
  then show "sectors_read d lba c = Some (concat (map (ram_sector d) [lba..<lba + c]))"
    using load_sectors[of "mem d" "ram d" lba c]
    by (simp add: ram_good_def sectors_read_def ramdisk_read_sectors_def in_range_def
      ram_sector_def[abs_def])
next
  fix d :: "'d drives" and n c lba and buf :: "u8 list"
  assume a: "ram_good d n" "0 < c" "c < 2 ^ 8" "lba + c \<le> n" "length buf = c * SECTOR_BYTES"
  let ?d = "d\<lparr>mem := store_bytes (mem d) (sector_address (ram d) lba) buf\<rparr>"
  have "sectors_write d lba c buf = (?d, True)" using a
    by (simp add: ram_good_def sectors_write_def ramdisk_write_sectors_def in_range_def)
  moreover have "ram_good ?d n" using a(1) by (simp add: ram_good_def)
  moreover have "\<forall>i < n. ram_sector ?d i = (if lba \<le> i \<and> i < lba + c
    then take SECTOR_BYTES (drop ((i - lba) * SECTOR_BYTES) buf) else ram_sector d i)"
    using a store_sectors[of _ n lba c buf "mem d" "ram d"] by (simp add: ram_good_def ram_sector_def)
  ultimately show "\<exists>d'. sectors_write d lba c buf = (d', True) \<and> ram_good d' n
    \<and> (\<forall>i < n. ram_sector d' i = (if lba \<le> i \<and> i < lba + c
        then take SECTOR_BYTES (drop ((i - lba) * SECTOR_BYTES) buf) else ram_sector d i))" by blast
qed

section \<open>Sequences of block accesses\<close>

datatype block_op = Read_Block nat | Write_Block nat "u8 list"

fun block_op_ok :: "nat \<Rightarrow> block_op \<Rightarrow> bool" where
  "block_op_ok n (Read_Block b) \<longleftrightarrow> b < n"
| "block_op_ok n (Write_Block b buf) \<longleftrightarrow> b < n \<and> length buf = WFS_BLOCK_SIZE"

text \<open>What the accesses return: the block read, or that the write succeeded.\<close>

fun disk_run :: "'d disk \<Rightarrow> block_op list \<Rightarrow> 'd disk \<times> u8 list option list" where
  "disk_run s [] = (s, [])"
| "disk_run s (Read_Block b # ops) =
     (case block_read s b of (s, r) \<Rightarrow> case disk_run s ops of (s, rs) \<Rightarrow> (s, r # rs))"
| "disk_run s (Write_Block b buf # ops) =
     (case block_write s b buf of (s, ok) \<Rightarrow> case disk_run s ops of (s, rs) \<Rightarrow> (s, (if ok then Some [] else None) # rs))"

fun store_run :: "(nat \<Rightarrow> u8 list) \<Rightarrow> block_op list \<Rightarrow> (nat \<Rightarrow> u8 list) \<times> u8 list option list" where
  "store_run D [] = (D, [])"
| "store_run D (Read_Block b # ops) = (case store_run D ops of (D', rs) \<Rightarrow> (D', Some (D b) # rs))"
| "store_run D (Write_Block b buf # ops) = (case store_run (D(b := buf)) ops of (D', rs) \<Rightarrow> (D', Some [] # rs))"

context wfs_device
begin

lemma disk_run_law:
  assumes "vol s n" "\<forall>b < n. dblock s b = D b" "list_all (block_op_ok n) ops"
  shows "snd (disk_run s ops) = snd (store_run D ops) \<and> vol (fst (disk_run s ops)) n
    \<and> (\<forall>b < n. dblock (fst (disk_run s ops)) b = fst (store_run D ops) b)"
  using assms
proof (induction ops arbitrary: s D)
  case (Cons op ops)
  show ?case
  proof (cases op)
    case (Read_Block b)
    then have "b < n" using Cons.prems(3) by simp
    then obtain s' where s': "block_read s b = (s', Some (dblock s b))" "vol s' n" "kept s s'" "drv s' = drv s"
      using block_read_law[OF Cons.prems(1)] by blast
    then have "\<forall>b < n. dblock s' b = D b" using Cons.prems(2) by (simp add: disk_block_def kept_def)
    then show ?thesis using Cons.IH[OF s'(2), of D] Cons.prems(2,3) s'(1) Read_Block \<open>b < n\<close>
      by (auto split: prod.splits)
  next
    case (Write_Block b buf)
    then have b: "b < n" "length buf = WFS_BLOCK_SIZE" using Cons.prems(3) by simp_all
    then obtain s' where s': "block_write s b buf = (s', True)" "vol s' n"
      "\<forall>b' < n. dblock s' b' = (if b' = b then buf else dblock s b')"
      using block_write_law[OF Cons.prems(1)] by blast
    then have "\<forall>b' < n. dblock s' b' = (D(b := buf)) b'" using Cons.prems(2) by simp
    then show ?thesis using Cons.IH[OF s'(2), of "D(b := buf)"] Cons.prems(3) s'(1) Write_Block
      by (auto split: prod.splits simp del: fun_upd_apply)
  qed
qed simp

end

section \<open>Properties\<close>

text \<open>C35. The block cache is invisible.  On any device that keeps its promise, and whatever the cache
  holds of the volume, a sequence of block reads and writes returns what it would return on a plain
  array of blocks, every access succeeds, and afterwards the device itself holds the array's blocks:
  no stale copy is ever served and no write stays behind in the cache.\<close>

theorem wfs_cache_transparent:
  assumes "wfs_device good sector" "volume good sector s n" "list_all (block_op_ok n) ops"
  shows "snd (disk_run s ops) = snd (store_run (disk_block sector s) ops)
    \<and> volume good sector (fst (disk_run s ops)) n
    \<and> (\<forall>b < n. disk_block sector (fst (disk_run s ops)) b = fst (store_run (disk_block sector s) ops) b)"
  using wfs_device.disk_run_law[OF assms(1,2) _ assms(3)] by blast

definition demo_drives :: "unit drives" where
  "demo_drives = \<lparr>source = WFS_SOURCE_RAMDISK,
     ata_ops = \<lparr>disk_present = (\<lambda>_. False), disk_read = (\<lambda>_ _ _. None), disk_write = (\<lambda>d _ _ _. (d, False))\<rparr>, ata = (),
     usb_ops = \<lparr>disk_present = (\<lambda>_. False), disk_read = (\<lambda>_ _ _. None), disk_write = (\<lambda>d _ _ _. (d, False))\<rparr>, usb = (),
     ram = \<lparr>base = 0x100000, sectors = 128\<rparr>, mem = (\<lambda>_. 0)\<rparr>"

definition demo_disk :: "unit disk" where
  "demo_disk = \<lparr>drv = demo_drives, partition_lba = 0,
     cache = replicate CACHE_BLOCKS \<lparr>sl_data = [], sl_block = 0, sl_stamp = 0\<rparr>, cache_clock = 0\<rparr>"

lemma demo_volume: "volume ram_good ram_sector demo_disk 64"
  by (simp add: volume_def demo_disk_def demo_drives_def ram_good_def)

theorem wfs_cache_transparent_witness:
  "snd (disk_run demo_disk [Write_Block 3 (replicate 1024 7), Read_Block 3])
    = [Some [], Some (replicate 1024 7)]"
  using wfs_cache_transparent[OF rd.wfs_device_axioms demo_volume,
      of "[Write_Block 3 (replicate 1024 7), Read_Block 3]"]
  by (simp add: WFS_BLOCK_SIZE_def)

text \<open>C40. The range check of the memory disk adds a 32-bit sector number and a count in 32 bits, and
  the sum can wrap: a read of one sector at the last sector number passes the check on every memory
  disk, whatever its size, and reads two terabytes past its start.\<close>

theorem ramdisk_range_wraps:
  assumes "base r \<noteq> 0"
  shows "ramdisk_read_sectors r m (2 ^ 32 - 1) 1 = Some (load_bytes m (base r + 0x1FFFFFFFE00) 512)"
  using assms by (simp add: ramdisk_read_sectors_def in_range_def w32_def sector_address_def SECTOR_BYTES_def)

theorem ramdisk_range_wraps_witness:
  "ramdisk_read_sectors \<lparr>base = 0x100000, sectors = 1\<rparr> (\<lambda>_. 0) (2 ^ 32 - 1) 1
    = Some (load_bytes (\<lambda>_. 0) 0x200000FFE00 512)"
  using ramdisk_range_wraps[of "\<lparr>base = 0x100000, sectors = 1\<rparr>" "\<lambda>_. 0"] by simp

end
