(* ===== verification/Wfs.thy ===== *)
theory Wfs
  imports Wfs_Disk Kheap
begin

text \<open>
  The file system driver \<^verbatim>\<open>kernel/fs/wfs.c\<close> and its on-disk format \<^verbatim>\<open>include/wfs.h\<close>: block allocation,
  inodes, the mapping from file positions to blocks, reading and writing files, directories, paths and
  mounting.

  The static variables of the driver extend the state of the disk (\<open>disk\<close>) to the record
  \<open>wfs\<close>.  Two of its fields stand for what is outside the driver: the kernel heap the bitmap is
  allocated from, and the clock \<^verbatim>\<open>rtc_epoch()\<close> reads.  Every function takes the state and returns it;
  one that returns a negated error code or a value returns a \<open>res\<close>, and \<open>seq\<close> is the early
  return on an error.  An out parameter is part of the value.

  On-disk numbers are natural numbers below \<open>2 ^ 32\<close> and 32-bit sums that can wrap are written with
  \<open>w32\<close>.  A path or a name is a list of bytes without its NUL.  Buffers on the stack are zero
  before they are filled.
\<close>

section \<open>The on-disk format\<close>

type_synonym bytes = "u8 list"

definition le16 :: "nat \<Rightarrow> bytes" where
  "le16 n = [of_nat n, of_nat (n div 2 ^ 8)]"

definition le32 :: "nat \<Rightarrow> bytes" where
  "le32 n = [of_nat n, of_nat (n div 2 ^ 8), of_nat (n div 2 ^ 16), of_nat (n div 2 ^ 24)]"

definition rd16 :: "bytes \<Rightarrow> nat \<Rightarrow> nat" where
  "rd16 bs off = unat (bs ! off) + unat (bs ! (off + 1)) * 2 ^ 8"

definition rd32 :: "bytes \<Rightarrow> nat \<Rightarrow> nat" where
  "rd32 bs off = unat (bs ! off) + unat (bs ! (off + 1)) * 2 ^ 8
     + unat (bs ! (off + 2)) * 2 ^ 16 + unat (bs ! (off + 3)) * 2 ^ 24"

definition WFS_MAGIC :: nat where "WFS_MAGIC = 0x33534657"
definition WFS_MAGIC_V2 :: nat where "WFS_MAGIC_V2 = 0x32534657"
definition WFS_MAGIC_V1 :: nat where "WFS_MAGIC_V1 = 0x31534657"
definition WFS_INVALID_INO :: nat where "WFS_INVALID_INO = 0"
definition WFS_ROOT_INO :: nat where "WFS_ROOT_INO = 1"
definition WFS_INODE_SIZE :: nat where "WFS_INODE_SIZE = 64"
definition WFS_INODES_PER_BLOCK :: nat where "WFS_INODES_PER_BLOCK = WFS_BLOCK_SIZE div WFS_INODE_SIZE"
definition WFS_DIRECT :: nat where "WFS_DIRECT = 10"
definition WFS_PTRS_PER_BLOCK :: nat where "WFS_PTRS_PER_BLOCK = WFS_BLOCK_SIZE div 4"
definition WFS_DOUBLE_BLOCKS :: nat where "WFS_DOUBLE_BLOCKS = WFS_PTRS_PER_BLOCK * WFS_PTRS_PER_BLOCK"
definition WFS_MAX_FILE_SIZE :: nat where
  "WFS_MAX_FILE_SIZE = w32 ((WFS_DIRECT + WFS_PTRS_PER_BLOCK + WFS_DOUBLE_BLOCKS) * WFS_BLOCK_SIZE)"
definition WFS_TYPE_FREE :: nat where "WFS_TYPE_FREE = 0"
definition WFS_TYPE_FILE :: nat where "WFS_TYPE_FILE = 1"
definition WFS_TYPE_DIR :: nat where "WFS_TYPE_DIR = 2"
definition WFS_NAME_MAX :: nat where "WFS_NAME_MAX = 27"
definition WFS_DIRENT_SIZE :: nat where "WFS_DIRENT_SIZE = 32"
definition W_PATH_MAX :: nat where "W_PATH_MAX = 255"

record wfs_superblock =
  magic :: nat
  block_size :: nat
  total_blocks :: nat
  free_blocks :: nat
  total_inodes :: nat
  free_inodes :: nat
  bitmap_start :: nat
  bitmap_blocks :: nat
  inode_start :: nat
  inode_blocks :: nat
  data_start :: nat
  root_inode :: nat

definition sizeof_superblock :: nat where "sizeof_superblock = 48"

definition decode_superblock :: "bytes \<Rightarrow> wfs_superblock" where
  "decode_superblock b =
     \<lparr>magic = rd32 b 0, block_size = rd32 b 4, total_blocks = rd32 b 8, free_blocks = rd32 b 12,
      total_inodes = rd32 b 16, free_inodes = rd32 b 20, bitmap_start = rd32 b 24, bitmap_blocks = rd32 b 28,
      inode_start = rd32 b 32, inode_blocks = rd32 b 36, data_start = rd32 b 40, root_inode = rd32 b 44\<rparr>"

definition encode_superblock :: "wfs_superblock \<Rightarrow> bytes" where
  "encode_superblock x =
     concat (map le32 [magic x, block_size x, total_blocks x, free_blocks x, total_inodes x, free_inodes x,
       bitmap_start x, bitmap_blocks x, inode_start x, inode_blocks x, data_start x, root_inode x])"

record wfs_inode =
  itype :: nat
  links :: nat
  isize :: nat
  blocks :: nat
  mtime :: nat
  direct :: "nat list"
  indirect :: nat
  double_indirect :: nat

definition decode_inode :: "bytes \<Rightarrow> wfs_inode" where
  "decode_inode b =
     \<lparr>itype = rd16 b 0, links = rd16 b 2, isize = rd32 b 4, blocks = rd32 b 8, mtime = rd32 b 12,
      direct = map (\<lambda>i. rd32 b (16 + 4 * i)) [0..<WFS_DIRECT], indirect = rd32 b 56, double_indirect = rd32 b 60\<rparr>"

definition encode_inode :: "wfs_inode \<Rightarrow> bytes" where
  "encode_inode x =
     le16 (itype x) @ le16 (links x)
     @ concat (map le32 ([isize x, blocks x, mtime x] @ direct x @ [indirect x, double_indirect x]))"

definition zero_inode :: wfs_inode where
  "zero_inode = \<lparr>itype = 0, links = 0, isize = 0, blocks = 0, mtime = 0,
     direct = replicate WFS_DIRECT 0, indirect = 0, double_indirect = 0\<rparr>"

record wfs_dirent =
  ent_ino :: nat
  ent_name :: bytes

definition decode_dirent :: "bytes \<Rightarrow> wfs_dirent" where
  "decode_dirent b = \<lparr>ent_ino = rd32 b 0, ent_name = take (WFS_NAME_MAX + 1) (drop 4 b)\<rparr>"

definition encode_dirent :: "wfs_dirent \<Rightarrow> bytes" where
  "encode_dirent x = le32 (ent_ino x) @ ent_name x"

text \<open>The string in a name field, and a zeroed name field a string was copied into.\<close>

definition field_name :: "bytes \<Rightarrow> bytes" where
  "field_name f = takeWhile (\<lambda>c. c \<noteq> 0) f"

definition name_field :: "bytes \<Rightarrow> bytes" where
  "name_field name = take WFS_NAME_MAX name @ replicate (WFS_NAME_MAX + 1 - length (take WFS_NAME_MAX name)) 0"

definition decode_table :: "bytes \<Rightarrow> nat list" where
  "decode_table b = map (\<lambda>i. rd32 b (4 * i)) [0..<WFS_PTRS_PER_BLOCK]"

definition encode_table :: "nat list \<Rightarrow> bytes" where
  "encode_table t = concat (map le32 t)"

section \<open>The state of the driver\<close>

record 'd wfs = "'d disk" +
  sb :: wfs_superblock
  block_bitmap :: bytes
  bitmap_ptr :: u64
  mounted :: bool
  kernel_heap :: kheap
  rtc_epoch :: nat

definition seq :: "'s \<times> 'a res \<Rightarrow> ('s \<Rightarrow> 'a \<Rightarrow> 's \<times> 'b res) \<Rightarrow> 's \<times> 'b res" where
  "seq p f = (case p of (s, Inl e) \<Rightarrow> (s, Inl e) | (s, Inr x) \<Rightarrow> f s x)"

lemma seq_simps [simp]: "seq (s, Inl e) f = (s, Inl e)" "seq (s, Inr x) f = f s x"
  by (simp_all add: seq_def)

definition zero_block :: bytes where
  "zero_block = replicate WFS_BLOCK_SIZE 0"

definition sync_superblock :: "'d wfs \<Rightarrow> 'd wfs \<times> bool" where
  "sync_superblock s = block_write s 0 (memcpy_at zero_block 0 (encode_superblock (sb s)))"

definition sync_bitmap_for :: "'d wfs \<Rightarrow> nat \<Rightarrow> 'd wfs \<times> bool" where
  "sync_bitmap_for s block =
     (let index = block div (WFS_BLOCK_SIZE * 8)
      in block_write s (w32 (bitmap_start (sb s) + index))
           (take WFS_BLOCK_SIZE (drop (index * WFS_BLOCK_SIZE) (block_bitmap s))))"

section \<open>Block allocation\<close>

definition wfs_bitmap_test :: "'d wfs \<Rightarrow> nat \<Rightarrow> bool" where
  "wfs_bitmap_test s block = bit (block_bitmap s ! (block div 8)) (block mod 8)"

definition wfs_bitmap_assign :: "'d wfs \<Rightarrow> nat \<Rightarrow> bool \<Rightarrow> 'd wfs" where
  "wfs_bitmap_assign s block v =
     (let i = block div 8; old = block_bitmap s ! i
      in s\<lparr>block_bitmap := (block_bitmap s)[i :=
           (if v then set_bit (block mod 8) old else unset_bit (block mod 8) old)]\<rparr>)"

definition block_alloc :: "'d wfs \<Rightarrow> 'd wfs \<times> nat" where
  "block_alloc s =
     (case find (\<lambda>b. \<not> wfs_bitmap_test s b) [data_start (sb s)..<total_blocks (sb s)] of
        None \<Rightarrow> (s, 0)
      | Some b \<Rightarrow>
          (let s = wfs_bitmap_assign s b True;
               s = s\<lparr>sb := (sb s)\<lparr>free_blocks := w32 (free_blocks (sb s) + (2 ^ 32 - 1))\<rparr>\<rparr>;
               (s, ok) = block_write s b zero_block
           in if \<not> ok then (s, 0)
              else (let s = fst (sync_bitmap_for s b); s = fst (sync_superblock s) in (s, b))))"

definition block_free :: "'d wfs \<Rightarrow> nat \<Rightarrow> 'd wfs" where
  "block_free s block =
     (if block < data_start (sb s) \<or> block \<ge> total_blocks (sb s) then s
      else if \<not> wfs_bitmap_test s block then s
      else
        (let s = wfs_bitmap_assign s block False;
             s = s\<lparr>sb := (sb s)\<lparr>free_blocks := w32 (free_blocks (sb s) + 1)\<rparr>\<rparr>;
             s = fst (sync_bitmap_for s block)
         in fst (sync_superblock s)))"

section \<open>Inodes\<close>

definition inode_block :: "'d wfs \<Rightarrow> nat \<Rightarrow> nat" where
  "inode_block s ino = w32 (inode_start (sb s) + ino div WFS_INODES_PER_BLOCK)"

definition inode_offset :: "nat \<Rightarrow> nat" where
  "inode_offset ino = ino mod WFS_INODES_PER_BLOCK * WFS_INODE_SIZE"

definition wfs_read_inode :: "'d wfs \<Rightarrow> nat \<Rightarrow> 'd wfs \<times> wfs_inode res" where
  "wfs_read_inode s ino =
     (if ino = WFS_INVALID_INO \<or> ino \<ge> total_inodes (sb s) then (s, Inl W_EINVAL)
      else case block_read s (inode_block s ino) of
        (s, None) \<Rightarrow> (s, Inl W_EIO)
      | (s, Some buf) \<Rightarrow> (s, Inr (decode_inode (take WFS_INODE_SIZE (drop (inode_offset ino) buf)))))"

definition write_inode :: "'d wfs \<Rightarrow> nat \<Rightarrow> wfs_inode \<Rightarrow> 'd wfs \<times> unit res" where
  "write_inode s ino inode =
     (if ino = WFS_INVALID_INO \<or> ino \<ge> total_inodes (sb s) then (s, Inl W_EINVAL)
      else case block_read s (inode_block s ino) of
        (s, None) \<Rightarrow> (s, Inl W_EIO)
      | (s, Some buf) \<Rightarrow>
          (case block_write s (inode_block s ino) (memcpy_at buf (inode_offset ino) (encode_inode inode)) of
             (s, ok) \<Rightarrow> (s, if ok then Inr () else Inl W_EIO)))"

fun inode_alloc_loop :: "'d wfs \<Rightarrow> nat \<Rightarrow> nat list \<Rightarrow> 'd wfs \<times> nat res" where
  "inode_alloc_loop s ty [] = (s, Inl W_ENOSPC)"
| "inode_alloc_loop s ty (i # is) =
     (case wfs_read_inode s i of
        (s, Inl e) \<Rightarrow> inode_alloc_loop s ty is
      | (s, Inr inode) \<Rightarrow>
          if itype inode \<noteq> WFS_TYPE_FREE then inode_alloc_loop s ty is
          else
            seq (write_inode s i (zero_inode\<lparr>itype := ty, links := 1, mtime := rtc_epoch s\<rparr>)) (\<lambda>s _.
              (let s = s\<lparr>sb := (sb s)\<lparr>free_inodes := w32 (free_inodes (sb s) + (2 ^ 32 - 1))\<rparr>\<rparr>
               in (fst (sync_superblock s), Inr i))))"

definition inode_alloc :: "'d wfs \<Rightarrow> nat \<Rightarrow> 'd wfs \<times> nat res" where
  "inode_alloc s ty = inode_alloc_loop s ty [WFS_ROOT_INO..<total_inodes (sb s)]"

definition inode_free :: "'d wfs \<Rightarrow> nat \<Rightarrow> 'd wfs" where
  "inode_free s ino =
     (let s = fst (write_inode s ino zero_inode);
          s = s\<lparr>sb := (sb s)\<lparr>free_inodes := w32 (free_inodes (sb s) + 1)\<rparr>\<rparr>
      in fst (sync_superblock s))"

definition wfs_utime :: "'d wfs \<Rightarrow> nat \<Rightarrow> nat \<Rightarrow> 'd wfs \<times> unit res" where
  "wfs_utime s ino t = seq (wfs_read_inode s ino) (\<lambda>s inode. write_inode s ino (inode\<lparr>mtime := t\<rparr>))"

section \<open>Block mapping\<close>

text \<open>A slot of the inode, its new value with the inode and the dirty flag.\<close>

definition fill_slot :: "'d wfs \<Rightarrow> nat \<Rightarrow> wfs_inode \<Rightarrow> bool \<Rightarrow> bool \<Rightarrow> 'd wfs \<times> (nat \<times> wfs_inode \<times> bool) res" where
  "fill_slot s slot inode alloc dirty =
     (if slot \<noteq> 0 \<or> \<not> alloc then (s, Inr (slot, inode, dirty))
      else case block_alloc s of
        (s, b) \<Rightarrow>
          if b = 0 then (s, Inl W_ENOSPC)
          else (s, Inr (b, inode\<lparr>blocks := w32 (blocks inode + 1)\<rparr>, True)))"

text \<open>The third field of the state a failing call leaves behind is the inode as it was changed so far,
  since the caller holds it by reference.\<close>

definition table_slot ::
  "'d wfs \<Rightarrow> nat \<Rightarrow> nat \<Rightarrow> bool \<Rightarrow> wfs_inode \<Rightarrow> bool \<Rightarrow> 'd wfs \<times> wfs_inode \<times> bool \<times> nat res" where
  "table_slot s table_block index alloc inode dirty =
     (case block_read s table_block of
        (s, None) \<Rightarrow> (s, inode, dirty, Inl W_EIO)
      | (s, Some buf) \<Rightarrow>
          (let table = decode_table buf
           in if table ! index = 0
              then
                (if \<not> alloc then (s, inode, dirty, Inr 0)
                 else case block_alloc s of
                   (s, b) \<Rightarrow>
                     if b = 0 then (s, inode, dirty, Inl W_ENOSPC)
                     else
                       (let table = table[index := b];
                            inode = inode\<lparr>blocks := w32 (blocks inode + 1)\<rparr>
                        in case block_write s table_block (encode_table table) of
                             (s, ok) \<Rightarrow> (s, inode, True, if ok then Inr b else Inl W_EIO)))
              else (s, inode, dirty, Inr (table ! index))))"

definition bmap :: "'d wfs \<Rightarrow> wfs_inode \<Rightarrow> nat \<Rightarrow> bool \<Rightarrow> bool \<Rightarrow> 'd wfs \<times> wfs_inode \<times> bool \<times> nat res" where
  "bmap s inode index alloc dirty =
     (if index < WFS_DIRECT then
        (case fill_slot s (direct inode ! index) inode alloc dirty of
           (s, Inl e) \<Rightarrow> (s, inode, dirty, Inl e)
         | (s, Inr (b, inode, dirty)) \<Rightarrow>
             (s, inode\<lparr>direct := (direct inode)[index := b]\<rparr>, dirty, Inr b))
      else
        (let index = index - WFS_DIRECT in
         if index < WFS_PTRS_PER_BLOCK then
           (case fill_slot s (indirect inode) inode alloc dirty of
              (s, Inl e) \<Rightarrow> (s, inode, dirty, Inl e)
            | (s, Inr (b, inode, dirty)) \<Rightarrow>
                (let inode = inode\<lparr>indirect := b\<rparr>
                 in if indirect inode = 0 then (s, inode, dirty, Inr 0)
                    else table_slot s (indirect inode) index alloc inode dirty))
         else
           (let index = index - WFS_PTRS_PER_BLOCK in
            if index \<ge> WFS_DOUBLE_BLOCKS then (s, inode, dirty, Inl W_EFBIG)
            else
              (case fill_slot s (double_indirect inode) inode alloc dirty of
                 (s, Inl e) \<Rightarrow> (s, inode, dirty, Inl e)
               | (s, Inr (b, inode, dirty)) \<Rightarrow>
                   (let inode = inode\<lparr>double_indirect := b\<rparr>
                    in if double_indirect inode = 0 then (s, inode, dirty, Inr 0)
                       else
                         (case table_slot s (double_indirect inode) (index div WFS_PTRS_PER_BLOCK) alloc inode dirty of
                            (s, inode, dirty, Inl e) \<Rightarrow> (s, inode, dirty, Inl e)
                          | (s, inode, dirty, Inr middle) \<Rightarrow>
                              if middle = 0 then (s, inode, dirty, Inr 0)
                              else table_slot s middle (index mod WFS_PTRS_PER_BLOCK) alloc inode dirty))))))"

definition free_entries :: "'d wfs \<Rightarrow> nat list \<Rightarrow> 'd wfs" where
  "free_entries s table = fold (\<lambda>b s. if b \<noteq> 0 then block_free s b else s) table s"

definition free_table :: "'d wfs \<Rightarrow> nat \<Rightarrow> 'd wfs" where
  "free_table s table_block =
     (if table_block = 0 then s
      else case block_read s table_block of
        (s, None) \<Rightarrow> s
      | (s, Some buf) \<Rightarrow> free_entries s (decode_table buf))"

definition free_indirect :: "'d wfs \<Rightarrow> wfs_inode \<Rightarrow> 'd wfs \<times> wfs_inode" where
  "free_indirect s inode =
     (if indirect inode \<noteq> 0
      then (block_free (free_table s (indirect inode)) (indirect inode), inode\<lparr>indirect := 0\<rparr>)
      else (s, inode))"

definition free_double :: "'d wfs \<Rightarrow> wfs_inode \<Rightarrow> 'd wfs \<times> wfs_inode" where
  "free_double s inode =
     (if double_indirect inode \<noteq> 0
      then
        (let s = (case block_read s (double_indirect inode) of
                    (s, None) \<Rightarrow> s
                  | (s, Some buf) \<Rightarrow>
                      fold (\<lambda>b s. if b \<noteq> 0 then block_free (free_table s b) b else s) (decode_table buf) s)
         in (block_free s (double_indirect inode), inode\<lparr>double_indirect := 0\<rparr>))
      else (s, inode))"

definition wfs_truncate :: "'d wfs \<Rightarrow> nat \<Rightarrow> 'd wfs \<times> unit res" where
  "wfs_truncate s ino =
     seq (wfs_read_inode s ino) (\<lambda>s inode.
       (let s = free_entries s (direct inode);
            inode = inode\<lparr>direct := replicate (length (direct inode)) 0\<rparr>;
            (s, inode) = free_indirect s inode;
            (s, inode) = free_double s inode
        in write_inode s ino (inode\<lparr>isize := 0, blocks := 0, mtime := rtc_epoch s\<rparr>)))"

section \<open>Reading and writing\<close>

text \<open>How many blocks follow \<open>block\<close> both in the file and on the disk.\<close>

function read_run :: "'d wfs \<Rightarrow> wfs_inode \<Rightarrow> nat \<Rightarrow> nat \<Rightarrow> nat \<Rightarrow> nat \<Rightarrow> 'd wfs \<times> nat" where
  "read_run s inode index block left run =
     (if run < READ_RUN_BLOCKS \<and> (run + 1) * WFS_BLOCK_SIZE \<le> left
      then (case bmap s inode (index + run) False False of
              (s, _, _, Inl e) \<Rightarrow> (s, run)
            | (s, _, _, Inr nxt) \<Rightarrow>
                if nxt \<noteq> block + run then (s, run) else read_run s inode index block left (run + 1))
      else (s, run))"
  by auto
termination by (relation "measure (\<lambda>(s, inode, index, block, left, run). READ_RUN_BLOCKS - run)") auto

declare read_run.simps [simp del]

definition chunk_of :: "nat \<Rightarrow> nat \<Rightarrow> nat" where
  "chunk_of inpos left = (if WFS_BLOCK_SIZE - inpos > left then left else WFS_BLOCK_SIZE - inpos)"

lemma chunk_of_pos: "0 < left \<Longrightarrow> 0 < chunk_of (pos mod WFS_BLOCK_SIZE) left"
  by (simp add: chunk_of_def WFS_BLOCK_SIZE_def)

lemma chunk_progress:
  "copied < len \<Longrightarrow> len - (copied + chunk_of (pos mod WFS_BLOCK_SIZE) (len - copied)) < len - copied"
  using chunk_of_pos[of "len - copied" pos] by linarith

text \<open>The bytes copied so far and how many the loop counts.\<close>

function wfs_read_loop :: "'d wfs \<Rightarrow> wfs_inode \<Rightarrow> nat \<Rightarrow> nat \<Rightarrow> nat \<Rightarrow> bytes \<Rightarrow> 'd wfs \<times> bytes res" where
  "wfs_read_loop s inode offset len copied out =
     (if copied < len then
        (let pos = w32 (offset + copied);
             index = pos div WFS_BLOCK_SIZE;
             inpos = pos mod WFS_BLOCK_SIZE;
             chunk = chunk_of inpos (len - copied)
         in case bmap s inode index False False of
              (s, _, _, Inl e) \<Rightarrow> (s, Inl e)
            | (s, _, _, Inr block) \<Rightarrow>
                (let (s, run) =
                   (if inpos = 0 \<and> block \<noteq> 0 \<and> len - copied \<ge> WFS_BLOCK_SIZE
                    then read_run s inode index block (len - copied) 1 else (s, 1))
                 in if run > 1 then
                      (case blocks_read s block run of
                         None \<Rightarrow> (s, Inl W_EIO)
                       | Some bs \<Rightarrow> wfs_read_loop s inode offset len (copied + run * WFS_BLOCK_SIZE) (out @ bs))
                    else if block = 0 then
                      wfs_read_loop s inode offset len (copied + chunk) (out @ replicate chunk 0)
                    else
                      (case block_read s block of
                         (s, None) \<Rightarrow> (s, Inl W_EIO)
                       | (s, Some tmp) \<Rightarrow>
                           wfs_read_loop s inode offset len (copied + chunk) (out @ take chunk (drop inpos tmp)))))
      else (s, Inr out))"
  by auto
termination
proof (relation "measure (\<lambda>(s, inode, offset, len, copied, out). len - copied)", goal_cases)
  case 1
  show ?case by simp
next
  case (2 s inode offset len copied out)
  then show ?case by (simp add: WFS_BLOCK_SIZE_def)
next
  case (3 s inode offset len copied out)
  then show ?case by (simp add: chunk_progress)
next
  case (4 s inode offset len copied out)
  then show ?case by (simp add: chunk_progress)
qed

declare wfs_read_loop.simps [simp del]

definition wfs_read :: "'d wfs \<Rightarrow> nat \<Rightarrow> nat \<Rightarrow> nat \<Rightarrow> 'd wfs \<times> bytes res" where
  "wfs_read s ino offset len =
     seq (wfs_read_inode s ino) (\<lambda>s inode.
       if offset \<ge> isize inode then (s, Inr [])
       else
         (let len = (if w32 (offset + len) > isize inode then isize inode - offset else len)
          in wfs_read_loop s inode offset len 0 []))"

text \<open>What the write loop ends with: the state, the inode and its dirty flag, the count written, and
  the error that ended it early; an error of a block access returns at once.\<close>

datatype write_end = Loop_Done | Loop_Broke werr | Loop_Failed werr

function wfs_write_loop ::
  "'d wfs \<Rightarrow> wfs_inode \<Rightarrow> bool \<Rightarrow> nat \<Rightarrow> bytes \<Rightarrow> nat \<Rightarrow> 'd wfs \<times> wfs_inode \<times> bool \<times> nat \<times> write_end" where
  "wfs_write_loop s inode dirty offset src copied =
     (if copied < length src then
        (let pos = w32 (offset + copied);
             index = pos div WFS_BLOCK_SIZE;
             inpos = pos mod WFS_BLOCK_SIZE;
             chunk = chunk_of inpos (length src - copied)
         in case bmap s inode index True dirty of
              (s, inode, dirty, Inl e) \<Rightarrow> (s, inode, dirty, copied, Loop_Broke e)
            | (s, inode, dirty, Inr block) \<Rightarrow>
                (case (if chunk \<noteq> WFS_BLOCK_SIZE then block_read s block else (s, Some zero_block)) of
                   (s, None) \<Rightarrow> (s, inode, dirty, copied, Loop_Failed W_EIO)
                 | (s, Some tmp) \<Rightarrow>
                     (case block_write s block (memcpy_at tmp inpos (take chunk (drop copied src))) of
                        (s, ok) \<Rightarrow>
                          if \<not> ok then (s, inode, dirty, copied, Loop_Failed W_EIO)
                          else wfs_write_loop s inode dirty offset src (copied + chunk))))
      else (s, inode, dirty, copied, Loop_Done))"
  by auto
termination
proof (relation "measure (\<lambda>(s, inode, dirty, offset, src, copied). length src - copied)", goal_cases)
  case 1
  show ?case by simp
next
  case (2 s inode dirty offset src copied)
  then show ?case by (simp add: chunk_progress)
qed

declare wfs_write_loop.simps [simp del]

definition wfs_write :: "'d wfs \<Rightarrow> nat \<Rightarrow> nat \<Rightarrow> bytes \<Rightarrow> 'd wfs \<times> nat res" where
  "wfs_write s ino offset src =
     seq (wfs_read_inode s ino) (\<lambda>s inode.
       if w32 (offset + length src) > WFS_MAX_FILE_SIZE then (s, Inl W_EFBIG)
       else
         (case wfs_write_loop s inode False offset src 0 of
            (s, inode, dirty, copied, Loop_Failed e) \<Rightarrow> (s, Inl e)
          | (s, inode, dirty, copied, fin) \<Rightarrow>
              (let (inode, dirty) =
                 (if w32 (offset + copied) > isize inode
                  then (inode\<lparr>isize := w32 (offset + copied)\<rparr>, True) else (inode, dirty));
                   (inode, dirty) =
                 (if copied > 0 then (inode\<lparr>mtime := rtc_epoch s\<rparr>, True) else (inode, dirty));
                   s = (if dirty then fst (write_inode s ino inode) else s)
               in if copied = 0 \<and> length src > 0
                  then (s, Inl (case fin of Loop_Broke e \<Rightarrow> e | _ \<Rightarrow> W_ENOSPC))
                  else (s, Inr copied))))"

section \<open>Directories\<close>

text \<open>Reading an entry into the buffer of the loop: fewer bytes than an entry leave the rest of the
  buffer as it was.  The value is the count and the entry.\<close>

definition read_dirent :: "'d wfs \<Rightarrow> nat \<Rightarrow> nat \<Rightarrow> bytes \<Rightarrow> 'd wfs \<times> (bytes \<times> wfs_dirent) option" where
  "read_dirent s ino off buf =
     (case wfs_read s ino off WFS_DIRENT_SIZE of
        (s, Inl e) \<Rightarrow> (s, None)
      | (s, Inr bs) \<Rightarrow>
          if bs = [] then (s, None)
          else (let buf = memcpy_at buf 0 bs in (s, Some (buf, decode_dirent buf))))"

definition empty_dirent_buf :: bytes where
  "empty_dirent_buf = replicate WFS_DIRENT_SIZE 0"

text \<open>The offset of the first entry that satisfies a test, with the entry.  All the loops over a
  directory search: for a name, for a free slot, for an entry that is neither \<^verbatim>\<open>.\<close> nor \<^verbatim>\<open>..\<close>.\<close>

function dir_scan :: "'d wfs \<Rightarrow> nat \<Rightarrow> nat \<Rightarrow> nat \<Rightarrow> bytes \<Rightarrow> (wfs_dirent \<Rightarrow> bool) \<Rightarrow> 'd wfs \<times> (nat \<times> wfs_dirent) option" where
  "dir_scan s ino sz off buf P =
     (if off < sz then
        (case read_dirent s ino off buf of
           (s, None) \<Rightarrow> (s, None)
         | (s, Some (buf, ent)) \<Rightarrow>
             if P ent then (s, Some (off, ent)) else dir_scan s ino sz (off + WFS_DIRENT_SIZE) buf P)
      else (s, None))"
  by auto
termination
  by (relation "measure (\<lambda>(s, ino, sz, off, buf, P). sz - off)") (auto simp: WFS_DIRENT_SIZE_def)

declare dir_scan.simps [simp del]

definition is_entry :: "bytes \<Rightarrow> wfs_dirent \<Rightarrow> bool" where
  "is_entry name ent \<longleftrightarrow> ent_ino ent \<noteq> WFS_INVALID_INO \<and> field_name (ent_name ent) = name"

definition dir_find :: "'d wfs \<Rightarrow> nat \<Rightarrow> bytes \<Rightarrow> 'd wfs \<times> nat res" where
  "dir_find s dir_ino name =
     seq (wfs_read_inode s dir_ino) (\<lambda>s dir.
       if itype dir \<noteq> WFS_TYPE_DIR then (s, Inl W_ENOTDIR)
       else case dir_scan s dir_ino (isize dir) 0 empty_dirent_buf (is_entry name) of
         (s, None) \<Rightarrow> (s, Inl W_ENOENT)
       | (s, Some (off, ent)) \<Rightarrow> (s, Inr (ent_ino ent)))"

definition dir_add :: "'d wfs \<Rightarrow> nat \<Rightarrow> bytes \<Rightarrow> nat \<Rightarrow> 'd wfs \<times> unit res" where
  "dir_add s dir_ino name ino =
     (if length name > WFS_NAME_MAX then (s, Inl W_ENAMETOOLONG)
      else seq (wfs_read_inode s dir_ino) (\<lambda>s dir.
        (case dir_scan s dir_ino (isize dir) 0 empty_dirent_buf (\<lambda>ent. ent_ino ent = WFS_INVALID_INO) of
           (s, found) \<Rightarrow>
             (let slot = (case found of None \<Rightarrow> isize dir | Some (off, ent) \<Rightarrow> off)
              in seq (wfs_write s dir_ino slot (encode_dirent \<lparr>ent_ino = ino, ent_name = name_field name\<rparr>)) (\<lambda>s r.
                   (s, if r = WFS_DIRENT_SIZE then Inr () else Inl W_EIO))))))"

definition dir_remove :: "'d wfs \<Rightarrow> nat \<Rightarrow> bytes \<Rightarrow> 'd wfs \<times> unit res" where
  "dir_remove s dir_ino name =
     seq (wfs_read_inode s dir_ino) (\<lambda>s dir.
       (case dir_scan s dir_ino (isize dir) 0 empty_dirent_buf (is_entry name) of
          (s, None) \<Rightarrow> (s, Inl W_ENOENT)
        | (s, Some (off, ent)) \<Rightarrow>
            seq (wfs_write s dir_ino off empty_dirent_buf) (\<lambda>s r. (s, Inr ()))))"

definition dot :: bytes where "dot = [46]"
definition dotdot :: bytes where "dotdot = [46, 46]"

definition dir_is_empty :: "'d wfs \<Rightarrow> nat \<Rightarrow> 'd wfs \<times> bool" where
  "dir_is_empty s dir_ino =
     (case wfs_read_inode s dir_ino of
        (s, Inl e) \<Rightarrow> (s, False)
      | (s, Inr dir) \<Rightarrow>
          (case dir_scan s dir_ino (isize dir) 0 empty_dirent_buf
                  (\<lambda>ent. ent_ino ent \<noteq> WFS_INVALID_INO
                     \<and> field_name (ent_name ent) \<noteq> dot \<and> field_name (ent_name ent) \<noteq> dotdot) of
             (s, found) \<Rightarrow> (s, found = None)))"

text \<open>One entry of a listing.  The value is the new cursor and the entry, none at the end; the name is
  the string in the field, which fits the field of the result.\<close>

record wdirent =
  wd_ino :: nat
  wd_type :: nat
  wd_name :: bytes

definition W_FT_FILE :: nat where "W_FT_FILE = 1"

definition wfs_readdir :: "'d wfs \<Rightarrow> nat \<Rightarrow> nat \<Rightarrow> 'd wfs \<times> (nat \<times> wdirent option) res" where
  "wfs_readdir s ino cursor =
     seq (wfs_read_inode s ino) (\<lambda>s dir.
       if itype dir \<noteq> WFS_TYPE_DIR then (s, Inl W_ENOTDIR)
       else case dir_scan s ino (isize dir) (cursor - cursor mod WFS_DIRENT_SIZE) empty_dirent_buf
                   (\<lambda>ent. ent_ino ent \<noteq> WFS_INVALID_INO) of
         (s, None) \<Rightarrow> (s, Inr (isize dir, None))
       | (s, Some (off, ent)) \<Rightarrow>
           (case wfs_read_inode s (ent_ino ent) of
              (s, target) \<Rightarrow>
                (s, Inr (off + WFS_DIRENT_SIZE,
                   Some \<lparr>wd_ino = ent_ino ent,
                         wd_type = (case target of Inr t \<Rightarrow> itype t | Inl e \<Rightarrow> W_FT_FILE),
                         wd_name = field_name (ent_name ent)\<rparr>))))"

section \<open>Paths\<close>

definition slash :: u8 where "slash = 47"

function lookup_loop :: "'d wfs \<Rightarrow> nat \<Rightarrow> bytes \<Rightarrow> 'd wfs \<times> nat res" where
  "lookup_loop s ino p =
     (let p = dropWhile (\<lambda>c. c = slash) p in
      if p = [] then (s, Inr ino)
      else
        (let name = takeWhile (\<lambda>c. c \<noteq> slash) p
         in if length name > WFS_NAME_MAX then (s, Inl W_ENAMETOOLONG)
            else case dir_find s ino name of
              (s, Inl e) \<Rightarrow> (s, Inl e)
            | (s, Inr ino) \<Rightarrow> lookup_loop s ino (dropWhile (\<lambda>c. c \<noteq> slash) p)))"
  by auto
termination
proof (relation "measure (\<lambda>(s, ino, p). length p)", goal_cases)
  case (2 s ino p x)
  have "length (dropWhile (\<lambda>c. c \<noteq> slash) (dropWhile (\<lambda>c. c = slash) p)) < length (dropWhile (\<lambda>c. c = slash) p)"
    using 2(1,2) hd_dropWhile[of "\<lambda>c. c = slash" p]
    by (cases "dropWhile (\<lambda>c. c = slash) p") (auto simp: le_imp_less_Suc length_dropWhile_le)
  then show ?case using 2(1) length_dropWhile_le[of "\<lambda>c. c = slash" p] by simp
qed simp

declare lookup_loop.simps [simp del]

definition wfs_lookup :: "'d wfs \<Rightarrow> bytes \<Rightarrow> 'd wfs \<times> nat res" where
  "wfs_lookup s path =
     (if \<not> mounted s then (s, Inl W_EIO)
      else if path = [] \<or> hd path \<noteq> slash then (s, Inl W_EINVAL)
      else lookup_loop s (root_inode (sb s)) path)"

text \<open>The path before the last slash and the name after it, if there is a slash.\<close>

definition split_last :: "bytes \<Rightarrow> (bytes \<times> bytes) option" where
  "split_last path =
     (if slash \<notin> set path then None
      else (let name = rev (takeWhile (\<lambda>c. c \<noteq> slash) (rev path))
            in Some (take (length path - length name - 1) path, name)))"

definition resolve_parent :: "'d wfs \<Rightarrow> bytes \<Rightarrow> 'd wfs \<times> (nat \<times> bytes) res" where
  "resolve_parent s path =
     (case split_last path of
        None \<Rightarrow> (s, Inl W_EINVAL)
      | Some (parent, name) \<Rightarrow>
          if length name = 0 then (s, Inl W_EINVAL)
          else if length name > WFS_NAME_MAX then (s, Inl W_ENAMETOOLONG)
          else if parent = [] then (s, Inr (root_inode (sb s), name))
          else if length parent > W_PATH_MAX then (s, Inl W_ENAMETOOLONG)
          else seq (wfs_lookup s parent) (\<lambda>s ino. (s, Inr (ino, name))))"

section \<open>Creating, removing and renaming\<close>

definition wfs_create :: "'d wfs \<Rightarrow> bytes \<Rightarrow> nat \<Rightarrow> 'd wfs \<times> nat res" where
  "wfs_create s path ty =
     (if \<not> mounted s then (s, Inl W_EIO)
      else seq (resolve_parent s path) (\<lambda>s (parent, name).
        (case dir_find s parent name of
           (s, Inr existing) \<Rightarrow> (s, Inl W_EEXIST)
         | (s, Inl e) \<Rightarrow>
             seq (inode_alloc s ty) (\<lambda>s ino.
               (let (s, r) =
                  (if ty = WFS_TYPE_DIR
                   then (case seq (dir_add s ino dot ino) (\<lambda>s _. dir_add s ino dotdot parent) of
                           (s, Inl e) \<Rightarrow> (inode_free s ino, Inl e)
                         | (s, Inr x) \<Rightarrow> (s, Inr x))
                   else (s, Inr ()))
                in seq (s, r) (\<lambda>s _.
                     (case dir_add s parent name ino of
                        (s, Inl e) \<Rightarrow> (inode_free (fst (wfs_truncate s ino)) ino, Inl e)
                      | (s, Inr _) \<Rightarrow> (s, Inr ino))))))))"

definition wfs_unlink :: "'d wfs \<Rightarrow> bytes \<Rightarrow> 'd wfs \<times> unit res" where
  "wfs_unlink s path =
     (if \<not> mounted s then (s, Inl W_EIO)
      else seq (resolve_parent s path) (\<lambda>s (parent, name).
        if name = dot \<or> name = dotdot then (s, Inl W_EINVAL)
        else seq (dir_find s parent name) (\<lambda>s ino.
          seq (wfs_read_inode s ino) (\<lambda>s inode.
            (let (s, empty) = (if itype inode = WFS_TYPE_DIR then dir_is_empty s ino else (s, True))
             in if \<not> empty then (s, Inl W_ENOTEMPTY)
                else seq (dir_remove s parent name) (\<lambda>s _.
                  (inode_free (fst (wfs_truncate s ino)) ino, Inr ())))))))"

text \<open>The walk from the destination of a rename up to the root, for at most \<open>n\<close> steps: whether it
  meets the directory that is being moved.\<close>

fun inside_itself :: "'d wfs \<Rightarrow> nat \<Rightarrow> nat \<Rightarrow> nat \<Rightarrow> 'd wfs \<times> bool" where
  "inside_itself s ino at 0 = (s, False)"
| "inside_itself s ino at (Suc n) =
     (if at = ino then (s, True)
      else if at = WFS_ROOT_INO then (s, False)
      else case dir_find s at dotdot of
        (s, Inl e) \<Rightarrow> (s, False)
      | (s, Inr up) \<Rightarrow> if up = at then (s, False) else inside_itself s ino up n)"

definition remove_existing :: "'d wfs \<Rightarrow> nat \<Rightarrow> bytes \<Rightarrow> nat \<Rightarrow> 'd wfs \<times> bool res" where
  "remove_existing s to_parent to_name ino =
     (case dir_find s to_parent to_name of
        (s, Inl e) \<Rightarrow> (s, Inr False)
      | (s, Inr existing) \<Rightarrow>
          if existing = ino then (s, Inr True)
          else seq (wfs_read_inode s existing) (\<lambda>s victim.
            if itype victim = WFS_TYPE_DIR then (s, Inl W_EISDIR)
            else seq (dir_remove s to_parent to_name) (\<lambda>s _.
              (inode_free (fst (wfs_truncate s existing)) existing, Inr False))))"

definition wfs_rename :: "'d wfs \<Rightarrow> bytes \<Rightarrow> bytes \<Rightarrow> 'd wfs \<times> unit res" where
  "wfs_rename s src dst =
     (if \<not> mounted s then (s, Inl W_EIO)
      else seq (resolve_parent s src) (\<lambda>s (from_parent, from_name).
        seq (resolve_parent s dst) (\<lambda>s (to_parent, to_name).
          if from_name = dot \<or> from_name = dotdot \<or> to_name = dot \<or> to_name = dotdot then (s, Inl W_EINVAL)
          else seq (dir_find s from_parent from_name) (\<lambda>s ino.
            seq (wfs_read_inode s ino) (\<lambda>s inode.
              if from_parent = to_parent \<and> from_name = to_name then (s, Inr ())
              else
                (case (if itype inode = WFS_TYPE_DIR then inside_itself s ino to_parent 256 else (s, False)) of
                   (s, True) \<Rightarrow> (s, Inl W_EINVAL)
                 | (s, False) \<Rightarrow>
                     seq (remove_existing s to_parent to_name ino) (\<lambda>s same.
                       if same then (s, Inr ())
                       else seq (dir_add s to_parent to_name ino) (\<lambda>s _.
                         (case dir_remove s from_parent from_name of
                            (s, Inl e) \<Rightarrow> (fst (dir_remove s to_parent to_name), Inl e)
                          | (s, Inr _) \<Rightarrow>
                              if itype inode = WFS_TYPE_DIR \<and> from_parent \<noteq> to_parent
                              then (fst (dir_add (fst (dir_remove s ino dotdot)) ino dotdot to_parent), Inr ())
                              else (s, Inr ()))))))))))"

section \<open>Mounting and statistics\<close>

record wdiskinfo =
  di_block_size :: nat
  di_total_blocks :: nat
  di_free_blocks :: nat
  di_total_inodes :: nat
  di_free_inodes :: nat
  di_total_bytes :: nat
  di_free_bytes :: nat
  di_used_bytes :: nat

definition wfs_statfs :: "'d wfs \<Rightarrow> wdiskinfo" where
  "wfs_statfs s =
     (if \<not> mounted s
      then \<lparr>di_block_size = 0, di_total_blocks = 0, di_free_blocks = 0, di_total_inodes = 0, di_free_inodes = 0,
            di_total_bytes = 0, di_free_bytes = 0, di_used_bytes = 0\<rparr>
      else
        (let total = w32 (total_blocks (sb s) * block_size (sb s));
             fre = w32 (free_blocks (sb s) * block_size (sb s))
         in \<lparr>di_block_size = block_size (sb s), di_total_blocks = total_blocks (sb s),
             di_free_blocks = free_blocks (sb s), di_total_inodes = total_inodes (sb s),
             di_free_inodes = free_inodes (sb s), di_total_bytes = total, di_free_bytes = fre,
             di_used_bytes = (total + (2 ^ 64 - fre)) mod 2 ^ 64\<rparr>))"

definition wfs_mounted :: "'d wfs \<Rightarrow> bool" where
  "wfs_mounted s = mounted s"

definition wfs_on_ramdisk :: "'d wfs \<Rightarrow> bool" where
  "wfs_on_ramdisk s = (source (drv s) = WFS_SOURCE_RAMDISK)"

definition superblock_ok :: "'d wfs \<Rightarrow> 'd wfs \<times> bool" where
  "superblock_ok s =
     (case block_read s 0 of
        (s, None) \<Rightarrow> (s, False)
      | (s, Some buf) \<Rightarrow>
          (let s = s\<lparr>sb := decode_superblock (take sizeof_superblock buf)\<rparr>
           in if magic (sb s) = WFS_MAGIC_V1 then (s, False)
              else if magic (sb s) = WFS_MAGIC_V2 then (s, False)
              else (s, magic (sb s) = WFS_MAGIC)))"

fun try_partitions :: "'d wfs \<Rightarrow> bytes \<Rightarrow> nat list \<Rightarrow> 'd wfs \<times> bool" where
  "try_partitions s mbr [] = (s\<lparr>partition_lba := 0, drv := (drv s)\<lparr>source := WFS_SOURCE_NONE\<rparr>\<rparr>, False)"
| "try_partitions s mbr (i # is) =
     (let entry = drop (0x1BE + i * 16) mbr;
          start = rd32 entry 8;
          count = rd32 entry 12
      in if start = 0 \<or> count = 0 then try_partitions s mbr is
         else case superblock_ok (cache_reset (s\<lparr>partition_lba := start\<rparr>)) of
           (s, True) \<Rightarrow> (s, True)
         | (s, False) \<Rightarrow> try_partitions s mbr is)"

definition find_volume :: "'d wfs \<Rightarrow> wfs_source \<Rightarrow> 'd wfs \<times> bool" where
  "find_volume s device =
     (case superblock_ok (cache_reset (s\<lparr>drv := (drv s)\<lparr>source := device\<rparr>, partition_lba := 0\<rparr>)) of
        (s, True) \<Rightarrow> (s, True)
      | (s, False) \<Rightarrow>
          (case sectors_read (drv s) 0 1 of
             None \<Rightarrow> (s, False)
           | Some mbr \<Rightarrow>
               if mbr ! 510 \<noteq> 0x55 \<or> mbr ! 511 \<noteq> 0xAA then (s, False)
               else try_partitions s mbr [0..<4]))"

fun read_bitmap :: "'d wfs \<Rightarrow> nat list \<Rightarrow> bytes \<Rightarrow> 'd wfs \<times> bytes option" where
  "read_bitmap s [] acc = (s, Some acc)"
| "read_bitmap s (i # is) acc =
     (case block_read s (w32 (bitmap_start (sb s) + i)) of
        (s, None) \<Rightarrow> (s, None)
      | (s, Some buf) \<Rightarrow> read_bitmap s is (acc @ buf))"

text \<open>No result where the heap's list of blocks is corrupt.\<close>

definition adopt_volume :: "'d wfs \<Rightarrow> ('d wfs \<times> bool) option" where
  "adopt_volume s =
     (if block_size (sb s) \<noteq> WFS_BLOCK_SIZE then Some (s, False)
      else
        (case kmalloc (kernel_heap s) (of_nat (w32 (bitmap_blocks (sb s) * WFS_BLOCK_SIZE))) of
           None \<Rightarrow> None
         | Some (h, p) \<Rightarrow>
             (let s = s\<lparr>kernel_heap := h, bitmap_ptr := p\<rparr>
              in if p = 0 then Some (s, False)
                 else
                   (case read_bitmap s [0..<bitmap_blocks (sb s)] [] of
                      (s, None) \<Rightarrow>
                        (case kfree (kernel_heap s) p of
                           None \<Rightarrow> None
                         | Some h \<Rightarrow> Some (s\<lparr>kernel_heap := h, bitmap_ptr := 0, block_bitmap := []\<rparr>, False))
                    | (s, Some bm) \<Rightarrow> Some (s\<lparr>block_bitmap := bm, mounted := True\<rparr>, True)))))"

definition device_present :: "'d drives \<Rightarrow> wfs_source \<Rightarrow> bool" where
  "device_present d device =
     (case device of
        WFS_SOURCE_ATA \<Rightarrow> disk_present (ata_ops d) (ata d)
      | WFS_SOURCE_USB \<Rightarrow> disk_present (usb_ops d) (usb d)
      | WFS_SOURCE_RAMDISK \<Rightarrow> ramdisk_present (ram d)
      | WFS_SOURCE_NONE \<Rightarrow> False)"

fun try_devices :: "'d wfs \<Rightarrow> wfs_source list \<Rightarrow> ('d wfs \<times> bool) option" where
  "try_devices s [] = Some (s\<lparr>drv := (drv s)\<lparr>source := WFS_SOURCE_NONE\<rparr>\<rparr>, False)"
| "try_devices s (device # devices) =
     (if \<not> device_present (drv s) device then try_devices s devices
      else
        (case find_volume s device of
           (s, False) \<Rightarrow> try_devices s devices
         | (s, True) \<Rightarrow>
             (case adopt_volume s of
                None \<Rightarrow> None
              | Some (s, True) \<Rightarrow> Some (s, True)
              | Some (s, False) \<Rightarrow> try_devices s devices)))"

definition wfs_mount :: "'d wfs \<Rightarrow> ('d wfs \<times> bool) option" where
  "wfs_mount s = try_devices s [WFS_SOURCE_ATA, WFS_SOURCE_USB, WFS_SOURCE_RAMDISK]"

end
