(* ===== verification/Wfs_Alloc.thy ===== *)
theory Wfs_Alloc
  imports Wfs
begin

text \<open>
  Block allocation and inodes of the file system on a device that keeps its promise.

  The encodings of the on-disk structures decode to what was encoded.  A state is \<open>fs_ok\<close> when the
  areas of the volume follow each other, the bitmap and the superblock on the disk are those in memory,
  and the superblock counts the free blocks.  Allocation and freeing keep it and change nothing else
  than they should, and an inode that was written is read back while the others stay.
\<close>

section \<open>Encodings\<close>

lemma unat_of_nat_u8: "unat (of_nat n :: u8) = n mod 256"
  by (simp add: unsigned_of_nat take_bit_eq_mod)

lemma rd32_le32: "n < 2 ^ 32 \<Longrightarrow> rd32 (xs @ le32 n @ ys) (length xs) = n"
proof -
  assume n: "n < 2 ^ 32"
  have "n = n mod 256 + 256 * (n div 256 mod 256 + 256 * (n div 65536 mod 256 + 256 * (n div 16777216)))"
    by (simp add: div_mult2_eq[of n 256 256, simplified] div_mult2_eq[of n 65536 256, simplified])
  moreover have "n div 16777216 mod 256 = n div 16777216" using n by simp
  ultimately show ?thesis
    by (simp add: rd32_def le32_def nth_append unat_of_nat_u8 algebra_simps)
qed

lemma rd16_le16: "n < 2 ^ 16 \<Longrightarrow> rd16 (xs @ le16 n @ ys) (length xs) = n"
proof -
  assume n: "n < 2 ^ 16"
  then have "n div 256 mod 256 = n div 256" by simp
  then show ?thesis
    using mod_mult_div_eq[of n 256] by (simp add: rd16_def le16_def nth_append unat_of_nat_u8 algebra_simps)
qed

lemma le32_length [simp]: "length (le32 n) = 4"
  by (simp add: le32_def)

lemma le16_length [simp]: "length (le16 n) = 2"
  by (simp add: le16_def)

lemma concat_le32_length [simp]: "length (concat (map le32 ns)) = 4 * length ns"
  by (induction ns) simp_all

lemma rd32_concat:
  assumes "i < length ns" "\<forall>n \<in> set ns. n < 2 ^ 32" "length xs = k"
  shows "rd32 (xs @ concat (map le32 ns) @ ys) (k + 4 * i) = ns ! i"
proof -
  have "ns = take i ns @ ns ! i # drop (Suc i) ns" using assms(1) by (rule id_take_nth_drop)
  then have "concat (map le32 ns) = concat (map le32 (take i ns)) @ le32 (ns ! i) @ concat (map le32 (drop (Suc i) ns))"
    by (metis concat.simps(2) concat_append list.simps(9) map_append)
  then have "xs @ concat (map le32 ns) @ ys =
    (xs @ concat (map le32 (take i ns))) @ le32 (ns ! i) @ (concat (map le32 (drop (Suc i) ns)) @ ys)" by simp
  moreover have "length (xs @ concat (map le32 (take i ns))) = k + 4 * i" using assms(1,3) by simp
  ultimately show ?thesis using rd32_le32[of "ns ! i" "xs @ concat (map le32 (take i ns))"] assms(1,2)
    by (metis nth_mem)
qed

lemma decode_encode_table:
  "length t = WFS_PTRS_PER_BLOCK \<Longrightarrow> \<forall>n \<in> set t. n < 2 ^ 32 \<Longrightarrow> decode_table (encode_table t) = t"
  using rd32_concat[of _ t "[]" 0 "[]"]
  by (intro nth_equalityI) (auto simp: decode_table_def encode_table_def)

definition inode_fits :: "wfs_inode \<Rightarrow> bool" where
  "inode_fits x \<longleftrightarrow> itype x < 2 ^ 16 \<and> links x < 2 ^ 16 \<and> isize x < 2 ^ 32 \<and> blocks x < 2 ^ 32 \<and> mtime x < 2 ^ 32
     \<and> length (direct x) = WFS_DIRECT \<and> (\<forall>b \<in> set (direct x). b < 2 ^ 32)
     \<and> indirect x < 2 ^ 32 \<and> double_indirect x < 2 ^ 32"

lemma encode_inode_length: "length (direct x) = WFS_DIRECT \<Longrightarrow> length (encode_inode x) = WFS_INODE_SIZE"
  by (simp add: encode_inode_def WFS_DIRECT_def WFS_INODE_SIZE_def)

lemma decode_encode_inode:
  assumes "inode_fits x"
  shows "decode_inode (encode_inode x) = x"
proof -
  let ?w = "[isize x, blocks x, mtime x] @ direct x @ [indirect x, double_indirect x]"
  have l: "length (direct x) = 10" and w: "\<forall>n \<in> set ?w. n < 2 ^ 32"
    using assms by (auto simp: inode_fits_def WFS_DIRECT_def)
  have e: "encode_inode x = (le16 (itype x) @ le16 (links x)) @ concat (map le32 ?w) @ []"
    by (simp add: encode_inode_def)
  have r: "rd32 (encode_inode x) (4 + 4 * i) = ?w ! i" if "i < 15" for i
    unfolding e using that l by (intro rd32_concat w) simp_all
  have "rd16 (encode_inode x) 0 = itype x"
    using rd16_le16[of "itype x" "[]"] assms by (simp add: encode_inode_def inode_fits_def)
  moreover have "rd16 (encode_inode x) 2 = links x"
    using rd16_le16[of "links x" "le16 (itype x)"] assms by (simp add: encode_inode_def inode_fits_def)
  moreover have "map (\<lambda>i. rd32 (encode_inode x) (16 + 4 * i)) [0..<WFS_DIRECT] = direct x"
  proof (rule nth_equalityI)
    fix i assume "i < length (map (\<lambda>i. rd32 (encode_inode x) (16 + 4 * i)) [0..<WFS_DIRECT])"
    then have i: "i < 10" by (simp add: WFS_DIRECT_def)
    then have "rd32 (encode_inode x) (16 + 4 * i) = ?w ! (3 + i)" using r[of "3 + i"] by (simp add: algebra_simps)
    then show "map (\<lambda>i. rd32 (encode_inode x) (16 + 4 * i)) [0..<WFS_DIRECT] ! i = direct x ! i"
      using i l by (simp add: WFS_DIRECT_def nth_append)
  qed (simp add: l WFS_DIRECT_def)
  moreover have "rd32 (encode_inode x) 4 = isize x" "rd32 (encode_inode x) 8 = blocks x"
    "rd32 (encode_inode x) 12 = mtime x" using r[of 0] r[of 1] r[of 2] by simp_all
  moreover have "rd32 (encode_inode x) 56 = indirect x" "rd32 (encode_inode x) 60 = double_indirect x"
    using r[of 13] r[of 14] l by (simp_all add: nth_append)
  ultimately show ?thesis by (simp add: decode_inode_def)
qed

lemma decode_encode_superblock:
  assumes "\<forall>n \<in> set [magic x, block_size x, total_blocks x, free_blocks x, total_inodes x, free_inodes x,
       bitmap_start x, bitmap_blocks x, inode_start x, inode_blocks x, data_start x, root_inode x]. n < 2 ^ 32"
  shows "decode_superblock (encode_superblock x) = x"
proof -
  let ?w = "[magic x, block_size x, total_blocks x, free_blocks x, total_inodes x, free_inodes x,
       bitmap_start x, bitmap_blocks x, inode_start x, inode_blocks x, data_start x, root_inode x]"
  have r: "rd32 (encode_superblock x) (4 * i) = ?w ! i" if "i < 12" for i
    using rd32_concat[OF _ assms, of i "[]" 0 "[]"] that by (simp add: encode_superblock_def)
  show ?thesis
    using r[of 0] r[of 1] r[of 2] r[of 3] r[of 4] r[of 5] r[of 6] r[of 7] r[of 8] r[of 9] r[of 10] r[of 11]
    by (simp add: decode_superblock_def)
qed

lemma encode_superblock_length: "length (encode_superblock x) = sizeof_superblock"
  by (simp add: encode_superblock_def sizeof_superblock_def)

section \<open>The bitmap\<close>

lemma bitmap_test_assign:
  assumes "b div 8 < length (block_bitmap s)"
  shows "wfs_bitmap_test (wfs_bitmap_assign s b v) b' = (if b' = b then v else wfs_bitmap_test s b')"
proof (cases "b' div 8 = b div 8")
  case True
  have "b' = b \<longleftrightarrow> b' mod 8 = b mod 8" using True by (metis div_mod_decomp)
  then show ?thesis using True assms
    by (auto simp: wfs_bitmap_test_def wfs_bitmap_assign_def Let_def bit_set_bit_iff bit_unset_bit_iff possible_bit_def)
next
  case False
  then show ?thesis using assms by (auto simp: wfs_bitmap_test_def wfs_bitmap_assign_def Let_def)
qed

lemma bitmap_assign_fields [simp]:
  "sb (wfs_bitmap_assign s b v) = sb s" "drv (wfs_bitmap_assign s b v) = drv s"
  "partition_lba (wfs_bitmap_assign s b v) = partition_lba s" "cache (wfs_bitmap_assign s b v) = cache s"
  "cache_clock (wfs_bitmap_assign s b v) = cache_clock s"
  "mounted (wfs_bitmap_assign s b v) = mounted s" "rtc_epoch (wfs_bitmap_assign s b v) = rtc_epoch s"
  "kernel_heap (wfs_bitmap_assign s b v) = kernel_heap s"
  "length (block_bitmap (wfs_bitmap_assign s b v)) = length (block_bitmap s)"
  by (simp_all add: wfs_bitmap_assign_def Let_def)

lemma slice_update_other:
  fixes xs :: "u8 list"
  assumes "k div n \<noteq> i" "0 < n"
  shows "take n (drop (i * n) (xs[k := v])) = take n (drop (i * n) xs)"
proof (rule nth_equalityI)
  fix j assume "j < length (take n (drop (i * n) (xs[k := v])))"
  then have j: "j < n" "i * n + j < length xs" by auto
  then have "(i * n + j) div n = i" by simp
  then have "k \<noteq> i * n + j" using assms(1) by auto
  then show "take n (drop (i * n) (xs[k := v])) ! j = take n (drop (i * n) xs) ! j" using j by simp
qed simp

lemma memcpy_at_slice_other:
  assumes "i + n \<le> off \<or> off + length src \<le> i" "off + length src \<le> length buf"
  shows "take n (drop i (memcpy_at buf off src)) = take n (drop i buf)"
proof (rule nth_equalityI)
  show "length (take n (drop i (memcpy_at buf off src))) = length (take n (drop i buf))" using assms(2) by simp
next
  fix j assume "j < length (take n (drop i (memcpy_at buf off src)))"
  then show "take n (drop i (memcpy_at buf off src)) ! j = take n (drop i buf) ! j"
    using assms by (auto simp: memcpy_at_def nth_append)
qed

section \<open>A consistent volume\<close>

definition layout_ok :: "wfs_superblock \<Rightarrow> bool" where
  "layout_ok x \<longleftrightarrow> 1 \<le> bitmap_start x \<and> bitmap_start x + bitmap_blocks x \<le> inode_start x
     \<and> inode_start x + inode_blocks x \<le> data_start x \<and> data_start x \<le> total_blocks x
     \<and> total_blocks x \<le> bitmap_blocks x * 8192 \<and> total_inodes x \<le> inode_blocks x * 16 \<and> total_blocks x < 2 ^ 31
     \<and> total_inodes x < 2 ^ 32 \<and> magic x < 2 ^ 32 \<and> block_size x < 2 ^ 32 \<and> free_inodes x < 2 ^ 32 \<and> root_inode x < 2 ^ 32"

definition free_data :: "'d wfs \<Rightarrow> nat set" where
  "free_data s = {b. data_start (sb s) \<le> b \<and> b < total_blocks (sb s) \<and> \<not> wfs_bitmap_test s b}"

definition fs_ok :: "('d drives \<Rightarrow> nat \<Rightarrow> bool) \<Rightarrow> ('d drives \<Rightarrow> nat \<Rightarrow> bytes) \<Rightarrow> 'd wfs \<Rightarrow> bool" where
  "fs_ok good sector s \<longleftrightarrow> volume good sector s (total_blocks (sb s)) \<and> layout_ok (sb s)
     \<and> length (block_bitmap s) = bitmap_blocks (sb s) * WFS_BLOCK_SIZE
     \<and> (\<forall>i < bitmap_blocks (sb s). disk_block sector s (bitmap_start (sb s) + i)
          = take WFS_BLOCK_SIZE (drop (i * WFS_BLOCK_SIZE) (block_bitmap s)))
     \<and> decode_superblock (take sizeof_superblock (disk_block sector s 0)) = sb s
     \<and> free_blocks (sb s) = card (free_data s)"

text \<open>What allocating and freeing blocks leaves as it is.\<close>

definition same_fs :: "'d wfs \<Rightarrow> 'd wfs \<Rightarrow> bool" where
  "same_fs s s' \<longleftrightarrow> (sb s')\<lparr>free_blocks := 0\<rparr> = (sb s)\<lparr>free_blocks := 0\<rparr> \<and> partition_lba s' = partition_lba s
     \<and> mounted s' = mounted s \<and> rtc_epoch s' = rtc_epoch s \<and> kernel_heap s' = kernel_heap s"

lemma same_fs_refl [simp]: "same_fs s s"
  by (simp add: same_fs_def)

lemma same_fs_trans: "same_fs s s' \<Longrightarrow> same_fs s' s'' \<Longrightarrow> same_fs s s''"
  by (simp add: same_fs_def)

lemma same_fs_sb:
  assumes "same_fs s s'"
  shows "data_start (sb s') = data_start (sb s)" "total_blocks (sb s') = total_blocks (sb s)"
    "inode_start (sb s') = inode_start (sb s)" "total_inodes (sb s') = total_inodes (sb s)"
    "inode_blocks (sb s') = inode_blocks (sb s)" "bitmap_start (sb s') = bitmap_start (sb s)"
    "bitmap_blocks (sb s') = bitmap_blocks (sb s)" "root_inode (sb s') = root_inode (sb s)"
    "free_inodes (sb s') = free_inodes (sb s)"
proof -
  have *: "f ((sb s')\<lparr>free_blocks := 0\<rparr>) = f ((sb s)\<lparr>free_blocks := 0\<rparr>)" for f :: "wfs_superblock \<Rightarrow> nat"
    using assms by (simp add: same_fs_def)
  show "data_start (sb s') = data_start (sb s)" "total_blocks (sb s') = total_blocks (sb s)"
    "inode_start (sb s') = inode_start (sb s)" "total_inodes (sb s') = total_inodes (sb s)"
    "inode_blocks (sb s') = inode_blocks (sb s)" "bitmap_start (sb s') = bitmap_start (sb s)"
    "bitmap_blocks (sb s') = bitmap_blocks (sb s)" "root_inode (sb s') = root_inode (sb s)"
    "free_inodes (sb s') = free_inodes (sb s)"
    using *[of data_start] *[of total_blocks] *[of inode_start] *[of total_inodes] *[of inode_blocks]
      *[of bitmap_start] *[of bitmap_blocks] *[of root_inode] *[of free_inodes] by simp_all
qed

lemma free_data_finite [simp]: "finite (free_data s)"
  by (simp add: free_data_def)

lemma inode_offset_bounds: "inode_offset ino = ino mod 16 * 64" "inode_offset ino + 64 \<le> 1024"
  by (auto simp: inode_offset_def WFS_INODES_PER_BLOCK_def WFS_BLOCK_SIZE_def WFS_INODE_SIZE_def)

definition inode_at :: "('d drives \<Rightarrow> nat \<Rightarrow> bytes) \<Rightarrow> 'd wfs \<Rightarrow> nat \<Rightarrow> wfs_inode" where
  "inode_at sector s ino = decode_inode (take WFS_INODE_SIZE (drop (inode_offset ino) (disk_block sector s (inode_block s ino))))"

context wfs_device
begin

lemma kept_wfs:
  fixes s s' :: "'d wfs"
  assumes "kept s s'"
  shows "sb s' = sb s" "block_bitmap s' = block_bitmap s" "mounted s' = mounted s" "rtc_epoch s' = rtc_epoch s"
    "kernel_heap s' = kernel_heap s" "partition_lba s' = partition_lba s"
  using assms by (cases s; cases s'; simp add: kept_def)+

lemma vol_fields [simp]:
  "vol (s\<lparr>sb := x\<rparr>) n = vol s n" "vol (s\<lparr>block_bitmap := y\<rparr>) n = vol s n"
  "dblock (s\<lparr>sb := x\<rparr>) b = dblock s b" "dblock (s\<lparr>block_bitmap := y\<rparr>) b = dblock s b"
  by (simp_all add: volume_def disk_block_def)

lemma vol_assign [simp]: "vol (wfs_bitmap_assign s b v) n = vol s n" "dblock (wfs_bitmap_assign s b v) b' = dblock s b'"
  by (simp_all add: volume_def disk_block_def)

abbreviation sb_image :: "wfs_superblock \<Rightarrow> bytes" where
  "sb_image x \<equiv> memcpy_at zero_block 0 (encode_superblock x)"

lemma sb_image_length: "length (sb_image x) = WFS_BLOCK_SIZE"
  by (simp add: zero_block_def encode_superblock_length sizeof_superblock_def WFS_BLOCK_SIZE_def)

lemma sb_image_decode:
  assumes "layout_ok x" "free_blocks x < 2 ^ 32"
  shows "decode_superblock (take sizeof_superblock (sb_image x)) = x"
proof -
  have "take sizeof_superblock (sb_image x) = encode_superblock x"
    by (simp add: memcpy_at_def encode_superblock_length)
  then show ?thesis using assms by (auto simp: layout_ok_def intro!: decode_encode_superblock)
qed

lemma sync_superblock_law:
  assumes "vol s n" "0 < n"
  shows "\<exists>s'. sync_superblock s = (s', True) \<and> vol s' n \<and> kept s s'
    \<and> (\<forall>b < n. dblock s' b = (if b = 0 then sb_image (sb s) else dblock s b))"
  using block_write_law[OF assms sb_image_length] by (simp add: sync_superblock_def)

lemma sync_bitmap_law:
  assumes "vol s (total_blocks (sb s))" "layout_ok (sb s)" "b < total_blocks (sb s)"
    "length (block_bitmap s) = bitmap_blocks (sb s) * WFS_BLOCK_SIZE"
  shows "\<exists>s'. sync_bitmap_for s b = (s', True) \<and> vol s' (total_blocks (sb s)) \<and> kept s s'
    \<and> (\<forall>b' < total_blocks (sb s). dblock s' b' = (if b' = bitmap_start (sb s) + b div 8192
        then take WFS_BLOCK_SIZE (drop (b div 8192 * WFS_BLOCK_SIZE) (block_bitmap s)) else dblock s b'))"
proof -
  let ?i = "b div 8192"
  have i: "?i < bitmap_blocks (sb s)" using assms(2,3) by (simp add: layout_ok_def less_mult_imp_div_less)
  then have at: "bitmap_start (sb s) + ?i < total_blocks (sb s)" "bitmap_start (sb s) + ?i < 2 ^ 32"
    using assms(2) by (auto simp: layout_ok_def)
  have "(?i + 1) * WFS_BLOCK_SIZE \<le> bitmap_blocks (sb s) * WFS_BLOCK_SIZE" using i by (intro mult_le_mono1) simp
  then have "length (take WFS_BLOCK_SIZE (drop (?i * WFS_BLOCK_SIZE) (block_bitmap s))) = WFS_BLOCK_SIZE"
    using assms(4) by simp
  note w = block_write_law[OF assms(1) at(1) this]
  have "sync_bitmap_for s b = block_write s (bitmap_start (sb s) + ?i) (take WFS_BLOCK_SIZE (drop (?i * WFS_BLOCK_SIZE) (block_bitmap s)))"
    using at(2) by (simp add: sync_bitmap_for_def Let_def WFS_BLOCK_SIZE_def w32_def)
  then show ?thesis using w by simp
qed

lemma fs_okD:
  assumes "fs_ok good sector s"
  shows "vol s (total_blocks (sb s))" "layout_ok (sb s)"
    "length (block_bitmap s) = bitmap_blocks (sb s) * WFS_BLOCK_SIZE"
    "free_blocks (sb s) = card (free_data s)"
    "\<And>i. i < bitmap_blocks (sb s) \<Longrightarrow> dblock s (bitmap_start (sb s) + i)
       = take WFS_BLOCK_SIZE (drop (i * WFS_BLOCK_SIZE) (block_bitmap s))"
  using assms by (simp_all add: fs_ok_def)

lemma free_data_card: "card (free_data s) \<le> total_blocks (sb s)"
proof -
  have "free_data s \<subseteq> {..<total_blocks (sb s)}" by (auto simp: free_data_def)
  from card_mono[OF _ this] show ?thesis by simp
qed

lemma data_block_bit:
  assumes "fs_ok good sector s" "b < total_blocks (sb s)"
  shows "b div 8 < length (block_bitmap s)" "b div 8192 < bitmap_blocks (sb s)"
  using assms by (auto simp: fs_ok_def layout_ok_def WFS_BLOCK_SIZE_def less_mult_imp_div_less)

lemma layout_free [simp]: "layout_ok (x\<lparr>free_blocks := f\<rparr>) = layout_ok x"
  by (simp add: layout_ok_def)

lemma flip_slices:
  assumes "fs_ok good sector s" "b < total_blocks (sb s)" "i < bitmap_blocks (sb s)" "i \<noteq> b div 8192"
  shows "take WFS_BLOCK_SIZE (drop (i * WFS_BLOCK_SIZE) (block_bitmap (wfs_bitmap_assign s b v)))
    = dblock s (bitmap_start (sb s) + i)"
proof -
  have "b div 8 div WFS_BLOCK_SIZE = b div 8192" by (simp add: WFS_BLOCK_SIZE_def div_mult2_eq[symmetric])
  then have "take WFS_BLOCK_SIZE (drop (i * WFS_BLOCK_SIZE) (block_bitmap (wfs_bitmap_assign s b v)))
      = take WFS_BLOCK_SIZE (drop (i * WFS_BLOCK_SIZE) (block_bitmap s))"
    using assms(4) slice_update_other[of "b div 8" WFS_BLOCK_SIZE i]
    by (simp add: wfs_bitmap_assign_def Let_def WFS_BLOCK_SIZE_def)
  then show ?thesis using fs_okD(5)[OF assms(1,3)] by simp
qed

lemma flip_free_data:
  assumes "fs_ok good sector s" "data_start (sb s) \<le> b" "b < total_blocks (sb s)"
    "sb t = (sb s)\<lparr>free_blocks := f\<rparr>" "block_bitmap t = block_bitmap (wfs_bitmap_assign s b v)"
  shows "free_data t = (if v then free_data s - {b} else insert b (free_data s))"
proof -
  have "wfs_bitmap_test t b' = wfs_bitmap_test (wfs_bitmap_assign s b v) b'" for b'
    using assms(5) by (simp add: wfs_bitmap_test_def)
  then show ?thesis using bitmap_test_assign[OF data_block_bit(1)[OF assms(1,3)]] assms(2,3,4)
    by (auto simp: free_data_def)
qed

lemma flip_law:
  assumes ok: "fs_ok good sector s" and b: "data_start (sb s) \<le> b" "b < total_blocks (sb s)"
    and t: "vol t (total_blocks (sb s))" "sb t = (sb s)\<lparr>free_blocks := card (free_data t)\<rparr>"
      "block_bitmap t = block_bitmap (wfs_bitmap_assign s b v)"
      "\<forall>b' < data_start (sb s). dblock t b' = dblock s b'"
  shows "\<exists>s'. fst (sync_superblock (fst (sync_bitmap_for t b))) = s' \<and> fs_ok good sector s' \<and> kept t s'
    \<and> (\<forall>b' < total_blocks (sb s). inode_start (sb s) \<le> b' \<longrightarrow> dblock s' b' = dblock t b')"
proof -
  let ?N = "total_blocks (sb s)" and ?i = "b div 8192" and ?B = "bitmap_start (sb s)"
  note lay = fs_okD(2)[OF ok]
  have lt: "layout_ok (sb t)" "total_blocks (sb t) = ?N" "length (block_bitmap t) = bitmap_blocks (sb t) * WFS_BLOCK_SIZE"
    "bitmap_start (sb t) = ?B" "bitmap_blocks (sb t) = bitmap_blocks (sb s)"
    using lay fs_okD(3)[OF ok] by (simp_all add: t(2,3))
  from sync_bitmap_law[of t b] t(1) lt b obtain u where
    u: "sync_bitmap_for t b = (u, True)" "vol u ?N" "kept t u"
      "\<forall>b' < ?N. dblock u b' = (if b' = ?B + ?i then take WFS_BLOCK_SIZE (drop (?i * WFS_BLOCK_SIZE) (block_bitmap t)) else dblock t b')"
    by auto
  from sync_superblock_law[OF u(2)] b(2) obtain s' where
    s': "sync_superblock u = (s', True)" "vol s' ?N" "kept u s'"
      "\<forall>b' < ?N. dblock s' b' = (if b' = 0 then sb_image (sb u) else dblock u b')"
    by auto
  have k: "kept t s'" using u(3) s'(3) by (simp add: kept_def)
  note f = kept_wfs[OF k]
  have pos: "0 < ?B" "?B + bitmap_blocks (sb s) \<le> inode_start (sb s)" "inode_start (sb s) \<le> data_start (sb s)"
    using lay by (auto simp: layout_ok_def)
  have i: "?i < bitmap_blocks (sb s)" by (rule data_block_bit(2)[OF ok b(2)])
  have free: "free_data s' = free_data t" using f by (simp add: free_data_def wfs_bitmap_test_def)
  have "card (free_data t) < 2 ^ 32" using free_data_card[of t] lt(2) lay by (simp add: layout_ok_def)
  then have "decode_superblock (take sizeof_superblock (dblock s' 0)) = sb s'"
    using s'(4) b(2) sb_image_decode[of "sb t"] lt(1) t(2) f(1) kept_wfs(1)[OF u(3)] by simp
  moreover have "dblock s' (?B + j) = take WFS_BLOCK_SIZE (drop (j * WFS_BLOCK_SIZE) (block_bitmap s'))"
    if j: "j < bitmap_blocks (sb s)" for j
  proof -
    have a: "?B + j < data_start (sb s)" using j pos by simp
    then have "dblock s' (?B + j) = dblock u (?B + j)" using s'(4) pos b by simp
    also have "\<dots> = (if j = ?i then take WFS_BLOCK_SIZE (drop (?i * WFS_BLOCK_SIZE) (block_bitmap t)) else dblock s (?B + j))"
      using u(4) t(4) a b by simp
    also have "\<dots> = take WFS_BLOCK_SIZE (drop (j * WFS_BLOCK_SIZE) (block_bitmap t))"
      using flip_slices[OF ok b(2) j] t(3) by simp
    finally show ?thesis using f by simp
  qed
  ultimately have "fs_ok good sector s'"
    using s'(2) lt f free t(2) by (simp add: fs_ok_def)
  moreover have "\<forall>b' < ?N. inode_start (sb s) \<le> b' \<longrightarrow> dblock s' b' = dblock t b'"
    using s'(4) u(4) pos i by simp
  ultimately show ?thesis using k u(1) s'(1) by simp
qed

lemma find_least:
  assumes "find P [a..<c] = Some b"
  shows "a \<le> b" "b < c" "P b" "\<forall>b' \<in> {a..<b}. \<not> P b'"
proof -
  from assms obtain i where i: "i < c - a" "P ([a..<c] ! i)" "b = [a..<c] ! i" "\<forall>j < i. \<not> P ([a..<c] ! j)"
    by (auto simp: find_Some_iff)
  then show "a \<le> b" "b < c" "P b" by auto
  show "\<forall>b' \<in> {a..<b}. \<not> P b'"
  proof
    fix b' assume b': "b' \<in> {a..<b}"
    then have "b' - a < i" using i(1,3) by auto
    moreover have "[a..<c] ! (b' - a) = b'" using b' i(1,3) by (subst nth_upt) auto
    ultimately show "\<not> P b'" using i(4) by metis
  qed
qed

text \<open>One allocation: what the new state has in common with the old one, apart from the block.\<close>

definition took :: "'d wfs \<Rightarrow> 'd wfs \<Rightarrow> nat \<Rightarrow> bool" where
  "took s s' b \<longleftrightarrow> b \<in> free_data s \<and> free_data s' = free_data s - {b} \<and> same_fs s s' \<and> fs_ok good sector s'
     \<and> dblock s' b = zero_block
     \<and> (\<forall>b'. inode_start (sb s) \<le> b' \<and> b' < total_blocks (sb s) \<and> b' \<noteq> b \<longrightarrow> dblock s' b' = dblock s b')"

lemma block_alloc_law:
  assumes ok: "fs_ok good sector s"
  shows "(free_data s = {} \<and> block_alloc s = (s, 0))
    \<or> (\<exists>s'. block_alloc s = (s', Min (free_data s)) \<and> free_data s \<noteq> {} \<and> took s s' (Min (free_data s)))"
proof (cases "find (\<lambda>b. \<not> wfs_bitmap_test s b) [data_start (sb s)..<total_blocks (sb s)]")
  case None
  then have "free_data s = {}" by (auto simp: free_data_def find_None_iff)
  then show ?thesis using None by (simp add: block_alloc_def)
next
  case (Some b)
  note b = find_least[OF Some]
  note lay = fs_okD(2)[OF ok]
  have fb: "b \<in> free_data s" using b by (simp add: free_data_def)
  have min: "Min (free_data s) = b"
  proof (rule Min_eqI)
    fix y assume "y \<in> free_data s"
    then show "b \<le> y" using b(4)[rule_format, of y] by (force simp: free_data_def)
  qed (simp_all add: fb)
  let ?s1 = "wfs_bitmap_assign s b True" let ?f = "w32 (free_blocks (sb s) + (2 ^ 32 - 1))"
  let ?s2 = "?s1\<lparr>sb := (sb s)\<lparr>free_blocks := ?f\<rparr>\<rparr>"
  have card: "card (free_data s) = Suc (card (free_data s - {b}))" using fb by (rule card.remove[rotated]) simp
  moreover have "card (free_data s) < 2 ^ 31" using free_data_card[of s] lay by (simp add: layout_ok_def)
  ultimately have f: "?f = card (free_data s - {b})" using fs_okD(4)[OF ok] by (simp add: w32_def)
  have "vol ?s2 (total_blocks (sb s))" using fs_okD(1)[OF ok] by simp
  from block_write_law[OF this b(2), of zero_block] obtain t where
    t: "block_write ?s2 b zero_block = (t, True)" "vol t (total_blocks (sb s))" "kept ?s2 t"
      "\<forall>b' < total_blocks (sb s). dblock t b' = (if b' = b then zero_block else dblock s b')"
    by (auto simp: zero_block_def)
  note k = kept_wfs[OF t(3)]
  have ft: "free_data t = free_data s - {b}" using flip_free_data[OF ok b(1,2), of t ?f True] k by simp
  have "\<forall>b' < data_start (sb s). dblock t b' = dblock s b'" using t(4) b(1,2) by simp
  moreover have "sb t = (sb s)\<lparr>free_blocks := card (free_data t)\<rparr>" using k(1) f ft by simp
  ultimately obtain s' where
    s': "fst (sync_superblock (fst (sync_bitmap_for t b))) = s'" "fs_ok good sector s'" "kept t s'"
      "\<forall>b' < total_blocks (sb s). inode_start (sb s) \<le> b' \<longrightarrow> dblock s' b' = dblock t b'"
    using flip_law[OF ok b(1,2) t(2), of True] k(2) by auto
  note k' = kept_wfs[OF s'(3)]
  have "free_data s' = free_data t" using k' by (simp add: free_data_def wfs_bitmap_test_def)
  moreover have "same_fs s s'" using k k' by (simp add: same_fs_def)
  moreover have "inode_start (sb s) \<le> b" using lay b(1) by (simp add: layout_ok_def)
  ultimately have "took s s' b" using s' t(4) fb ft b by (simp add: took_def)
  moreover have "block_alloc s = (s', b)" using Some t(1) s'(1) by (simp add: block_alloc_def Let_def)
  ultimately show ?thesis using min fb by auto
qed

lemma block_free_law:
  assumes ok: "fs_ok good sector s" and b: "data_start (sb s) \<le> b" "b < total_blocks (sb s)" "b \<notin> free_data s"
  shows "fs_ok good sector (block_free s b)" "free_data (block_free s b) = insert b (free_data s)"
    "same_fs s (block_free s b)"
    "\<forall>b' < total_blocks (sb s). inode_start (sb s) \<le> b' \<longrightarrow> dblock (block_free s b) b' = dblock s b'"
proof -
  note lay = fs_okD(2)[OF ok]
  let ?f = "w32 (free_blocks (sb s) + 1)"
  let ?t = "(wfs_bitmap_assign s b False)\<lparr>sb := (sb s)\<lparr>free_blocks := ?f\<rparr>\<rparr>"
  have test: "wfs_bitmap_test s b" using b by (simp add: free_data_def)
  have ft: "free_data ?t = insert b (free_data s)" using flip_free_data[OF ok b(1,2), of ?t ?f False] by simp
  have "card (free_data s) < 2 ^ 31" using free_data_card[of s] lay by (simp add: layout_ok_def)
  then have "?f = card (free_data ?t)" using fs_okD(4)[OF ok] ft b(3) by (simp add: w32_def)
  then obtain s' where
    s': "fst (sync_superblock (fst (sync_bitmap_for ?t b))) = s'" "fs_ok good sector s'" "kept ?t s'"
      "\<forall>b' < total_blocks (sb s). inode_start (sb s) \<le> b' \<longrightarrow> dblock s' b' = dblock ?t b'"
    using flip_law[OF ok b(1,2), of ?t False] fs_okD(1)[OF ok] by auto
  have e: "block_free s b = s'" using b test s'(1) by (simp add: block_free_def Let_def)
  note k' = kept_wfs[OF s'(3)]
  have "free_data s' = free_data ?t" using k' by (simp add: free_data_def wfs_bitmap_test_def)
  then show "fs_ok good sector (block_free s b)" "free_data (block_free s b) = insert b (free_data s)"
    "same_fs s (block_free s b)"
    "\<forall>b' < total_blocks (sb s). inode_start (sb s) \<le> b' \<longrightarrow> dblock (block_free s b) b' = dblock s b'"
    unfolding e using s' ft k' by (simp_all add: same_fs_def)
qed

lemma block_free_noop:
  assumes "b < data_start (sb s) \<or> total_blocks (sb s) \<le> b \<or> b \<in> free_data s"
  shows "block_free s b = s"
  using assms by (auto simp: block_free_def free_data_def)

text \<open>Writing the superblock and a one-block bitmap makes a volume consistent.\<close>

lemma format_ok:
  assumes "vol s (total_blocks (sb s))" "layout_ok (sb s)" "bitmap_blocks (sb s) = 1"
    "length (block_bitmap s) = WFS_BLOCK_SIZE" "free_blocks (sb s) = card (free_data s)"
  shows "fs_ok good sector (fst (sync_superblock (fst (sync_bitmap_for s 0))))"
proof -
  have n: "0 < total_blocks (sb s)" "bitmap_start (sb s) \<noteq> 0" "bitmap_start (sb s) < total_blocks (sb s)"
    using assms(2,3) by (auto simp: layout_ok_def)
  from sync_bitmap_law[OF assms(1,2) n(1)] assms(3,4) obtain u where
    u: "sync_bitmap_for s 0 = (u, True)" "vol u (total_blocks (sb s))" "kept s u"
      "\<forall>b' < total_blocks (sb s). dblock u b' = (if b' = bitmap_start (sb s) then block_bitmap s else dblock s b')"
    by auto
  from sync_superblock_law[OF u(2) n(1)] obtain s' where
    s': "sync_superblock u = (s', True)" "vol s' (total_blocks (sb s))" "kept u s'"
      "\<forall>b < total_blocks (sb s). dblock s' b = (if b = 0 then sb_image (sb u) else dblock u b)" by auto
  note k = kept_wfs[OF u(3)] kept_wfs[OF s'(3)]
  have "free_data s' = free_data s" using k by (simp add: free_data_def wfs_bitmap_test_def)
  moreover have "free_blocks (sb s) < 2 ^ 32"
    using free_data_card[of s] assms(2,5) by (simp add: layout_ok_def)
  ultimately show ?thesis using assms(2-) u s' k n sb_image_decode[of "sb s"]
    by (simp add: fs_ok_def WFS_BLOCK_SIZE_def)
qed

text \<open>Steps that change neither a block of the volume nor a variable of the driver.\<close>

definition quiet :: "'d wfs \<Rightarrow> 'd wfs \<Rightarrow> bool" where
  "quiet s s' \<longleftrightarrow> kept s s' \<and> vol s' (total_blocks (sb s)) \<and> (\<forall>b < total_blocks (sb s). dblock s' b = dblock s b)"

lemma quiet_refl: "fs_ok good sector s \<Longrightarrow> quiet s s"
  by (simp add: quiet_def kept_def fs_ok_def)

lemma quiet_trans: "quiet s s' \<Longrightarrow> quiet s' s'' \<Longrightarrow> quiet s s''"
  using kept_wfs(1)[of s s'] by (simp add: quiet_def kept_def)

lemma quiet_free_data: "quiet s s' \<Longrightarrow> free_data s' = free_data s"
  using kept_wfs(1,2)[of s s'] by (simp add: quiet_def free_data_def wfs_bitmap_test_def)

lemma quiet_fs_ok:
  assumes "fs_ok good sector s" "quiet s s'"
  shows "fs_ok good sector s'"
proof -
  note k = kept_wfs[of s s'] and lay = fs_okD(2)[OF assms(1)]
  have "bitmap_start (sb s) + i < total_blocks (sb s)" if "i < bitmap_blocks (sb s)" for i
    using that lay by (auto simp: layout_ok_def)
  moreover have "0 < total_blocks (sb s)" using lay by (auto simp: layout_ok_def)
  ultimately show ?thesis using assms quiet_free_data[OF assms(2)] k by (simp add: fs_ok_def quiet_def)
qed

lemma block_read_quiet:
  assumes "fs_ok good sector s" "b < total_blocks (sb s)"
  shows "\<exists>s'. block_read s b = (s', Some (dblock s b)) \<and> quiet s s'"
  using block_read_law[OF fs_okD(1)[OF assms(1)] assms(2)]
  by (auto simp: quiet_def disk_block_def kept_def)

abbreviation inode_slot :: "'d wfs \<Rightarrow> nat \<Rightarrow> wfs_inode" where
  "inode_slot s ino \<equiv> inode_at sector s ino"

lemma inode_block_bounds:
  assumes "fs_ok good sector s" "ino < total_inodes (sb s)"
  shows "inode_block s ino = inode_start (sb s) + ino div 16" "inode_block s ino < data_start (sb s)"
    "inode_start (sb s) \<le> inode_block s ino" "inode_block s ino < total_blocks (sb s)"
proof -
  have i: "ino div 16 < inode_blocks (sb s)" using assms by (auto simp: fs_ok_def layout_ok_def less_mult_imp_div_less)
  then show "inode_block s ino = inode_start (sb s) + ino div 16"
    using assms by (auto simp: fs_ok_def layout_ok_def inode_block_def w32_def WFS_INODES_PER_BLOCK_def
        WFS_BLOCK_SIZE_def WFS_INODE_SIZE_def)
  then show "inode_block s ino < data_start (sb s)" "inode_start (sb s) \<le> inode_block s ino"
    "inode_block s ino < total_blocks (sb s)" using i assms by (auto simp: fs_ok_def layout_ok_def)
qed

lemma read_inode_law:
  assumes "fs_ok good sector s" "0 < ino" "ino < total_inodes (sb s)"
  shows "\<exists>s'. wfs_read_inode s ino = (s', Inr (inode_slot s ino)) \<and> quiet s s'"
  using block_read_quiet[OF assms(1) inode_block_bounds(4)[OF assms(1,3)]] assms(2,3)
  by (auto simp: wfs_read_inode_def WFS_INVALID_INO_def inode_at_def)

lemma inode_at_other:
  assumes "ino' \<noteq> ino" "ino' div 16 = ino div 16" "length buf = 1024" "length x = 64"
  shows "take 64 (drop (ino' mod 16 * 64) (memcpy_at buf (ino mod 16 * 64) x)) = take 64 (drop (ino' mod 16 * 64) buf)"
proof -
  have ne: "ino' mod 16 \<noteq> ino mod 16" using assms(1,2) by (metis div_mod_decomp)
  then have "ino' mod 16 * 64 + 64 \<le> ino mod 16 * 64 \<or> ino mod 16 * 64 + 64 \<le> ino' mod 16 * 64" by linarith
  moreover have "ino mod 16 * 64 + 64 \<le> 1024" by (simp add: inode_offset_bounds(2)[of ino, unfolded inode_offset_bounds(1)])
  ultimately show ?thesis using assms(3,4) by (intro memcpy_at_slice_other) simp_all
qed

lemma write_inode_law:
  assumes ok: "fs_ok good sector s" and ino: "0 < ino" "ino < total_inodes (sb s)" and x: "inode_fits x"
  shows "\<exists>s'. write_inode s ino x = (s', Inr ()) \<and> kept s s' \<and> fs_ok good sector s'
    \<and> (\<forall>ino' < total_inodes (sb s). inode_slot s' ino' = (if ino' = ino then x else inode_slot s ino'))
    \<and> (\<forall>b < total_blocks (sb s). data_start (sb s) \<le> b \<longrightarrow> dblock s' b = dblock s b)"
proof -
  let ?b = "inode_block s ino" and ?N = "total_blocks (sb s)"
  note lay = fs_okD(2)[OF ok] and bb = inode_block_bounds[OF ok ino(2)]
  let ?buf = "memcpy_at (dblock s ?b) (inode_offset ino) (encode_inode x)"
  from block_read_quiet[OF ok bb(4)] obtain t where t: "block_read s ?b = (t, Some (dblock s ?b))" "quiet s t" by blast
  have len: "length (encode_inode x) = 64" "length (dblock s ?b) = 1024"
    using x dblock_length[OF fs_okD(1)[OF ok] bb(4)] by (simp_all add: encode_inode_length inode_fits_def WFS_INODE_SIZE_def WFS_BLOCK_SIZE_def)
  then have lb: "length ?buf = WFS_BLOCK_SIZE" using inode_offset_bounds(2)[of ino] by (simp add: WFS_BLOCK_SIZE_def)
  from t(2) have "vol t ?N" by (simp add: quiet_def)
  from block_write_law[OF this bb(4) lb] obtain s' where
    s': "block_write t ?b ?buf = (s', True)" "vol s' ?N" "kept t s'"
      "\<forall>b' < ?N. dblock s' b' = (if b' = ?b then ?buf else dblock t b')" by auto
  have k: "kept s s'" using t(2) s'(3) by (simp add: quiet_def kept_def)
  have d: "dblock s' b' = (if b' = ?b then ?buf else dblock s b')" if "b' < ?N" for b'
    using that s'(4) t(2) by (simp add: quiet_def)
  note kk = kept_wfs[OF k]
  have "inode_block t ino = ?b" using kept_wfs(1)[of s t] t(2) by (simp add: inode_block_def quiet_def)
  then have "write_inode s ino x = (s', Inr ())" using ino t(1) s'(1) by (simp add: write_inode_def WFS_INVALID_INO_def)
  moreover have "fs_ok good sector s'"
    unfolding fs_ok_def kk using ok s'(2) lay bb d kk
    by (auto simp: fs_ok_def layout_ok_def free_data_def wfs_bitmap_test_def)
  moreover have "inode_slot s' i = (if i = ino then x else inode_slot s i)" if i: "i < total_inodes (sb s)" for i
  proof -
    have e: "inode_block s' i = inode_block s i" using kk by (simp add: inode_block_def)
    note bi = inode_block_bounds[OF ok i]
    show ?thesis
    proof (cases "i = ino")
      case True
      have "take 64 (drop (inode_offset ino) ?buf) = encode_inode x"
        using len inode_offset_bounds(2)[of ino] by (intro memcpy_at_read) simp_all
      then show ?thesis using True e d[OF bb(4)] decode_encode_inode[OF x] by (simp add: inode_at_def WFS_INODE_SIZE_def)
    next
      case False
      then show ?thesis using e d[OF bi(4)] bi(1) bb(1) inode_at_other[OF False _ len(2,1)]
        by (simp add: inode_at_def WFS_INODE_SIZE_def inode_offset_bounds(1))
    qed
  qed
  moreover have "\<forall>b < ?N. data_start (sb s) \<le> b \<longrightarrow> dblock s' b = dblock s b" using d bb(2) by simp
  ultimately show ?thesis using k by blast
qed

text \<open>Changing the count of free inodes and writing the superblock back.\<close>

lemma count_inodes_law:
  assumes ok: "fs_ok good sector s" and f: "f < 2 ^ 32"
  shows "\<exists>s'. fst (sync_superblock (s\<lparr>sb := (sb s)\<lparr>free_inodes := f\<rparr>\<rparr>)) = s' \<and> fs_ok good sector s'
    \<and> sb s' = (sb s)\<lparr>free_inodes := f\<rparr> \<and> free_data s' = free_data s
    \<and> (\<forall>b < total_blocks (sb s). 0 < b \<longrightarrow> dblock s' b = dblock s b)
    \<and> mounted s' = mounted s \<and> rtc_epoch s' = rtc_epoch s \<and> kernel_heap s' = kernel_heap s"
proof -
  let ?t = "s\<lparr>sb := (sb s)\<lparr>free_inodes := f\<rparr>\<rparr>"
  note lay = fs_okD(2)[OF ok]
  have N: "0 < total_blocks (sb s)" using lay by (auto simp: layout_ok_def)
  have "vol ?t (total_blocks (sb s))" using fs_okD(1)[OF ok] by simp
  from sync_superblock_law[OF this N] obtain s' where
    s': "sync_superblock ?t = (s', True)" "vol s' (total_blocks (sb s))" "kept ?t s'"
      "\<forall>b < total_blocks (sb s). dblock s' b = (if b = 0 then sb_image (sb ?t) else dblock s b)" by auto
  note k = kept_wfs[OF s'(3)]
  have free: "free_data s' = free_data s" using k by (simp add: free_data_def wfs_bitmap_test_def)
  have lt: "layout_ok (sb ?t)" using lay f by (simp add: layout_ok_def)
  moreover have "free_blocks (sb s) < 2 ^ 32"
    using free_data_card[of s] fs_okD(4)[OF ok] lay by (simp add: layout_ok_def)
  ultimately have dec: "decode_superblock (take sizeof_superblock (dblock s' 0)) = sb s'"
    using s'(4) N k sb_image_decode[of "sb ?t"] by simp
  have bm: "dblock s' (bitmap_start (sb s) + i) = take WFS_BLOCK_SIZE (drop (i * WFS_BLOCK_SIZE) (block_bitmap s))"
    if "i < bitmap_blocks (sb s)" for i
  proof -
    have "0 < bitmap_start (sb s)" "bitmap_start (sb s) + i < total_blocks (sb s)"
      using lay that by (auto simp: layout_ok_def)
    then show ?thesis using s'(4) fs_okD(5)[OF ok that] by simp
  qed
  have "fs_ok good sector s'" using s'(2) k free dec lt bm fs_okD(3,4)[OF ok] by (simp add: fs_ok_def)
  then show ?thesis using s' k free by simp
qed

abbreviation new_inode :: "'d wfs \<Rightarrow> nat \<Rightarrow> wfs_inode" where
  "new_inode s ty \<equiv> zero_inode\<lparr>itype := ty, links := 1, mtime := rtc_epoch s\<rparr>"

lemma inode_slot_cong:
  assumes ok: "fs_ok good sector s" and "ino < total_inodes (sb s)" "inode_start (sb s') = inode_start (sb s)"
    "\<forall>b < total_blocks (sb s). 0 < b \<longrightarrow> dblock s' b = dblock s b"
  shows "inode_slot s' ino = inode_slot s ino"
proof -
  have "0 < inode_start (sb s)" using fs_okD(2)[OF ok] by (auto simp: layout_ok_def)
  then show ?thesis using assms(3,4) inode_block_bounds[OF ok assms(2)]
    by (simp add: inode_at_def inode_block_def[of s'] inode_block_def[of s, symmetric])
qed

lemma quiet_inode: "fs_ok good sector s \<Longrightarrow> quiet s s' \<Longrightarrow> ino < total_inodes (sb s) \<Longrightarrow> inode_slot s' ino = inode_slot s ino"
  using kept_wfs(1)[of s s'] by (intro inode_slot_cong) (simp_all add: quiet_def)

lemma inode_alloc_loop_law:
  assumes "fs_ok good sector s" "\<forall>i \<in> set is. 0 < i \<and> i < total_inodes (sb s)" "ty < 2 ^ 16" "rtc_epoch s < 2 ^ 32"
  shows "case find (\<lambda>i. itype (inode_slot s i) = WFS_TYPE_FREE) is of
      None \<Rightarrow> \<exists>s'. inode_alloc_loop s ty is = (s', Inl W_ENOSPC) \<and> quiet s s'
    | Some i \<Rightarrow> \<exists>s'. inode_alloc_loop s ty is = (s', Inr i) \<and> fs_ok good sector s' \<and> free_data s' = free_data s
        \<and> sb s' = (sb s)\<lparr>free_inodes := w32 (free_inodes (sb s) + (2 ^ 32 - 1))\<rparr>
        \<and> (\<forall>j < total_inodes (sb s). inode_slot s' j = (if j = i then new_inode s ty else inode_slot s j))
        \<and> (\<forall>b < total_blocks (sb s). data_start (sb s) \<le> b \<longrightarrow> dblock s' b = dblock s b)"
  using assms
proof (induction "is" arbitrary: s)
  case Nil
  then show ?case using quiet_refl by simp
next
  case (Cons i "is")
  note ok = Cons.prems(1)
  have i: "0 < i" "i < total_inodes (sb s)" using Cons.prems(2) by simp_all
  from read_inode_law[OF ok i] obtain t where t: "wfs_read_inode s i = (t, Inr (inode_slot s i))" "quiet s t" by blast
  have tok: "fs_ok good sector t" by (rule quiet_fs_ok[OF ok t(2)])
  have kt: "sb t = sb s" "rtc_epoch t = rtc_epoch s" using kept_wfs[of s t] t(2) by (simp_all add: quiet_def)
  show ?case
  proof (cases "itype (inode_slot s i) = WFS_TYPE_FREE")
    case False
    have *: "find (\<lambda>i. itype (inode_slot t i) = WFS_TYPE_FREE) is = find (\<lambda>i. itype (inode_slot s i) = WFS_TYPE_FREE) is"
      using Cons.prems(2) quiet_inode[OF ok t(2)] by (intro find_cong) auto
    have dt: "\<forall>b < total_blocks (sb s). dblock t b = dblock s b" using t(2) by (simp add: quiet_def)
    show ?thesis
      using Cons.IH[OF tok] Cons.prems(2-4) kt False t(1) quiet_inode[OF ok t(2)] quiet_trans[OF t(2)] quiet_free_data[OF t(2)] dt
      unfolding * by (auto split: option.splits)
  next
    case True
    have "inode_fits (new_inode s ty)" using Cons.prems(3,4)
      by (simp add: inode_fits_def zero_inode_def WFS_DIRECT_def)
    from write_inode_law[OF tok i(1) _ this] i kt obtain u where
      u: "write_inode t i (new_inode s ty) = (u, Inr ())" "kept t u" "fs_ok good sector u"
        "\<forall>j < total_inodes (sb s). inode_slot u j = (if j = i then new_inode s ty else inode_slot t j)"
        "\<forall>b < total_blocks (sb s). data_start (sb s) \<le> b \<longrightarrow> dblock u b = dblock t b" by auto
    note ku = kept_wfs[OF u(2)]
    let ?f = "w32 (free_inodes (sb s) + (2 ^ 32 - 1))"
    have "?f < 2 ^ 32" by (simp add: w32_def)
    from count_inodes_law[OF u(3) this] ku kt obtain s' where
      s': "fst (sync_superblock (u\<lparr>sb := (sb s)\<lparr>free_inodes := ?f\<rparr>\<rparr>)) = s'" "fs_ok good sector s'"
        "sb s' = (sb s)\<lparr>free_inodes := ?f\<rparr>" "free_data s' = free_data u"
        "\<forall>b < total_blocks (sb s). 0 < b \<longrightarrow> dblock s' b = dblock u b" by auto
    have "free_data u = free_data s" using ku kt quiet_free_data[OF t(2)] by (simp add: free_data_def wfs_bitmap_test_def)
    moreover have "inode_slot s' j = inode_slot u j" if "j < total_inodes (sb s)" for j
      using that s' ku kt u(3) by (intro inode_slot_cong) simp_all
    moreover have "0 < data_start (sb s)" using fs_okD(2)[OF ok] by (auto simp: layout_ok_def)
    moreover have "dblock t b = dblock s b" if "b < total_blocks (sb s)" for b using that t(2) by (simp add: quiet_def)
    ultimately show ?thesis using True t(1) u s' ku kt quiet_inode[OF ok t(2)] by (simp add: Let_def)
  qed
qed

end

text \<open>A volume of sixteen blocks on the memory disk: thirteen data blocks, all free, and an empty inode
  table.\<close>

definition demo_sb :: wfs_superblock where
  "demo_sb = \<lparr>magic = WFS_MAGIC, block_size = 1024, total_blocks = 16, free_blocks = 13, total_inodes = 16,
     free_inodes = 15, bitmap_start = 1, bitmap_blocks = 1, inode_start = 2, inode_blocks = 1, data_start = 3,
     root_inode = 1\<rparr>"

definition demo_wfs :: "unit wfs" where
  "demo_wfs = disk.extend demo_disk (wfs.fields demo_sb (replicate 1024 0) 0 True demo_kheap 7)"

definition demo_fs :: "unit wfs" where
  "demo_fs = fst (sync_superblock (fst (sync_bitmap_for demo_wfs 0)))"

lemma demo_wfs_fields [simp]:
  "sb demo_wfs = demo_sb" "block_bitmap demo_wfs = replicate 1024 0" "mounted demo_wfs"
  "kernel_heap demo_wfs = demo_kheap" "rtc_epoch demo_wfs = 7"
  by (simp_all add: demo_wfs_def disk.defs wfs.defs)

lemma demo_wfs_volume: "volume ram_good ram_sector demo_wfs 16"
  by (simp add: demo_wfs_def disk.defs volume_def demo_disk_def demo_drives_def ram_good_def)

lemma demo_wfs_free: "free_data demo_wfs = {3..<16}"
  by (auto simp: free_data_def demo_sb_def wfs_bitmap_test_def)

lemma demo_fs_ok: "fs_ok ram_good ram_sector demo_fs"
  unfolding demo_fs_def using demo_wfs_volume demo_wfs_free
  by (intro rd.format_ok) (simp_all add: demo_sb_def layout_ok_def WFS_BLOCK_SIZE_def WFS_MAGIC_def)

text \<open>C36. On a consistent volume \<open>block_alloc\<close> hands out the lowest free data block, zeroed: the
  bitmap and the free count in memory and on the disk agree again afterwards, every other inode and data
  block is untouched, and 0 is returned, with nothing changed, exactly when no data block is free.\<close>

theorem block_alloc_correct:
  assumes "wfs_device good sector" "fs_ok good sector s"
  shows "if free_data s = {} then block_alloc s = (s, 0)
    else (\<exists>s'. block_alloc s = (s', Min (free_data s)) \<and> fs_ok good sector s' \<and> same_fs s s'
      \<and> free_data s' = free_data s - {Min (free_data s)} \<and> disk_block sector s' (Min (free_data s)) = zero_block
      \<and> (\<forall>b. inode_start (sb s) \<le> b \<and> b < total_blocks (sb s) \<and> b \<noteq> Min (free_data s)
          \<longrightarrow> disk_block sector s' b = disk_block sector s b))"
  using wfs_device.block_alloc_law[OF assms] by (auto simp: wfs_device.took_def[OF assms(1)])

lemma demo_zero: "disk_block ram_sector demo_wfs b = zero_block"
  by (simp add: disk_block_def ram_sector_def load_bytes_def demo_wfs_def disk.defs demo_disk_def demo_drives_def
      zero_block_def SECTOR_BYTES_def WFS_BLOCK_SIZE_def map_replicate_const replicate_add[symmetric])

lemma demo_fs_sync:
  "rd.kept demo_wfs demo_fs \<and> (\<forall>b < 16. 2 \<le> b \<longrightarrow> disk_block ram_sector demo_fs b = zero_block)"
proof -
  have "volume ram_good ram_sector demo_wfs (total_blocks (sb demo_wfs))"
    using demo_wfs_volume by (simp add: demo_sb_def)
  from rd.sync_bitmap_law[OF this, of 0] obtain u where
    u: "sync_bitmap_for demo_wfs 0 = (u, True)" "volume ram_good ram_sector u 16" "rd.kept demo_wfs u"
      "\<forall>b < 16. 2 \<le> b \<longrightarrow> disk_block ram_sector u b = zero_block"
    by (auto simp: demo_sb_def layout_ok_def WFS_BLOCK_SIZE_def WFS_MAGIC_def demo_zero)
  from rd.sync_superblock_law[OF u(2)] obtain s' where
    "sync_superblock u = (s', True)" "rd.kept u s'" "\<forall>b < 16. 2 \<le> b \<longrightarrow> disk_block ram_sector s' b = disk_block ram_sector u b"
    by auto
  then show ?thesis using u by (simp add: demo_fs_def rd.kept_def)
qed

lemma demo_fs_fields: "free_data demo_fs = {3..<16}" "sb demo_fs = demo_sb" "mounted demo_fs" "rtc_epoch demo_fs = 7"
  using rd.kept_wfs[of demo_wfs demo_fs] demo_fs_sync demo_wfs_free by (simp_all add: free_data_def wfs_bitmap_test_def)

lemma demo_inode: "ino < 16 \<Longrightarrow> inode_at ram_sector demo_fs ino = zero_inode"
proof -
  assume "ino < 16"
  then have "disk_block ram_sector demo_fs (inode_block demo_fs ino) = zero_block"
    using demo_fs_sync by (simp add: inode_block_def demo_fs_fields demo_sb_def WFS_INODES_PER_BLOCK_def
        WFS_BLOCK_SIZE_def WFS_INODE_SIZE_def w32_def)
  moreover have "take 64 (drop (inode_offset ino) zero_block) = replicate 64 0"
    using inode_offset_bounds(2)[of ino] by (simp add: zero_block_def WFS_BLOCK_SIZE_def)
  moreover have "decode_inode (replicate 64 0) = zero_inode"
  proof -
    have r: "rd32 (replicate 64 0) i = 0" if "i \<le> 60" for i using that by (simp add: rd32_def)
    have "map (\<lambda>i. rd32 (replicate 64 0) (16 + 4 * i)) [0..<WFS_DIRECT] = replicate WFS_DIRECT 0"
      by (intro nth_equalityI) (auto simp: WFS_DIRECT_def intro!: r)
    then show ?thesis using r[of 4] r[of 8] r[of 12] r[of 56] r[of 60]
      by (simp add: decode_inode_def zero_inode_def rd16_def)
  qed
  ultimately show ?thesis by (simp add: inode_at_def WFS_INODE_SIZE_def)
qed

theorem block_alloc_correct_witness:
  "\<exists>s'. block_alloc demo_fs = (s', 3) \<and> fs_ok ram_good ram_sector s' \<and> free_data s' = {3..<16} - {3}"
proof -
  have "Min {3..<16::nat} = 3" by (rule Min_eqI) auto
  then show ?thesis
    using block_alloc_correct[OF rd.wfs_device_axioms demo_fs_ok] unfolding demo_fs_fields(1) by auto
qed

text \<open>\<open>block_free\<close> returns a data block to the free set, keeps the volume consistent and
  writes no other block; a number outside the data area or a block that is free already changes
  nothing, so that a block is never counted twice.\<close>

theorem block_free_correct:
  assumes "wfs_device good sector" "fs_ok good sector s"
  shows "fs_ok good sector (block_free s b) \<and> same_fs s (block_free s b)
    \<and> free_data (block_free s b) = free_data s \<union> ({b} \<inter> {data_start (sb s)..<total_blocks (sb s)})
    \<and> (\<forall>b'. inode_start (sb s) \<le> b' \<and> b' < total_blocks (sb s)
         \<longrightarrow> disk_block sector (block_free s b) b' = disk_block sector s b')"
proof (cases "data_start (sb s) \<le> b \<and> b < total_blocks (sb s) \<and> b \<notin> free_data s")
  case True
  then show ?thesis using wfs_device.block_free_law[OF assms, of b] by auto
next
  case False
  then have "block_free s b = s" by (intro wfs_device.block_free_noop[OF assms(1)]) auto
  then show ?thesis using assms(2) False by auto
qed

theorem block_free_correct_witness:
  "fs_ok ram_good ram_sector (block_free demo_fs 2) \<and> free_data (block_free demo_fs 2) = {3..<16}"
  using block_free_correct[OF rd.wfs_device_axioms demo_fs_ok, of 2]
  by (simp add: demo_fs_fields demo_sb_def)

text \<open>\<open>inode_alloc\<close> claims the lowest free inode of a consistent volume and initialises it; all
  other inodes and all data blocks keep their contents, and it fails with ENOSPC exactly when no inode
  is free.\<close>

theorem inode_alloc_correct:
  assumes "wfs_device good sector" "fs_ok good sector s" "ty < 2 ^ 16" "rtc_epoch s < 2 ^ 32"
  shows "case find (\<lambda>i. itype (inode_at sector s i) = WFS_TYPE_FREE) [WFS_ROOT_INO..<total_inodes (sb s)] of
      None \<Rightarrow> snd (inode_alloc s ty) = Inl W_ENOSPC
    | Some i \<Rightarrow> \<exists>s'. inode_alloc s ty = (s', Inr i) \<and> fs_ok good sector s' \<and> free_data s' = free_data s
        \<and> (\<forall>j < total_inodes (sb s). inode_at sector s' j =
             (if j = i then zero_inode\<lparr>itype := ty, links := 1, mtime := rtc_epoch s\<rparr> else inode_at sector s j))
        \<and> (\<forall>b < total_blocks (sb s). data_start (sb s) \<le> b \<longrightarrow> disk_block sector s' b = disk_block sector s b)"
  using wfs_device.inode_alloc_loop_law[OF assms(1,2) _ assms(3,4), of "[WFS_ROOT_INO..<total_inodes (sb s)]"]
  by (auto simp: inode_alloc_def WFS_ROOT_INO_def split: option.splits)

theorem inode_alloc_correct_witness:
  "\<exists>s'. inode_alloc demo_fs WFS_TYPE_FILE = (s', Inr 1) \<and> fs_ok ram_good ram_sector s'
     \<and> inode_at ram_sector s' 1 = zero_inode\<lparr>itype := WFS_TYPE_FILE, links := 1, mtime := 7\<rparr>"
proof -
  have "find (\<lambda>i. itype (inode_at ram_sector demo_fs i) = WFS_TYPE_FREE) [WFS_ROOT_INO..<16] = Some 1"
    using demo_inode[of 1] by (simp add: WFS_ROOT_INO_def upt_conv_Cons zero_inode_def WFS_TYPE_FREE_def)
  then show ?thesis
    using inode_alloc_correct[OF rd.wfs_device_axioms demo_fs_ok, of WFS_TYPE_FILE]
    by (auto simp: demo_fs_fields demo_sb_def WFS_TYPE_FILE_def)
qed

end
