(* ===== verification/Wfs_Tree.thy ===== *)
theory Wfs_Tree
  imports Wfs_Alloc
begin

text \<open>
  The tree of blocks a file owns, seen from the inode.

  A place in the tree is a \<open>loc\<close>: one of the ten direct pointers, the indirect block and its entries,
  the double-indirect block, its middle blocks and their entries.  \<open>loc_at\<close> reads the block number
  stored at a place.  A file is \<open>tree_ok\<close> when no block number occurs at two places and all of them are
  blocks in use.  Placing a fresh block at an empty place changes that place and no other, and from
  this the bytes of a file follow (\<open>file_byte\<close>).
\<close>

definition entry :: "bytes \<Rightarrow> nat \<Rightarrow> nat" where
  "entry d i = rd32 d (4 * i)"

definition put_entry :: "bytes \<Rightarrow> nat \<Rightarrow> nat \<Rightarrow> bytes" where
  "put_entry d i b = encode_table ((decode_table d)[i := b])"

lemma decode_table_nth: "i < 256 \<Longrightarrow> decode_table d ! i = entry d i"
  by (simp add: decode_table_def entry_def WFS_PTRS_PER_BLOCK_def WFS_BLOCK_SIZE_def)

lemma unat_lt_2_8: "unat (x :: u8) < 256"
  using unsigned_less[of x, where 'a = nat] by simp

lemma rd32_less: "rd32 d i < 2 ^ 32"
  using unat_lt_2_8[of "d ! i"] unat_lt_2_8[of "d ! (i + 1)"] unat_lt_2_8[of "d ! (i + 2)"] unat_lt_2_8[of "d ! (i + 3)"]
  by (simp add: rd32_def)

lemma entry_put:
  assumes "i < 256" "j < 256" "b < 2 ^ 32"
  shows "entry (put_entry d i b) j = (if j = i then b else entry d j)"
proof -
  let ?t = "(decode_table d)[i := b]"
  have l: "length ?t = WFS_PTRS_PER_BLOCK" by (simp add: decode_table_def)
  have "set ?t \<subseteq> insert b (set (decode_table d))" by (rule set_update_subset_insert)
  then have "\<forall>n \<in> set ?t. n < 2 ^ 32" using assms(3) rd32_less by (auto simp: decode_table_def)
  from decode_encode_table[OF l this] have "decode_table (encode_table ?t) ! j = ?t ! j" by simp
  then show ?thesis using assms(1,2) l
    by (auto simp: put_entry_def decode_table_nth nth_list_update WFS_PTRS_PER_BLOCK_def WFS_BLOCK_SIZE_def)
qed

lemma put_entry_length: "length (put_entry d i b) = WFS_BLOCK_SIZE"
  by (simp add: put_entry_def encode_table_def decode_table_def WFS_PTRS_PER_BLOCK_def WFS_BLOCK_SIZE_def)

lemma entry_zero [simp]: "i < 256 \<Longrightarrow> entry zero_block i = 0"
  by (simp add: entry_def rd32_def zero_block_def WFS_BLOCK_SIZE_def)

datatype loc = Direct nat | Indirect | Indirect_Entry nat | Double | Middle nat | Double_Entry nat nat

fun loc_valid :: "loc \<Rightarrow> bool" where
  "loc_valid (Direct i) = (i < 10)"
| "loc_valid Indirect = True"
| "loc_valid (Indirect_Entry i) = (i < 256)"
| "loc_valid Double = True"
| "loc_valid (Middle i) = (i < 256)"
| "loc_valid (Double_Entry i j) = (i < 256 \<and> j < 256)"

fun loc_at :: "(nat \<Rightarrow> bytes) \<Rightarrow> wfs_inode \<Rightarrow> loc \<Rightarrow> nat" where
  "loc_at D x (Direct i) = direct x ! i"
| "loc_at D x Indirect = indirect x"
| "loc_at D x (Indirect_Entry i) = (if indirect x = 0 then 0 else entry (D (indirect x)) i)"
| "loc_at D x Double = double_indirect x"
| "loc_at D x (Middle i) = (if double_indirect x = 0 then 0 else entry (D (double_indirect x)) i)"
| "loc_at D x (Double_Entry i j) =
     (let m = (if double_indirect x = 0 then 0 else entry (D (double_indirect x)) i)
      in if m = 0 then 0 else entry (D m) j)"

fun is_data :: "loc \<Rightarrow> bool" where
  "is_data (Direct _) = True"
| "is_data (Indirect_Entry _) = True"
| "is_data (Double_Entry _ _) = True"
| "is_data _ = False"

definition file_blocks :: "(nat \<Rightarrow> bytes) \<Rightarrow> wfs_inode \<Rightarrow> nat set" where
  "file_blocks D x = {loc_at D x l | l. loc_valid l} - {0}"

lemma file_blocks_iff: "n \<in> file_blocks D x \<longleftrightarrow> n \<noteq> 0 \<and> (\<exists>l. loc_valid l \<and> loc_at D x l = n)"
  by (auto simp: file_blocks_def)

definition tree_ok :: "(nat \<Rightarrow> bytes) \<Rightarrow> nat set \<Rightarrow> wfs_inode \<Rightarrow> bool" where
  "tree_ok D U x \<longleftrightarrow> length (direct x) = 10 \<and> file_blocks D x \<subseteq> U
     \<and> (\<forall>l l'. loc_valid l \<and> loc_valid l' \<and> loc_at D x l = loc_at D x l' \<and> loc_at D x l \<noteq> 0 \<longrightarrow> l = l')"

lemma tree_ok_used: "tree_ok D U x \<Longrightarrow> loc_valid l \<Longrightarrow> loc_at D x l \<noteq> 0 \<Longrightarrow> loc_at D x l \<in> U"
  by (auto simp: tree_ok_def file_blocks_def)

lemma tree_ok_inj:
  "tree_ok D U x \<Longrightarrow> loc_valid l \<Longrightarrow> loc_valid l' \<Longrightarrow> loc_at D x l = loc_at D x l' \<Longrightarrow> loc_at D x l \<noteq> 0 \<Longrightarrow> l = l'"
  by (auto simp: tree_ok_def)

text \<open>The tree only depends on its pointer blocks.\<close>

lemma loc_at_cong:
  assumes "\<And>l. loc_valid l \<Longrightarrow> \<not> is_data l \<Longrightarrow> loc_at D x l \<noteq> 0 \<Longrightarrow> D' (loc_at D x l) = D (loc_at D x l)" "loc_valid l"
  shows "loc_at D' x l = loc_at D x l"
proof -
  have i: "indirect x \<noteq> 0 \<Longrightarrow> D' (indirect x) = D (indirect x)" using assms(1)[of Indirect] by simp
  have d: "double_indirect x \<noteq> 0 \<Longrightarrow> D' (double_indirect x) = D (double_indirect x)" using assms(1)[of Double] by simp
  show ?thesis
  proof (cases l)
    case (Double_Entry i j)
    then show ?thesis using assms(1)[of "Middle i"] d assms(2) by (auto simp: Let_def)
  qed (use i d in auto)
qed

text \<open>Where a place is stored, and storing a block number there.\<close>

fun place_ok :: "(nat \<Rightarrow> bytes) \<Rightarrow> wfs_inode \<Rightarrow> loc \<Rightarrow> bool" where
  "place_ok D x (Indirect_Entry i) = (indirect x \<noteq> 0)"
| "place_ok D x (Middle i) = (double_indirect x \<noteq> 0)"
| "place_ok D x (Double_Entry i j) = (loc_at D x (Middle i) \<noteq> 0)"
| "place_ok D x _ = True"

fun place_block :: "(nat \<Rightarrow> bytes) \<Rightarrow> wfs_inode \<Rightarrow> loc \<Rightarrow> nat \<Rightarrow> nat \<Rightarrow> bytes" where
  "place_block D x (Indirect_Entry i) b = D(indirect x := put_entry (D (indirect x)) i b)"
| "place_block D x (Middle i) b = D(double_indirect x := put_entry (D (double_indirect x)) i b)"
| "place_block D x (Double_Entry i j) b =
     D(loc_at D x (Middle i) := put_entry (D (loc_at D x (Middle i))) j b)"
| "place_block D x _ b = D"

fun place_inode :: "wfs_inode \<Rightarrow> loc \<Rightarrow> nat \<Rightarrow> wfs_inode" where
  "place_inode x (Direct i) b = x\<lparr>direct := (direct x)[i := b]\<rparr>"
| "place_inode x Indirect b = x\<lparr>indirect := b\<rparr>"
| "place_inode x Double b = x\<lparr>double_indirect := b\<rparr>"
| "place_inode x _ b = x"

lemma place_at:
  assumes ok: "tree_ok D U x" and l: "loc_valid l" "place_ok D x l" "loc_at D x l = 0"
    and b: "b \<notin> U" "b \<noteq> 0" "b < 2 ^ 32" and l': "loc_valid l'"
    and D': "D' = (place_block D x l b)(b := zero_block)"
  shows "loc_at D' (place_inode x l b) l' = (if l' = l then b else loc_at D x l')"
proof -
  have len: "length (direct x) = 10" using ok by (simp add: tree_ok_def)
  have nb: "loc_at D x k \<noteq> b" if "loc_valid k" for k using tree_ok_used[OF ok that] b by auto
  have ni: "indirect x \<noteq> b" "double_indirect x \<noteq> b" using nb[of Indirect] nb[of Double] by simp_all
  have nm: "double_indirect x \<noteq> 0 \<Longrightarrow> i < 256 \<Longrightarrow> entry (D (double_indirect x)) i \<noteq> b" for i
    using nb[of "Middle i"] by simp
  have inj: "loc_at D x k \<noteq> loc_at D x k'" if "loc_valid k" "loc_valid k'" "loc_at D x k \<noteq> 0" "k \<noteq> k'" for k k'
    using tree_ok_inj[OF ok that(1,2) _ that(3)] that(4) by auto
  show ?thesis
  proof (cases l)
    case (Direct i)
    then show ?thesis using D' l' l(1) len ni nm b by (cases l') (auto simp: nth_list_update Let_def)
  next
    case Indirect
    then show ?thesis using D' l' l ni nm b by (cases l') (auto simp: Let_def)
  next
    case (Indirect_Entry i)
    have "double_indirect x \<noteq> 0 \<Longrightarrow> double_indirect x \<noteq> indirect x" using inj[of Double Indirect] by simp
    moreover have "double_indirect x \<noteq> 0 \<Longrightarrow> k < 256 \<Longrightarrow> entry (D (double_indirect x)) k \<noteq> 0
      \<Longrightarrow> entry (D (double_indirect x)) k \<noteq> indirect x" for k using inj[of "Middle k" Indirect] by simp
    ultimately show ?thesis using Indirect_Entry D' l' l ni nm b by (cases l') (auto simp: Let_def entry_put)
  next
    case Double
    then show ?thesis using D' l' l ni nm b by (cases l') (auto simp: Let_def)
  next
    case (Middle i)
    have "indirect x \<noteq> 0 \<Longrightarrow> double_indirect x \<noteq> indirect x" using inj[of Indirect Double] by simp
    moreover have "k < 256 \<Longrightarrow> double_indirect x \<noteq> 0 \<Longrightarrow> entry (D (double_indirect x)) k \<noteq> double_indirect x" for k
      using inj[of Double "Middle k"] by simp
    ultimately show ?thesis using Middle D' l' l ni nm b by (cases l') (auto simp: Let_def entry_put)
  next
    case (Double_Entry i j)
    let ?m = "entry (D (double_indirect x)) i"
    have d: "double_indirect x \<noteq> 0" "?m \<noteq> 0" "i < 256" "j < 256" using Double_Entry l by (auto split: if_splits)
    have "indirect x \<noteq> 0 \<Longrightarrow> ?m \<noteq> indirect x" using inj[of Indirect "Middle i"] d by simp
    moreover have "?m \<noteq> double_indirect x" using inj[of Double "Middle i"] d by simp
    moreover have "k < 256 \<Longrightarrow> k \<noteq> i \<Longrightarrow> entry (D (double_indirect x)) k \<noteq> ?m" for k
      using inj[of "Middle i" "Middle k"] d by auto
    ultimately show ?thesis using Double_Entry D' l' l ni nm b d by (cases l') (auto simp: Let_def entry_put)
  qed
qed

lemma place_inode_direct [simp]: "length (direct (place_inode x l b)) = length (direct x)"
  by (cases l) simp_all

lemma place_tree:
  assumes ok: "tree_ok D U x" and l: "loc_valid l" "place_ok D x l" "loc_at D x l = 0"
    and b: "b \<notin> U" "b \<noteq> 0" "b < 2 ^ 32" and D': "D' = (place_block D x l b)(b := zero_block)"
  shows "tree_ok D' (insert b U) (place_inode x l b)"
    and "file_blocks D' (place_inode x l b) = insert b (file_blocks D x)"
proof -
  note at = place_at[OF ok l b _ D']
  show fb: "file_blocks D' (place_inode x l b) = insert b (file_blocks D x)"
  proof (rule set_eqI)
    fix n
    show "n \<in> file_blocks D' (place_inode x l b) \<longleftrightarrow> n \<in> insert b (file_blocks D x)"
    proof
      assume "n \<in> file_blocks D' (place_inode x l b)"
      then obtain k where "loc_valid k" "loc_at D' (place_inode x l b) k = n" "n \<noteq> 0" by (auto simp: file_blocks_iff)
      then show "n \<in> insert b (file_blocks D x)" using at by (auto simp: file_blocks_iff split: if_splits)
    next
      assume "n \<in> insert b (file_blocks D x)"
      then consider "n = b" | k where "loc_valid k" "loc_at D x k = n" "n \<noteq> 0" by (auto simp: file_blocks_iff)
      then show "n \<in> file_blocks D' (place_inode x l b)"
      proof cases
        case 1
        then show ?thesis using at[OF l(1)] l(1) b(2) by (auto simp: file_blocks_iff)
      next
        case 2
        then have "k \<noteq> l" using l(3) by auto
        then show ?thesis using 2 at[of k] by (auto simp: file_blocks_iff)
      qed
    qed
  qed
  have nb: "loc_at D x k \<noteq> b" if "loc_valid k" for k using tree_ok_used[OF ok that] b by auto
  have "k = k'" if "loc_valid k" "loc_valid k'" "loc_at D' (place_inode x l b) k = loc_at D' (place_inode x l b) k'"
    "loc_at D' (place_inode x l b) k \<noteq> 0" for k k'
    using that at[OF that(1)] at[OF that(2)] nb[OF that(1)] nb[OF that(2)] tree_ok_inj[OF ok that(1,2)]
    by (auto split: if_splits)
  then show "tree_ok D' (insert b U) (place_inode x l b)"
    using ok fb by (auto simp: tree_ok_def)
qed

lemma place_block_changes:
  assumes "loc_valid l" "place_ok D x l" "place_block D x l b n \<noteq> D n"
  shows "\<exists>k. loc_valid k \<and> \<not> is_data k \<and> loc_at D x k = n \<and> n \<noteq> 0"
  using assms
proof (cases l)
  case (Indirect_Entry i)
  then show ?thesis using assms by (intro exI[of _ Indirect]) (auto split: if_splits)
next
  case (Middle i)
  then show ?thesis using assms by (intro exI[of _ Double]) (auto split: if_splits)
next
  case (Double_Entry i j)
  then show ?thesis using assms by (intro exI[of _ "loc.Middle i"]) (auto split: if_splits)
qed auto

section \<open>The bytes of a file\<close>

definition data_loc :: "nat \<Rightarrow> loc" where
  "data_loc index =
     (if index < 10 then Direct index
      else if index < 266 then Indirect_Entry (index - 10)
      else Double_Entry ((index - 266) div 256) ((index - 266) mod 256))"

definition max_blocks :: nat where "max_blocks = 65802"

lemma data_loc_valid: "index < max_blocks \<Longrightarrow> loc_valid (data_loc index)" "is_data (data_loc index)"
  by (auto simp: data_loc_def max_blocks_def less_mult_imp_div_less)

lemma data_loc_inj: "data_loc i = data_loc j \<longleftrightarrow> i = j"
proof
  assume e: "data_loc i = data_loc j"
  show "i = j"
  proof (cases "266 \<le> i \<and> 266 \<le> j")
    case True
    then have "(i - 266) div 256 = (j - 266) div 256" "(i - 266) mod 256 = (j - 266) mod 256"
      using e by (simp_all add: data_loc_def)
    then have "i - 266 = j - 266" by (metis div_mult_mod_eq)
    then show ?thesis using True by linarith
  next
    case False
    then show ?thesis using e by (auto simp: data_loc_def split: if_splits)
  qed
qed simp

definition file_byte :: "(nat \<Rightarrow> bytes) \<Rightarrow> wfs_inode \<Rightarrow> nat \<Rightarrow> u8" where
  "file_byte D x pos =
     (let b = loc_at D x (data_loc (pos div WFS_BLOCK_SIZE)) in if b = 0 then 0 else D b ! (pos mod WFS_BLOCK_SIZE))"

definition max_size :: nat where "max_size = max_blocks * WFS_BLOCK_SIZE"

lemma max_size_index: "pos < max_size \<Longrightarrow> pos div WFS_BLOCK_SIZE < max_blocks"
  by (simp add: max_size_def less_mult_imp_div_less)

lemma max_size_eq: "max_size = WFS_MAX_FILE_SIZE" "max_size = 67381248"
  by (simp_all add: max_size_def max_blocks_def WFS_MAX_FILE_SIZE_def WFS_DIRECT_def WFS_PTRS_PER_BLOCK_def
      WFS_DOUBLE_BLOCKS_def WFS_BLOCK_SIZE_def w32_def)

lemma place_byte:
  assumes ok: "tree_ok D U x" and l: "loc_valid l" "place_ok D x l" "loc_at D x l = 0"
    and b: "b \<notin> U" "b \<noteq> 0" "b < 2 ^ 32" and D': "D' = (place_block D x l b)(b := zero_block)"
    and pos: "pos < max_size"
  shows "file_byte D' (place_inode x l b) pos = file_byte D x pos"
proof -
  let ?k = "data_loc (pos div WFS_BLOCK_SIZE)"
  have k: "loc_valid ?k" "is_data ?k" using data_loc_valid max_size_index[OF pos] by auto
  note at = place_at[OF ok l b k(1) D']
  show ?thesis
  proof (cases "?k = l \<or> loc_at D x ?k = 0")
    case True
    then show ?thesis using at l(3) b(2) D'
      by (auto simp: file_byte_def Let_def zero_block_def WFS_BLOCK_SIZE_def)
  next
    case False
    then have "loc_at D x ?k \<noteq> b" using tree_ok_used[OF ok k(1)] b(1) by auto
    moreover have "place_block D x l b (loc_at D x ?k) = D (loc_at D x ?k)"
    proof (rule ccontr)
      assume "place_block D x l b (loc_at D x ?k) \<noteq> D (loc_at D x ?k)"
      from place_block_changes[OF l(1,2) this] obtain m where
        "loc_valid m" "\<not> is_data m" "loc_at D x m = loc_at D x ?k" "loc_at D x ?k \<noteq> 0" by blast
      then show False using tree_ok_inj[OF ok, of m ?k] k by auto
    qed
    ultimately show ?thesis using False at D' by (simp add: file_byte_def)
  qed
qed

text \<open>Writing the block of a data place.\<close>

lemma write_data:
  assumes ok: "tree_ok D U x" and l: "loc_valid l" "is_data l" "loc_at D x l \<noteq> 0" and D': "D' = D(loc_at D x l := buf)"
  shows "loc_valid k \<Longrightarrow> loc_at D' x k = loc_at D x k" "tree_ok D' U x" "file_blocks D' x = file_blocks D x"
    "pos < max_size \<Longrightarrow> file_byte D' x pos =
      (if data_loc (pos div WFS_BLOCK_SIZE) = l then buf ! (pos mod WFS_BLOCK_SIZE) else file_byte D x pos)"
proof -
  have at: "loc_at D' x k = loc_at D x k" if k: "loc_valid k" for k
  proof (rule loc_at_cong[OF _ k])
    fix m assume "loc_valid m" "\<not> is_data m" "loc_at D x m \<noteq> 0"
    then have "loc_at D x m \<noteq> loc_at D x l" using tree_ok_inj[OF ok, of m l] l by auto
    then show "D' (loc_at D x m) = D (loc_at D x m)" using D' by simp
  qed
  then show "loc_valid k \<Longrightarrow> loc_at D' x k = loc_at D x k" .
  show fb: "file_blocks D' x = file_blocks D x" using at by (auto simp: file_blocks_def) metis
  show "tree_ok D' U x" using ok at fb by (auto simp: tree_ok_def)
  assume pos: "pos < max_size"
  let ?k = "data_loc (pos div WFS_BLOCK_SIZE)"
  have k: "loc_valid ?k" using data_loc_valid max_size_index[OF pos] by auto
  show "file_byte D' x pos = (if ?k = l then buf ! (pos mod WFS_BLOCK_SIZE) else file_byte D x pos)"
  proof (cases "?k = l \<or> loc_at D x ?k = 0")
    case True
    then show ?thesis using at[OF k] D' l(3) by (auto simp: file_byte_def Let_def)
  next
    case False
    then have "loc_at D x ?k \<noteq> loc_at D x l" using tree_ok_inj[OF ok k l(1)] by auto
    then show ?thesis using False at[OF k] D' by (simp add: file_byte_def)
  qed
qed

text \<open>A file none of whose blocks changed.\<close>

lemma tree_frame:
  assumes "\<forall>b \<in> file_blocks D x. D' b = D b"
  shows "loc_valid l \<Longrightarrow> loc_at D' x l = loc_at D x l" "file_blocks D' x = file_blocks D x"
    "tree_ok D U x \<Longrightarrow> file_blocks D x \<subseteq> U' \<Longrightarrow> tree_ok D' U' x"
    "pos < max_size \<Longrightarrow> file_byte D' x pos = file_byte D x pos"
proof -
  have at: "loc_at D' x l = loc_at D x l" if "loc_valid l" for l
    using assms by (intro loc_at_cong[OF _ that]) (auto simp: file_blocks_def)
  then show "loc_valid l \<Longrightarrow> loc_at D' x l = loc_at D x l" .
  show fb: "file_blocks D' x = file_blocks D x" using at by (auto simp: file_blocks_def) metis
  show "tree_ok D U x \<Longrightarrow> file_blocks D x \<subseteq> U' \<Longrightarrow> tree_ok D' U' x" using at fb by (auto simp: tree_ok_def)
  assume pos: "pos < max_size"
  have k: "loc_valid (data_loc (pos div WFS_BLOCK_SIZE))" using data_loc_valid max_size_index[OF pos] by auto
  then have "loc_at D x (data_loc (pos div WFS_BLOCK_SIZE)) \<noteq> 0 \<Longrightarrow>
      loc_at D x (data_loc (pos div WFS_BLOCK_SIZE)) \<in> file_blocks D x" by (auto simp: file_blocks_def)
  then show "file_byte D' x pos = file_byte D x pos" using at[OF k] assms by (simp add: file_byte_def Let_def)
qed

end
