(* ===== verification/Wfs_Read.thy ===== *)
theory Wfs_Read
  imports Wfs_Tree
begin

text \<open>
  Reading files.  On a consistent volume \<open>wfs_read\<close> returns exactly the bytes of the file in the range
  asked for, cut off at its end, whether a block comes through the cache, in a run of consecutive blocks
  or is a hole; and it changes nothing.
\<close>

definition used_data :: "'d wfs \<Rightarrow> nat set" where
  "used_data s = {data_start (sb s)..<total_blocks (sb s)} - free_data s"

definition file_ok :: "('d drives \<Rightarrow> nat \<Rightarrow> bytes) \<Rightarrow> 'd wfs \<Rightarrow> wfs_inode \<Rightarrow> bool" where
  "file_ok sector s x \<longleftrightarrow> tree_ok (disk_block sector s) (used_data s) x \<and> isize x \<le> max_size \<and> inode_fits x
     \<and> (\<forall>pos. isize x \<le> pos \<and> pos < max_size \<longrightarrow> file_byte (disk_block sector s) x pos = 0)"

definition file_data :: "('d drives \<Rightarrow> nat \<Rightarrow> bytes) \<Rightarrow> 'd wfs \<Rightarrow> nat \<Rightarrow> bytes" where
  "file_data sector s ino =
     map (file_byte (disk_block sector s) (inode_at sector s ino)) [0..<isize (inode_at sector s ino)]"

lemma div_mod_add_small:
  fixes p i k :: nat
  assumes "p mod k + i < k"
  shows "(p + i) div k = p div k" "(p + i) mod k = p mod k + i"
proof -
  have e: "p + i = (p mod k + i) + p div k * k" by simp
  show "(p + i) div k = p div k" unfolding e using assms by (simp only: div_mult_self1) simp
  show "(p + i) mod k = p mod k + i" unfolding e using assms by (simp only: mod_mult_self1) simp
qed

text \<open>The three tiers of the block map.\<close>

lemma bmap_tier1:
  "index < 10 \<Longrightarrow> bmap s x index alloc dirty =
     (case fill_slot s (direct x ! index) x alloc dirty of
        (s, Inl e) \<Rightarrow> (s, x, dirty, Inl e)
      | (s, Inr (b, x, dirty)) \<Rightarrow> (s, x\<lparr>direct := (direct x)[index := b]\<rparr>, dirty, Inr b))"
  by (simp add: bmap_def WFS_DIRECT_def)

lemma bmap_tier2:
  assumes "10 \<le> index" "index < 266"
  shows "bmap s x index alloc dirty =
     (case fill_slot s (indirect x) x alloc dirty of
        (s, Inl e) \<Rightarrow> (s, x, dirty, Inl e)
      | (s, Inr (b, x, dirty)) \<Rightarrow>
          if b = 0 then (s, x\<lparr>indirect := b\<rparr>, dirty, Inr 0)
          else table_slot s b (index - 10) alloc (x\<lparr>indirect := b\<rparr>) dirty)"
proof -
  have "\<not> index < WFS_DIRECT" "index - WFS_DIRECT < WFS_PTRS_PER_BLOCK" "index - WFS_DIRECT = index - 10"
    using assms by (auto simp: WFS_DIRECT_def WFS_PTRS_PER_BLOCK_def WFS_BLOCK_SIZE_def)
  then show ?thesis by (simp add: bmap_def Let_def split: prod.split sum.split)
qed

lemma bmap_tier3:
  assumes "266 \<le> index" "index < max_blocks"
  shows "bmap s x index alloc dirty =
     (case fill_slot s (double_indirect x) x alloc dirty of
        (s, Inl e) \<Rightarrow> (s, x, dirty, Inl e)
      | (s, Inr (b, x, dirty)) \<Rightarrow>
          if b = 0 then (s, x\<lparr>double_indirect := b\<rparr>, dirty, Inr 0)
          else (case table_slot s b ((index - 266) div 256) alloc (x\<lparr>double_indirect := b\<rparr>) dirty of
              (s, x, dirty, Inl e) \<Rightarrow> (s, x, dirty, Inl e)
            | (s, x, dirty, Inr middle) \<Rightarrow>
                if middle = 0 then (s, x, dirty, Inr 0)
                else table_slot s middle ((index - 266) mod 256) alloc x dirty))"
proof -
  have c: "WFS_PTRS_PER_BLOCK = 256" "WFS_DIRECT = 10" "WFS_DOUBLE_BLOCKS = 65536"
    by (simp_all add: WFS_DIRECT_def WFS_PTRS_PER_BLOCK_def WFS_BLOCK_SIZE_def WFS_DOUBLE_BLOCKS_def)
  have "\<not> index < 10" "\<not> index - 10 < 256" "\<not> 65536 \<le> index - 10 - 256" "index - 10 - 256 = index - 266"
    using assms by (auto simp: max_blocks_def)
  then show ?thesis unfolding bmap_def c Let_def by (simp split: prod.split sum.split)
qed

lemma chunk_bytes:
  assumes "c \<le> WFS_BLOCK_SIZE - pos mod WFS_BLOCK_SIZE" "loc_at D x (data_loc (pos div WFS_BLOCK_SIZE)) = b"
    "b \<noteq> 0 \<Longrightarrow> length (D b) = WFS_BLOCK_SIZE"
  shows "map (file_byte D x) [pos..<pos + c]
    = (if b = 0 then replicate c 0 else take c (drop (pos mod WFS_BLOCK_SIZE) (D b)))"
proof (rule nth_equalityI)
  let ?r = "if b = 0 then replicate c 0 else take c (drop (pos mod WFS_BLOCK_SIZE) (D b))"
  show "length (map (file_byte D x) [pos..<pos + c]) = length ?r" using assms(1,3) by simp
  fix i assume "i < length (map (file_byte D x) [pos..<pos + c])"
  then have i: "i < c" by simp
  then have "pos mod WFS_BLOCK_SIZE + i < WFS_BLOCK_SIZE" using assms(1) by simp
  then have "(pos + i) div WFS_BLOCK_SIZE = pos div WFS_BLOCK_SIZE"
    "(pos + i) mod WFS_BLOCK_SIZE = pos mod WFS_BLOCK_SIZE + i"
    by (simp_all add: div_mod_add_small)
  then show "map (file_byte D x) [pos..<pos + c] ! i = ?r ! i"
    using i assms by (auto simp: file_byte_def)
qed

lemma run_bytes:
  assumes "pos mod WFS_BLOCK_SIZE = 0" "b \<noteq> 0" "\<forall>j < r. loc_at D x (data_loc (pos div WFS_BLOCK_SIZE + j)) = b + j"
    "\<forall>j < r. length (D (b + j)) = WFS_BLOCK_SIZE"
  shows "concat (map D [b..<b + r]) = map (file_byte D x) [pos..<pos + r * WFS_BLOCK_SIZE]"
  using assms(3,4)
proof (induction r)
  case (Suc r)
  let ?p = "pos + r * WFS_BLOCK_SIZE"
  have z: "WFS_BLOCK_SIZE \<noteq> 0" by (simp add: WFS_BLOCK_SIZE_def)
  have "?p mod WFS_BLOCK_SIZE = 0" using assms(1) by simp
  moreover have "?p div WFS_BLOCK_SIZE = pos div WFS_BLOCK_SIZE + r" using z by simp
  ultimately have "map (file_byte D x) [?p..<?p + WFS_BLOCK_SIZE] = D (b + r)"
    using chunk_bytes[of WFS_BLOCK_SIZE ?p D x "b + r"] Suc.prems assms(2) by simp
  moreover have "[pos..<pos + Suc r * WFS_BLOCK_SIZE] = [pos..<?p] @ [?p..<?p + WFS_BLOCK_SIZE]"
    using upt_add_eq_append[of pos ?p WFS_BLOCK_SIZE] by (simp add: algebra_simps)
  ultimately show ?case using Suc by simp
qed simp

context wfs_device
begin

lemma read_after:
  assumes "fs_ok good sector s0" "quiet s0 s" "b < total_blocks (sb s0)"
  shows "\<exists>s'. block_read s b = (s', Some (dblock s0 b)) \<and> quiet s0 s'"
proof -
  have "sb s = sb s0" "dblock s b = dblock s0 b" using assms kept_wfs(1)[of s0 s] by (simp_all add: quiet_def)
  then show ?thesis using block_read_quiet[OF quiet_fs_ok[OF assms(1,2)], of b] assms(3) quiet_trans[OF assms(2)] by auto
qed

lemma used_bound: "n \<in> used_data s \<Longrightarrow> n < total_blocks (sb s)"
  by (simp add: used_data_def)

lemma table_slot_read:
  assumes "fs_ok good sector s0" "quiet s0 s" "t < total_blocks (sb s0)" "i < 256"
  shows "\<exists>s'. table_slot s t i False x d = (s', x, d, Inr (entry (dblock s0 t) i)) \<and> quiet s0 s'"
  using read_after[OF assms(1-3)] decode_table_nth[OF assms(4), of "dblock s0 t"]
  by (auto simp: table_slot_def Let_def)

lemma bmap_read:
  assumes ok: "fs_ok good sector s0" and q: "quiet s0 s" and t: "tree_ok (dblock s0) (used_data s0) x"
    and i: "index < max_blocks"
  shows "\<exists>s'. bmap s x index False d = (s', x, d, Inr (loc_at (dblock s0) x (data_loc index))) \<and> quiet s0 s'"
proof -
  have u: "loc_valid l \<Longrightarrow> loc_at (dblock s0) x l \<noteq> 0 \<Longrightarrow> loc_at (dblock s0) x l < total_blocks (sb s0)" for l
    using tree_ok_used[OF t] used_bound by blast
  note defs = fill_slot_def data_loc_def Let_def
  consider "index < 10" | "10 \<le> index" "index < 266" | "266 \<le> index" by linarith
  then show ?thesis
  proof cases
    case 1
    then show ?thesis using q by (simp add: defs bmap_tier1)
  next
    case 2
    then have i2: "index - 10 < 256" by simp
    show ?thesis
    proof (cases "indirect x = 0")
      case True
      then show ?thesis using 2 q by (simp add: defs bmap_tier2)
    next
      case False
      then show ?thesis using 2 table_slot_read[OF ok q _ i2, of "indirect x" x d] u[of Indirect]
        by (simp add: defs bmap_tier2)
    qed
  next
    case 3
    let ?k = "index - 266"
    have k: "?k < 65536" "?k div 256 < 256" "?k mod 256 < 256" using i 3 by (simp_all add: max_blocks_def less_mult_imp_div_less)
    show ?thesis
    proof (cases "double_indirect x = 0")
      case True
      then show ?thesis using 3 q k by (simp add: defs bmap_tier3[OF 3 i])
    next
      case d: False
      from table_slot_read[OF ok q _ k(2), of "double_indirect x" x d] u[of Double] d obtain t where
        t: "table_slot s (double_indirect x) (?k div 256) False x d
              = (t, x, d, Inr (entry (dblock s0 (double_indirect x)) (?k div 256)))" "quiet s0 t" by auto
      let ?m = "entry (dblock s0 (double_indirect x)) (?k div 256)"
      show ?thesis
      proof (cases "?m = 0")
        case True
        then show ?thesis using 3 t k d by (simp add: defs bmap_tier3[OF 3 i])
      next
        case False
        then show ?thesis using 3 t k d table_slot_read[OF ok t(2) _ k(3), of ?m x] u[of "Middle (?k div 256)"]
          by (simp add: defs bmap_tier3[OF 3 i])
      qed
    qed
  qed
qed

lemma read_run_law:
  assumes "fs_ok good sector s0" "quiet s0 s" "tree_ok (dblock s0) (used_data s0) x"
    "index * WFS_BLOCK_SIZE + left \<le> max_size" "run \<le> 64" "run * WFS_BLOCK_SIZE \<le> left"
    "\<forall>j < run. loc_at (dblock s0) x (data_loc (index + j)) = block + j"
  shows "\<exists>s' r. read_run s x index block left run = (s', r) \<and> quiet s0 s' \<and> run \<le> r \<and> r \<le> 64
    \<and> r * WFS_BLOCK_SIZE \<le> left \<and> (\<forall>j < r. loc_at (dblock s0) x (data_loc (index + j)) = block + j)"
  using assms
proof (induction s x index block left run rule: read_run.induct)
  case (1 s x index block left run)
  show ?case
  proof (cases "run < READ_RUN_BLOCKS \<and> (run + 1) * WFS_BLOCK_SIZE \<le> left")
    case False
    then have "read_run s x index block left run = (s, run)" by (subst read_run.simps) (simp only: False if_False)
    then show ?thesis using 1(3-) by auto
  next
    case True
    have "index + run < max_blocks"
    proof -
      have "(index + run + 1) * WFS_BLOCK_SIZE \<le> max_blocks * WFS_BLOCK_SIZE"
        using True 1(5) unfolding max_size_def by (simp add: algebra_simps)
      then show ?thesis by (simp add: WFS_BLOCK_SIZE_def)
    qed
    from bmap_read[OF 1(2,3,4) this, of False] obtain t where
      t: "bmap s x (index + run) False False = (t, x, False, Inr (loc_at (dblock s0) x (data_loc (index + run))))" "quiet s0 t"
      by blast
    show ?thesis
    proof (cases "loc_at (dblock s0) x (data_loc (index + run)) = block + run")
      case False
      then have "read_run s x index block left run = (t, run)" using True t(1) by (subst read_run.simps) simp
      then show ?thesis using 1(3-) t(2) by auto
    next
      case e: True
      then have r: "read_run s x index block left run = read_run t x index block left (run + 1)"
        using True t(1) by (subst read_run.simps) simp
      have "\<forall>j < run + 1. loc_at (dblock s0) x (data_loc (index + j)) = block + j"
        using e 1(8) by (metis add.commute less_Suc_eq plus_1_eq_Suc)
      moreover have "run + 1 \<le> 64" "(run + 1) * WFS_BLOCK_SIZE \<le> left"
        using True by (simp_all add: READ_RUN_BLOCKS_def)
      ultimately show ?thesis
        using 1(1)[OF True t(1)[symmetric] refl refl refl _ 1(2) t(2) 1(4,5)] e unfolding r by auto
    qed
  qed
qed

lemma dblock_full: "fs_ok good sector s \<Longrightarrow> n < total_blocks (sb s) \<Longrightarrow> length (dblock s n) = WFS_BLOCK_SIZE"
  using dblock_length fs_okD(1) by blast

lemma loc_in_volume:
  assumes "tree_ok (dblock s) (used_data s) x" "loc_valid l" "loc_at (dblock s) x l \<noteq> 0"
  shows "loc_at (dblock s) x l < total_blocks (sb s)"
  using tree_ok_used[OF assms] used_bound by blast

text \<open>The test for a run, and what a run of more than one block holds.\<close>

lemma run_test_law:
  assumes "fs_ok good sector s0" "quiet s0 t" "tree_ok (dblock s0) (used_data s0) x" "pos + left \<le> max_size"
    "b = loc_at (dblock s0) x (data_loc (pos div WFS_BLOCK_SIZE))"
  shows "\<exists>u r. (if pos mod WFS_BLOCK_SIZE = 0 \<and> b \<noteq> 0 \<and> left \<ge> WFS_BLOCK_SIZE
        then read_run t x (pos div WFS_BLOCK_SIZE) b left 1 else (t, 1)) = (u, r) \<and> quiet s0 u
    \<and> (r > 1 \<longrightarrow> pos mod WFS_BLOCK_SIZE = 0 \<and> b \<noteq> 0 \<and> r \<le> 64 \<and> r * WFS_BLOCK_SIZE \<le> left
          \<and> (\<forall>j < r. loc_at (dblock s0) x (data_loc (pos div WFS_BLOCK_SIZE + j)) = b + j))"
proof (cases "pos mod WFS_BLOCK_SIZE = 0 \<and> b \<noteq> 0 \<and> left \<ge> WFS_BLOCK_SIZE")
  case False
  then have "(if pos mod WFS_BLOCK_SIZE = 0 \<and> b \<noteq> 0 \<and> left \<ge> WFS_BLOCK_SIZE
    then read_run t x (pos div WFS_BLOCK_SIZE) b left 1 else (t, 1)) = (t, 1)" by (simp only: False if_False)
  then show ?thesis using assms(2) by auto
next
  case True
  then have "pos div WFS_BLOCK_SIZE * WFS_BLOCK_SIZE + left \<le> max_size" using assms(4) by auto
  from read_run_law[OF assms(1-3) this, of 1 b] True assms(5) show ?thesis by force
qed

lemma run_read:
  assumes ok: "fs_ok good sector s0" and u: "quiet s0 u" and tr: "tree_ok (dblock s0) (used_data s0) x"
    and pos: "pos mod WFS_BLOCK_SIZE = 0" "pos + r * WFS_BLOCK_SIZE \<le> max_size" and r: "0 < r" "r \<le> 64" "b \<noteq> 0"
    and at: "\<forall>j < r. loc_at (dblock s0) x (data_loc (pos div WFS_BLOCK_SIZE + j)) = b + j"
  shows "blocks_read u b r = Some (map (file_byte (dblock s0) x) [pos..<pos + r * WFS_BLOCK_SIZE])"
proof -
  have bound: "b + j < total_blocks (sb s0)" if j: "j < r" for j
  proof -
    have "(j + 1) * WFS_BLOCK_SIZE \<le> r * WFS_BLOCK_SIZE" using j by (intro mult_le_mono1) simp
    moreover have "pos div WFS_BLOCK_SIZE * WFS_BLOCK_SIZE = pos" using pos(1) by auto
    ultimately have "(pos div WFS_BLOCK_SIZE + j + 1) * WFS_BLOCK_SIZE \<le> max_blocks * WFS_BLOCK_SIZE"
      using pos(2) unfolding max_size_def by (simp add: algebra_simps)
    then have "pos div WFS_BLOCK_SIZE + j < max_blocks" by (simp add: WFS_BLOCK_SIZE_def)
    from loc_in_volume[OF tr data_loc_valid(1)[OF this]] at j r(3) show ?thesis by simp
  qed
  have br: "b + r \<le> total_blocks (sb s0)" using bound[of "r - 1"] r by simp
  have "vol u (total_blocks (sb s0))" using u by (simp add: quiet_def)
  from blocks_read_law[OF this _ _ br] r have "blocks_read u b r = Some (concat (map (dblock u) [b..<b + r]))" by simp
  also have "map (dblock u) [b..<b + r] = map (dblock s0) [b..<b + r]" using u br by (auto simp: quiet_def)
  also have "concat (map (dblock s0) [b..<b + r]) = map (file_byte (dblock s0) x) [pos..<pos + r * WFS_BLOCK_SIZE]"
    using pos r at bound dblock_full[OF ok] by (intro run_bytes) auto
  finally show ?thesis .
qed

lemma upt_split_at: "n \<le> len - c \<Longrightarrow> c \<le> len \<Longrightarrow> [a + c..<a + len] = [a + c..<a + c + n] @ [a + (c + n)..<a + len]"
  for a c n len :: nat
  using upt_add_eq_append[of "a + c" "a + c + n" "len - c - n"] by (simp add: add.assoc)

lemma read_loop_law:
  assumes "fs_ok good sector s0" "quiet s0 s" "tree_ok (dblock s0) (used_data s0) x"
    "offset + len \<le> max_size" "copied \<le> len"
  shows "\<exists>s'. wfs_read_loop s x offset len copied out
      = (s', Inr (out @ map (file_byte (dblock s0) x) [offset + copied..<offset + len])) \<and> quiet s0 s'"
  using assms
proof (induction "len - copied" arbitrary: s copied out rule: less_induct)
  case less
  let ?D = "dblock s0" and ?K = WFS_BLOCK_SIZE
  show ?case
  proof (cases "copied < len")
    case False
    then have "wfs_read_loop s x offset len copied out = (s, Inr out)" by (subst wfs_read_loop.simps) simp
    then show ?thesis using False less.prems by auto
  next
    case True
    define pos where "pos = offset + copied"
    define c where "c = chunk_of (pos mod ?K) (len - copied)"
    define b where "b = loc_at ?D x (data_loc (pos div ?K))"
    have ps: "pos < max_size" "pos + (len - copied) \<le> max_size" using True less.prems(4) by (simp_all add: pos_def)
    have wpos: "w32 (offset + copied) = pos" using ps by (simp add: pos_def w32_def max_size_eq(2))
    note pi = max_size_index[OF ps(1)]
    from bmap_read[OF less.prems(1,2,3) pi, of False] obtain t where
      t: "bmap s x (pos div ?K) False False = (t, x, False, Inr b)" "quiet s0 t" unfolding b_def by blast
    have bN: "b \<noteq> 0 \<Longrightarrow> b < total_blocks (sb s0)"
      using loc_in_volume[OF less.prems(3) data_loc_valid(1)[OF pi]] by (simp add: b_def)
    have c: "0 < c" "c \<le> len - copied" "c \<le> ?K - pos mod ?K"
      using chunk_of_pos[of "len - copied" pos] True by (simp_all add: c_def chunk_of_def)
    from run_test_law[OF less.prems(1) t(2) less.prems(3) ps(2) b_def] obtain u r where
      ur: "(if pos mod ?K = 0 \<and> b \<noteq> 0 \<and> len - copied \<ge> ?K
        then read_run t x (pos div ?K) b (len - copied) 1 else (t, 1)) = (u, r) \<and> quiet s0 u
      \<and> (r > 1 \<longrightarrow> pos mod ?K = 0 \<and> b \<noteq> 0 \<and> r \<le> 64 \<and> r * ?K \<le> len - copied
          \<and> (\<forall>j < r. loc_at ?D x (data_loc (pos div ?K + j)) = b + j))" by (elim exE)
    note u = ur[THEN conjunct1] ur[THEN conjunct2, THEN conjunct1] and r = ur[THEN conjunct2, THEN conjunct2, rule_format]
    have step: "wfs_read_loop s x offset len copied out =
      (if r > 1 then (case blocks_read u b r of None \<Rightarrow> (u, Inl W_EIO)
          | Some bs \<Rightarrow> wfs_read_loop u x offset len (copied + r * ?K) (out @ bs))
       else if b = 0 then wfs_read_loop u x offset len (copied + c) (out @ replicate c 0)
       else (case block_read u b of (s, None) \<Rightarrow> (s, Inl W_EIO)
          | (s, Some tmp) \<Rightarrow> wfs_read_loop s x offset len (copied + c) (out @ take c (drop (pos mod ?K) tmp))))"
      using True t(1) u(1) by (subst wfs_read_loop.simps) (simp add: Let_def wpos c_def)
    have chunk: "map (file_byte ?D x) [pos..<pos + c] = (if b = 0 then replicate c 0 else take c (drop (pos mod ?K) (?D b)))"
      using c(3) bN dblock_full[OF less.prems(1)] by (intro chunk_bytes) (auto simp: b_def)
    have more: ?thesis if n: "0 < n" "n \<le> len - copied" and v: "quiet s0 v"
      "wfs_read_loop s x offset len copied out = wfs_read_loop v x offset len (copied + n) (out @ map (file_byte ?D x) [pos..<pos + n])"
      for n v
    proof -
      have lt: "len - (copied + n) < len - copied" "copied + n \<le> len" using n True by auto
      show ?thesis
        using less.hyps[OF lt(1) less.prems(1) v(1) less.prems(3,4) lt(2), of "out @ map (file_byte ?D x) [pos..<pos + n]"] v(2)
        unfolding upt_split_at[OF n(2) less.prems(5)] by (simp add: pos_def)
    qed
    show ?thesis
    proof (cases "r > 1")
      case big: True
      then have "blocks_read u b r = Some (map (file_byte ?D x) [pos..<pos + r * ?K])"
        using r[OF big] ps by (intro run_read[OF less.prems(1) u(2) less.prems(3)]) auto
      then show ?thesis using step big r[OF big] u(2) by (intro more[of "r * ?K" u]) (auto simp: WFS_BLOCK_SIZE_def)
    next
      case small: False
      show ?thesis
      proof (cases "b = 0")
        case True
        then show ?thesis using step small chunk u(2) c by (intro more[of c u]) auto
      next
        case False
        from read_after[OF less.prems(1) u(2) bN[OF False]] obtain v where
          "block_read u b = (v, Some (?D b))" "quiet s0 v" by blast
        then show ?thesis using step small chunk c False by (intro more[of c v]) auto
      qed
    qed
  qed
qed

lemma wfs_read_law:
  assumes ok: "fs_ok good sector s" and ino: "0 < ino" "ino < total_inodes (sb s)"
    and f: "file_ok sector s (inode_at sector s ino)" and len: "offset + len < 2 ^ 32"
  shows "\<exists>s'. wfs_read s ino offset len = (s', Inr (take len (drop offset (file_data sector s ino)))) \<and> quiet s s'"
proof -
  let ?x = "inode_at sector s ino"
  from read_inode_law[OF ok ino] obtain t where t: "wfs_read_inode s ino = (t, Inr ?x)" "quiet s t" by blast
  show ?thesis
  proof (cases "isize ?x \<le> offset")
    case True
    then show ?thesis using t by (simp add: wfs_read_def file_data_def)
  next
    case False
    let ?n = "if w32 (offset + len) > isize ?x then isize ?x - offset else len"
    have n: "?n = min len (isize ?x - offset)" using False len by (auto simp: w32_def)
    have "offset + ?n \<le> max_size" using n f False by (auto simp: file_ok_def)
    from read_loop_law[OF ok t(2) _ this, of ?x 0 "[]"] f obtain s' where
      "wfs_read_loop t ?x offset ?n 0 [] = (s', Inr (map (file_byte (dblock s) ?x) [offset..<offset + ?n]))" "quiet s s'"
      by (auto simp: file_ok_def)
    moreover have "map (file_byte (dblock s) ?x) [offset..<offset + ?n] = take len (drop offset (file_data sector s ino))"
      unfolding n using False by (intro nth_equalityI) (auto simp: file_data_def)
    ultimately show ?thesis using False t by (simp add: wfs_read_def Let_def)
  qed
qed

end

end
