(* ===== verification/User.thy ===== *)
theory User
  imports Wfs_Read
begin

text \<open>
  The user database, \<^verbatim>\<open>kernel/fs/user.c\<close>, over the file system it is stored in.

  The state is the table of accounts with the next free uid, the mounted file system and the two
  values a salt is made of: the timer and the address of a kernel variable.  Names, passwords, paths
  and file contents are lists of bytes without a NUL.  A text that is built in a buffer is the list of
  the bytes written so far; \<open>cap\<close> is the size of the buffer.  The messages printed are left out.

  The lemmas show that saving the list of users and reading it back restores the accounts, that the
  text fits its buffer, that comparing hashes is exact, and what somebody without a role can change;
  and that a login shell with a line break in it becomes an account of its own.
\<close>

section \<open>The table\<close>

definition W_NAME_LEN :: nat where "W_NAME_LEN = 31"
definition W_MAX_USERS :: nat where "W_MAX_USERS = 32"
definition W_SHELL_MAX :: nat where "W_SHELL_MAX = 63"
definition ROOT_UID :: u32 where "ROOT_UID = 0"
definition W_ROLE_USEREDITOR :: u32 where "W_ROLE_USEREDITOR = 2"

text \<open>The texts \<^verbatim>\<open>"/userconfig"\<close>, \<^verbatim>\<open>"/userconfig/users"\<close>, \<^verbatim>\<open>"/password"\<close>, \<^verbatim>\<open>"/home/"\<close>, \<^verbatim>\<open>"/app/whell/launch"\<close>,
  \<^verbatim>\<open>"root"\<close> and \<^verbatim>\<open>"1234"\<close>.\<close>

definition USERCONFIG_DIR :: bytes where
  "USERCONFIG_DIR = [47, 117, 115, 101, 114, 99, 111, 110, 102, 105, 103]"
definition USER_LIST_FILE :: bytes where
  "USER_LIST_FILE = USERCONFIG_DIR @ [47, 117, 115, 101, 114, 115]"
definition PASSWORD_FILE :: bytes where
  "PASSWORD_FILE = [47, 112, 97, 115, 115, 119, 111, 114, 100]"
definition HOME_DIR :: bytes where
  "HOME_DIR = [47, 104, 111, 109, 101, 47]"
definition DEFAULT_SHELL :: bytes where
  "DEFAULT_SHELL = [47, 97, 112, 112, 47, 119, 104, 101, 108, 108, 47, 108, 97, 117, 110, 99, 104]"
definition ROOT_NAME :: bytes where
  "ROOT_NAME = [114, 111, 111, 116]"
definition ROOT_PASSWORD :: bytes where
  "ROOT_PASSWORD = [49, 50, 51, 52]"

record user_entry =
  used :: bool
  uname :: bytes
  uid :: u32
  roles :: u32
  salt :: u64
  hash :: u64
  shell :: bytes

definition no_entry :: user_entry where
  "no_entry = \<lparr>used = False, uname = [], uid = 0, roles = 0, salt = 0, hash = 0, shell = []\<rparr>"

record wuser =
  wuid :: u32
  wroles :: u32
  wname :: bytes

record 'd accounts =
  users :: "user_entry list"
  next_uid :: u32
  fs :: "'d wfs"
  ticks :: u32
  marker :: u64

section \<open>Password hashing\<close>

definition FNV_PRIME :: u64 where "FNV_PRIME = 0x100000001b3"

definition hash_round :: "u64 \<Rightarrow> bytes \<Rightarrow> u64 \<Rightarrow> u64" where
  "hash_round slt password h =
     (let h = fold (\<lambda>c h. (xor h (ucast c)) * FNV_PRIME) password h in (xor h slt) * FNV_PRIME)"

definition hash_password :: "u64 \<Rightarrow> bytes \<Rightarrow> u64" where
  "hash_password slt password =
     (let h = (hash_round slt password ^^ 4096) (xor 0xcbf29ce484222325 slt) in if h \<noteq> 0 then h else 1)"

definition hash_equal :: "u64 \<Rightarrow> u64 \<Rightarrow> bool" where
  "hash_equal a b =
     (let diff = xor a b;
          acc = fold (\<lambda>i acc. or acc (ucast (drop_bit (i * 8) diff))) [0..<8] (0 :: u8)
      in acc = 0)"

definition make_salt :: "'d accounts \<Rightarrow> u64" where
  "make_salt st =
     xor (xor (ucast (ticks st) * 0x9E3779B97F4A7C15) (marker st * 0xBF58476D1CE4E5B9))
         (push_bit 32 (ucast (next_uid st)))"

section \<open>Small text helpers\<close>

fun parse_digits :: "u64 \<Rightarrow> bytes \<Rightarrow> u64 \<times> bytes" where
  "parse_digits v [] = (v, [])"
| "parse_digits v (c # cs) =
     (if 48 \<le> c \<and> c \<le> 57 then parse_digits (v * 10 + ucast (c - 48)) cs else (v, c # cs))"

definition parse_u64 :: "bytes \<Rightarrow> u64 \<times> bytes" where
  "parse_u64 p = parse_digits 0 p"

text \<open>The digits in the temporary buffer, last one first.\<close>

function tmp_digits :: "u64 \<Rightarrow> bytes" where
  "tmp_digits v = (if v = 0 then [] else ucast (48 + v mod 10) # tmp_digits (v div 10))"
  by auto
termination
  by (relation "measure unat") (auto simp: unat_div word_neq_0_conv unat_gt_0)

declare tmp_digits.simps [simp del]

definition append_str :: "nat \<Rightarrow> bytes \<Rightarrow> bytes \<Rightarrow> bytes" where
  "append_str cap buf s = buf @ take (cap - 1 - length buf) s"

definition append_u64 :: "nat \<Rightarrow> u64 \<Rightarrow> bytes \<Rightarrow> bytes" where
  "append_u64 cap v buf =
     (let tmp = (if v = 0 then [48] else tmp_digits v) in buf @ take (cap - 1 - length buf) (rev tmp))"

definition path_cap :: nat where "path_cap = W_PATH_MAX + 1"

definition user_dir_path :: "bytes \<Rightarrow> bytes" where
  "user_dir_path name = append_str path_cap (append_str path_cap [] (USERCONFIG_DIR @ [slash])) name"

definition user_password_path :: "bytes \<Rightarrow> bytes" where
  "user_password_path name =
     append_str path_cap (append_str path_cap (append_str path_cap [] (USERCONFIG_DIR @ [slash])) name) PASSWORD_FILE"

text \<open>The slot of an account, where the code has a pointer to it.\<close>

definition find_slot :: "(user_entry \<Rightarrow> bool) \<Rightarrow> user_entry list \<Rightarrow> nat option" where
  "find_slot P us = find (\<lambda>i. P (us ! i)) [0..<length us]"

definition find_by_name :: "user_entry list \<Rightarrow> bytes \<Rightarrow> nat option" where
  "find_by_name us name = find_slot (\<lambda>e. used e \<and> uname e = name) us"

definition find_by_uid :: "user_entry list \<Rightarrow> u32 \<Rightarrow> nat option" where
  "find_by_uid us u = find_slot (\<lambda>e. used e \<and> uid e = u) us"

definition free_entry :: "user_entry list \<Rightarrow> nat option" where
  "free_entry us = find_slot (\<lambda>e. \<not> used e) us"

definition fill_wuser :: "user_entry \<Rightarrow> wuser" where
  "fill_wuser e = \<lparr>wuid = uid e, wroles = roles e, wname = take W_NAME_LEN (uname e)\<rparr>"

section \<open>Storage\<close>

definition ensure_dir :: "'d wfs \<Rightarrow> bytes \<Rightarrow> 'd wfs \<times> unit res" where
  "ensure_dir s path =
     (case wfs_lookup s path of
        (s, Inr _) \<Rightarrow> (s, Inr ())
      | (s, Inl _) \<Rightarrow> seq (wfs_create s path WFS_TYPE_DIR) (\<lambda>s _. (s, Inr ())))"

definition write_file :: "'d wfs \<Rightarrow> bytes \<Rightarrow> bytes \<Rightarrow> 'd wfs \<times> unit res" where
  "write_file s path txt =
     seq (case wfs_lookup s path of
            (s, Inl W_ENOENT) \<Rightarrow> wfs_create s path WFS_TYPE_FILE
          | (s, r) \<Rightarrow> (s, r))
       (\<lambda>s ino. seq (wfs_truncate s ino) (\<lambda>s _.
          if length txt = 0 then (s, Inr ())
          else seq (wfs_write s ino 0 txt) (\<lambda>s n. (s, if n = length txt then Inr () else Inl W_EIO))))"

definition list_cap :: nat where "list_cap = W_MAX_USERS * 128"

definition list_line :: "user_entry \<Rightarrow> bytes \<Rightarrow> bytes" where
  "list_line e t =
     (if \<not> used e then t
      else
        (let t = append_str list_cap t (uname e);
             t = t @ [58];
             t = append_u64 list_cap (ucast (uid e)) t;
             t = t @ [58];
             t = append_u64 list_cap (ucast (roles e)) t;
             t = (if shell e \<noteq> [] then append_str list_cap (t @ [58]) (shell e) else t)
         in t @ [10]))"

definition list_text :: "user_entry list \<Rightarrow> bytes" where
  "list_text us = fold list_line us []"

definition save_user_list :: "'d accounts \<Rightarrow> 'd accounts \<times> unit res" where
  "save_user_list st =
     (case seq (ensure_dir (fs st) USERCONFIG_DIR) (\<lambda>s _. write_file s USER_LIST_FILE (list_text (users st))) of
        (s, r) \<Rightarrow> (st\<lparr>fs := s\<rparr>, r))"

definition password_text :: "user_entry \<Rightarrow> bytes" where
  "password_text e = append_u64 64 (hash e) (append_u64 64 (salt e) [] @ [58]) @ [10]"

definition save_password :: "'d accounts \<Rightarrow> user_entry \<Rightarrow> 'd accounts \<times> unit res" where
  "save_password st e =
     (case seq (ensure_dir (fs st) USERCONFIG_DIR) (\<lambda>s _.
             seq (ensure_dir s (user_dir_path (uname e))) (\<lambda>s _.
               write_file s (user_password_path (uname e)) (password_text e))) of
        (s, r) \<Rightarrow> (st\<lparr>fs := s\<rparr>, r))"

definition load_password :: "'d wfs \<Rightarrow> user_entry \<Rightarrow> 'd wfs \<times> user_entry" where
  "load_password s e =
     (let e = e\<lparr>salt := 0, hash := 0\<rparr>
      in case wfs_lookup s (user_password_path (uname e)) of
           (s, Inl _) \<Rightarrow> (s, e)
         | (s, Inr ino) \<Rightarrow>
             (case wfs_read s ino 0 63 of
                (s, Inl _) \<Rightarrow> (s, e)
              | (s, Inr txt) \<Rightarrow>
                  if txt = [] then (s, e)
                  else
                    (let (v, p) = parse_u64 txt; e = e\<lparr>salt := v\<rparr>
                     in (s, case p of c # p \<Rightarrow> if c = 58 then e\<lparr>hash := fst (parse_u64 p)\<rparr> else e | [] \<Rightarrow> e))))"

text \<open>The fields of a line, when it is well formed.\<close>

definition parse_fields :: "bytes \<Rightarrow> user_entry option" where
  "parse_fields line =
     (let name = take W_NAME_LEN (takeWhile (\<lambda>c. c \<noteq> 58) line);
          line = drop (length name) line
      in case line of
           [] \<Rightarrow> None
         | c # line \<Rightarrow>
             if c \<noteq> 58 \<or> name = [] then None
             else
               (let (v, line) = parse_u64 line
                in case line of
                     [] \<Rightarrow> None
                   | c # line \<Rightarrow>
                       if c \<noteq> 58 then None
                       else
                         (let (r, line) = parse_u64 line;
                              sh = (case line of
                                      c # line \<Rightarrow>
                                        if c = 58 then take W_SHELL_MAX (takeWhile (\<lambda>c. c \<noteq> 10) line) else []
                                    | [] \<Rightarrow> [])
                          in Some (no_entry\<lparr>used := True, uname := name, uid := ucast v, roles := ucast r, shell := sh\<rparr>))))"

definition parse_list_line :: "bytes \<Rightarrow> 'd accounts \<Rightarrow> 'd accounts" where
  "parse_list_line line st =
     (case parse_fields line of
        None \<Rightarrow> st
      | Some e \<Rightarrow>
          (case free_entry (users st) of
             None \<Rightarrow> st
           | Some i \<Rightarrow>
               (let (s, e') = load_password (fs st) e
                in st\<lparr>users := (users st)[i := e'], fs := s,
                      next_uid := (if uid e \<ge> next_uid st then uid e + 1 else next_uid st)\<rparr>)))"

section \<open>Initialisation\<close>

text \<open>The pieces of a text between line breaks and NULs, without the empty ones.\<close>

fun text_lines :: "bytes \<Rightarrow> bytes \<Rightarrow> bytes list" where
  "text_lines acc [] = (if acc = [] then [] else [acc])"
| "text_lines acc (c # cs) =
     (if c = 10 \<or> c = 0 then (if acc = [] then [] else [acc]) @ text_lines [] cs
      else text_lines (acc @ [c]) cs)"

definition parse_users :: "bytes \<Rightarrow> 'd accounts \<Rightarrow> 'd accounts" where
  "parse_users txt st = fold parse_list_line (text_lines [] txt) st"

definition load_users :: "'d accounts \<Rightarrow> 'd accounts" where
  "load_users st =
     (case wfs_lookup (fs st) USER_LIST_FILE of
        (s, Inl _) \<Rightarrow> st\<lparr>fs := s\<rparr>
      | (s, Inr ino) \<Rightarrow>
          (case wfs_read_inode s ino of
             (s, Inl _) \<Rightarrow> st\<lparr>fs := s\<rparr>
           | (s, Inr inode) \<Rightarrow>
               if isize inode > 0
               then (case wfs_read s ino 0 (min (isize inode) (list_cap - 1)) of
                       (s, Inl _) \<Rightarrow> st\<lparr>fs := s\<rparr>
                     | (s, Inr txt) \<Rightarrow> if txt = [] then st\<lparr>fs := s\<rparr> else parse_users txt (st\<lparr>fs := s\<rparr>))
               else st\<lparr>fs := s\<rparr>))"

definition make_root :: "'d accounts \<Rightarrow> 'd accounts" where
  "make_root st =
     (let e = (users st ! 0)\<lparr>used := True, uid := ROOT_UID, roles := 0, salt := make_salt st,
                hash := hash_password (make_salt st) ROOT_PASSWORD, uname := ROOT_NAME\<rparr>;
          st = st\<lparr>users := (users st)[0 := e]\<rparr>;
          st = fst (save_user_list st)
      in fst (save_password st e))"

definition user_init :: "'d accounts \<Rightarrow> 'd accounts" where
  "user_init st =
     (let st = load_users (st\<lparr>users := replicate W_MAX_USERS no_entry, next_uid := 1\<rparr>)
      in if find_by_uid (users st) ROOT_UID = None then make_root st else st)"

section \<open>Queries\<close>

definition user_by_name :: "'d accounts \<Rightarrow> bytes \<Rightarrow> wuser res" where
  "user_by_name st name =
     (case find_by_name (users st) name of None \<Rightarrow> Inl W_ENOENT | Some i \<Rightarrow> Inr (fill_wuser (users st ! i)))"

definition user_by_uid :: "'d accounts \<Rightarrow> u32 \<Rightarrow> wuser res" where
  "user_by_uid st u =
     (case find_by_uid (users st) u of None \<Rightarrow> Inl W_ENOENT | Some i \<Rightarrow> Inr (fill_wuser (users st ! i)))"

definition user_list :: "'d accounts \<Rightarrow> nat \<Rightarrow> wuser list" where
  "user_list st mx = take mx (map fill_wuser (filter used (users st)))"

definition user_has_role :: "user_entry list \<Rightarrow> u32 \<Rightarrow> u32 \<Rightarrow> bool" where
  "user_has_role us u role =
     (u = ROOT_UID \<or> (case find_by_uid us u of None \<Rightarrow> False | Some i \<Rightarrow> and (roles (us ! i)) role \<noteq> 0))"

definition user_authenticate :: "'d accounts \<Rightarrow> bytes \<Rightarrow> bytes \<Rightarrow> wuser res" where
  "user_authenticate st name password =
     (case find_by_name (users st) name of
        None \<Rightarrow> Inl W_ENOENT
      | Some i \<Rightarrow>
          (let e = users st ! i
           in if hash e = 0 then Inr (fill_wuser e)
              else if \<not> hash_equal (hash_password (salt e) password) (hash e) then Inl W_EACCES
              else Inr (fill_wuser e)))"

section \<open>Changes\<close>

definition privileged :: "user_entry list \<Rightarrow> u32 \<Rightarrow> bool" where
  "privileged us actor \<longleftrightarrow> actor = ROOT_UID \<or> user_has_role us actor W_ROLE_USEREDITOR"

definition user_set_password :: "'d accounts \<Rightarrow> u32 \<Rightarrow> bytes \<Rightarrow> bytes \<Rightarrow> bytes \<Rightarrow> 'd accounts \<times> unit res" where
  "user_set_password st actor name old_password new_password =
     (case find_by_name (users st) name of
        None \<Rightarrow> (st, Inl W_ENOENT)
      | Some i \<Rightarrow>
          (let e = users st ! i
           in if \<not> privileged (users st) actor \<and> uid e \<noteq> actor then (st, Inl W_EPERM)
              else if \<not> privileged (users st) actor \<and> hash e \<noteq> 0
                \<and> \<not> hash_equal (hash_password (salt e) old_password) (hash e) then (st, Inl W_EACCES)
              else
                (let e = (if new_password = [] then e\<lparr>salt := 0, hash := 0\<rparr>
                          else e\<lparr>salt := make_salt st, hash := hash_password (make_salt st) new_password\<rparr>)
                 in save_password (st\<lparr>users := (users st)[i := e]\<rparr>) e)))"

definition user_set_roles :: "'d accounts \<Rightarrow> u32 \<Rightarrow> bytes \<Rightarrow> u32 \<Rightarrow> 'd accounts \<times> unit res" where
  "user_set_roles st actor name rs =
     (if \<not> privileged (users st) actor then (st, Inl W_EPERM)
      else case find_by_name (users st) name of
        None \<Rightarrow> (st, Inl W_ENOENT)
      | Some i \<Rightarrow>
          (let e = users st ! i
           in if uid e = ROOT_UID then (st, Inl W_EPERM)
              else save_user_list (st\<lparr>users := (users st)[i := e\<lparr>roles := rs\<rparr>]\<rparr>)))"

definition user_shell :: "'d accounts \<Rightarrow> u32 \<Rightarrow> nat \<Rightarrow> bytes" where
  "user_shell st u cap =
     (let sh = (case find_by_uid (users st) u of
                  Some i \<Rightarrow> if shell (users st ! i) \<noteq> [] then shell (users st ! i) else DEFAULT_SHELL
                | None \<Rightarrow> DEFAULT_SHELL)
      in take (cap - 1) sh)"

definition user_set_shell :: "'d accounts \<Rightarrow> u32 \<Rightarrow> bytes \<Rightarrow> bytes \<Rightarrow> 'd accounts \<times> unit res" where
  "user_set_shell st actor name sh =
     (case find_by_name (users st) name of
        None \<Rightarrow> (st, Inl W_ENOENT)
      | Some i \<Rightarrow>
          (let e = users st ! i
           in if \<not> privileged (users st) actor \<and> uid e \<noteq> actor then (st, Inl W_EPERM)
              else if length sh > W_SHELL_MAX then (st, Inl W_ENAMETOOLONG)
              else save_user_list (st\<lparr>users := (users st)[i := e\<lparr>shell := sh\<rparr>]\<rparr>)))"

definition bad_name_char :: "u8 \<Rightarrow> bool" where
  "bad_name_char c \<longleftrightarrow> c = slash \<or> c = 58 \<or> c = 10 \<or> c = 46"

definition new_entry :: "'d accounts \<Rightarrow> u32 \<Rightarrow> bytes \<Rightarrow> bytes \<Rightarrow> u32 \<Rightarrow> user_entry" where
  "new_entry st u name password rs =
     (let e = no_entry\<lparr>used := True, uid := u, roles := rs, uname := name\<rparr>
      in if password \<noteq> [] then e\<lparr>salt := make_salt st, hash := hash_password (make_salt st) password\<rparr> else e)"

definition user_add :: "'d accounts \<Rightarrow> u32 \<Rightarrow> bytes \<Rightarrow> bytes \<Rightarrow> u32 \<Rightarrow> 'd accounts \<times> u32 res" where
  "user_add st actor name password rs =
     (if \<not> privileged (users st) actor then (st, Inl W_EPERM)
      else if name = [] \<or> length name > W_NAME_LEN then (st, Inl W_EINVAL)
      else if list_ex bad_name_char name then (st, Inl W_EINVAL)
      else if find_by_name (users st) name \<noteq> None then (st, Inl W_EEXIST)
      else case free_entry (users st) of
        None \<Rightarrow> (st, Inl W_ENOSPC)
      | Some i \<Rightarrow>
          (let u = next_uid st;
               st = st\<lparr>next_uid := u + 1\<rparr>;
               e = new_entry st u name password rs;
               st = st\<lparr>users := (users st)[i := e]\<rparr>
           in case seq (save_user_list st) (\<lambda>st _. save_password st e) of
                (st, Inl err) \<Rightarrow> (fst (save_user_list (st\<lparr>users := (users st)[i := e\<lparr>used := False\<rparr>]\<rparr>)), Inl err)
              | (st, Inr _) \<Rightarrow>
                  (st\<lparr>fs := fst (ensure_dir (fs st) (append_str path_cap (append_str path_cap [] HOME_DIR) name))\<rparr>, Inr u)))"


section \<open>The calls on accounts\<close>

text \<open>
  The handlers of \<^verbatim>\<open>kernel/proc/syscall.c\<close> for accounts.  The argument \<open>copy\<close> copies a string of the
  caller into a buffer of the given size; \<open>u\<close> is the uid of the calling process.
\<close>

type_synonym copier = "u64 \<Rightarrow> nat \<Rightarrow> bytes res"

definition sys_login :: "copier \<Rightarrow> 'd accounts \<Rightarrow> u32 \<Rightarrow> u64 \<Rightarrow> u64 \<Rightarrow> u32 \<times> u32 res" where
  "sys_login copy st u name password =
     (case copy name (W_NAME_LEN + 1) of Inl err \<Rightarrow> (u, Inl err) | Inr namebuf \<Rightarrow>
     (case copy password 128 of Inl err \<Rightarrow> (u, Inl err) | Inr passbuf \<Rightarrow>
     (case (if u = ROOT_UID then user_by_name st namebuf else user_authenticate st namebuf passbuf) of
        Inl err \<Rightarrow> (u, Inl err)
      | Inr who \<Rightarrow> (wuid who, Inr (wuid who)))))"

definition sys_passwd :: "copier \<Rightarrow> u32 \<Rightarrow> u64 \<Rightarrow> u64 \<Rightarrow> u64 \<Rightarrow> 'd accounts \<Rightarrow> 'd accounts \<times> unit res" where
  "sys_passwd copy u name old_password new_password st =
     (case copy name (W_NAME_LEN + 1) of Inl err \<Rightarrow> (st, Inl err) | Inr namebuf \<Rightarrow>
     (case copy old_password 128 of Inl err \<Rightarrow> (st, Inl err) | Inr oldbuf \<Rightarrow>
     (case copy new_password 128 of Inl err \<Rightarrow> (st, Inl err) | Inr newbuf \<Rightarrow>
        user_set_password st u namebuf oldbuf newbuf)))"

definition sys_useradd :: "copier \<Rightarrow> u32 \<Rightarrow> u64 \<Rightarrow> u64 \<Rightarrow> u64 \<Rightarrow> 'd accounts \<Rightarrow> 'd accounts \<times> u32 res" where
  "sys_useradd copy u name password rs st =
     (case copy name (W_NAME_LEN + 1) of Inl err \<Rightarrow> (st, Inl err) | Inr namebuf \<Rightarrow>
     (case copy password 128 of Inl err \<Rightarrow> (st, Inl err) | Inr passbuf \<Rightarrow>
        user_add st u namebuf passbuf (ucast rs)))"

definition sys_setroles :: "copier \<Rightarrow> u32 \<Rightarrow> u64 \<Rightarrow> u64 \<Rightarrow> 'd accounts \<Rightarrow> 'd accounts \<times> unit res" where
  "sys_setroles copy u name rs st =
     (case copy name (W_NAME_LEN + 1) of Inl err \<Rightarrow> (st, Inl err) | Inr namebuf \<Rightarrow>
        user_set_roles st u namebuf (ucast rs))"

definition sys_setshell :: "copier \<Rightarrow> u32 \<Rightarrow> u64 \<Rightarrow> u64 \<Rightarrow> 'd accounts \<Rightarrow> 'd accounts \<times> unit res" where
  "sys_setshell copy u name sh st =
     (case copy name (W_NAME_LEN + 1) of Inl err \<Rightarrow> (st, Inl err) | Inr namebuf \<Rightarrow>
     (case copy sh (W_SHELL_MAX + 1) of Inl err \<Rightarrow> (st, Inl err) | Inr shellbuf \<Rightarrow>
        user_set_shell st u namebuf shellbuf))"

text \<open>A call with the registers it is made with, and the calls a process makes one after another.\<close>

datatype account_call =
  Sys_Passwd u64 u64 u64
| Sys_Useradd u64 u64 u64
| Sys_Setroles u64 u64
| Sys_Setshell u64 u64

fun do_call :: "copier \<Rightarrow> u32 \<Rightarrow> account_call \<Rightarrow> 'd accounts \<Rightarrow> 'd accounts" where
  "do_call copy u (Sys_Passwd a b c) st = fst (sys_passwd copy u a b c st)"
| "do_call copy u (Sys_Useradd a b c) st = fst (sys_useradd copy u a b c st)"
| "do_call copy u (Sys_Setroles a b) st = fst (sys_setroles copy u a b st)"
| "do_call copy u (Sys_Setshell a b) st = fst (sys_setshell copy u a b st)"

definition account_calls :: "(copier \<times> u32 \<times> account_call) list \<Rightarrow> 'd accounts \<Rightarrow> 'd accounts" where
  "account_calls cs st = fold (\<lambda>(copy, u, c). do_call copy u c) cs st"

section \<open>Looking up accounts\<close>

lemma find_slot_Some:
  "find_slot P us = Some i \<longleftrightarrow> i < length us \<and> P (us ! i) \<and> (\<forall>j<i. \<not> P (us ! j))"
  unfolding find_slot_def find_Some_iff by auto

lemma find_slot_None: "find_slot P us = None \<longleftrightarrow> (\<forall>e\<in>set us. \<not> P e)"
  unfolding find_slot_def find_None_iff by (force simp: in_set_conv_nth)

lemma fold_or_zero:
  fixes f :: "nat \<Rightarrow> u8"
  shows "fold (\<lambda>i acc. or acc (f i)) is a = 0 \<longleftrightarrow> a = 0 \<and> (\<forall>i\<in>set is. f i = 0)"
  by (induction "is" arbitrary: a) (auto simp: or_eq_0_iff)

lemma hash_equal_exact: "hash_equal a b \<longleftrightarrow> a = b"
proof -
  have acc: "hash_equal a b \<longleftrightarrow> (\<forall>i<8. (ucast (drop_bit (i * 8) (xor a b)) :: u8) = 0)"
    by (auto simp: hash_equal_def fold_or_zero)
  have bits: "(ucast (drop_bit (i * 8) w) :: u8) = 0 \<longleftrightarrow> (\<forall>j<8. \<not> bit w (i * 8 + j))" for w :: u64 and i
    by (auto simp: bit_eq_iff bit_ucast_iff bit_drop_bit_eq dest: bit_imp_le_length)
  have split: "\<exists>i<8. \<exists>j<8. n = i * 8 + j" if "n < 64" for n :: nat
    using that by (intro exI[of _ "n div 8"] exI[of _ "n mod 8"] conjI) auto
  have zero: "(\<forall>i<8. \<forall>j<8. \<not> bit w (i * 8 + j)) \<longleftrightarrow> w = 0" for w :: u64
  proof
    assume clear: "\<forall>i<8. \<forall>j<8. \<not> bit w (i * 8 + j)"
    have "\<not> bit w n" if "n < 64" for n using split[OF that] clear by blast
    then show "w = 0" by (intro bit_word_eqI) simp
  qed simp
  have "xor a b = 0 \<longleftrightarrow> a = b" by (auto simp: bit_eq_iff bit_xor_iff)
  then show ?thesis unfolding acc bits zero .
qed

section \<open>The list of users and back\<close>

lemma digit_byte:
  fixes v :: u64
  defines "d \<equiv> ucast (48 + v mod 10) :: u8"
  shows "48 \<le> d" "d \<le> 57" "ucast (d - 48) = v mod 10"
proof -
  have m: "unat (v mod 10) < 10" by (simp add: unat_mod)
  have s: "unat (48 + v mod 10) = 48 + unat (v mod 10)"
    using m by (subst unat_add_small) (auto simp: unat_mod)
  have d: "unat d = 48 + unat (v mod 10)"
    unfolding d_def using m s by (simp add: unsigned_ucast_eq take_bit_nat_eq_self)
  show "48 \<le> d" "d \<le> 57" using d m by (auto simp: word_le_nat_alt)
  then have "unat (d - 48) = unat (v mod 10)" using d by (simp add: unat_sub_if')
  then show "ucast (d - 48) = v mod 10" using m by (intro word_unat_eq_iff[THEN iffD2]) (simp add: unsigned_ucast_eq take_bit_nat_eq_self)
qed

lemma parse_tmp_digits: "parse_digits 0 (rev (tmp_digits v) @ rest) = parse_digits v rest"
proof (induction v arbitrary: rest rule: tmp_digits.induct)
  case (1 v)
  show ?case
  proof (cases "v = 0")
    case True
    then show ?thesis by (subst tmp_digits.simps) simp
  next
    case False
    have v: "v div 10 * 10 + v mod 10 = v" by (rule div_mult_mod_eq)
    show ?thesis using False 1[OF False] digit_byte[of v]
      by (subst tmp_digits.simps) (simp del: mult.commute add: v mult.commute[of 10])
  qed
qed

definition decimal :: "u64 \<Rightarrow> bytes" where
  "decimal v = (if v = 0 then [48] else rev (tmp_digits v))"

lemma parse_decimal: "parse_u64 (decimal v @ rest) = parse_digits v rest"
  by (simp add: parse_u64_def decimal_def parse_tmp_digits)

lemma decimal_digits: "c \<in> set (decimal v) \<Longrightarrow> 48 \<le> c \<and> c \<le> 57"
proof -
  have "c \<in> set (tmp_digits v) \<Longrightarrow> 48 \<le> c \<and> c \<le> 57"
  proof (induction v rule: tmp_digits.induct)
    case (1 v)
    from 1(2) show ?case
      by (subst (asm) tmp_digits.simps) (use 1(1) digit_byte[of v] in \<open>auto split: if_splits\<close>)
  qed
  then show "c \<in> set (decimal v) \<Longrightarrow> 48 \<le> c \<and> c \<le> 57" by (auto simp: decimal_def split: if_splits)
qed

lemma tmp_digits_length: "unat v < 10 ^ n \<Longrightarrow> length (tmp_digits v) \<le> n"
proof (induction n arbitrary: v)
  case 0
  then show ?case by (subst tmp_digits.simps) (simp add: unat_eq_0)
next
  case (Suc n)
  have "unat (v div 10) < 10 ^ n" using Suc.prems by (simp add: unat_div less_mult_imp_div_less)
  then show ?case using Suc.IH by (subst tmp_digits.simps) simp
qed

lemma decimal_length:
  fixes v :: u32
  shows "length (decimal (ucast v)) \<le> 10"
proof -
  have "unat (ucast v :: u64) < 10 ^ 10" using unat_lt_2_32[of v] by (simp add: unsigned_ucast_eq take_bit_nat_eq_self)
  then show ?thesis using tmp_digits_length by (simp add: decimal_def)
qed

lemma append_fits:
  "length buf + length s < cap \<Longrightarrow> append_str cap buf s = buf @ s"
  "length buf + length (decimal v) < cap \<Longrightarrow> append_u64 cap v buf = buf @ decimal v"
  by (auto simp: append_str_def append_u64_def decimal_def Let_def)


text \<open>An account without its password, the line that describes it, and the accounts that can be
  written to the list and read back.\<close>

definition account :: "user_entry \<Rightarrow> user_entry" where
  "account e = e\<lparr>salt := 0, hash := 0\<rparr>"

definition line_of :: "user_entry \<Rightarrow> bytes" where
  "line_of e = uname e @ 58 # decimal (ucast (uid e)) @ 58 # decimal (ucast (roles e)) @
     (if shell e \<noteq> [] then 58 # shell e else [])"

definition entry_fits :: "user_entry \<Rightarrow> bool" where
  "entry_fits e \<longleftrightarrow> uname e \<noteq> [] \<and> length (uname e) \<le> W_NAME_LEN \<and> length (shell e) \<le> W_SHELL_MAX
     \<and> {58, 10, 0} \<inter> set (uname e) = {} \<and> 0 \<notin> set (shell e)"

definition entry_ok :: "user_entry \<Rightarrow> bool" where
  "entry_ok e \<longleftrightarrow> entry_fits e \<and> 10 \<notin> set (shell e)"

definition table_of_accounts :: "user_entry list \<Rightarrow> user_entry list" where
  "table_of_accounts es = es @ replicate (W_MAX_USERS - length es) no_entry"

definition fresh_table :: "'d accounts \<Rightarrow> 'd accounts" where
  "fresh_table st = st\<lparr>users := replicate W_MAX_USERS no_entry, next_uid := 1\<rparr>"

lemma line_of_length: "entry_fits e \<Longrightarrow> length (line_of e) \<le> 117"
  using decimal_length[of "uid e"] decimal_length[of "roles e"]
  by (simp add: line_of_def entry_fits_def W_NAME_LEN_def W_SHELL_MAX_def)

lemma list_line_whole:
  assumes "used e" "entry_fits e" "length t + 118 < list_cap"
  shows "list_line e t = t @ line_of e @ [10]"
  using assms line_of_length[OF assms(2)]
  by (cases "shell e = []") (simp_all add: list_line_def line_of_def append_fits Let_def)

lemma list_text_whole:
  assumes "length us \<le> W_MAX_USERS" "\<forall>e\<in>set us. used e \<longrightarrow> entry_fits e"
  shows "list_text us = concat (map (\<lambda>e. line_of e @ [10]) (filter used us))"
    and "length (list_text us) < list_cap"
proof -
  have *: "fold list_line us t = t @ concat (map (\<lambda>e. line_of e @ [10]) (filter used us))
      \<and> length (fold list_line us t) \<le> length t + 118 * length us"
    if "length t + 118 * length us < list_cap" "\<forall>e\<in>set us. used e \<longrightarrow> entry_fits e" for t
    using that
  proof (induction us arbitrary: t)
    case (Cons e us)
    show ?case
    proof (cases "used e")
      case True
      then have fits: "entry_fits e" using Cons.prems by simp
      have step: "list_line e t = t @ line_of e @ [10]"
        using list_line_whole[OF True fits] Cons.prems(1) by simp
      have small: "length (list_line e t) \<le> length t + 118" using step line_of_length[OF fits] by simp
      have "fold list_line us (list_line e t) = list_line e t @ concat (map (\<lambda>e. line_of e @ [10]) (filter used us))"
        "length (fold list_line us (list_line e t)) \<le> length (list_line e t) + 118 * length us"
        using Cons.IH[of "list_line e t"] Cons.prems small by auto
      then show ?thesis using small True step by simp
    next
      case False
      then have "list_line e t = t" by (simp add: list_line_def)
      moreover have "fold list_line us t = t @ concat (map (\<lambda>e. line_of e @ [10]) (filter used us))"
        "length (fold list_line us t) \<le> length t + 118 * length us"
        using Cons.IH[of t] Cons.prems by auto
      ultimately show ?thesis using False by simp
    qed
  qed simp
  show "list_text us = concat (map (\<lambda>e. line_of e @ [10]) (filter used us))" "length (list_text us) < list_cap"
    using *[of "[]"] assms by (auto simp: list_text_def list_cap_def W_MAX_USERS_def)
qed

lemma text_lines_break: "text_lines acc (xs @ 10 # ys) = text_lines acc xs @ text_lines [] ys"
  by (induction xs arbitrary: acc) auto

lemma text_lines_one:
  "10 \<notin> set xs \<Longrightarrow> 0 \<notin> set xs \<Longrightarrow> text_lines acc xs = (if acc @ xs = [] then [] else [acc @ xs])"
  by (induction xs arbitrary: acc) auto

lemma text_lines_concat: "text_lines [] (concat (map (\<lambda>e. f e @ [10]) es)) = concat (map (\<lambda>e. text_lines [] (f e)) es)"
  by (induction es) (simp_all add: text_lines_break)

lemma line_of_lines:
  assumes "entry_ok e"
  shows "text_lines [] (line_of e) = [line_of e]"
proof -
  have "c \<notin> set (line_of e)" if "c = 10 \<or> c = 0" for c
    using assms that decimal_digits[of c]
    by (auto simp: line_of_def entry_ok_def entry_fits_def)
  then show ?thesis by (subst text_lines_one) (auto simp: line_of_def)
qed

lemma parse_fields_name:
  assumes "length name \<le> W_NAME_LEN" "name \<noteq> []" "58 \<notin> set name"
  shows "parse_fields (name @ 58 # decimal u @ 58 # decimal r @ rest) =
    (let (r, line) = parse_digits r rest
     in Some (no_entry\<lparr>used := True, uname := name, uid := ucast u, roles := ucast r,
          shell := (case line of
              c # line \<Rightarrow> if c = 58 then take W_SHELL_MAX (takeWhile (\<lambda>c. c \<noteq> 10) line) else []
            | [] \<Rightarrow> [])\<rparr>))"
proof -
  have name: "takeWhile (\<lambda>c. c \<noteq> 58) (name @ 58 # more) = name" for more
    using assms(3) by (subst takeWhile_append2) auto
  show ?thesis using assms(1,2)
    by (simp add: parse_fields_def name parse_decimal Let_def split: prod.split)
qed

lemma ucast_up_down [simp]: "ucast (ucast w :: u64) = w" for w :: u32
  by (intro bit_word_eqI) (simp add: bit_ucast_iff)

lemma shell_field: "10 \<notin> set sh \<Longrightarrow> length sh \<le> n \<Longrightarrow> take n (takeWhile (\<lambda>c. c \<noteq> (10 :: u8)) sh) = sh"
  by (subst takeWhile_eq_all_conv[THEN iffD2]) auto

lemma parse_line_of:
  assumes "used e" "entry_ok e"
  shows "parse_fields (line_of e) = Some (account e)"
  using assms unfolding line_of_def entry_ok_def entry_fits_def
  by (cases e) (auto simp: parse_fields_name account_def no_entry_def shell_field)


lemma load_password_account: "account (snd (load_password s e)) = account e"
  by (auto simp: load_password_def account_def Let_def split: prod.split sum.split list.split)

lemma account_used: "account a = account b \<Longrightarrow> used a = used b \<and> uid a = uid b \<and> uname a = uname b"
  by (cases a; cases b) (auto simp: account_def)

lemma parse_fields_used: "parse_fields l = Some e \<Longrightarrow> used e"
  by (auto simp: parse_fields_def Let_def no_entry_def split: list.splits if_splits prod.splits)

lemma free_entry_next:
  assumes "list_all used xs"
  shows "free_entry (xs @ no_entry # ys) = Some (length xs)"
  using assms by (auto simp: free_entry_def find_slot_Some nth_append list_all_length no_entry_def)

definition bump_uid :: "user_entry \<Rightarrow> u32 \<Rightarrow> u32" where
  "bump_uid e n = (if uid e \<ge> n then uid e + 1 else n)"

lemma parse_list_line_adds:
  assumes "parse_fields l = Some e" "list_all used xs" "users st = xs @ no_entry # ys"
  shows "\<exists>e'. users (parse_list_line l st) = xs @ e' # ys \<and> account e' = account e
    \<and> next_uid (parse_list_line l st) = bump_uid e (next_uid st)"
  using assms load_password_account[of "fs st" e]
  by (auto simp: parse_list_line_def free_entry_next bump_uid_def Let_def split: prod.split)

lemma parse_lines_add:
  assumes "list_all2 (\<lambda>l e. parse_fields l = Some e) ls es" "list_all used xs"
    and "users st = xs @ replicate n no_entry" "length es \<le> n"
  shows "\<exists>ys. users (fold parse_list_line ls st) = xs @ ys @ replicate (n - length es) no_entry
    \<and> map account ys = map account es \<and> next_uid (fold parse_list_line ls st) = fold bump_uid es (next_uid st)"
  using assms
proof (induction ls es arbitrary: xs st n rule: list_all2_induct)
  case (Cons l ls e es)
  obtain m where n: "n = Suc m" using Cons.prems by (cases n) auto
  obtain e' where e': "users (parse_list_line l st) = (xs @ [e']) @ replicate m no_entry" "account e' = account e"
    "next_uid (parse_list_line l st) = bump_uid e (next_uid st)"
    using parse_list_line_adds[OF Cons.hyps(1) Cons.prems(1)] Cons.prems(2) n by auto
  have "list_all used (xs @ [e'])" using Cons.prems(1) account_used[OF e'(2)] parse_fields_used[OF Cons.hyps(1)] by simp
  from Cons.IH[OF this e'(1)] Cons.prems(3) n e' show ?case by force
qed simp

lemma bump_uid_mono:
  assumes "\<forall>e\<in>set es. uid e \<noteq> - 1"
  shows "n \<le> fold bump_uid es n \<and> (\<forall>e\<in>set es. uid e < fold bump_uid es n)"
  using assms
proof (induction es arbitrary: n)
  case (Cons e es)
  have "unat (uid e) \<noteq> unat (- 1 :: u32)" using Cons.prems by (simp add: word_unat_eq_iff[symmetric])
  then have "unat (uid e) + unat (1 :: u32) < 2 ^ 32" using unat_lt_2_32[of "uid e"]
    by (simp add: unsigned_minus_1_eq_mask mask_eq_exp_minus_1)
  then have "uid e < uid e + 1" by (subst word_less_nat_alt, subst unat_word_ariths(1)) simp
  then have bump: "n \<le> bump_uid e n" "uid e < bump_uid e n" by (auto simp: bump_uid_def)
  have rest: "bump_uid e n \<le> fold bump_uid es (bump_uid e n)" "\<forall>d\<in>set es. uid d < fold bump_uid es (bump_uid e n)"
    using Cons.IH[of "bump_uid e n"] Cons.prems by auto
  show ?case using order.trans[OF bump(1) rest(1)] order.strict_trans2[OF bump(2) rest(1)] rest(2) by simp
qed simp

lemma account_idem [simp]: "account (account e) = account e" "account no_entry = no_entry"
  "uid (account e) = uid e" "used (account e) = used e"
  by (simp_all add: account_def no_entry_def)

lemma parse_users_fresh:
  assumes "list_all2 (\<lambda>l e. parse_fields l = Some e) (text_lines [] txt) es" "length es \<le> W_MAX_USERS"
  shows "map account (users (parse_users txt (fresh_table st))) = table_of_accounts (map account es)"
    and "next_uid (parse_users txt (fresh_table st)) = fold bump_uid es 1"
  using parse_lines_add[OF assms(1), of "[]" "fresh_table st" W_MAX_USERS] assms(2)
  by (auto simp: parse_users_def fresh_table_def table_of_accounts_def)


section \<open>What a call keeps\<close>

lemma save_keeps [simp]:
  "users (fst (save_user_list st)) = users st" "next_uid (fst (save_user_list st)) = next_uid st"
  "users (fst (save_password st e)) = users st" "next_uid (fst (save_password st e)) = next_uid st"
  by (simp_all add: save_user_list_def save_password_def split: prod.split)

text \<open>The two ways a call changes the table: one account gets another password, shell or set of roles,
  or a new account takes a free slot.\<close>

definition same_person :: "user_entry \<Rightarrow> user_entry \<Rightarrow> bool" where
  "same_person e e' \<longleftrightarrow> used e' = used e \<and> uname e' = uname e \<and> uid e' = uid e"

lemma same_person_simps [simp]:
  "same_person e e" "same_person e (e\<lparr>shell := s\<rparr>)" "same_person e (e\<lparr>roles := r\<rparr>)"
  "same_person e (e\<lparr>salt := a, hash := h\<rparr>)"
  by (simp_all add: same_person_def)

lemma find_by_nameD:
  "find_by_name us name = Some i \<Longrightarrow> i < length us" "find_by_name us name = Some i \<Longrightarrow> used (us ! i)"
  "find_by_name us name = Some i \<Longrightarrow> uname (us ! i) = name"
  by (auto simp: find_by_name_def find_slot_Some)

lemma find_by_name_None: "find_by_name us name = None \<longleftrightarrow> (\<forall>e\<in>set us. used e \<longrightarrow> uname e \<noteq> name)"
  by (auto simp: find_by_name_def find_slot_None)

lemma free_entryD: "free_entry us = Some i \<Longrightarrow> i < length us \<and> \<not> used (us ! i)"
  by (auto simp: free_entry_def find_slot_Some)

definition edits :: "u32 \<Rightarrow> user_entry list \<Rightarrow> user_entry list \<Rightarrow> bool" where
  "edits u us us' \<longleftrightarrow> us' = us \<or>
     (\<exists>i e'. i < length us \<and> used (us ! i) \<and> same_person (us ! i) e' \<and> us' = us[i := e']
        \<and> (privileged us u \<or> uid (us ! i) = u \<and> roles e' = roles (us ! i))
        \<and> (entry_fits (us ! i) \<longrightarrow> entry_fits e'))"

lemma edits_same: "edits u us us"
  by (simp add: edits_def)

lemma editsI:
  assumes "i < length us" "used (us ! i)" "same_person (us ! i) e'"
    "privileged us u \<or> uid (us ! i) = u \<and> roles e' = roles (us ! i)" "entry_fits (us ! i) \<longrightarrow> entry_fits e'"
  shows "edits u us (us[i := e'])"
  using assms unfolding edits_def by blast

lemma edits_one:
  assumes "find_by_name us name = Some i" "privileged us u \<or> uid (us ! i) = u"
  shows "edits u us (us[i := (us ! i)\<lparr>salt := a, hash := h\<rparr>])"
    and "0 \<notin> set sh \<Longrightarrow> length sh \<le> W_SHELL_MAX \<Longrightarrow> edits u us (us[i := (us ! i)\<lparr>shell := sh\<rparr>])"
    and "privileged us u \<Longrightarrow> edits u us (us[i := (us ! i)\<lparr>roles := rs\<rparr>])"
  using assms(2) find_by_nameD[OF assms(1)] by (auto intro!: editsI simp: entry_fits_def)

lemma user_set_edits:
  "edits u (users st) (users (fst (user_set_password st u name p q)))"
  "edits u (users st) (users (fst (user_set_roles st u name rs)))"
  "0 \<notin> set sh \<Longrightarrow> edits u (users st) (users (fst (user_set_shell st u name sh)))"
  by (auto simp: user_set_password_def user_set_roles_def user_set_shell_def Let_def
      intro!: edits_same edits_one split: option.split)

lemma user_set_next_uid [simp]:
  "next_uid (fst (user_set_password st u name p q)) = next_uid st"
  "next_uid (fst (user_set_roles st u name rs)) = next_uid st"
  "next_uid (fst (user_set_shell st u name sh)) = next_uid st"
  by (auto simp: user_set_password_def user_set_roles_def user_set_shell_def Let_def split: option.split)


lemma save_both_keeps:
  assumes "seq (save_user_list st) (\<lambda>st _. save_password st e) = (st', r)"
  shows "users st' = users st" "next_uid st' = next_uid st"
proof -
  obtain s1 r1 where list: "save_user_list st = (s1, r1)" by fastforce
  obtain s2 r2 where pw: "save_password s1 e = (s2, r2)" by fastforce
  have "users s1 = users st" "next_uid s1 = next_uid st" "users s2 = users s1" "next_uid s2 = next_uid s1"
    using save_keeps(1,2)[of st] save_keeps(3,4)[of s1 e] list pw by simp_all
  then show "users st' = users st" "next_uid st' = next_uid st"
    using assms list pw by (cases r1; simp)+
qed

lemma user_add_table:
  "users (fst (user_add st u name password rs)) = users st \<and> next_uid (fst (user_add st u name password rs)) = next_uid st
     \<and> (\<exists>err. snd (user_add st u name password rs) = Inl err)
   \<or> (\<exists>i e. privileged (users st) u \<and> name \<noteq> [] \<and> length name \<le> W_NAME_LEN \<and> \<not> list_ex bad_name_char name
        \<and> find_by_name (users st) name = None \<and> free_entry (users st) = Some i
        \<and> users (fst (user_add st u name password rs)) = (users st)[i := e]
        \<and> next_uid (fst (user_add st u name password rs)) = next_uid st + 1
        \<and> uname e = name \<and> uid e = next_uid st \<and> roles e = rs \<and> shell e = []
        \<and> (password = [] \<longleftrightarrow> hash e = 0) \<and> (password \<noteq> [] \<longrightarrow> hash e = hash_password (salt e) password)
        \<and> (if used e then snd (user_add st u name password rs) = Inr (next_uid st)
           else \<exists>err. snd (user_add st u name password rs) = Inl err))"
  (is "?same \<or> ?new")
proof -
  consider (refused) "\<not> privileged (users st) u \<or> name = [] \<or> length name > W_NAME_LEN
      \<or> list_ex bad_name_char name \<or> find_by_name (users st) name \<noteq> None \<or> free_entry (users st) = None"
    | (ok) i where "privileged (users st) u" "name \<noteq> []" "length name \<le> W_NAME_LEN"
      "\<not> list_ex bad_name_char name" "find_by_name (users st) name = None" "free_entry (users st) = Some i"
    by fastforce
  then show ?thesis
  proof cases
    case refused
    then have ?same by (auto simp: user_add_def)
    then show ?thesis ..
  next
    case ok
    have nz: "hash_password a b \<noteq> 0" for a b by (simp add: hash_password_def Let_def)
    define uid0 where "uid0 = next_uid st"
    define st1 where "st1 = st\<lparr>next_uid := next_uid st + 1\<rparr>"
    define e where "e = new_entry st1 (next_uid st) name password rs"
    define st2 where "st2 = st1\<lparr>users := (users st)[i := e]\<rparr>"
    obtain st3 r where saved: "seq (save_user_list st2) (\<lambda>st _. save_password st e) = (st3, r)" by fastforce
    have add: "user_add st u name password rs = (case (st3, r) of
          (st, Inl err) \<Rightarrow> (fst (save_user_list (st\<lparr>users := (users st)[i := e\<lparr>used := False\<rparr>]\<rparr>)), Inl err)
        | (st, Inr _) \<Rightarrow> (st\<lparr>fs := fst (ensure_dir (fs st) (append_str path_cap (append_str path_cap [] HOME_DIR) name))\<rparr>,
            Inr uid0))"
      unfolding saved[symmetric] e_def uid0_def st2_def st1_def using ok by (simp add: user_add_def Let_def)
    have e: "uname e = name" "uid e = next_uid st" "roles e = rs" "shell e = []" "used e"
      "password = [] \<longleftrightarrow> hash e = 0" "password \<noteq> [] \<longrightarrow> hash e = hash_password (salt e) password"
      by (auto simp: e_def new_entry_def no_entry_def nz Let_def)
    have keeps: "users st3 = (users st)[i := e]" "next_uid st3 = next_uid st + 1"
      using save_both_keeps[OF saved] by (simp_all add: st2_def st1_def)
    show ?thesis
    proof (cases r)
      case (Inl err)
      have ?new using ok e keeps Inl by (intro exI[of _ i] exI[of _ "e\<lparr>used := False\<rparr>"]) (simp add: add)
      then show ?thesis ..
    next
      case (Inr x)
      have ?new using ok e keeps Inr by (intro exI[of _ i] exI[of _ e]) (simp add: add uid0_def)
      then show ?thesis ..
    qed
  qed
qed


section \<open>The invariant of the table\<close>

definition accounts_ok :: "'d accounts \<Rightarrow> bool" where
  "accounts_ok st \<longleftrightarrow> length (users st) = W_MAX_USERS \<and> (\<forall>e\<in>set (users st). used e \<longrightarrow> entry_fits e \<and> uid e < next_uid st)
     \<and> (\<forall>i<W_MAX_USERS. \<forall>j<i. used (users st ! i) \<longrightarrow> used (users st ! j) \<longrightarrow>
          uname (users st ! i) \<noteq> uname (users st ! j) \<and> uid (users st ! i) \<noteq> uid (users st ! j))
     \<and> find_by_uid (users st) ROOT_UID \<noteq> None"

lemma has_root: "find_by_uid us u \<noteq> None \<longleftrightarrow> (\<exists>i<length us. used (us ! i) \<and> uid (us ! i) = u)"
  by (force simp: find_by_uid_def find_slot_None in_set_conv_nth)

lemma accounts_okD:
  assumes "accounts_ok st"
  shows "length (users st) = W_MAX_USERS"
    and "i < W_MAX_USERS \<Longrightarrow> used (users st ! i) \<Longrightarrow> entry_fits (users st ! i) \<and> uid (users st ! i) < next_uid st"
    and "i < W_MAX_USERS \<Longrightarrow> j < W_MAX_USERS \<Longrightarrow> i \<noteq> j \<Longrightarrow> used (users st ! i) \<Longrightarrow> used (users st ! j) \<Longrightarrow>
      uname (users st ! i) \<noteq> uname (users st ! j) \<and> uid (users st ! i) \<noteq> uid (users st ! j)"
    and "\<exists>i<W_MAX_USERS. used (users st ! i) \<and> uid (users st ! i) = ROOT_UID"
  using assms unfolding accounts_ok_def has_root by (auto, metis linorder_neqE_nat, metis linorder_neqE_nat)

lemma accounts_okI:
  assumes "length us = W_MAX_USERS" "us = users st"
    and "\<And>i. i < W_MAX_USERS \<Longrightarrow> used (us ! i) \<Longrightarrow> entry_fits (us ! i) \<and> uid (us ! i) < next_uid st"
    and "\<And>i j. i < W_MAX_USERS \<Longrightarrow> j < W_MAX_USERS \<Longrightarrow> i \<noteq> j \<Longrightarrow> used (us ! i) \<Longrightarrow> used (us ! j) \<Longrightarrow>
      uname (us ! i) \<noteq> uname (us ! j) \<and> uid (us ! i) \<noteq> uid (us ! j)"
    and "\<exists>i<W_MAX_USERS. used (us ! i) \<and> uid (us ! i) = ROOT_UID"
  shows "accounts_ok st"
  using assms unfolding accounts_ok_def has_root by (auto simp: in_set_conv_nth)

lemma edits_persons:
  assumes "edits u us us'"
  shows "length us' = length us" "i < length us \<Longrightarrow> same_person (us ! i) (us' ! i)"
    and "i < length us \<Longrightarrow> entry_fits (us ! i) \<Longrightarrow> entry_fits (us' ! i)"
  using assms unfolding edits_def by (auto simp: nth_list_update)

lemma edits_keeps_ok:
  assumes "accounts_ok st" "edits u (users st) (users st')" "next_uid st' = next_uid st"
  shows "accounts_ok st'"
proof -
  note ok = accounts_okD[OF assms(1)]
  note ed = edits_persons[OF assms(2)]
  have len: "length (users st') = W_MAX_USERS" using ed(1) ok(1) by simp
  have same: "used (users st' ! i) = used (users st ! i)" "uname (users st' ! i) = uname (users st ! i)"
    "uid (users st' ! i) = uid (users st ! i)" if "i < W_MAX_USERS" for i
    using ed(2)[of i] that ok(1) by (auto simp: same_person_def)
  show ?thesis
  proof (rule accounts_okI[OF len refl])
    show "entry_fits (users st' ! i) \<and> uid (users st' ! i) < next_uid st'"
      if "i < W_MAX_USERS" "used (users st' ! i)" for i
      using that same[OF that(1)] ok(2)[OF that(1)] ed(3)[of i] assms(3) ok(1) by simp
    show "uname (users st' ! i) \<noteq> uname (users st' ! j) \<and> uid (users st' ! i) \<noteq> uid (users st' ! j)"
      if "i < W_MAX_USERS" "j < W_MAX_USERS" "i \<noteq> j" "used (users st' ! i)" "used (users st' ! j)" for i j
      using that same[OF that(1)] same[OF that(2)] ok(3)[OF that(1-3)] by simp
    show "\<exists>i<W_MAX_USERS. used (users st' ! i) \<and> uid (users st' ! i) = ROOT_UID"
      using ok(4) same by metis
  qed
qed

lemma add_keeps_ok:
  assumes "accounts_ok st" "free_entry (users st) = Some i" "find_by_name (users st) (uname e) = None"
    and "users st' = (users st)[i := e]" "next_uid st' = next_uid st + 1" "uid e = next_uid st" "entry_fits e"
    and "unat (next_uid st) + 1 < 2 ^ 32"
  shows "accounts_ok st'"
proof -
  note ok = accounts_okD[OF assms(1)]
  have i: "i < W_MAX_USERS" "\<not> used (users st ! i)" using free_entryD[OF assms(2)] ok(1) by auto
  have later: "next_uid st < next_uid st'"
    using assms(5,8) by (simp add: word_less_nat_alt unat_word_ariths(1))
  have fresh: "uname (users st ! j) \<noteq> uname e" if "j < W_MAX_USERS" "used (users st ! j)" for j
    using assms(3) that ok(1) unfolding find_by_name_None by (simp add: all_set_conv_all_nth)
  have nth: "users st' ! j = (if j = i then e else users st ! j)" if "j < W_MAX_USERS" for j
    using assms(4) that ok(1) by (simp add: nth_list_update)
  show ?thesis
  proof (rule accounts_okI[OF _ refl])
    show "length (users st') = W_MAX_USERS" using assms(4) ok(1) by simp
    show "entry_fits (users st' ! j) \<and> uid (users st' ! j) < next_uid st'"
      if "j < W_MAX_USERS" "used (users st' ! j)" for j
      using that nth[OF that(1)] ok(2)[OF that(1)] later assms(6,7) by (auto intro: order.strict_trans split: if_splits)
    show "uname (users st' ! j) \<noteq> uname (users st' ! k) \<and> uid (users st' ! j) \<noteq> uid (users st' ! k)"
      if "j < W_MAX_USERS" "k < W_MAX_USERS" "j \<noteq> k" "used (users st' ! j)" "used (users st' ! k)" for j k
      using that nth[OF that(1)] nth[OF that(2)] ok(2)[OF that(1)] ok(2)[OF that(2)] ok(3)[OF that(1-3)]
        fresh[OF that(1)] fresh[OF that(2)] assms(6) by (auto split: if_splits)
    show "\<exists>i<W_MAX_USERS. used (users st' ! i) \<and> uid (users st' ! i) = ROOT_UID"
      using ok(4) nth i by metis
  qed
qed


definition copies_strings :: "copier \<Rightarrow> bool" where
  "copies_strings copy \<longleftrightarrow> (\<forall>a n t. copy a n = Inr t \<longrightarrow> 0 \<notin> set t \<and> length t < n)"

lemma do_call_cases:
  assumes "copies_strings copy"
  shows "edits u (users st) (users (do_call copy u c st)) \<and> next_uid (do_call copy u c st) = next_uid st
    \<or> (\<exists>name password rs. do_call copy u c st = fst (user_add st u name password rs) \<and> 0 \<notin> set name)"
proof -
  have nul: "0 \<notin> set t" if "copy a n = Inr t" for a n t using assms that unfolding copies_strings_def by blast
  show ?thesis
    by (cases c) (auto simp: sys_passwd_def sys_useradd_def sys_setroles_def sys_setshell_def
      intro: edits_same user_set_edits dest: nul split: sum.split)
qed

lemma user_add_keeps_ok:
  assumes "accounts_ok st" "0 \<notin> set name" "unat (next_uid st) + 1 < 2 ^ 32"
  shows "accounts_ok (fst (user_add st u name password rs))"
    and "unat (next_uid (fst (user_add st u name password rs))) \<le> unat (next_uid st) + 1"
proof -
  have fits: "entry_fits e" if "uname e = name" "name \<noteq> []" "length name \<le> W_NAME_LEN"
    "\<not> list_ex bad_name_char name" "shell e = []" for e
    using that assms(2) by (auto simp: entry_fits_def bad_name_char_def list_ex_iff)
  have plus: "unat (next_uid st + 1) = unat (next_uid st) + 1"
    using assms(3) by (simp add: unat_word_ariths(1))
  consider (same) "users (fst (user_add st u name password rs)) = users st"
      "next_uid (fst (user_add st u name password rs)) = next_uid st"
    | (new) i e where "name \<noteq> []" "length name \<le> W_NAME_LEN" "\<not> list_ex bad_name_char name"
        "find_by_name (users st) name = None" "free_entry (users st) = Some i"
        "users (fst (user_add st u name password rs)) = (users st)[i := e]"
        "next_uid (fst (user_add st u name password rs)) = next_uid st + 1"
        "uname e = name" "uid e = next_uid st" "shell e = []"
    using user_add_table[of st u name password rs] by blast
  then have "accounts_ok (fst (user_add st u name password rs))
    \<and> unat (next_uid (fst (user_add st u name password rs))) \<le> unat (next_uid st) + 1"
  proof cases
    case same
    then show ?thesis
      using edits_keeps_ok[OF assms(1), of u "fst (user_add st u name password rs)"] edits_same by simp
  next
    case new
    then show ?thesis
      using add_keeps_ok[OF assms(1) new(5) _ new(6,7)] fits[of e] assms(3) plus by simp
  qed
  then show "accounts_ok (fst (user_add st u name password rs))"
    "unat (next_uid (fst (user_add st u name password rs))) \<le> unat (next_uid st) + 1" by simp_all
qed

lemma do_call_keeps_ok:
  assumes "copies_strings copy" "accounts_ok st" "unat (next_uid st) + 1 < 2 ^ 32"
  shows "accounts_ok (do_call copy u c st) \<and> unat (next_uid (do_call copy u c st)) \<le> unat (next_uid st) + 1"
  using do_call_cases[OF assms(1), of u st c] edits_keeps_ok[OF assms(2)] user_add_keeps_ok[OF assms(2) _ assms(3)]
  by fastforce

text \<open>C31. The account table keeps its invariant under every sequence of account calls, by whoever makes
  them and however they end: names and uids stay unique, names stay non-empty, within their field and
  free of the separators of the list, every uid is below the next one handed out, and root exists.\<close>

theorem accounts_invariant:
  assumes "accounts_ok st" "\<forall>(copy, u, c)\<in>set cs. copies_strings copy" "unat (next_uid st) + length cs < 2 ^ 32"
  shows "accounts_ok (account_calls cs st)"
  using assms unfolding account_calls_def
proof (induction cs arbitrary: st)
  case (Cons call cs)
  obtain copy u c where call: "call = (copy, u, c)" by (cases call)
  have "copies_strings copy" "unat (next_uid st) + 1 < 2 ^ 32" using Cons.prems call by auto
  then show ?case using Cons.IH[of "do_call copy u c st"] do_call_keeps_ok[of copy st u c] Cons.prems call by simp
qed simp


section \<open>What an ordinary user can do\<close>

definition only_own :: "u32 \<Rightarrow> user_entry list \<Rightarrow> user_entry list \<Rightarrow> bool" where
  "only_own u us us' \<longleftrightarrow> length us' = length us \<and> (\<forall>i<length us. same_person (us ! i) (us' ! i)
     \<and> roles (us' ! i) = roles (us ! i) \<and> (uid (us ! i) \<noteq> u \<longrightarrow> us' ! i = us ! i))"

lemma only_own_trans: "only_own u a b \<Longrightarrow> only_own u b c \<Longrightarrow> only_own u a c"
  by (auto simp: only_own_def same_person_def)

lemma only_own_find:
  assumes "only_own u us us'"
  shows "find_by_uid us' v = find_by_uid us v"
proof -
  have "length us' = length us"
    and "\<And>i. i < length us \<Longrightarrow> (used (us' ! i) \<and> uid (us' ! i) = v) = (used (us ! i) \<and> uid (us ! i) = v)"
    using assms by (auto simp: only_own_def same_person_def)
  then show ?thesis unfolding find_by_uid_def find_slot_def by (intro find_cong) auto
qed

lemma only_own_privileged:
  assumes "only_own u us us'"
  shows "privileged us' v = privileged us v"
proof (cases "find_by_uid us v")
  case None
  then show ?thesis using only_own_find[OF assms, of v] by (simp add: privileged_def user_has_role_def)
next
  case (Some i)
  then have "i < length us" by (simp add: find_by_uid_def find_slot_Some)
  then have "roles (us' ! i) = roles (us ! i)" using assms by (simp add: only_own_def)
  then show ?thesis using Some only_own_find[OF assms, of v] by (simp add: privileged_def user_has_role_def)
qed

lemma edits_only_own:
  assumes "edits u us us'" "\<not> privileged us u"
  shows "only_own u us us'"
  using assms by (auto simp: edits_def only_own_def same_person_def nth_list_update split: if_splits)

lemma do_call_only_own:
  assumes "copies_strings copy" "\<not> privileged (users st) u"
  shows "only_own u (users st) (users (do_call copy u c st)) \<and> next_uid (do_call copy u c st) = next_uid st"
proof -
  have "fst (user_add st u name password rs) = st" for name password rs using assms(2) by (simp add: user_add_def)
  then show ?thesis using do_call_cases[OF assms(1), of u st c] edits_only_own[OF _ assms(2)] edits_same by fastforce
qed

text \<open>C5. Whatever a process without the user editor role asks for, over any number of calls, it gains no
  privilege: no account appears or disappears, no name, uid or set of roles changes, and every account
  that is not its own stays exactly as it was, password and shell included.\<close>

theorem ordinary_user_limits:
  assumes "\<not> privileged (users st) u" "\<forall>(copy, v, c)\<in>set cs. copies_strings copy \<and> v = u"
  shows "only_own u (users st) (users (account_calls cs st)) \<and> next_uid (account_calls cs st) = next_uid st
    \<and> \<not> privileged (users (account_calls cs st)) u"
  using assms unfolding account_calls_def
proof (induction cs arbitrary: st)
  case Nil
  then show ?case by (simp add: only_own_def)
next
  case (Cons call cs)
  obtain copy c where call: "call = (copy, u, c)" "copies_strings copy" using Cons.prems(2) by (cases call) auto
  note step = do_call_only_own[OF call(2) Cons.prems(1), of c]
  then have "\<not> privileged (users (do_call copy u c st)) u" using only_own_privileged Cons.prems(1) by blast
  from Cons.IH[OF this] Cons.prems(2) step show ?case using only_own_trans by (auto simp: call(1))
qed

text \<open>C32. A login succeeds exactly when the name and the password can be copied, an account of that name
  exists, and the caller is root, the account has no password, or the password hashes to the stored
  value with the stored salt; the process then runs under the uid of that account, and otherwise its uid
  is unchanged.\<close>

theorem login_exact:
  "(snd (sys_login copy st u name password) = Inr v \<longleftrightarrow>
      (\<exists>n p i. copy name (W_NAME_LEN + 1) = Inr n \<and> copy password 128 = Inr p
         \<and> find_by_name (users st) n = Some i \<and> uid (users st ! i) = v
         \<and> (u = ROOT_UID \<or> hash (users st ! i) = 0 \<or> hash_password (salt (users st ! i)) p = hash (users st ! i))))
   \<and> fst (sys_login copy st u name password) = (case snd (sys_login copy st u name password) of Inl _ \<Rightarrow> u | Inr v \<Rightarrow> v)"
  by (auto simp: sys_login_def user_by_name_def user_authenticate_def fill_wuser_def hash_equal_exact Let_def
      split: sum.split option.split)

section \<open>The list on the disk\<close>

lemma list_text_split:
  assumes "length us \<le> W_MAX_USERS" "\<forall>e\<in>set us. used e \<longrightarrow> entry_fits e"
  shows "text_lines [] (list_text us) = concat (map (\<lambda>e. text_lines [] (line_of e)) (filter used us))"
  using list_text_whole(1)[OF assms] text_lines_concat by simp

lemma lines_of_accounts:
  assumes "\<forall>e\<in>set es. used e \<and> entry_ok e"
  shows "list_all2 (\<lambda>l e. parse_fields l = Some e) (concat (map (\<lambda>e. text_lines [] (line_of e)) es)) (map account es)"
  using assms by (induction es) (simp_all add: line_of_lines parse_line_of)



lemma injected_lines:
  assumes "entry_ok e" "pre \<noteq> []" "length pre \<le> W_SHELL_MAX" "{10, 0} \<inter> set pre = {}" "{10, 0} \<inter> set evil = {}" "evil \<noteq> []"
  shows "text_lines [] (line_of (e\<lparr>shell := pre @ 10 # evil\<rparr>)) = [line_of (e\<lparr>shell := pre\<rparr>), evil]"
    and "entry_ok (e\<lparr>shell := pre\<rparr>)"
proof -
  have "line_of (e\<lparr>shell := pre @ 10 # evil\<rparr>) = line_of (e\<lparr>shell := pre\<rparr>) @ 10 # evil"
    using assms(2) by (simp add: line_of_def)
  moreover show ok: "entry_ok (e\<lparr>shell := pre\<rparr>)" using assms by (auto simp: entry_ok_def entry_fits_def)
  ultimately show "text_lines [] (line_of (e\<lparr>shell := pre @ 10 # evil\<rparr>)) = [line_of (e\<lparr>shell := pre\<rparr>), evil]"
    using assms(5,6) by (simp add: text_lines_break line_of_lines text_lines_one)
qed

text \<open>C34. A login shell may hold a line break, and what follows it is a line of the list of its own: if an
  ordinary user sets their shell to a text that has, after a line break, the line of some other account,
  say one with uid 0, then that account exists after the next boot.\<close>

theorem user_set_shell_injection:
  assumes table: "length (users st) = W_MAX_USERS" "\<forall>e\<in>set (users st). used e \<longrightarrow> entry_ok e"
    and room: "length (filter used (users st)) < W_MAX_USERS"
    and own: "find_by_name (users st) name = Some i" "uid (users st ! i) = u"
    and sh: "pre @ 10 # evil = sh" "pre \<noteq> []" "10 \<notin> set pre" "10 \<notin> set evil" "0 \<notin> set sh" "length sh \<le> W_SHELL_MAX"
    and line: "parse_fields evil = Some e"
  shows "\<exists>a\<in>set (users (parse_users (list_text (users (fst (user_set_shell st u name sh)))) (fresh_table st))).
    account a = account e"
proof -
  let ?e = "(users st ! i)\<lparr>shell := sh\<rparr>" and ?us = "users (fst (user_set_shell st u name sh))"
  have i: "i < length (users st)" "used (users st ! i)" using find_by_nameD[OF own(1)] by auto
  have us: "?us = (users st)[i := ?e]" using own sh(6) by (simp add: user_set_shell_def)
  define as bs where "as = filter used (take i (users st))" and "bs = filter used (drop (Suc i) (users st))"
  have split: "filter used ?us = as @ ?e # bs" "filter used (users st) = as @ (users st ! i) # bs"
    using i upd_conv_take_nth_drop[OF i(1)] id_take_nth_drop[OF i(1)] unfolding us as_def bs_def by (metis filter.simps(2) filter_append user_entry.select_convs(1) user_entry.surjective user_entry.update_convs(7))+
  let ?p = "(users st ! i)\<lparr>shell := pre\<rparr>"
  have ok: "\<forall>e\<in>set as. used e \<and> entry_ok e" "\<forall>e\<in>set bs. used e \<and> entry_ok e" "entry_ok (users st ! i)"
    using table(2) i by (auto simp: as_def bs_def dest: in_set_takeD in_set_dropD)
  have evil: "evil \<noteq> []" using line by (auto simp: parse_fields_def)
  have lines: "text_lines [] (line_of ?e) = [line_of ?p, evil]" "entry_ok ?p"
    using injected_lines[OF ok(3), of pre evil] sh evil by auto
  have fits: "\<forall>e\<in>set ?us. used e \<longrightarrow> entry_fits e"
    using table(2) ok(3) sh(5,6) unfolding us entry_ok_def
    by (auto simp: entry_fits_def dest!: set_update_subset_insert[THEN subsetD])
  have all: "text_lines [] (list_text ?us) = concat (map (\<lambda>e. text_lines [] (line_of e)) as) @ [line_of ?p, evil]
      @ concat (map (\<lambda>e. text_lines [] (line_of e)) bs)"
    using list_text_split[OF _ fits] table(1) us split(1) lines(1) by simp
  have parsed: "list_all2 (\<lambda>l e. parse_fields l = Some e) (text_lines [] (list_text ?us))
      (map account as @ [account ?p, e] @ map account bs)"
    unfolding all using lines_of_accounts[OF ok(1)] lines_of_accounts[OF ok(2)] parse_line_of[OF _ lines(2)] line i(2)
    by (intro list_all2_appendI) simp_all
  have "length (map account as @ [account ?p, e] @ map account bs) \<le> W_MAX_USERS" using room split(2) by simp
  from parse_users_fresh(1)[OF parsed this, of st]
  have "account e \<in> set (map account (users (parse_users (list_text ?us) (fresh_table st))))"
    by (simp add: table_of_accounts_def)
  then show ?thesis by auto
qed


section \<open>A small machine\<close>

text \<open>Two accounts, root and one ordinary user, and a caller whose memory holds the strings they use.\<close>

definition demo_root :: user_entry where
  "demo_root = no_entry\<lparr>used := True, uname := ROOT_NAME, hash := 5\<rparr>"

definition demo_user :: user_entry where
  "demo_user = no_entry\<lparr>used := True, uname := [97], uid := 1\<rparr>"

definition demo_accounts :: "unit accounts" where
  "demo_accounts = \<lparr>users = demo_root # demo_user # replicate 30 no_entry, next_uid = 2, fs = demo_fs, ticks = 7, marker = 4096\<rparr>"

definition demo_shell :: bytes where
  "demo_shell = [120, 10, 109, 58, 48, 58, 48]"

definition demo_copy :: copier where
  "demo_copy a n = (if a = 0x40000000 \<and> 1 < n then Inr [97] else if a = 0x40000100 \<and> length demo_shell < n then Inr demo_shell
     else Inl W_EFAULT)"

definition demo_calls :: "u32 \<Rightarrow> (copier \<times> u32 \<times> account_call) list" where
  "demo_calls u = [(demo_copy, u, Sys_Setshell 0x40000000 0x40000100), (demo_copy, u, Sys_Useradd 0x40000100 0x40000000 2),
     (demo_copy, u, Sys_Setroles 0x40000000 2), (demo_copy, u, Sys_Passwd 0x40000000 0x40000000 0x40000000)]"

lemma demo_nth: "i < 32 \<Longrightarrow> users demo_accounts ! i = (if i = 0 then demo_root else if i = 1 then demo_user else no_entry)"
  by (simp add: demo_accounts_def nth_Cons')

lemma demo_account_fields:
  "used demo_root" "used demo_user" "\<not> used no_entry" "uid demo_root = 0" "uid demo_user = 1" "roles demo_user = 0"
  "uname demo_root = ROOT_NAME" "uname demo_user = [97]" "shell demo_root = []" "shell demo_user = []"
  "length (users demo_accounts) = 32" "next_uid demo_accounts = 2"
  by (simp_all add: demo_root_def demo_user_def no_entry_def demo_accounts_def)

lemma demo_account_ok: "entry_ok demo_root" "entry_ok demo_user"
  by (simp_all add: entry_ok_def entry_fits_def demo_account_fields W_NAME_LEN_def W_SHELL_MAX_def ROOT_NAME_def)

lemma demo_accounts_ok: "accounts_ok demo_accounts"
proof (rule accounts_okI[OF _ refl])
  show "length (users demo_accounts) = W_MAX_USERS" by (simp add: demo_account_fields W_MAX_USERS_def)
  show "entry_fits (users demo_accounts ! i) \<and> uid (users demo_accounts ! i) < next_uid demo_accounts"
    if "i < W_MAX_USERS" "used (users demo_accounts ! i)" for i
    using that demo_account_ok by (auto simp: W_MAX_USERS_def demo_nth demo_account_fields entry_ok_def split: if_splits)
  show "uname (users demo_accounts ! i) \<noteq> uname (users demo_accounts ! j) \<and> uid (users demo_accounts ! i) \<noteq> uid (users demo_accounts ! j)"
    if "i < W_MAX_USERS" "j < W_MAX_USERS" "i \<noteq> j" "used (users demo_accounts ! i)" "used (users demo_accounts ! j)" for i j
    using that by (auto simp: W_MAX_USERS_def demo_nth demo_account_fields ROOT_NAME_def split: if_splits)
  show "\<exists>i<W_MAX_USERS. used (users demo_accounts ! i) \<and> uid (users demo_accounts ! i) = ROOT_UID"
    by (intro exI[of _ 0]) (simp add: W_MAX_USERS_def demo_nth demo_account_fields ROOT_UID_def)
qed

lemma demo_copy_strings: "copies_strings demo_copy"
  by (auto simp: copies_strings_def demo_copy_def demo_shell_def split: if_splits)

lemma demo_find:
  "find_by_name (users demo_accounts) [97] = Some 1" "find_by_uid (users demo_accounts) 1 = Some 1"
  by (auto simp: find_by_name_def find_by_uid_def find_slot_Some demo_nth demo_account_fields ROOT_NAME_def less_Suc_eq numeral_2_eq_2)

lemma demo_ordinary: "\<not> privileged (users demo_accounts) 1"
  by (simp add: privileged_def user_has_role_def demo_find demo_nth demo_account_fields ROOT_UID_def)

theorem accounts_invariant_witness:
  "accounts_ok demo_accounts \<and> accounts_ok (account_calls (demo_calls 0) demo_accounts)"
  using accounts_invariant[OF demo_accounts_ok, of "demo_calls 0"] demo_accounts_ok demo_copy_strings
  by (simp add: demo_calls_def demo_account_fields)

theorem ordinary_user_limits_witness:
  "\<not> privileged (users demo_accounts) 1
   \<and> users (account_calls (demo_calls 1) demo_accounts) ! 0 = demo_root
   \<and> roles (users (account_calls (demo_calls 1) demo_accounts) ! 1) = 0"
  using ordinary_user_limits[OF demo_ordinary, of "demo_calls 1"] demo_ordinary demo_copy_strings
  by (simp add: demo_calls_def only_own_def demo_nth demo_account_fields)


theorem user_set_shell_injection_witness:
  "\<not> privileged (users demo_accounts) 1
   \<and> (\<exists>a\<in>set (users (parse_users (list_text (users (fst (user_set_shell demo_accounts 1 [97] demo_shell)))) (fresh_table demo_accounts))).
        uname a = [109] \<and> uid a = ROOT_UID)"
proof -
  let ?evil = "[109, 58, 48, 58, 48]" and ?e = "no_entry\<lparr>used := True, uname := [109]\<rparr>"
  have table: "length (users demo_accounts) = W_MAX_USERS" "\<forall>e\<in>set (users demo_accounts). used e \<longrightarrow> entry_ok e"
    "length (filter used (users demo_accounts)) < W_MAX_USERS"
    using demo_account_ok by (auto simp: demo_accounts_def demo_account_fields W_MAX_USERS_def)
  have own: "uid (users demo_accounts ! 1) = 1" by (simp add: demo_nth demo_account_fields)
  have line: "parse_fields ?evil = Some ?e"
    by (simp add: parse_fields_def parse_u64_def no_entry_def W_NAME_LEN_def)
  have sh: "[120] @ 10 # ?evil = demo_shell" by (simp add: demo_shell_def)
  obtain a where "a \<in> set (users (parse_users (list_text (users (fst (user_set_shell demo_accounts 1 [97] demo_shell)))) (fresh_table demo_accounts)))"
    "account a = account ?e"
    using user_set_shell_injection[OF table demo_find(1) own sh _ _ _ _ _ line]
    by (auto simp: demo_shell_def W_SHELL_MAX_def)
  moreover have "uname a = [109] \<and> uid a = ROOT_UID"
    using account_used[OF calculation(2)] by (simp add: no_entry_def ROOT_UID_def)
  ultimately show ?thesis using demo_ordinary by blast
qed

end
