(* ===== verification/Paging.thy ===== *)
theory Paging
  imports Pmm_Init Kheap
begin

text \<open>
  Four-level paging, \<^verbatim>\<open>kernel/mm/paging.c\<close>, over the frame allocator and the kernel heap.

  Low memory is identity mapped, so a table is the 512 words at a physical address and a pointer to it
  is that address; \<open>phys_mem\<close> is the memory as 64-bit words, page tables and user pages alike.  An
  address space is a structure in the kernel heap, known by its address.  The translations this
  processor may still hold are in \<open>tlb\<close>, by page; \<^verbatim>\<open>invlpg\<close> drops one, loading \<^verbatim>\<open>CR3\<close> all of them.
  The tables of \<^verbatim>\<open>boot.S\<close> are parameters of the state.  A panic is \<^const>\<open>None\<close>.
\<close>

section \<open>Entries\<close>

definition PTE_PRESENT :: u64 where "PTE_PRESENT = 0x001"
definition PTE_WRITE :: u64 where "PTE_WRITE = 0x002"
definition PTE_USER :: u64 where "PTE_USER = 0x004"
definition PTE_UNCACHED :: u64 where "PTE_UNCACHED = 0x010"
definition PTE_HUGE :: u64 where "PTE_HUGE = 0x080"
definition PTE_WC :: u64 where "PTE_WC = 0x1000"
definition DEVICE_WINDOW :: u64 where "DEVICE_WINDOW = 0xC0000000"
definition USER_BASE :: u64 where "USER_BASE = 0x40000000"
definition USER_STACK_TOP :: u64 where "USER_STACK_TOP = 0xBFFF0000"

definition PML4_INDEX :: "u64 \<Rightarrow> u64" where "PML4_INDEX v = drop_bit 39 v AND 0x1FF"
definition PDPT_INDEX :: "u64 \<Rightarrow> u64" where "PDPT_INDEX v = drop_bit 30 v AND 0x1FF"
definition PD_INDEX :: "u64 \<Rightarrow> u64" where "PD_INDEX v = drop_bit 21 v AND 0x1FF"
definition PT_INDEX :: "u64 \<Rightarrow> u64" where "PT_INDEX v = drop_bit 12 v AND 0x1FF"

definition FRAME_OF :: "u64 \<Rightarrow> u64" where "FRAME_OF e = e AND 0x000FFFFFFFFFF000"

definition present :: "u64 \<Rightarrow> bool" where "present e \<longleftrightarrow> e AND PTE_PRESENT \<noteq> 0"
definition writable :: "u64 \<Rightarrow> bool" where "writable e \<longleftrightarrow> e AND PTE_WRITE \<noteq> 0"
definition for_user :: "u64 \<Rightarrow> bool" where "for_user e \<longleftrightarrow> e AND PTE_USER \<noteq> 0"
definition huge :: "u64 \<Rightarrow> bool" where "huge e \<longleftrightarrow> e AND PTE_HUGE \<noteq> 0"

section \<open>The state\<close>

record addrspace =
  pml4 :: u64
  user_frames :: u64
  table_frames :: u64

type_synonym words = "u64 \<Rightarrow> u64"

record paging =
  phys_mem :: words
  frames :: pmm
  as_heap :: kheap
  spaces :: "u64 \<Rightarrow> addrspace"
  kernel_space :: u64
  cpu_space :: "u64 list"
  this_cpu :: nat
  tlb :: "u64 \<Rightarrow> u64 option"
  device_next :: u64
  early_pd :: "u64 list"
  early_pd_used :: nat
  boot_pml4 :: u64
  boot_pdpt :: u64
  boot_pd :: u64
  paging_is_up :: bool

definition entry_at :: "words \<Rightarrow> u64 \<Rightarrow> u64 \<Rightarrow> u64" where
  "entry_at m t i = m (t + 8 * i)"

definition set_entry :: "u64 \<Rightarrow> u64 \<Rightarrow> u64 \<Rightarrow> paging \<Rightarrow> paging" where
  "set_entry t i e s = s\<lparr>phys_mem := (phys_mem s)(t + 8 * i := e)\<rparr>"

definition this_space :: "paging \<Rightarrow> u64" where
  "this_space s = cpu_space s ! this_cpu s"

definition set_this_space :: "u64 \<Rightarrow> paging \<Rightarrow> paging" where
  "set_this_space a s = s\<lparr>cpu_space := (cpu_space s)[this_cpu s := a]\<rparr>"

definition invlpg :: "u64 \<Rightarrow> paging \<Rightarrow> paging" where
  "invlpg v s = s\<lparr>tlb := (tlb s)(drop_bit 12 v := None)\<rparr>"

definition load_cr3 :: "paging \<Rightarrow> paging" where
  "load_cr3 s = s\<lparr>tlb := (\<lambda>_. None)\<rparr>"

definition page_of :: "u64 \<Rightarrow> u64" where
  "page_of a = a AND NOT 0xFFF"

definition page_clear :: "u64 \<Rightarrow> words \<Rightarrow> words" where
  "page_clear p m = (\<lambda>a. if page_of a = p then 0 else m a)"

definition add_table_frames :: "u64 \<Rightarrow> u64 \<Rightarrow> paging \<Rightarrow> paging" where
  "add_table_frames a n s = s\<lparr>spaces := (spaces s)(a := (spaces s a)\<lparr>table_frames := table_frames (spaces s a) + n\<rparr>)\<rparr>"

definition add_user_frames :: "u64 \<Rightarrow> u64 \<Rightarrow> paging \<Rightarrow> paging" where
  "add_user_frames a n s = s\<lparr>spaces := (spaces s)(a := (spaces s a)\<lparr>user_frames := user_frames (spaces s a) + n\<rparr>)\<rparr>"

section \<open>Walking the tables\<close>

definition zeroed_low_frame :: "paging \<Rightarrow> paging \<times> u64 option" where
  "zeroed_low_frame s =
     (case pmm_alloc_frame_low (frames s) of
        (p, phys) \<Rightarrow>
          if phys = 0 then (s\<lparr>frames := p\<rparr>, None)
          else (s\<lparr>frames := p, phys_mem := page_clear phys (phys_mem s)\<rparr>, Some phys))"

definition next_level :: "paging \<Rightarrow> u64 \<Rightarrow> u64 \<Rightarrow> bool \<Rightarrow> u64 \<Rightarrow> u64 option \<Rightarrow> paging \<times> u64 option" where
  "next_level s table index create flags as =
     (let entry = entry_at (phys_mem s) table index
      in if \<not> present entry
         then if \<not> create then (s, None)
              else
                (case zeroed_low_frame s of
                   (s, None) \<Rightarrow> (s, None)
                 | (s, Some fresh) \<Rightarrow>
                     (let s = set_entry table index (fresh OR PTE_PRESENT OR PTE_WRITE OR (flags AND PTE_USER)) s;
                          s = (case as of None \<Rightarrow> s | Some a \<Rightarrow> add_table_frames a 1 s)
                      in (s, Some fresh)))
         else
           (let s = (if for_user flags \<and> \<not> for_user entry then set_entry table index (entry OR PTE_USER) s else s)
            in (s, Some (FRAME_OF entry))))"

definition walk_to_pt :: "paging \<Rightarrow> u64 \<Rightarrow> u64 \<Rightarrow> bool \<Rightarrow> u64 \<Rightarrow> paging \<times> u64 option" where
  "walk_to_pt s as virt create flags =
     (case next_level s (pml4 (spaces s as)) (PML4_INDEX virt) create flags (Some as) of
        (s, None) \<Rightarrow> (s, None)
      | (s, Some pdpt) \<Rightarrow>
          (case next_level s pdpt (PDPT_INDEX virt) create flags (Some as) of
             (s, None) \<Rightarrow> (s, None)
           | (s, Some pd) \<Rightarrow>
               if huge (entry_at (phys_mem s) pd (PD_INDEX virt)) then (s, None)
               else next_level s pd (PD_INDEX virt) create flags (Some as)))"

definition flush_own :: "u64 \<Rightarrow> u64 \<Rightarrow> paging \<Rightarrow> paging" where
  "flush_own as virt s = (if as = this_space s then invlpg virt s else s)"

definition paging_map :: "paging \<Rightarrow> u64 \<Rightarrow> u64 \<Rightarrow> u64 \<Rightarrow> u64 \<Rightarrow> (paging \<times> bool) option" where
  "paging_map s as virt phys flags =
     (case walk_to_pt s as virt True flags of
        (s, None) \<Rightarrow> Some (s, False)
      | (s, Some pt) \<Rightarrow>
          (let index = PT_INDEX virt
           in if present (entry_at (phys_mem s) pt index) then None
              else
                (let s = set_entry pt index (FRAME_OF phys OR (flags AND (PTE_WRITE OR PTE_USER)) OR PTE_PRESENT) s;
                     s = (if for_user flags then add_user_frames as 1 s else s)
                 in Some (flush_own as virt s, True))))"

definition paging_translate :: "paging \<Rightarrow> u64 \<Rightarrow> u64 \<Rightarrow> u64" where
  "paging_translate s as virt =
     (case next_level s (pml4 (spaces s as)) (PML4_INDEX virt) False 0 None of
        (_, None) \<Rightarrow> 0
      | (_, Some pdpt) \<Rightarrow>
          (case next_level s pdpt (PDPT_INDEX virt) False 0 None of
             (_, None) \<Rightarrow> 0
           | (_, Some pd) \<Rightarrow>
               (let pde = entry_at (phys_mem s) pd (PD_INDEX virt)
                in if \<not> present pde then 0
                   else if huge pde then (FRAME_OF pde AND NOT 0x1FFFFF) OR (virt AND 0x1FFFFF)
                   else
                     (let pte = entry_at (phys_mem s) (FRAME_OF pde) (PT_INDEX virt)
                      in if \<not> present pte then 0 else FRAME_OF pte OR (virt AND 0xFFF)))))"

definition paging_map_alloc :: "paging \<Rightarrow> u64 \<Rightarrow> u64 \<Rightarrow> u64 \<Rightarrow> bool \<Rightarrow> (paging \<times> bool) option" where
  "paging_map_alloc s as virt flags zero =
     (case pmm_alloc_frame (frames s) of
        (p, phys) \<Rightarrow>
          (let s = s\<lparr>frames := p\<rparr>
           in if phys = 0 then Some (s, False)
              else
                (case paging_map s as virt phys flags of
                   None \<Rightarrow> None
                 | Some (s, False) \<Rightarrow>
                     (case pmm_free_frame (frames s) phys of None \<Rightarrow> None | Some p \<Rightarrow> Some (s\<lparr>frames := p\<rparr>, False))
                 | Some (s, True) \<Rightarrow>
                     if zero
                     then if as \<noteq> this_space s then None
                          else Some (s\<lparr>phys_mem := page_clear (page_of (paging_translate s as virt)) (phys_mem s)\<rparr>, True)
                     else Some (s, True))))"

definition unmap :: "paging \<Rightarrow> u64 \<Rightarrow> u64 \<Rightarrow> bool \<Rightarrow> paging option" where
  "unmap s as virt free_frame =
     (case walk_to_pt s as virt False 0 of
        (s, None) \<Rightarrow> Some s
      | (s, Some pt) \<Rightarrow>
          (let index = PT_INDEX virt; entry = entry_at (phys_mem s) pt index
           in if \<not> present entry then Some s
              else
                (case (if free_frame then pmm_free_frame (frames s) (FRAME_OF entry) else Some (frames s)) of
                   None \<Rightarrow> None
                 | Some p \<Rightarrow>
                     (let s = set_entry pt index 0 (s\<lparr>frames := p\<rparr>);
                          s = (if for_user entry then add_user_frames as (- 1) s else s)
                      in Some (flush_own as virt s)))))"

definition paging_unmap :: "paging \<Rightarrow> u64 \<Rightarrow> u64 \<Rightarrow> paging option" where
  "paging_unmap s as virt = unmap s as virt True"

definition paging_unmap_keep :: "paging \<Rightarrow> u64 \<Rightarrow> u64 \<Rightarrow> paging option" where
  "paging_unmap_keep s as virt = unmap s as virt False"

definition paging_user_can_access :: "paging \<Rightarrow> u64 \<Rightarrow> u64 \<Rightarrow> bool \<Rightarrow> bool" where
  "paging_user_can_access s as virt need_write =
     (let entry = entry_at (phys_mem s) (pml4 (spaces s as)) (PML4_INDEX virt)
      in if \<not> present entry \<or> \<not> for_user entry then False
         else
     (let entry = entry_at (phys_mem s) (FRAME_OF entry) (PDPT_INDEX virt)
      in if \<not> present entry \<or> \<not> for_user entry then False
         else
     (let entry = entry_at (phys_mem s) (FRAME_OF entry) (PD_INDEX virt)
      in if \<not> present entry \<or> \<not> for_user entry then False
         else if huge entry then \<not> need_write \<or> writable entry
         else
     (let entry = entry_at (phys_mem s) (FRAME_OF entry) (PT_INDEX virt)
      in if \<not> present entry \<or> \<not> for_user entry then False
         else \<not> need_write \<or> writable entry))))"

definition huge_entry :: "u64 \<Rightarrow> u64 \<Rightarrow> u64" where
  "huge_entry phys flags = (phys AND NOT 0x1FFFFF) OR (flags AND (PTE_WRITE OR PTE_WC OR PTE_UNCACHED)) OR PTE_HUGE OR PTE_PRESENT"

definition paging_map_huge :: "paging \<Rightarrow> u64 \<Rightarrow> u64 \<Rightarrow> u64 \<Rightarrow> paging \<times> bool" where
  "paging_map_huge s virt phys flags =
     (let k = kernel_space s
      in case next_level s (pml4 (spaces s k)) (PML4_INDEX virt) True flags (Some k) of
           (s, None) \<Rightarrow> (s, False)
         | (s, Some pdpt) \<Rightarrow>
             (case next_level s pdpt (PDPT_INDEX virt) True flags (Some k) of
                (s, None) \<Rightarrow> (s, False)
              | (s, Some pd) \<Rightarrow> (flush_own k virt (set_entry pd (PD_INDEX virt) (huge_entry phys flags) s), True)))"

section \<open>Address spaces\<close>

definition paging_switch :: "paging \<Rightarrow> u64 \<Rightarrow> paging" where
  "paging_switch s as = (if as = 0 \<or> as = this_space s then s else load_cr3 (set_this_space as s))"

definition sizeof_addrspace :: u64 where "sizeof_addrspace = 24"

definition paging_new_addrspace :: "paging \<Rightarrow> (paging \<times> u64) option" where
  "paging_new_addrspace s =
     (case kzalloc (as_heap s) sizeof_addrspace of
        None \<Rightarrow> None
      | Some (h, as) \<Rightarrow>
          (let s = s\<lparr>as_heap := h\<rparr>
           in if as = 0 then Some (s, 0)
              else
                (let s = s\<lparr>spaces := (spaces s)(as := \<lparr>pml4 = 0, user_frames = 0, table_frames = 0\<rparr>)\<rparr>;
                     give_up = (\<lambda>s. case kfree (as_heap s) as of None \<Rightarrow> None | Some h \<Rightarrow> Some (s\<lparr>as_heap := h\<rparr>, 0))
                 in case zeroed_low_frame s of
                      (s, None) \<Rightarrow> give_up s
                    | (s, Some root) \<Rightarrow>
                        (let s = s\<lparr>spaces := (spaces s)(as := (spaces s as)\<lparr>pml4 := root\<rparr>)\<rparr>
                         in case zeroed_low_frame s of
                              (s, None) \<Rightarrow>
                                (case pmm_free_frame (frames s) root of None \<Rightarrow> None | Some p \<Rightarrow> give_up (s\<lparr>frames := p\<rparr>))
                            | (s, Some pdpt) \<Rightarrow>
                                (let s = set_entry root 0 (pdpt OR PTE_PRESENT OR PTE_WRITE OR PTE_USER) s;
                                     i = PDPT_INDEX DEVICE_WINDOW;
                                     s = set_entry pdpt i (entry_at (phys_mem s) (boot_pdpt s) i) s;
                                     s = set_entry pdpt 0 (entry_at (phys_mem s) (boot_pdpt s) 0) s
                                 in Some (s\<lparr>spaces := (spaces s)(as := (spaces s as)\<lparr>table_frames := 2\<rparr>)\<rparr>, as))))))"

text \<open>One frame given back.\<close>

definition release :: "u64 \<Rightarrow> paging \<Rightarrow> paging option" where
  "release phys s = (case pmm_free_frame (frames s) phys of None \<Rightarrow> None | Some p \<Rightarrow> Some (s\<lparr>frames := p\<rparr>))"

text \<open>A loop over the entries of a table.\<close>

primrec over_entries :: "(u64 \<Rightarrow> paging \<Rightarrow> paging option) \<Rightarrow> u64 list \<Rightarrow> paging \<Rightarrow> paging option" where
  "over_entries f [] s = Some s"
| "over_entries f (i # is) s = (case f i s of None \<Rightarrow> None | Some s \<Rightarrow> over_entries f is s)"

definition table_indices :: "nat \<Rightarrow> u64 list" where
  "table_indices i = map of_nat [i..<512]"

definition free_pte :: "u64 \<Rightarrow> u64 \<Rightarrow> u64 \<Rightarrow> paging \<Rightarrow> paging option" where
  "free_pte as pt k s =
     (let e = entry_at (phys_mem s) pt k
      in if present e
         then (case release (FRAME_OF e) s of
                 None \<Rightarrow> None
               | Some s \<Rightarrow> Some (if for_user e then add_user_frames as (- 1) s else s))
         else Some s)"

definition free_pde :: "u64 \<Rightarrow> u64 \<Rightarrow> u64 \<Rightarrow> paging \<Rightarrow> paging option" where
  "free_pde as pd j s =
     (let e = entry_at (phys_mem s) pd j
      in if \<not> present e \<or> huge e then Some s
         else
           (let pt = FRAME_OF e
            in case over_entries (free_pte as pt) (table_indices 0) s of
                 None \<Rightarrow> None
               | Some s \<Rightarrow> (case release pt s of None \<Rightarrow> None | Some s \<Rightarrow> Some (add_table_frames as (- 1) s))))"

definition free_pdpte :: "u64 \<Rightarrow> u64 \<Rightarrow> u64 \<Rightarrow> paging \<Rightarrow> paging option" where
  "free_pdpte as pdpt i s =
     (let e = entry_at (phys_mem s) pdpt i
      in if \<not> present e \<or> i = PDPT_INDEX DEVICE_WINDOW then Some s
         else
           (let pd = FRAME_OF e
            in case over_entries (free_pde as pd) (table_indices 0) s of
                 None \<Rightarrow> None
               | Some s \<Rightarrow> (case release pd s of None \<Rightarrow> None | Some s \<Rightarrow> Some (add_table_frames as (- 1) s))))"

definition paging_free_addrspace :: "paging \<Rightarrow> u64 \<Rightarrow> paging option" where
  "paging_free_addrspace s as =
     (if as = 0 \<or> as = kernel_space s then Some s
      else if as = this_space s then None
      else
        (let root = pml4 (spaces s as); pdpt = FRAME_OF (entry_at (phys_mem s) root 0)
         in case over_entries (free_pdpte as pdpt) (table_indices 1) s of None \<Rightarrow> None | Some s \<Rightarrow>
            (case release pdpt s of None \<Rightarrow> None | Some s \<Rightarrow>
            (case release root s of None \<Rightarrow> None | Some s \<Rightarrow>
               (let s = s\<lparr>cpu_space := map (\<lambda>a. if a = as then 0 else a) (cpu_space s)\<rparr>
                in case kfree (as_heap s) as of None \<Rightarrow> None | Some h \<Rightarrow> Some (s\<lparr>as_heap := h\<rparr>))))))"

definition paging_user_bytes :: "paging \<Rightarrow> u64 \<Rightarrow> u64" where
  "paging_user_bytes s as = (user_frames (spaces s as) + table_frames (spaces s as)) * 4096"

section \<open>Early and device mappings\<close>

definition paging_map_huge_early :: "paging \<Rightarrow> u64 \<Rightarrow> u64 \<Rightarrow> u64 \<Rightarrow> paging \<times> bool" where
  "paging_map_huge_early s virt phys flags =
     (if PML4_INDEX virt \<noteq> 0 then (s, False)
      else
        (let entry = entry_at (phys_mem s) (boot_pdpt s) (PDPT_INDEX virt);
             put = (\<lambda>pd s. (invlpg virt (set_entry pd (PD_INDEX virt) (huge_entry phys flags) s), True))
         in if present entry then put (FRAME_OF entry) s
            else if early_pd_used s \<ge> length (early_pd s) then (s, False)
            else
              (let pd = early_pd s ! early_pd_used s;
                   s = s\<lparr>early_pd_used := early_pd_used s + 1, phys_mem := page_clear pd (phys_mem s)\<rparr>
               in put pd (set_entry (boot_pdpt s) (PDPT_INDEX virt) (pd OR PTE_PRESENT OR PTE_WRITE) s))))"

primrec map_span :: "u64 \<Rightarrow> u64 \<Rightarrow> u64 list \<Rightarrow> paging \<Rightarrow> paging \<times> bool" where
  "map_span virt base [] s = (s, True)"
| "map_span virt base (off # offs) s =
     (case paging_map_huge s (virt + off) (base + off) (PTE_WRITE OR PTE_UNCACHED) of
        (s, False) \<Rightarrow> (s, False)
      | (s, True) \<Rightarrow> map_span virt base offs s)"

definition paging_map_device :: "paging \<Rightarrow> u64 \<Rightarrow> u64 \<Rightarrow> paging \<times> u64" where
  "paging_map_device s phys sz =
     (let base = phys AND NOT 0x1FFFFF;
          offset = phys - base;
          span = (offset + sz + 0x1FFFFF) AND NOT 0x1FFFFF;
          virt = device_next s
      in if phys = 0 \<or> sz = 0 then (s, 0)
         else if virt + span > DEVICE_WINDOW + 0x40000000 then (s, 0)
         else
           (case map_span virt base (map (\<lambda>i. of_nat i * 0x200000) [0..<unat span div 0x200000]) s of
              (s, False) \<Rightarrow> (s, 0)
            | (s, True) \<Rightarrow> (s\<lparr>device_next := virt + span\<rparr>, virt + offset)))"

definition paging_init :: "paging \<Rightarrow> paging option" where
  "paging_init s =
     (let k = kernel_space s;
          s = s\<lparr>spaces := (spaces s)(k := \<lparr>pml4 = boot_pml4 s, user_frames = 0, table_frames = 3\<rparr>)\<rparr>;
          s = (set_this_space k s)\<lparr>paging_is_up := True\<rparr>
      in case zeroed_low_frame s of
           (s, None) \<Rightarrow> None
         | (s, Some pt) \<Rightarrow>
             (let s = fold (\<lambda>i. set_entry pt i ((i * 4096) OR PTE_PRESENT OR PTE_WRITE)) (table_indices 1) s;
                  s = set_entry (boot_pd s) 0 (pt OR PTE_PRESENT OR PTE_WRITE) s
              in Some (load_cr3 (add_table_frames k 1 s))))"


section \<open>Bits of an entry\<close>

lemma bit_single: "bit (push_bit k 1 :: u64) n \<longleftrightarrow> n = k" if "k < 64"
  using that by (auto simp: bit_exp_iff)

lemma flag_words:
  "PTE_PRESENT = push_bit 0 1" "PTE_WRITE = push_bit 1 1" "PTE_USER = push_bit 2 1" "PTE_HUGE = push_bit 7 1"
  by (simp_all add: PTE_PRESENT_def PTE_WRITE_def PTE_USER_def PTE_HUGE_def)

lemma flag_bits [simp]:
  "bit PTE_PRESENT n \<longleftrightarrow> n = 0" "bit PTE_WRITE n \<longleftrightarrow> n = 1" "bit PTE_USER n \<longleftrightarrow> n = 2" "bit PTE_HUGE n \<longleftrightarrow> n = 7"
  unfolding flag_words by (rule bit_single, simp)+

lemma flag_iff: "present e \<longleftrightarrow> bit e 0" "writable e \<longleftrightarrow> bit e 1" "for_user e \<longleftrightarrow> bit e 2" "huge e \<longleftrightarrow> bit e 7"
  unfolding present_def writable_def for_user_def huge_def flag_words by (rule and_bit_nonzero, simp)+

lemma bit_FRAME_OF: "bit (FRAME_OF e) n \<longleftrightarrow> bit e n \<and> 12 \<le> n \<and> n < 52"
proof -
  have frame_mask: "(0x000FFFFFFFFFF000 :: u64) = push_bit 12 (mask 40)" by (simp add: mask_eq_exp_minus_1)
  show ?thesis unfolding FRAME_OF_def frame_mask by (auto simp: bit_and_iff bit_push_bit_iff bit_mask_iff)
qed

lemma page_of_shift: "page_of a = push_bit 12 (drop_bit 12 a)"
proof -
  have m: "(0xFFF :: u64) = mask 12" by (simp add: mask_eq_exp_minus_1)
  show ?thesis unfolding page_of_def m by (rule word_and_not_mask_eq)
qed

lemma bit_page_of: "bit (page_of a) n \<longleftrightarrow> bit a n \<and> 12 \<le> n"
  unfolding page_of_shift by (auto simp: bit_push_bit_iff bit_drop_bit_eq dest: bit_imp_le_length)

definition frame_addr :: "u64 \<Rightarrow> bool" where
  "frame_addr t \<longleftrightarrow> FRAME_OF t = t"

lemma frame_addr_bit: "frame_addr t \<longleftrightarrow> (\<forall>n. bit t n \<longrightarrow> 12 \<le> n \<and> n < 52)"
proof
  assume "frame_addr t"
  then have "bit t n \<longleftrightarrow> bit (FRAME_OF t) n" for n by (simp add: frame_addr_def)
  then show "\<forall>n. bit t n \<longrightarrow> 12 \<le> n \<and> n < 52" by (auto simp: bit_FRAME_OF)
next
  assume "\<forall>n. bit t n \<longrightarrow> 12 \<le> n \<and> n < 52"
  then show "frame_addr t" unfolding frame_addr_def by (intro bit_word_eqI) (auto simp: bit_FRAME_OF)
qed

lemma frame_addr_FRAME_OF [simp]: "frame_addr (FRAME_OF e)"
  by (simp add: frame_addr_bit bit_FRAME_OF)

lemma FRAME_OF_or:
  assumes "frame_addr t" "FRAME_OF x = 0"
  shows "FRAME_OF (t OR x) = t"
proof (rule bit_word_eqI)
  fix n
  have "\<not> bit (FRAME_OF x) n" using assms(2) by simp
  then show "bit (FRAME_OF (t OR x)) n \<longleftrightarrow> bit t n"
    using assms(1) unfolding frame_addr_bit bit_FRAME_OF bit_or_iff by blast
qed

lemma unat_page_of: "unat (page_of a) = unat a div 4096 * 4096"
proof -
  have "unat a div 4096 * 4096 \<le> unat a" by simp
  then have "unat a div 4096 * 4096 < 2 ^ 64" using unat_lt_2_64[of a] by linarith
  then show ?thesis unfolding page_of_shift unsigned_push_bit_eq unsigned_drop_bit_eq
    by (simp add: drop_bit_eq_div push_bit_eq_mult take_bit_eq_mod)
qed

lemma frame_addr_unat:
  assumes "frame_addr t"
  shows "page_of t = t" "unat t div 4096 * 4096 = unat t" "unat t < 2 ^ 52"
proof -
  show page: "page_of t = t" using assms unfolding frame_addr_bit by (intro bit_word_eqI) (auto simp: bit_page_of)
  show "unat t div 4096 * 4096 = unat t" using unat_page_of[of t] page by simp
  have "take_bit 52 t = t" using assms unfolding frame_addr_bit by (intro bit_word_eqI) (auto simp: bit_take_bit_iff)
  then have "take_bit 52 (unat t) = unat t" by (metis unsigned_take_bit_eq)
  then show "unat t < 2 ^ 52" by (simp add: take_bit_nat_eq_self_iff)
qed

lemma slot_unat:
  assumes "frame_addr t" "i < 512"
  shows "unat (t + 8 * i) = unat t + 8 * unat i"
proof -
  have i: "unat i < 512" using assms(2) by (simp add: word_less_nat_alt)
  then have "unat (8 * i) = 8 * unat i" by (simp add: unat_word_ariths(2))
  then show ?thesis using frame_addr_unat(3)[OF assms(1)] i by (simp add: unat_word_ariths(1))
qed

lemma slot_page:
  assumes "frame_addr t" "i < 512"
  shows "page_of (t + 8 * i) = t"
proof -
  have i: "8 * unat i < 4096" using assms(2) by (simp add: word_less_nat_alt)
  obtain f where f: "unat t = f * 4096" using frame_addr_unat(2)[OF assms(1)] by metis
  have "unat (page_of (t + 8 * i)) = (f * 4096 + 8 * unat i) div 4096 * 4096"
    unfolding unat_page_of slot_unat[OF assms] f by simp
  also have "\<dots> = unat t" using i f by simp
  finally show ?thesis by (simp add: word_unat_eq_iff)
qed

lemma slot_inj:
  assumes "frame_addr t" "i < 512" "frame_addr t'" "j < 512"
  shows "t + 8 * i = t' + 8 * j \<longleftrightarrow> t = t' \<and> i = j"
proof
  assume eq: "t + 8 * i = t' + 8 * j"
  have t: "t = t'" using slot_page[OF assms(1,2)] slot_page[OF assms(3,4)] eq by simp
  then have "unat i = unat j" using slot_unat[OF assms(1,2)] slot_unat[OF assms(3,4)] eq by simp
  then show "t = t' \<and> i = j" using t by (simp add: word_unat_eq_iff)
qed simp

lemma index_less [simp]: "PML4_INDEX v < 512" "PDPT_INDEX v < 512" "PD_INDEX v < 512" "PT_INDEX v < 512"
proof -
  have "x AND 0x1FF < 512" for x :: u64
    using word_and_le1[of x "0x1FF"] by (simp add: word_le_nat_alt word_less_nat_alt)
  then show "PML4_INDEX v < 512" "PDPT_INDEX v < 512" "PD_INDEX v < 512" "PT_INDEX v < 512"
    by (simp_all add: PML4_INDEX_def PDPT_INDEX_def PD_INDEX_def PT_INDEX_def)
qed


section \<open>The tree of tables\<close>

text \<open>The table a path of indices leads to, from a root; a path ends at an entry that is absent or maps a
  large page.\<close>

fun table_at :: "words \<Rightarrow> u64 \<Rightarrow> u64 list \<Rightarrow> u64 option" where
  "table_at m t [] = Some t"
| "table_at m t (i # p) =
     (let e = entry_at m t i in if present e \<and> \<not> huge e then table_at m (FRAME_OF e) p else None)"

definition path_ok :: "u64 list \<Rightarrow> bool" where
  "path_ok p \<longleftrightarrow> length p \<le> 3 \<and> (\<forall>i\<in>set p. i < 512)"

text \<open>The two regions every space has in common with the kernel: the identity map and the device window.\<close>

definition shared :: "u64 list \<Rightarrow> bool" where
  "shared p \<longleftrightarrow> take 2 p = [0, 0] \<or> take 2 p = [0, PDPT_INDEX DEVICE_WINDOW]"

lemma table_at_snoc:
  "table_at m r (p @ [i]) =
     (case table_at m r p of
        None \<Rightarrow> None
      | Some t \<Rightarrow> (let e = entry_at m t i in if present e \<and> \<not> huge e then Some (FRAME_OF e) else None))"
  by (induction p arbitrary: r) (simp_all add: Let_def)

lemma table_at_append:
  "table_at m r (p @ q) = (case table_at m r p of None \<Rightarrow> None | Some t \<Rightarrow> table_at m t q)"
  by (induction p arbitrary: r) (simp_all add: Let_def)

lemma table_at_frame: "frame_addr r \<Longrightarrow> table_at m r p = Some t \<Longrightarrow> frame_addr t"
proof (induction p arbitrary: r)
  case (Cons i p)
  then show ?case using Cons.IH[of "FRAME_OF (entry_at m r i)"] by (auto simp: Let_def split: if_splits)
qed simp

lemma path_ok_snoc: "path_ok (p @ [i]) \<longleftrightarrow> path_ok p \<and> length p < 3 \<and> i < 512"
  by (auto simp: path_ok_def)

lemma path_ok_prefix: "path_ok (p @ q) \<Longrightarrow> path_ok p"
  by (auto simp: path_ok_def)

lemma shared_prefix: "shared p \<Longrightarrow> shared (p @ q)"
  by (cases p; cases "tl p") (auto simp: shared_def)

text \<open>
  The invariant over the spaces with the given roots: every table lies in a frame that is in use, no
  table of a private path is reached any other way, and an entry that maps a page for user programs
  is below entries that are open to user programs.
\<close>

definition unique_tables :: "u64 set \<Rightarrow> words \<Rightarrow> bool" where
  "unique_tables R m \<longleftrightarrow> (\<forall>r\<in>R. \<forall>r'\<in>R. \<forall>p q t. path_ok p \<longrightarrow> path_ok q \<longrightarrow> \<not> shared p \<longrightarrow>
     table_at m r p = Some t \<longrightarrow> table_at m r' q = Some t \<longrightarrow> r = r' \<and> p = q)"

lemma unique_tablesD:
  "unique_tables R m \<Longrightarrow> r \<in> R \<Longrightarrow> r' \<in> R \<Longrightarrow> path_ok p \<Longrightarrow> path_ok q \<Longrightarrow> \<not> shared p \<Longrightarrow>
   table_at m r p = Some t \<Longrightarrow> table_at m r' q = Some t \<Longrightarrow> r = r' \<and> p = q"
  unfolding unique_tables_def by blast

text \<open>Changing one entry of a private table changes only the paths through that entry.\<close>

lemma entry_at_upd:
  assumes "frame_addr t" "i < 512" "frame_addr u" "j < 512"
  shows "entry_at (m(t + 8 * i := e)) u j = (if u = t \<and> j = i then e else entry_at m u j)"
  using slot_inj[OF assms(3,4,1,2)] by (auto simp: entry_at_def)

lemma table_at_upd:
  assumes uniq: "unique_tables R m" and R: "r \<in> R" "r' \<in> R" "\<forall>r\<in>R. frame_addr r"
    and p: "path_ok p" "\<not> shared p" "table_at m r p = Some t" "i < 512"
    and q: "path_ok q" and other: "r' \<noteq> r \<or> take (Suc (length p)) q \<noteq> p @ [i]"
  shows "table_at (m(t + 8 * i := e)) r' q = table_at m r' q"
  using q other
proof (induction q rule: rev_induct)
  case (snoc j q)
  have q: "path_ok q" "j < 512" using snoc.prems(1) by (auto simp: path_ok_snoc)
  have IH: "table_at (m(t + 8 * i := e)) r' q = table_at m r' q"
  proof (rule snoc.IH[OF q(1)])
    show "r' \<noteq> r \<or> take (Suc (length p)) q \<noteq> p @ [i]"
      using snoc.prems(2) by (cases "length q < Suc (length p)") (auto simp: take_append dest: arg_cong[of _ _ length])
  qed
  show ?case
  proof (cases "table_at m r' q")
    case None
    then show ?thesis using IH unfolding table_at_snoc by simp
  next
    case (Some u)
    have fr: "frame_addr t" "frame_addr u" using table_at_frame p(3) Some R by blast+
    have "\<not> (u = t \<and> j = i)"
    proof
      assume "u = t \<and> j = i"
      then have "r = r' \<and> p = q" using unique_tablesD[OF uniq R(1,2) p(1) q(1) p(2,3)] Some by simp
      then show False using snoc.prems(2) \<open>u = t \<and> j = i\<close> by simp
    qed
    then have "entry_at (m(t + 8 * i := e)) u j = entry_at m u j"
      using entry_at_upd[OF fr(1) p(4) fr(2) q(2)] by auto
    then show ?thesis using IH Some unfolding table_at_snoc by simp
  qed
qed simp


text \<open>The entry at the end of a path; 0, which is absent, where the path has no table.\<close>

definition ent :: "words \<Rightarrow> u64 \<Rightarrow> u64 list \<Rightarrow> u64 \<Rightarrow> u64" where
  "ent m r p i = (case table_at m r p of None \<Rightarrow> 0 | Some t \<Rightarrow> entry_at m t i)"

lemma table_at_ent: "table_at m r (p @ [i]) = (if present (ent m r p i) \<and> \<not> huge (ent m r p i) then Some (FRAME_OF (ent m r p i)) else None)"
  by (auto simp: table_at_snoc ent_def Let_def flag_iff split: option.split)

definition only_entry :: "u64 set \<Rightarrow> words \<Rightarrow> words \<Rightarrow> u64 \<Rightarrow> u64 list \<Rightarrow> u64 \<Rightarrow> u64 \<Rightarrow> bool" where
  "only_entry R m m' r p i e \<longleftrightarrow> (\<forall>r'\<in>R. \<forall>q j. path_ok q \<longrightarrow> j < 512 \<longrightarrow>
     ent m' r' q j = (if r' = r \<and> q = p \<and> j = i then e else ent m r' q j))"

lemma only_entryD:
  "only_entry R m m' r p i e \<Longrightarrow> r' \<in> R \<Longrightarrow> path_ok q \<Longrightarrow> j < 512 \<Longrightarrow>
   ent m' r' q j = (if r' = r \<and> q = p \<and> j = i then e else ent m r' q j)"
  unfolding only_entry_def by blast

text \<open>An entry of a table at a private path.\<close>

definition private_slot :: "u64 set \<Rightarrow> words \<Rightarrow> u64 \<Rightarrow> u64 list \<Rightarrow> u64 \<Rightarrow> u64 \<Rightarrow> bool" where
  "private_slot R m r p t i \<longleftrightarrow> unique_tables R m \<and> r \<in> R \<and> (\<forall>r\<in>R. frame_addr r) \<and> path_ok p \<and> \<not> shared p
     \<and> table_at m r p = Some t \<and> i < 512"

lemma private_slotD:
  assumes "private_slot R m r p t i"
  shows "unique_tables R m" "r \<in> R" "\<forall>r\<in>R. frame_addr r" "path_ok p" "\<not> shared p" "table_at m r p = Some t" "i < 512" "frame_addr t"
  using assms table_at_frame unfolding private_slot_def by blast+

definition same_target :: "u64 \<Rightarrow> u64 \<Rightarrow> bool" where
  "same_target e e' \<longleftrightarrow> present e = present e' \<and> huge e = huge e' \<and> FRAME_OF e = FRAME_OF e'"

lemma table_at_below:
  assumes slot: "private_slot R m r p t i" and u: "table_at m r (p @ [i]) = Some u" and q: "path_ok (p @ [i] @ q)"
  shows "table_at (m(t + 8 * i := e)) u q = table_at m u q"
  using q
proof (induction q rule: rev_induct)
  case (snoc j q)
  note D = private_slotD[OF slot]
  have ok: "path_ok (p @ [i] @ q)" "j < 512" using snoc.prems by (auto simp: path_ok_def)
  have IH: "table_at (m(t + 8 * i := e)) u q = table_at m u q" using snoc.IH[OF ok(1)] .
  show ?case
  proof (cases "table_at m u q")
    case None
    then show ?thesis using IH unfolding table_at_snoc by simp
  next
    case (Some w)
    then have w: "table_at m r (p @ [i] @ q) = Some w" using u table_at_append[of m r "p @ [i]" q] by simp
    have "w \<noteq> t" using unique_tablesD[OF D(1,2,2,4) ok(1) D(5,6)] w by auto
    then have "entry_at (m(t + 8 * i := e)) w j = entry_at m w j"
      using entry_at_upd[OF D(8,7) table_at_frame[OF _ w] ok(2)] D(2,3) by auto
    then show ?thesis using IH Some unfolding table_at_snoc by simp
  qed
qed simp

lemma table_at_same:
  assumes slot: "private_slot R m r p t i" and e: "length p = 3 \<or> same_target e (ent m r p i)"
    and q: "r' \<in> R" "path_ok q"
  shows "table_at (m(t + 8 * i := e)) r' q = table_at m r' q"
proof (cases "r' \<noteq> r \<or> take (Suc (length p)) q \<noteq> p @ [i]")
  case True
  note D = private_slotD[OF slot]
  show ?thesis using table_at_upd[OF D(1,2) q(1) D(3-7) q(2) True] .
next
  case False
  note D = private_slotD[OF slot]
  let ?m = "m(t + 8 * i := e)"
  obtain q' where q': "q = (p @ [i]) @ q'" using False by (metis append_take_drop_id)
  then have e: "same_target e (ent m r p i)" using q(2) e by (auto simp: path_ok_def)
  have tp: "table_at ?m r p = Some t" using table_at_upd[OF D(1,2,2,3-7,4), of e] D(6) by simp
  have "ent ?m r p i = e" using tp entry_at_upd[OF D(8,7,8,7)] by (auto simp: ent_def)
  then have step: "table_at ?m r (p @ [i]) = table_at m r (p @ [i])"
    unfolding table_at_ent using e by (simp add: same_target_def)
  have "table_at ?m u q' = table_at m u q'" if "table_at m r (p @ [i]) = Some u" for u
    using table_at_below[OF slot that] q(2) q' by simp
  then show ?thesis using False q' step table_at_append[of _ r "p @ [i]" q'] by (auto split: option.split)
qed

lemma set_only_entry:
  assumes slot: "private_slot R m r p t i" and e: "length p = 3 \<or> same_target e (ent m r p i)"
  shows "only_entry R m (m(t + 8 * i := e)) r p i e"
  unfolding only_entry_def
proof (intro ballI allI impI)
  fix r' q and j :: u64 assume q: "r' \<in> R" "path_ok q" "j < 512"
  let ?m = "m(t + 8 * i := e)"
  note uniq = private_slotD(1)[OF slot] and R = private_slotD(2,3)[OF slot] and p = private_slotD(4-7)[OF slot]
    and t_frame = private_slotD(8)[OF slot]
  note same = table_at_same[OF slot e q(1,2)]
  show "ent ?m r' q j = (if r' = r \<and> q = p \<and> j = i then e else ent m r' q j)"
  proof (cases "table_at m r' q")
    case None
    then show ?thesis using same p(3) by (auto simp: ent_def)
  next
    case (Some u)
    have "u = t \<longleftrightarrow> r' = r \<and> q = p" using unique_tablesD[OF uniq R(1) q(1) p(1) q(2) p(2,3)] Some p(3) by auto
    then show ?thesis using same Some entry_at_upd[OF t_frame p(4) table_at_frame[OF _ Some] q(3)] R(2) q(1)
      by (auto simp: ent_def)
  qed
qed


lemma entry_at_clear:
  assumes "frame_addr u" "j < 512"
  shows "entry_at (page_clear f m) u j = (if u = f then 0 else entry_at m u j)"
  by (simp add: entry_at_def page_clear_def slot_page[OF assms])

lemma table_at_clear:
  assumes "frame_addr r" "\<And>q. path_ok q \<Longrightarrow> table_at m r q \<noteq> Some f" "path_ok q"
  shows "table_at (page_clear f m) r q = table_at m r q"
  using assms(3)
proof (induction q rule: rev_induct)
  case (snoc j q)
  have q: "path_ok q" "j < 512" using snoc.prems by (auto simp: path_ok_snoc)
  show ?case
  proof (cases "table_at m r q")
    case None
    then show ?thesis using snoc.IH[OF q(1)] unfolding table_at_snoc by simp
  next
    case (Some u)
    then have "entry_at (page_clear f m) u j = entry_at m u j"
      using entry_at_clear[OF table_at_frame[OF assms(1) Some] q(2)] assms(2)[OF q(1)] by auto
    then show ?thesis using snoc.IH[OF q(1)] Some unfolding table_at_snoc by simp
  qed
qed simp

definition not_table :: "u64 set \<Rightarrow> words \<Rightarrow> u64 \<Rightarrow> bool" where
  "not_table R m f \<longleftrightarrow> (\<forall>r\<in>R. \<forall>q. path_ok q \<longrightarrow> table_at m r q \<noteq> Some f)"

lemma clear_same:
  assumes "\<forall>r\<in>R. frame_addr r" "not_table R m f" "r \<in> R" "path_ok q"
  shows "table_at (page_clear f m) r q = table_at m r q" "j < 512 \<Longrightarrow> ent (page_clear f m) r q j = ent m r q j"
proof -
  show same: "table_at (page_clear f m) r q = table_at m r q"
    using table_at_clear assms unfolding not_table_def by blast
  show "ent (page_clear f m) r q j = ent m r q j" if "j < 512"
  proof (cases "table_at m r q")
    case None
    then show ?thesis using same by (simp add: ent_def)
  next
    case (Some u)
    then have "u \<noteq> f" "frame_addr u" using assms table_at_frame unfolding not_table_def by blast+
    then show ?thesis using same Some entry_at_clear[OF _ that] by (simp add: ent_def)
  qed
qed

lemma clear_unique:
  assumes "\<forall>r\<in>R. frame_addr r" "not_table R m f" "unique_tables R m"
  shows "unique_tables R (page_clear f m)"
  using assms(3) clear_same(1)[OF assms(1,2)] unfolding unique_tables_def by metis

lemma clear_slot:
  assumes "private_slot R m r p t i" "not_table R m f"
  shows "private_slot R (page_clear f m) r p t i"
  using clear_unique clear_same(1)[OF private_slotD(3)[OF assms(1)] assms(2)] private_slotD[OF assms(1)] assms
  unfolding private_slot_def by metis

text \<open>A new empty table below an absent entry of a private table.\<close>

lemma create_table:
  assumes slot: "private_slot R m r p t i" and len: "length p < 3" and absent: "\<not> present (ent m r p i)"
    and fresh: "frame_addr f" "not_table R m f" and e: "present e" "\<not> huge e" "FRAME_OF e = f"
  defines "m' \<equiv> (page_clear f m)(t + 8 * i := e)"
  shows "r' \<in> R \<Longrightarrow> path_ok q \<Longrightarrow> table_at m' r' q = (if r' = r \<and> q = p @ [i] then Some f else table_at m r' q)"
    and "only_entry R m m' r p i e"
proof -
  note D = private_slotD[OF slot]
  note S = clear_slot[OF slot fresh(2)]
  note D' = private_slotD[OF S]
  have tf: "t \<noteq> f" using fresh(2) D unfolding not_table_def by blast
  have tp: "table_at m' r p = Some t" unfolding m'_def using table_at_upd[OF D'(1,2,2,3-7,4)] D'(6) by simp
  have ei: "ent m' r p i = e" using tp entry_at_upd[OF D'(8,7,8,7)] by (auto simp: ent_def m'_def)
  have zero: "entry_at m' f j = 0" if "j < 512" for j
    using entry_at_upd[OF D'(8,7) fresh(1) that] entry_at_clear[OF fresh(1) that] tf by (auto simp: m'_def)
  have new: "table_at m' r (p @ [i]) = Some f" unfolding table_at_ent ei using e by simp
  have none: "table_at m r (p @ [i] @ q') = None" for q'
    using absent table_at_append[of m r "p @ [i]" q'] by (simp add: table_at_ent)
  have below: "table_at m' r (p @ [i] @ j # q') = None" if "j < 512" for j q'
    using new zero[OF that] table_at_append[of m' r "p @ [i]" "j # q'"] by (simp add: flag_iff)
  show tab: "table_at m' r' q = (if r' = r \<and> q = p @ [i] then Some f else table_at m r' q)"
    if q: "r' \<in> R" "path_ok q" for r' q
  proof (cases "r' \<noteq> r \<or> take (Suc (length p)) q \<noteq> p @ [i]")
    case True
    have "table_at m' r' q = table_at (page_clear f m) r' q"
      unfolding m'_def by (rule table_at_upd[OF D'(1,2) q(1) D'(3-7) q(2) True])
    then show ?thesis using True clear_same(1)[OF D(3) fresh(2) q] by auto
  next
    case False
    then obtain q' where q': "q = p @ [i] @ q'" "r' = r" by (metis append.assoc append_take_drop_id)
    show ?thesis
    proof (cases q')
      case Nil
      then show ?thesis using q' new by simp
    next
      case (Cons j q'')
      then have "j < 512" using q(2) q' by (simp add: path_ok_def)
      then show ?thesis using below q' Cons none[of q'] by auto
    qed
  qed
  show "only_entry R m m' r p i e"
    unfolding only_entry_def
  proof (intro ballI allI impI)
    fix r' q and j :: u64 assume q: "r' \<in> R" "path_ok q" "j < 512"
    show "ent m' r' q j = (if r' = r \<and> q = p \<and> j = i then e else ent m r' q j)"
    proof (cases "r' = r \<and> q = p @ [i]")
      case True
      then show ?thesis using new none[of "[]"] zero[OF q(3)] by (simp add: ent_def)
    next
      case False
      then have same: "table_at m' r' q = table_at (page_clear f m) r' q"
        using tab[OF q(1,2)] clear_same(1)[OF D(3) fresh(2) q(1,2)] by auto
      show ?thesis
      proof (cases "table_at (page_clear f m) r' q")
        case None
        then show ?thesis using same D'(6) clear_same(2)[OF D(3) fresh(2) q] by (auto simp: ent_def)
      next
        case (Some u)
        have "u = t \<longleftrightarrow> r' = r \<and> q = p" using unique_tablesD[OF D'(1,2) q(1) D'(4) q(2) D'(5,6)] Some D'(6) by auto
        then show ?thesis
          using same Some entry_at_upd[OF D'(8,7) table_at_frame[OF _ Some] q(3)] D(3) q(1) clear_same(2)[OF D(3) fresh(2) q]
          by (auto simp: ent_def m'_def)
      qed
    qed
  qed
qed


section \<open>The invariant\<close>

definition tables_in_use :: "u64 set \<Rightarrow> words \<Rightarrow> nat set \<Rightarrow> bool" where
  "tables_in_use R m F \<longleftrightarrow> (\<forall>r\<in>R. \<forall>p t. path_ok p \<longrightarrow> table_at m r p = Some t \<longrightarrow> unat t div 4096 \<notin> F)"

definition no_huge_above :: "u64 set \<Rightarrow> words \<Rightarrow> bool" where
  "no_huge_above R m \<longleftrightarrow> (\<forall>r\<in>R. \<forall>p i. path_ok p \<longrightarrow> length p \<le> 1 \<longrightarrow> i < 512 \<longrightarrow> present (ent m r p i) \<longrightarrow> \<not> huge (ent m r p i))"

definition user_chain :: "u64 set \<Rightarrow> words \<Rightarrow> bool" where
  "user_chain R m \<longleftrightarrow> (\<forall>r\<in>R. \<forall>p i j. path_ok (p @ [i]) \<longrightarrow> j < 512 \<longrightarrow>
     present (ent m r (p @ [i]) j) \<longrightarrow> for_user (ent m r (p @ [i]) j) \<longrightarrow> for_user (ent m r p i))"

definition tree_ok :: "u64 set \<Rightarrow> words \<Rightarrow> nat set \<Rightarrow> bool" where
  "tree_ok R m F \<longleftrightarrow> (\<forall>r\<in>R. frame_addr r) \<and> unique_tables R m \<and> tables_in_use R m F \<and> no_huge_above R m \<and> user_chain R m"

definition pg_ok :: "u64 set \<Rightarrow> paging \<Rightarrow> bool" where
  "pg_ok R s \<longleftrightarrow> pmm_inv (frames s) \<and> 0 \<notin> free_set (frames s) \<and> tree_ok R (phys_mem s) (free_set (frames s))"

lemma tree_okD:
  assumes "tree_ok R m F"
  shows "\<forall>r\<in>R. frame_addr r" "unique_tables R m" "tables_in_use R m F" "no_huge_above R m" "user_chain R m"
  using assms by (simp_all add: tree_ok_def)

lemma no_huge_step:
  assumes "no_huge_above R m" "only_entry R m m' r p i e" "length p \<le> 1 \<longrightarrow> present e \<longrightarrow> \<not> huge e"
  shows "no_huge_above R m'"
  unfolding no_huge_above_def
proof (intro ballI allI impI)
  fix r' q and j :: u64 assume q: "r' \<in> R" "path_ok q" "length q \<le> 1" "j < 512" "present (ent m' r' q j)"
  then show "\<not> huge (ent m' r' q j)"
    using only_entryD[OF assms(2) q(1,2,4)] assms(1,3) unfolding no_huge_above_def by (auto split: if_splits)
qed

lemma user_chain_step:
  assumes "user_chain R m" "only_entry R m m' r p i e"
    and up: "for_user e \<longrightarrow> present e \<longrightarrow> (\<forall>p' k. p = p' @ [k] \<longrightarrow> for_user (ent m r p' k))"
    and down: "length p = 3 \<or> (present (ent m r p i) \<longrightarrow> for_user (ent m r p i) \<longrightarrow> for_user e)"
  shows "user_chain R m'"
  unfolding user_chain_def
proof (intro ballI allI impI)
  fix r' q and k j :: u64
  assume q: "r' \<in> R" "path_ok (q @ [k])" "j < 512" "present (ent m' r' (q @ [k]) j)" "for_user (ent m' r' (q @ [k]) j)"
  have ok: "path_ok q" "k < 512" "length q < 3" using q(2) by (auto simp: path_ok_snoc)
  note child = only_entryD[OF assms(2) q(1,2,3)] and parent = only_entryD[OF assms(2) q(1) ok(1,2)]
  have old: "for_user (ent m r' q k)"
  proof (cases "r' = r \<and> q @ [k] = p \<and> j = i")
    case True
    then show ?thesis using up q(4,5) child by auto
  next
    case False
    then have "present (ent m r' (q @ [k]) j)" "for_user (ent m r' (q @ [k]) j)" using child q(4,5) by auto
    then show ?thesis using assms(1) q(1,2,3) unfolding user_chain_def by blast
  qed
  show "for_user (ent m' r' q k)"
  proof (cases "r' = r \<and> q = p \<and> k = i")
    case True
    then have "present (ent m r (p @ [i]) j)" using child q(4) by auto
    then have "present (ent m r p i)" by (auto simp: ent_def[of m r "p @ [i]"] table_at_ent flag_iff split: if_splits)
    then show ?thesis using True old down ok(3) parent by auto
  qed (use old parent in auto)
qed

lemma tree_ok_set:
  assumes ok: "tree_ok R m F" and slot: "private_slot R m r p t i"
    and e: "length p = 3 \<or> same_target e (ent m r p i)"
    and up: "for_user e \<longrightarrow> present e \<longrightarrow> (\<forall>p' k. p = p' @ [k] \<longrightarrow> for_user (ent m r p' k))"
    and down: "length p = 3 \<or> (for_user (ent m r p i) \<longrightarrow> for_user e)"
  shows "tree_ok R (m(t + 8 * i := e)) F"
proof -
  note T = tree_okD[OF ok] and D = private_slotD[OF slot]
  let ?m = "m(t + 8 * i := e)"
  note same = table_at_same[OF slot e] and one = set_only_entry[OF slot e]
  have "unique_tables R ?m" using T(2) same unfolding unique_tables_def by metis
  moreover have "tables_in_use R ?m F" using T(3) same unfolding tables_in_use_def by metis
  moreover have "length p \<le> 1 \<longrightarrow> present e \<longrightarrow> \<not> huge e"
    using T(4) D e unfolding no_huge_above_def same_target_def by auto
  ultimately show ?thesis
    using T(1) no_huge_step[OF T(4) one] user_chain_step[OF T(5) one up] down by (simp add: tree_ok_def)
qed

lemma tree_ok_create:
  assumes ok: "tree_ok R m F" and slot: "private_slot R m r p t i" and len: "length p < 3" and absent: "\<not> present (ent m r p i)"
    and sh: "\<not> shared (p @ [i])"
    and fresh: "frame_addr f" "unat f div 4096 \<in> F" and e: "present e" "\<not> huge e" "FRAME_OF e = f"
    and up: "for_user e \<longrightarrow> (\<forall>p' k. p = p' @ [k] \<longrightarrow> for_user (ent m r p' k))"
  defines "m' \<equiv> (page_clear f m)(t + 8 * i := e)"
  shows "tree_ok R m' (F - {unat f div 4096})" "only_entry R m m' r p i e"
    and "r' \<in> R \<Longrightarrow> path_ok q \<Longrightarrow> table_at m' r' q = (if r' = r \<and> q = p @ [i] then Some f else table_at m r' q)"
proof -
  note T = tree_okD[OF ok] and D = private_slotD[OF slot]
  have nt: "not_table R m f" using T(3) fresh(2) unfolding tables_in_use_def not_table_def by blast
  note new = create_table[OF slot len absent fresh(1) nt e, folded m'_def]
  show one: "only_entry R m m' r p i e" by (rule new(2))
  show "r' \<in> R \<Longrightarrow> path_ok q \<Longrightarrow> table_at m' r' q = (if r' = r \<and> q = p @ [i] then Some f else table_at m r' q)"
    by (rule new(1))
  have "unique_tables R m'"
    unfolding unique_tables_def
  proof (intro ballI allI impI)
    fix r1 r2 p1 p2 u
    assume a: "r1 \<in> R" "r2 \<in> R" "path_ok p1" "path_ok p2" "\<not> shared p1" "table_at m' r1 p1 = Some u" "table_at m' r2 p2 = Some u"
    have n: "table_at m r1 p1 \<noteq> Some f" "table_at m r2 p2 \<noteq> Some f" using nt a unfolding not_table_def by blast+
    show "r1 = r2 \<and> p1 = p2"
    proof (cases "u = f")
      case True
      then show ?thesis using a(6,7) n new(1)[OF a(1,3)] new(1)[OF a(2,4)] by (auto split: if_splits)
    next
      case False
      then show ?thesis using a(6,7) new(1)[OF a(1,3)] new(1)[OF a(2,4)] unique_tablesD[OF T(2) a(1,2,3,4,5)] by (auto split: if_splits)
    qed
  qed
  moreover have "tables_in_use R m' (F - {unat f div 4096})"
    using T(3) new(1) unfolding tables_in_use_def by (auto split: if_splits)
  moreover have "no_huge_above R m'" using no_huge_step[OF T(4) one] e by simp
  moreover have "user_chain R m'" 
  proof (rule user_chain_step[OF T(5) one])
    show "for_user e \<longrightarrow> present e \<longrightarrow> (\<forall>p' k. p = p' @ [k] \<longrightarrow> for_user (ent m r p' k))" using up by blast
    show "length p = 3 \<or> (present (ent m r p i) \<longrightarrow> for_user (ent m r p i) \<longrightarrow> for_user e)" using absent by simp
  qed
  ultimately show "tree_ok R m' (F - {unat f div 4096})" using T(1) by (simp add: tree_ok_def)
qed


section \<open>One level down\<close>

lemma frame_of_unat:
  assumes "unat t = f * 4096" "f < 2 ^ 40"
  shows "frame_addr t"
  unfolding frame_addr_bit
proof (intro allI impI)
  fix n assume b: "bit t n"
  have t: "t = push_bit 12 (of_nat f)"
    using assms by (simp add: push_bit_eq_mult mult.commute word_unat_eq_iff unat_word_ariths(2) unat_of_nat_u64)
  have "bit (of_nat f :: u64) (n - 12)" "12 \<le> n" using b unfolding t bit_push_bit_iff by auto
  then have "bit (unat (of_nat f :: u64)) (n - 12)" by (simp add: bit_unsigned_iff)
  then have "bit f (n - 12)" using assms(2) by (simp add: unat_of_nat_u64)
  moreover have "f = take_bit 40 f" using assms(2) by (simp add: take_bit_nat_eq_self)
  ultimately have "n - 12 < 40" by (metis bit_take_bit_iff)
  then show "12 \<le> n \<and> n < 52" using \<open>12 \<le> n\<close> by simp
qed

definition keeps_rest :: "paging \<Rightarrow> paging \<Rightarrow> bool" where
  "keeps_rest s s' \<longleftrightarrow> (\<forall>a. pml4 (spaces s' a) = pml4 (spaces s a)) \<and> cpu_space s' = cpu_space s \<and> this_cpu s' = this_cpu s
     \<and> tlb s' = tlb s \<and> total_frames (frames s') = total_frames (frames s)"

lemma keeps_rest_refl [simp]: "keeps_rest s s"
  by (simp add: keeps_rest_def)

lemma keeps_rest_trans: "keeps_rest a b \<Longrightarrow> keeps_rest b c \<Longrightarrow> keeps_rest a c"
  by (simp add: keeps_rest_def)

lemma flags_entry:
  fixes t f :: u64
  assumes "frame_addr t"
  defines "e \<equiv> t OR PTE_PRESENT OR PTE_WRITE OR (f AND PTE_USER)"
  shows "present e" "\<not> huge e" "FRAME_OF e = t" "for_user e = for_user f"
proof -
  have t: "\<not> bit t n" if "n < 12" for n using assms(1) that unfolding frame_addr_bit by (meson not_le)
  show "present e" "\<not> huge e" "for_user e = for_user f"
    using t by (auto simp: e_def flag_iff bit_or_iff bit_and_iff)
  have "FRAME_OF (PTE_PRESENT OR PTE_WRITE OR (f AND PTE_USER)) = 0"
    by (intro bit_word_eqI) (auto simp: bit_FRAME_OF bit_or_iff bit_and_iff)
  then show "FRAME_OF e = t" unfolding e_def or.assoc using FRAME_OF_or[OF assms(1)] by blast
qed

lemma FRAME_OF_user: "FRAME_OF (e OR PTE_USER) = FRAME_OF e"
  by (intro bit_word_eqI) (auto simp: bit_FRAME_OF bit_or_iff)

lemma low_frame_law:
  assumes "pmm_inv (frames s)" "0 \<notin> free_set (frames s)" "zeroed_low_frame s = (s', res)"
  shows "keeps_rest s s'" "spaces s' = spaces s" "pmm_inv (frames s')"
    and "case res of
        None \<Rightarrow> phys_mem s' = phys_mem s \<and> free_set (frames s') = free_set (frames s) \<and> free_set (frames s) \<inter> {..<2 ^ 18} = {}
      | Some f \<Rightarrow> phys_mem s' = page_clear f (phys_mem s) \<and> frame_addr f \<and> f \<noteq> 0 \<and> unat f div 4096 \<in> free_set (frames s)
          \<and> free_set (frames s') = free_set (frames s) - {unat f div 4096}"
proof -
  obtain q f where q: "pmm_alloc_frame_low (frames s) = (q, f)" by fastforce
  have post: "alloc_post (frames s) (min (2 ^ 18) (total_frames (frames s))) q f"
    by (rule pmm_alloc_frame_low_post[OF assms(1) q])
  have s': "s' = (if f = 0 then s\<lparr>frames := q\<rparr> else s\<lparr>frames := q, phys_mem := page_clear f (phys_mem s)\<rparr>)"
    "res = (if f = 0 then None else Some f)"
    using assms(3) q by (auto simp: zeroed_low_frame_def split: if_splits)
  show "keeps_rest s s'" "pmm_inv (frames s')" "spaces s' = spaces s"
    using s'(1) post by (auto simp: keeps_rest_def alloc_post_def same_counts_def)
  show "case res of
        None \<Rightarrow> phys_mem s' = phys_mem s \<and> free_set (frames s') = free_set (frames s) \<and> free_set (frames s) \<inter> {..<2 ^ 18} = {}
      | Some f \<Rightarrow> phys_mem s' = page_clear f (phys_mem s) \<and> frame_addr f \<and> f \<noteq> 0 \<and> unat f div 4096 \<in> free_set (frames s)
          \<and> free_set (frames s') = free_set (frames s) - {unat f div 4096}"
  proof (cases "free_set (frames s) \<inter> {..<min (2 ^ 18) (total_frames (frames s))} = {}")
    case True
    then have "f = 0" "free_set q = free_set (frames s)" using post by (auto simp: alloc_post_def)
    moreover have "free_set (frames s) \<inter> {..<2 ^ 18} = {}" using True by (auto simp: free_set_def)
    ultimately show ?thesis using s' by simp
  next
    case False
    then obtain n where n: "n \<in> free_set (frames s)" "n < 2 ^ 18" "unat f = n * 4096" "free_set q = free_set (frames s) - {n}"
      using post by (auto simp: alloc_post_def)
    have "n \<noteq> 0" using n(1) assms(2) by metis
    then have "f \<noteq> 0" using n(3) by auto
    moreover have "frame_addr f" using frame_of_unat[OF n(3)] n(2) by simp
    ultimately show ?thesis using s' n by simp
  qed
qed

text \<open>What a step down the tables promises.  A table that is new lies in a frame that was free.\<close>

definition new_tables :: "u64 set \<Rightarrow> paging \<Rightarrow> paging \<Rightarrow> bool" where
  "new_tables R s s' \<longleftrightarrow> free_set (frames s') \<subseteq> free_set (frames s) \<and> (\<forall>r\<in>R. \<forall>q t. path_ok q \<longrightarrow> table_at (phys_mem s') r q = Some t \<longrightarrow>
     table_at (phys_mem s) r q = Some t \<or> unat t div 4096 \<in> free_set (frames s))"

lemma new_tables_refl: "phys_mem s' = phys_mem s \<Longrightarrow> free_set (frames s') = free_set (frames s) \<Longrightarrow> new_tables R s s'"
  by (simp add: new_tables_def)

lemma new_tables_trans: "new_tables R a b \<Longrightarrow> new_tables R b c \<Longrightarrow> new_tables R a c"
  unfolding new_tables_def by blast

definition level_post :: "u64 set \<Rightarrow> paging \<Rightarrow> paging \<Rightarrow> u64 \<Rightarrow> u64 list \<Rightarrow> u64 \<Rightarrow> u64 \<Rightarrow> u64 option \<Rightarrow> bool" where
  "level_post R s s' r p i flags res \<longleftrightarrow> pg_ok R s' \<and> keeps_rest s s' \<and> new_tables R s s'
     \<and> (case res of
          None \<Rightarrow> phys_mem s' = phys_mem s \<and> free_set (frames s') = free_set (frames s) \<and> free_set (frames s) \<inter> {..<2 ^ 18} = {}
        | Some u \<Rightarrow> (\<exists>e. only_entry R (phys_mem s) (phys_mem s') r p i e \<and> present e \<and> \<not> huge e
             \<and> (for_user flags \<longrightarrow> for_user e))
            \<and> table_at (phys_mem s') r (p @ [i]) = Some u)"

lemma next_level_law:
  assumes ok: "pg_ok R s" and slot: "private_slot R (phys_mem s) r p t i" and len: "length p < 3" and sh: "\<not> shared (p @ [i])"
    and nh: "length p = 2 \<longrightarrow> \<not> huge (ent (phys_mem s) r p i)"
    and up: "for_user flags \<longrightarrow> (\<forall>p' k. p = p' @ [k] \<longrightarrow> for_user (ent (phys_mem s) r p' k))"
    and run: "next_level s t i True flags (Some as) = (s', res)"
  shows "level_post R s s' r p i flags res"
proof -
  note D = private_slotD[OF slot]
  have inv: "pmm_inv (frames s)" "0 \<notin> free_set (frames s)" "tree_ok R (phys_mem s) (free_set (frames s))"
    using ok by (simp_all add: pg_ok_def)
  let ?m = "phys_mem s" and ?e = "ent (phys_mem s) r p i"
  have e: "entry_at ?m t i = ?e" using D(6) by (simp add: ent_def)
  show ?thesis
  proof (cases "present ?e")
    case True
    have nh: "\<not> huge ?e" using nh len True tree_okD(4)[OF inv(3)] D unfolding no_huge_above_def by (cases "length p = 2") auto
    define e' where "e' = (if for_user flags \<and> \<not> for_user ?e then ?e OR PTE_USER else ?e)"
    have e': "same_target e' ?e" "for_user ?e \<longrightarrow> for_user e'" "for_user flags \<longrightarrow> for_user e'"
      unfolding e'_def same_target_def flag_iff using FRAME_OF_user by (auto simp: bit_or_iff)
    have "?m(t + 8 * i := ?e) = ?m" using e by (auto simp: entry_at_def)
    then have s': "s' = s\<lparr>phys_mem := ?m(t + 8 * i := e')\<rparr>" "res = Some (FRAME_OF ?e)"
      using run True unfolding next_level_def e by (auto simp: set_entry_def e'_def Let_def)
    have up': "for_user e' \<longrightarrow> present e' \<longrightarrow> (\<forall>p' k. p = p' @ [k] \<longrightarrow> for_user (ent ?m r p' k))"
    proof (cases "for_user ?e")
      case user: True
      then show ?thesis using tree_okD(5)[OF inv(3)] D True unfolding user_chain_def by blast
    next
      case False
      then show ?thesis using up by (auto simp: e'_def)
    qed
    have "tree_ok R (?m(t + 8 * i := e')) (free_set (frames s))"
      by (rule tree_ok_set[OF inv(3) slot _ up']) (use e' in auto)
    moreover have "table_at (?m(t + 8 * i := e')) r (p @ [i]) = Some (FRAME_OF ?e)"
      using table_at_same[OF slot _ D(2), of e' "p @ [i]"] e'(1) D(4,7) len True nh
      by (simp add: path_ok_snoc table_at_ent)
    moreover have "only_entry R ?m (?m(t + 8 * i := e')) r p i e'" by (rule set_only_entry[OF slot]) (use e' in simp)
    moreover have "present e'" "\<not> huge e'" using e'(1) True nh by (auto simp: same_target_def)
    moreover have "new_tables R s (s\<lparr>phys_mem := ?m(t + 8 * i := e')\<rparr>)"
      using table_at_same[OF slot, of e'] e'(1) by (simp add: new_tables_def)
    ultimately show ?thesis unfolding level_post_def s' using inv e'(3) by (auto simp: pg_ok_def keeps_rest_def)
  next
    case False
    obtain s1 f where z: "zeroed_low_frame s = (s1, f)" by fastforce
    note L = low_frame_law[OF inv(1,2) z]
    show ?thesis
    proof (cases f)
      case None
      then have "s' = s1" "res = None" using run False e z by (auto simp: next_level_def)
      then show ?thesis using L None inv by (simp add: level_post_def pg_ok_def new_tables_refl)
    next
      case (Some f)
      define e' where "e' = f OR PTE_PRESENT OR PTE_WRITE OR (flags AND PTE_USER)"
      have f: "phys_mem s1 = page_clear f ?m" "frame_addr f" "unat f div 4096 \<in> free_set (frames s)"
        "free_set (frames s1) = free_set (frames s) - {unat f div 4096}"
        using L(4) Some by auto
      note E = flags_entry[OF f(2), of flags, folded e'_def]
      have s': "s' = add_table_frames as 1 (s1\<lparr>phys_mem := (page_clear f ?m)(t + 8 * i := e')\<rparr>)" "res = Some f"
        using run False e z Some f(1) by (auto simp: next_level_def set_entry_def e'_def Let_def)
      have up': "for_user e' \<longrightarrow> (\<forall>p' k. p = p' @ [k] \<longrightarrow> for_user (ent ?m r p' k))" using up E(4) by blast
      note new = tree_ok_create[OF inv(3) slot len False sh f(2,3) E(1-3) up']
      have "table_at ((page_clear f ?m)(t + 8 * i := e')) r (p @ [i]) = Some f"
        using new(3)[OF D(2), of "p @ [i]"] D(4,7) len by (simp add: path_ok_snoc)
      moreover have "new_tables R s s'"
        using new(3) f(3,4) s' by (auto simp: new_tables_def add_table_frames_def split: if_splits)
      ultimately show ?thesis using new(1,2) L(1,3) f(4) inv(2) E unfolding level_post_def s'
        by (auto simp: pg_ok_def keeps_rest_def add_table_frames_def)
    qed
  qed
qed


section \<open>What is mapped\<close>

datatype mapped = Page u64 | Large u64

fun mapped_entry :: "mapped \<Rightarrow> u64" where
  "mapped_entry (Page e) = e"
| "mapped_entry (Large e) = e"

text \<open>What a space maps at an address: the entry of a page or of a large page.\<close>

definition mapping :: "words \<Rightarrow> u64 \<Rightarrow> u64 \<Rightarrow> mapped option" where
  "mapping m r v =
     (let e = ent m r [PML4_INDEX v, PDPT_INDEX v] (PD_INDEX v)
      in if \<not> present e then None
         else if huge e then Some (Large e)
         else
           (let e = ent m r [PML4_INDEX v, PDPT_INDEX v, PD_INDEX v] (PT_INDEX v)
            in if present e then Some (Page e) else None))"

fun physical :: "u64 \<Rightarrow> mapped \<Rightarrow> u64" where
  "physical v (Page e) = FRAME_OF e OR (v AND 0xFFF)"
| "physical v (Large e) = (FRAME_OF e AND NOT 0x1FFFFF) OR (v AND 0x1FFFFF)"

definition root_of :: "paging \<Rightarrow> u64 \<Rightarrow> u64" where
  "root_of s as = pml4 (spaces s as)"

definition path_of :: "u64 \<Rightarrow> u64 list" where
  "path_of v = [PML4_INDEX v, PDPT_INDEX v, PD_INDEX v]"

lemma path_of_ok: "path_ok (path_of v)" "path_ok [PML4_INDEX v]" "path_ok [PML4_INDEX v, PDPT_INDEX v]"
  by (simp_all add: path_ok_def path_of_def)

lemma path_ok_Nil [simp]: "path_ok []"
  by (simp add: path_ok_def)

lemma ent_present: "present (ent m r p i) \<Longrightarrow> \<exists>t. table_at m r p = Some t"
  by (auto simp: ent_def flag_iff split: option.splits)

lemma table_at_1: "table_at m r [i] = (if present (ent m r [] i) \<and> \<not> huge (ent m r [] i) then Some (FRAME_OF (ent m r [] i)) else None)"
  using table_at_ent[of m r "[]"] by simp

lemma table_at_2: "table_at m r [i, j] = (if present (ent m r [i] j) \<and> \<not> huge (ent m r [i] j) then Some (FRAME_OF (ent m r [i] j)) else None)"
  using table_at_ent[of m r "[i]"] by simp

lemma table_at_3: "table_at m r [i, j, k] = (if present (ent m r [i, j] k) \<and> \<not> huge (ent m r [i, j] k) then Some (FRAME_OF (ent m r [i, j] k)) else None)"
  using table_at_ent[of m r "[i, j]"] by simp

lemma no_huge:
  assumes "pg_ok R s" "r \<in> R"
  shows "present (ent (phys_mem s) r [] (PML4_INDEX v)) \<Longrightarrow> \<not> huge (ent (phys_mem s) r [] (PML4_INDEX v))"
    and "present (ent (phys_mem s) r [PML4_INDEX v] (PDPT_INDEX v)) \<Longrightarrow> \<not> huge (ent (phys_mem s) r [PML4_INDEX v] (PDPT_INDEX v))"
  using assms path_of_ok[of v] unfolding pg_ok_def tree_ok_def no_huge_above_def by auto

lemma user_chainD:
  assumes "pg_ok R s" "r \<in> R" "path_ok (p @ [i])" "j < 512" "present (ent (phys_mem s) r (p @ [i]) j)" "for_user (ent (phys_mem s) r (p @ [i]) j)"
  shows "for_user (ent (phys_mem s) r p i)"
  using assms unfolding pg_ok_def tree_ok_def user_chain_def by blast


text \<open>The entries the processor reads for an address, one per level.\<close>

definition walk :: "words \<Rightarrow> u64 \<Rightarrow> u64 \<Rightarrow> u64 \<times> u64 \<times> u64 \<times> u64" where
  "walk m r v = (ent m r [] (PML4_INDEX v), ent m r [PML4_INDEX v] (PDPT_INDEX v), ent m r [PML4_INDEX v, PDPT_INDEX v] (PD_INDEX v),
     ent m r [PML4_INDEX v, PDPT_INDEX v, PD_INDEX v] (PT_INDEX v))"

lemma walk_entries:
  assumes "pg_ok R s" "r \<in> R" "walk (phys_mem s) r v = (e1, e2, e3, e4)"
  shows "entry_at (phys_mem s) r (PML4_INDEX v) = e1"
    and "present e1 \<Longrightarrow> entry_at (phys_mem s) (FRAME_OF e1) (PDPT_INDEX v) = e2"
    and "present e2 \<Longrightarrow> entry_at (phys_mem s) (FRAME_OF e2) (PD_INDEX v) = e3"
    and "present e3 \<Longrightarrow> \<not> huge e3 \<Longrightarrow> entry_at (phys_mem s) (FRAME_OF e3) (PT_INDEX v) = e4"
    and "present e2 \<Longrightarrow> present e1" "present e3 \<Longrightarrow> present e2" "present e4 \<Longrightarrow> present e3 \<and> \<not> huge e3"
    and "mapping (phys_mem s) r v = (if \<not> present e3 then None else if huge e3 then Some (Large e3) else if present e4 then Some (Page e4) else None)"
proof -
  have e: "e1 = ent (phys_mem s) r [] (PML4_INDEX v)" "e2 = ent (phys_mem s) r [PML4_INDEX v] (PDPT_INDEX v)"
    "e3 = ent (phys_mem s) r [PML4_INDEX v, PDPT_INDEX v] (PD_INDEX v)"
    "e4 = ent (phys_mem s) r [PML4_INDEX v, PDPT_INDEX v, PD_INDEX v] (PT_INDEX v)"
    using assms(3) by (simp_all add: walk_def)
  have nh: "present e1 \<longrightarrow> \<not> huge e1" "present e2 \<longrightarrow> \<not> huge e2" using no_huge[OF assms(1,2), of v] e by auto
  show "entry_at (phys_mem s) r (PML4_INDEX v) = e1" by (simp add: e ent_def)
  show "present e1 \<Longrightarrow> entry_at (phys_mem s) (FRAME_OF e1) (PDPT_INDEX v) = e2"
    "present e2 \<Longrightarrow> entry_at (phys_mem s) (FRAME_OF e2) (PD_INDEX v) = e3"
    "present e3 \<Longrightarrow> \<not> huge e3 \<Longrightarrow> entry_at (phys_mem s) (FRAME_OF e3) (PT_INDEX v) = e4"
    using nh table_at_1[of "phys_mem s" r "PML4_INDEX v", folded e] table_at_2[of "phys_mem s" r "PML4_INDEX v" "PDPT_INDEX v", folded e]
      table_at_3[of "phys_mem s" r "PML4_INDEX v" "PDPT_INDEX v" "PD_INDEX v", folded e]
    by (simp_all add: e(2-4) ent_def)
  show "present e2 \<Longrightarrow> present e1" "present e3 \<Longrightarrow> present e2" "present e4 \<Longrightarrow> present e3 \<and> \<not> huge e3"
    unfolding e by (metis ent_present table_at_1 table_at_2 table_at_3 option.distinct(1))+
  show "mapping (phys_mem s) r v = (if \<not> present e3 then None else if huge e3 then Some (Large e3) else if present e4 then Some (Page e4) else None)"
    by (simp add: mapping_def e)
qed

lemma translate_mapping:
  assumes "pg_ok R s" "root_of s as \<in> R"
  shows "paging_translate s as v = (case mapping (phys_mem s) (root_of s as) v of None \<Rightarrow> 0 | Some x \<Rightarrow> physical v x)"
proof -
  obtain e1 e2 e3 e4 where w: "walk (phys_mem s) (root_of s as) v = (e1, e2, e3, e4)" using prod_cases4 by blast
  note W = walk_entries[OF assms w]
  have nu: "\<not> for_user 0" by (simp add: flag_iff)
  show ?thesis
    unfolding paging_translate_def next_level_def root_of_def[symmetric] W(1) W(8) Let_def
    using W(2-7) nu by (auto split: if_splits)
qed

lemma can_access_mapping:
  assumes "pg_ok R s" "root_of s as \<in> R"
  shows "paging_user_can_access s as v w \<longleftrightarrow>
    (\<exists>x. mapping (phys_mem s) (root_of s as) v = Some x \<and> for_user (mapped_entry x) \<and> (w \<longrightarrow> writable (mapped_entry x)))"
proof -
  obtain e1 e2 e3 e4 where w: "walk (phys_mem s) (root_of s as) v = (e1, e2, e3, e4)" using prod_cases4 by blast
  note W = walk_entries[OF assms w]
  have chain: "present e2 \<and> for_user e2 \<longrightarrow> for_user e1" "present e3 \<and> for_user e3 \<longrightarrow> for_user e2"
    "present e4 \<and> for_user e4 \<longrightarrow> for_user e3"
    using user_chainD[OF assms, of "[]" "PML4_INDEX v" "PDPT_INDEX v"] user_chainD[OF assms, of "[PML4_INDEX v]" "PDPT_INDEX v" "PD_INDEX v"]
      user_chainD[OF assms, of "[PML4_INDEX v, PDPT_INDEX v]" "PD_INDEX v" "PT_INDEX v"] path_of_ok[of v] w
    by (auto simp: path_of_def walk_def)
  have "paging_user_can_access s as v w \<longleftrightarrow> present e1 \<and> for_user e1 \<and> present e2 \<and> for_user e2 \<and> present e3 \<and> for_user e3 \<and>
     (if huge e3 then w \<longrightarrow> writable e3 else present e4 \<and> for_user e4 \<and> (w \<longrightarrow> writable e4))"
    unfolding paging_user_can_access_def root_of_def[symmetric] W(1) Let_def using W(2-4) by auto
  also have "\<dots> \<longleftrightarrow> (\<exists>x. mapping (phys_mem s) (root_of s as) v = Some x \<and> for_user (mapped_entry x) \<and> (w \<longrightarrow> writable (mapped_entry x)))"
    unfolding W(8) using chain W(5-7) by auto
  finally show ?thesis .
qed

lemma only_entry_above:
  assumes one: "only_entry R m m' r p i e" and len: "length p < 3" and r': "r' \<in> R"
    and e: "present e" "\<not> huge e" and old: "present (ent m r p i) \<longrightarrow> \<not> huge (ent m r p i)"
  shows "mapping m' r' v = mapping m r' v"
proof -
  let ?p2 = "[PML4_INDEX v, PDPT_INDEX v]" and ?p3 = "[PML4_INDEX v, PDPT_INDEX v, PD_INDEX v]"
  have leaf: "ent m' r' ?p3 (PT_INDEX v) = ent m r' ?p3 (PT_INDEX v)"
    using only_entryD[OF one r' path_of_ok(1)[of v, unfolded path_of_def], of "PT_INDEX v"] len by auto
  have mid: "ent m' r' ?p2 (PD_INDEX v) = (if r' = r \<and> ?p2 = p \<and> PD_INDEX v = i then e else ent m r' ?p2 (PD_INDEX v))"
    by (rule only_entryD[OF one r' path_of_ok(3)]) simp
  show ?thesis
  proof (cases "r' = r \<and> ?p2 = p \<and> PD_INDEX v = i")
    case True
    have "\<not> present (ent m r' ?p3 (PT_INDEX v))" if "\<not> present (ent m r' ?p2 (PD_INDEX v))"
      using that ent_present table_at_3 by (metis option.distinct(1))
    then show ?thesis using True mid leaf e old by (auto simp: mapping_def Let_def)
  next
    case False
    then have "ent m' r' ?p2 (PD_INDEX v) = ent m r' ?p2 (PD_INDEX v)" using mid by auto
    then show ?thesis using leaf by (simp add: mapping_def Let_def)
  qed
qed


lemma pg_ok_slot:
  assumes "pg_ok R s" "r \<in> R" "path_ok p" "\<not> shared p" "table_at (phys_mem s) r p = Some t" "i < 512"
  shows "private_slot R (phys_mem s) r p t i"
  using assms by (simp add: private_slot_def pg_ok_def tree_ok_def)

text \<open>A step that succeeded or failed leaves every mapping of every space as it was.\<close>

lemma level_mapping:
  assumes "level_post R s s' r p i flags res" "length p < 3" "r' \<in> R" "present (ent (phys_mem s) r p i) \<longrightarrow> \<not> huge (ent (phys_mem s) r p i)"
  shows "mapping (phys_mem s') r' v = mapping (phys_mem s) r' v"
  using assms only_entry_above[OF _ assms(2,3) _ _ assms(4)] unfolding level_post_def by (cases res) auto

definition same_mappings :: "u64 set \<Rightarrow> paging \<Rightarrow> paging \<Rightarrow> bool" where
  "same_mappings R s s' \<longleftrightarrow> (\<forall>r\<in>R. \<forall>v. mapping (phys_mem s') r v = mapping (phys_mem s) r v)"

definition walk_post :: "u64 set \<Rightarrow> paging \<Rightarrow> paging \<Rightarrow> u64 \<Rightarrow> u64 \<Rightarrow> u64 \<Rightarrow> u64 option \<Rightarrow> bool" where
  "walk_post R s s' r v flags res \<longleftrightarrow> pg_ok R s' \<and> keeps_rest s s' \<and> same_mappings R s s' \<and> new_tables R s s'
     \<and> (case res of
          None \<Rightarrow> free_set (frames s') \<inter> {..<2 ^ 18} = {} \<or> huge (ent (phys_mem s) r [PML4_INDEX v, PDPT_INDEX v] (PD_INDEX v))
        | Some pt \<Rightarrow> table_at (phys_mem s') r (path_of v) = Some pt
            \<and> (for_user flags \<longrightarrow> for_user (ent (phys_mem s') r [PML4_INDEX v, PDPT_INDEX v] (PD_INDEX v))))"

lemma level_next:
  assumes "level_post R s s' (root_of s as) p i flags (Some u)" "root_of s as \<in> R" "path_ok (p @ [i])"
  shows "pg_ok R s'" "root_of s' as = root_of s as" "keeps_rest s s'" "new_tables R s s'"
    and "table_at (phys_mem s') (root_of s as) (p @ [i]) = Some u"
    and "for_user flags \<longrightarrow> for_user (ent (phys_mem s') (root_of s as) p i)"
    and "path_ok q \<Longrightarrow> j < 512 \<Longrightarrow> q \<noteq> p \<Longrightarrow> ent (phys_mem s') (root_of s as) q j = ent (phys_mem s) (root_of s as) q j"
proof -
  obtain e where e: "only_entry R (phys_mem s) (phys_mem s') (root_of s as) p i e" "for_user flags \<longrightarrow> for_user e"
    using assms(1) by (auto simp: level_post_def)
  show "pg_ok R s'" "root_of s' as = root_of s as" "keeps_rest s s'" "new_tables R s s'"
    "table_at (phys_mem s') (root_of s as) (p @ [i]) = Some u"
    using assms(1) by (auto simp: level_post_def keeps_rest_def root_of_def)
  show "for_user flags \<longrightarrow> for_user (ent (phys_mem s') (root_of s as) p i)"
    using only_entryD[OF e(1) assms(2), of p i] e(2) assms(3) by (simp add: path_ok_snoc)
  show "path_ok q \<Longrightarrow> j < 512 \<Longrightarrow> q \<noteq> p \<Longrightarrow> ent (phys_mem s') (root_of s as) q j = ent (phys_mem s) (root_of s as) q j"
    using only_entryD[OF e(1) assms(2)] by simp
qed

lemma walk_law:
  assumes ok: "pg_ok R s" and r: "root_of s as \<in> R" and v: "\<not> shared (path_of v)"
    and run: "walk_to_pt s as v True flags = (s', res)"
  shows "walk_post R s s' (root_of s as) v flags res"
proof -
  let ?r = "root_of s as" and ?i1 = "PML4_INDEX v" and ?i2 = "PDPT_INDEX v" and ?i3 = "PD_INDEX v"
  have sh: "\<not> shared []" "\<not> shared [?i1]" "\<not> shared [?i1, ?i2]" "\<not> shared [?i1, ?i2, ?i3]"
    using v shared_prefix[of "[?i1]" "[?i2, ?i3]"] shared_prefix[of "[?i1, ?i2]" "[?i3]"] by (auto simp: path_of_def shared_def)
  note P = path_of_ok[of v, unfolded path_of_def]
  obtain s1 r1 where 1: "next_level s ?r ?i1 True flags (Some as) = (s1, r1)" by fastforce
  have L1: "level_post R s s1 ?r [] ?i1 flags r1"
    by (rule next_level_law[OF ok pg_ok_slot[OF ok r] _ _ _ _ 1]) (use sh in auto)
  have M1: "same_mappings R s s1" using level_mapping[OF L1] no_huge(1)[OF ok r, of v] by (simp add: same_mappings_def)
  show ?thesis
  proof (cases r1)
    case None
    then have "s' = s1" "res = None" using run 1 by (auto simp: walk_to_pt_def root_of_def)
    then show ?thesis using L1 M1 None by (simp add: walk_post_def level_post_def)
  next
    case (Some t1)
    note N1 = level_next[OF L1[unfolded Some] r, unfolded append.simps, OF P(2)]
    obtain s2 r2 where 2: "next_level s1 t1 ?i2 True flags (Some as) = (s2, r2)" by fastforce
    have L2: "level_post R s1 s2 ?r [?i1] ?i2 flags r2"
      by (rule next_level_law[OF N1(1) pg_ok_slot[OF N1(1) r P(2) sh(2) N1(5)] _ _ _ _ 2]) (use sh N1(6) in auto)
    have M2: "same_mappings R s s2"
      using level_mapping[OF L2] no_huge(2)[OF N1(1) r, of v] M1 by (simp add: same_mappings_def)
    show ?thesis
    proof (cases r2)
      case None
      then have "s' = s2" "res = None" using run 1 2 Some by (auto simp: walk_to_pt_def root_of_def)
      then show ?thesis using L2 M2 None N1(3,4) by (auto simp: walk_post_def level_post_def intro: keeps_rest_trans new_tables_trans)
    next
      case t2: (Some t2)
      note N2 = level_next[OF L2[unfolded t2 N1(2)[symmetric]], unfolded N1(2) append.simps, OF r P(3)]
      have h: "ent (phys_mem s2) ?r [?i1, ?i2] ?i3 = ent (phys_mem s) ?r [?i1, ?i2] ?i3"
        using N1(7)[OF P(3)] N2(7)[OF P(3)] by simp
      have e3: "entry_at (phys_mem s2) t2 ?i3 = ent (phys_mem s2) ?r [?i1, ?i2] ?i3" using N2(5) by (simp add: ent_def)
      have K2: "keeps_rest s s2" "new_tables R s s2" using N1(3,4) N2(3,4) keeps_rest_trans new_tables_trans by blast+
      show ?thesis
      proof (cases "huge (ent (phys_mem s2) ?r [?i1, ?i2] ?i3)")
        case True
        then have "s' = s2" "res = None" using run 1 2 Some t2 e3 by (auto simp: walk_to_pt_def root_of_def)
        then show ?thesis using True h N2(1) M2 K2 by (simp add: walk_post_def)
      next
        case False
        then have 3: "next_level s2 t2 ?i3 True flags (Some as) = (s', res)"
          using run 1 2 Some t2 e3 by (auto simp: walk_to_pt_def root_of_def)
        have L3: "level_post R s2 s' ?r [?i1, ?i2] ?i3 flags res"
          by (rule next_level_law[OF N2(1) pg_ok_slot[OF N2(1) r P(3) sh(3) N2(5)] _ _ _ _ 3]) (use sh N2(6) False in auto)
        have M3: "same_mappings R s s'" using level_mapping[OF L3] False M2 by (simp add: same_mappings_def)
        show ?thesis
        proof (cases res)
          case None
          then show ?thesis using L3 M3 K2 by (auto simp: walk_post_def level_post_def intro: keeps_rest_trans new_tables_trans)
        next
          case t3: (Some t3)
          have r2: "root_of s2 as = ?r" using N1(2) N2(2) by simp
          note N3 = level_next[OF L3[unfolded t3 r2[symmetric]], unfolded r2 append.simps, OF r P(1)]
          show ?thesis using N3(1,3,4,5,6) M3 K2 t3 by (auto simp: walk_post_def path_of_def intro: keeps_rest_trans new_tables_trans)
        qed
      qed
    qed
  qed
qed


section \<open>Mapping and unmapping a page\<close>

definition same_page :: "u64 \<Rightarrow> u64 \<Rightarrow> bool" where
  "same_page v v' \<longleftrightarrow> path_of v = path_of v' \<and> PT_INDEX v = PT_INDEX v'"

definition page_entry :: "u64 \<Rightarrow> u64 \<Rightarrow> u64" where
  "page_entry phys flags = FRAME_OF phys OR (flags AND (PTE_WRITE OR PTE_USER)) OR PTE_PRESENT"

lemma page_entry_flags:
  "present (page_entry phys flags)" "FRAME_OF (page_entry phys flags) = FRAME_OF phys"
  "for_user (page_entry phys flags) = for_user flags" "writable (page_entry phys flags) = writable flags"
proof -
  have "\<not> bit (FRAME_OF phys) n" if "n < 12" for n using that by (simp add: bit_FRAME_OF)
  then show "present (page_entry phys flags)" "for_user (page_entry phys flags) = for_user flags"
    "writable (page_entry phys flags) = writable flags"
    by (auto simp: page_entry_def flag_iff bit_or_iff bit_and_iff)
  have "FRAME_OF ((flags AND (PTE_WRITE OR PTE_USER)) OR PTE_PRESENT) = 0"
    by (intro bit_word_eqI) (auto simp: bit_FRAME_OF bit_or_iff bit_and_iff)
  then show "FRAME_OF (page_entry phys flags) = FRAME_OF phys"
    unfolding page_entry_def or.assoc using FRAME_OF_or[of "FRAME_OF phys"] by simp
qed

text \<open>Setting one entry of a private page table.\<close>

lemma leaf_tables:
  assumes ok: "pg_ok R s" and r: "r \<in> R" and v: "\<not> shared (path_of v)" and pt: "table_at (phys_mem s) r (path_of v) = Some pt"
    and q: "r' \<in> R" "path_ok q"
  shows "table_at ((phys_mem s)(pt + 8 * PT_INDEX v := e)) r' q = table_at (phys_mem s) r' q"
proof -
  have "private_slot R (phys_mem s) r (path_of v) pt (PT_INDEX v)"
    by (rule pg_ok_slot[OF ok r path_of_ok(1) v pt]) simp
  then show ?thesis by (rule table_at_same[OF _ _ q]) (simp add: path_of_def)
qed

lemma leaf_set:
  assumes ok: "pg_ok R s" and r: "r \<in> R" and v: "\<not> shared (path_of v)" and pt: "table_at (phys_mem s) r (path_of v) = Some pt"
    and user: "present e \<longrightarrow> for_user e \<longrightarrow> for_user (ent (phys_mem s) r [PML4_INDEX v, PDPT_INDEX v] (PD_INDEX v))"
  defines "m' \<equiv> (phys_mem s)(pt + 8 * PT_INDEX v := e)"
  shows "tree_ok R m' (free_set (frames s))"
    and "r' \<in> R \<Longrightarrow> mapping m' r' v' = (if r' = r \<and> same_page v v' then if present e then Some (Page e) else None else mapping (phys_mem s) r' v')"
proof -
  have slot: "private_slot R (phys_mem s) r (path_of v) pt (PT_INDEX v)"
    by (rule pg_ok_slot[OF ok r path_of_ok(1) v pt]) simp
  have len: "length (path_of v) = 3" by (simp add: path_of_def)
  have up: "for_user e \<longrightarrow> present e \<longrightarrow> (\<forall>p' k. path_of v = p' @ [k] \<longrightarrow> for_user (ent (phys_mem s) r p' k))"
  proof (intro impI allI)
    fix p' k assume a: "for_user e" "present e" "path_of v = p' @ [k]"
    have "p' @ [k] = [PML4_INDEX v, PDPT_INDEX v] @ [PD_INDEX v]" using a(3) by (simp add: path_of_def)
    then have "p' = [PML4_INDEX v, PDPT_INDEX v]" "k = PD_INDEX v" by (simp_all only: append1_eq_conv)
    then show "for_user (ent (phys_mem s) r p' k)" using user a by simp
  qed
  show "tree_ok R m' (free_set (frames s))"
    unfolding m'_def using ok by (intro tree_ok_set[OF _ slot _ up]) (auto simp: len pg_ok_def)
  have one: "only_entry R (phys_mem s) m' r (path_of v) (PT_INDEX v) e" unfolding m'_def by (rule set_only_entry[OF slot]) (simp add: len)
  show "mapping m' r' v' = (if r' = r \<and> same_page v v' then if present e then Some (Page e) else None else mapping (phys_mem s) r' v')"
    if r': "r' \<in> R"
  proof -
    let ?p2 = "[PML4_INDEX v', PDPT_INDEX v']"
    have "?p2 \<noteq> path_of v" by (simp add: path_of_def)
    then have mid: "ent m' r' ?p2 (PD_INDEX v') = ent (phys_mem s) r' ?p2 (PD_INDEX v')"
      using only_entryD[OF one r' path_of_ok(3)[of v'], of "PD_INDEX v'"] by simp
    have leaf: "ent m' r' (path_of v') (PT_INDEX v') =
        (if r' = r \<and> same_page v v' then e else ent (phys_mem s) r' (path_of v') (PT_INDEX v'))"
      using only_entryD[OF one r' path_of_ok(1)[of v'], of "PT_INDEX v'"] by (auto simp: same_page_def)
    have here: "present (ent (phys_mem s) r ?p2 (PD_INDEX v'))" "\<not> huge (ent (phys_mem s) r ?p2 (PD_INDEX v'))" if "same_page v v'"
      using pt that table_at_3[of "phys_mem s" r] by (auto simp: same_page_def path_of_def split: if_splits)
    show ?thesis using mid leaf here unfolding mapping_def path_of_def Let_def by auto
  qed
qed


lemma map_law:
  assumes ok: "pg_ok R s" and r: "root_of s as \<in> R" and v: "\<not> shared (path_of v)"
  shows "case paging_map s as v phys flags of
      None \<Rightarrow> \<exists>e. mapping (phys_mem s) (root_of s as) v = Some (Page e)
    | Some (s', False) \<Rightarrow> pg_ok R s' \<and> same_mappings R s s' \<and> keeps_rest s s' \<and> new_tables R s s'
        \<and> (free_set (frames s') \<inter> {..<2 ^ 18} = {} \<or> huge (ent (phys_mem s) (root_of s as) [PML4_INDEX v, PDPT_INDEX v] (PD_INDEX v)))
    | Some (s', True) \<Rightarrow> pg_ok R s' \<and> mapping (phys_mem s) (root_of s as) v = None \<and> keeps_rest (flush_own as v s) s'
        \<and> new_tables R s s'
        \<and> (\<forall>r'\<in>R. \<forall>v'. mapping (phys_mem s') r' v' =
             (if r' = root_of s as \<and> same_page v v' then Some (Page (page_entry phys flags)) else mapping (phys_mem s) r' v'))"
proof -
  obtain s1 res where w: "walk_to_pt s as v True flags = (s1, res)" by fastforce
  note W = walk_law[OF ok r v w]
  show ?thesis
  proof (cases res)
    case None
    then have "paging_map s as v phys flags = Some (s1, False)" using w by (simp add: paging_map_def)
    then show ?thesis using W None by (simp add: walk_post_def)
  next
    case (Some pt)
    let ?r = "root_of s as" and ?e = "entry_at (phys_mem s1) pt (PT_INDEX v)" and ?new = "page_entry phys flags"
    have W': "pg_ok R s1" "same_mappings R s s1" "keeps_rest s s1" "new_tables R s s1"
      "table_at (phys_mem s1) ?r (path_of v) = Some pt"
      "for_user flags \<longrightarrow> for_user (ent (phys_mem s1) ?r [PML4_INDEX v, PDPT_INDEX v] (PD_INDEX v))"
      using W Some by (simp_all add: walk_post_def)
    have leaf: "mapping (phys_mem s) ?r v = (if present ?e then Some (Page ?e) else None)"
    proof -
      have "mapping (phys_mem s) ?r v = mapping (phys_mem s1) ?r v" using W'(2) r by (simp add: same_mappings_def)
      also have "\<dots> = (if present ?e then Some (Page ?e) else None)"
        using W'(5) table_at_3[of "phys_mem s1" ?r] by (auto simp: mapping_def path_of_def ent_def[of _ _ "[PML4_INDEX v, PDPT_INDEX v, PD_INDEX v]"] Let_def split: if_splits)
      finally show ?thesis .
    qed
    show ?thesis
    proof (cases "present ?e")
      case True
      then have "paging_map s as v phys flags = None" using w Some by (simp add: paging_map_def)
      then show ?thesis using leaf True by simp
    next
      case False
      define s2 where "s2 = s1\<lparr>phys_mem := (phys_mem s1)(pt + 8 * PT_INDEX v := ?new)\<rparr>"
      define s3 where "s3 = flush_own as v (if for_user flags then add_user_frames as 1 s2 else s2)"
      have run: "paging_map s as v phys flags = Some (s3, True)"
        using w Some False by (simp add: paging_map_def s3_def s2_def set_entry_def page_entry_def Let_def)
      note set = leaf_set[OF W'(1) r v W'(5), of ?new]
      have s3: "phys_mem s3 = phys_mem s2" "frames s3 = frames s1"
        by (simp_all add: s3_def s2_def flush_own_def invlpg_def add_user_frames_def)
      have rest: "keeps_rest (flush_own as v s) s3"
        using W'(3) by (simp add: s3_def s2_def keeps_rest_def flush_own_def invlpg_def add_user_frames_def this_space_def)
      have "new_tables R s s3"
        using W'(4) leaf_tables[OF W'(1) r v W'(5)] unfolding new_tables_def s3 by (simp add: s2_def)
      then show ?thesis using run leaf False set W' page_entry_flags[of phys flags] rest unfolding s3 
        by (simp add: pg_ok_def s3 s2_def same_mappings_def)
    qed
  qed
qed


end
