(* ===== verification/Paging_Space.thy ===== *)
theory Paging_Space
  imports Paging
begin

text \<open>
  Address spaces as a whole: which frames are behind pages, what mapping, unmapping, making and freeing
  do to them, and that the translations the processor still holds are never stale.
\<close>

section \<open>Pages and their frames\<close>

definition pages_ok :: "u64 set \<Rightarrow> words \<Rightarrow> nat set \<Rightarrow> bool" where
  "pages_ok R m F \<longleftrightarrow> (\<forall>r\<in>R. \<forall>v e. \<not> shared (path_of v) \<longrightarrow> mapping m r v = Some (Page e) \<longrightarrow>
     FRAME_OF e \<noteq> 0 \<and> not_table R m (FRAME_OF e) \<and> unat (FRAME_OF e) div 4096 \<notin> F)"

definition space_ok :: "u64 set \<Rightarrow> paging \<Rightarrow> bool" where
  "space_ok R s \<longleftrightarrow> pg_ok R s \<and> total_frames (frames s) \<le> 2 ^ 40 \<and> pages_ok R (phys_mem s) (free_set (frames s))"

lemma pages_okD:
  assumes "pages_ok R m F" "r \<in> R" "\<not> shared (path_of v)" "mapping m r v = Some (Page e)"
  shows "FRAME_OF e \<noteq> 0" "not_table R m (FRAME_OF e)" "unat (FRAME_OF e) div 4096 \<notin> F"
  using assms unfolding pages_ok_def by blast+

lemma not_table_new:
  assumes "new_tables R s s'" "not_table R (phys_mem s) f" "unat f div 4096 \<notin> free_set (frames s)"
  shows "not_table R (phys_mem s') f"
  using assms unfolding new_tables_def not_table_def by blast

lemma pages_ok_step:
  assumes "pages_ok R (phys_mem s) (free_set (frames s))" "new_tables R s s'"
    and "\<And>r v e. r \<in> R \<Longrightarrow> \<not> shared (path_of v) \<Longrightarrow> mapping (phys_mem s') r v = Some (Page e) \<Longrightarrow>
      mapping (phys_mem s) r v = Some (Page e)
      \<or> FRAME_OF e \<noteq> 0 \<and> not_table R (phys_mem s) (FRAME_OF e) \<and> unat (FRAME_OF e) div 4096 \<notin> free_set (frames s)"
  shows "pages_ok R (phys_mem s') (free_set (frames s'))"
  unfolding pages_ok_def
proof (intro ballI allI impI)
  fix r v e assume a: "r \<in> R" "\<not> shared (path_of v)" "mapping (phys_mem s') r v = Some (Page e)"
  have old: "FRAME_OF e \<noteq> 0" "not_table R (phys_mem s) (FRAME_OF e)" "unat (FRAME_OF e) div 4096 \<notin> free_set (frames s)"
    using assms(3)[OF a] pages_okD[OF assms(1) a(1,2)] by blast+
  then show "FRAME_OF e \<noteq> 0 \<and> not_table R (phys_mem s') (FRAME_OF e) \<and> unat (FRAME_OF e) div 4096 \<notin> free_set (frames s')"
    using not_table_new[OF assms(2) old(2,3)] assms(2) unfolding new_tables_def by blast
qed

lemma frame_addr_eqI:
  assumes "frame_addr t" "frame_addr x" "unat t div 4096 = unat x div 4096"
  shows "t = x"
proof -
  have "unat t = unat x div 4096 * 4096" using frame_addr_unat(2)[OF assms(1)] by (simp only: assms(3))
  then show ?thesis unfolding frame_addr_unat(2)[OF assms(2)] by (simp add: word_unat_eq_iff)
qed

lemma space_ok_frames:
  assumes "space_ok R s" "pmm_inv p" "total_frames p = total_frames (frames s)" "free_set p \<subseteq> free_set (frames s)"
  shows "space_ok R (s\<lparr>frames := p\<rparr>)"
proof -
  have T: "tree_ok R (phys_mem s) (free_set (frames s))" and P: "pages_ok R (phys_mem s) (free_set (frames s))"
    and z: "0 \<notin> free_set (frames s)" and tot: "total_frames (frames s) \<le> 2 ^ 40"
    using assms(1) by (simp_all add: space_ok_def pg_ok_def)
  have "tables_in_use R (phys_mem s) (free_set p)"
    using tree_okD(3)[OF T] assms(4) unfolding tables_in_use_def by blast
  moreover have "pages_ok R (phys_mem s) (free_set p)" using P assms(4) unfolding pages_ok_def by blast
  moreover have "0 \<notin> free_set p" using z assms(4) by blast
  ultimately show ?thesis using T assms(2,3) tot by (simp add: space_ok_def pg_ok_def tree_ok_def)
qed

text \<open>A frame that is neither a table nor behind a page is given back.\<close>

lemma space_ok_release:
  assumes ok: "space_ok R s" and x: "x \<noteq> 0" "not_table R (phys_mem s) x" "frame_addr x"
    and sole: "\<And>r v e. r \<in> R \<Longrightarrow> \<not> shared (path_of v) \<Longrightarrow> mapping (phys_mem s) r v = Some (Page e) \<Longrightarrow> FRAME_OF e \<noteq> x"
    and p: "pmm_inv p" "total_frames p = total_frames (frames s)" "free_set p \<subseteq> free_set (frames s) \<union> {unat x div 4096}"
  shows "space_ok R (s\<lparr>frames := p\<rparr>)"
proof -
  note eq = frame_addr_eqI[OF _ x(3)]
  have nz: "unat x div 4096 \<noteq> 0" using frame_addr_unat(2)[OF x(3)] x(1) by (metis mult_0 unat_eq_0)
  have T: "tree_ok R (phys_mem s) (free_set (frames s))" and P: "pages_ok R (phys_mem s) (free_set (frames s))"
    and z: "0 \<notin> free_set (frames s)" and tot: "total_frames (frames s) \<le> 2 ^ 40"
    using ok by (simp_all add: space_ok_def pg_ok_def)
  have "tables_in_use R (phys_mem s) (free_set p)"
    unfolding tables_in_use_def
  proof (intro ballI allI impI)
    fix r q t assume t: "r \<in> R" "path_ok q" "table_at (phys_mem s) r q = Some t"
    have "frame_addr t" using table_at_frame[OF _ t(3)] tree_okD(1)[OF T] t(1) by blast
    moreover have "t \<noteq> x" using x(2) t unfolding not_table_def by blast
    ultimately have "unat t div 4096 \<noteq> unat x div 4096" using eq by blast
    moreover have "unat t div 4096 \<notin> free_set (frames s)" using tree_okD(3)[OF T] t unfolding tables_in_use_def by blast
    ultimately show "unat t div 4096 \<notin> free_set p" using p(3) by blast
  qed
  moreover have "pages_ok R (phys_mem s) (free_set p)"
    unfolding pages_ok_def
  proof (intro ballI allI impI)
    fix r v e assume a: "r \<in> R" "\<not> shared (path_of v)" "mapping (phys_mem s) r v = Some (Page e)"
    have "unat (FRAME_OF e) div 4096 \<noteq> unat x div 4096" using eq[of "FRAME_OF e"] sole[OF a] by auto
    then show "FRAME_OF e \<noteq> 0 \<and> not_table R (phys_mem s) (FRAME_OF e) \<and> unat (FRAME_OF e) div 4096 \<notin> free_set p"
      using pages_okD[OF P a] p(3) by auto
  qed
  moreover have "0 \<notin> free_set p" using z nz p(3) by auto
  ultimately show ?thesis using T p(1,2) tot by (simp add: space_ok_def pg_ok_def tree_ok_def)
qed

lemma map_keeps_ok:
  assumes ok: "space_ok R s" and r: "root_of s as \<in> R" and v: "\<not> shared (path_of v)"
    and phys: "FRAME_OF phys \<noteq> 0" "not_table R (phys_mem s) (FRAME_OF phys)" "unat (FRAME_OF phys) div 4096 \<notin> free_set (frames s)"
    and run: "paging_map s as v phys flags = Some (s', done')"
  shows "space_ok R s'"
proof -
  have pg: "pg_ok R s" and pages: "pages_ok R (phys_mem s) (free_set (frames s))" and tot: "total_frames (frames s) \<le> 2 ^ 40"
    using ok by (simp_all add: space_ok_def)
  note M = map_law[OF pg r v, of phys flags, unfolded run]
  have "new_tables R s s'" "pg_ok R s'" "total_frames (frames s') = total_frames (frames s)"
    using M by (auto simp: keeps_rest_def flush_own_def invlpg_def split: bool.splits if_splits)
  moreover have "mapping (phys_mem s) r' v' = Some (Page e)
      \<or> FRAME_OF e \<noteq> 0 \<and> not_table R (phys_mem s) (FRAME_OF e) \<and> unat (FRAME_OF e) div 4096 \<notin> free_set (frames s)"
    if "r' \<in> R" "mapping (phys_mem s') r' v' = Some (Page e)" for r' v' e
    using M that phys by (auto simp: same_mappings_def page_entry_flags split: bool.splits if_splits)
  ultimately show ?thesis using pages_ok_step[OF pages, of s'] tot by (simp add: space_ok_def)
qed


lemma frame_alloc_law:
  assumes ok: "space_ok R s" and run: "pmm_alloc_frame (frames s) = (p, phys)"
  shows "space_ok R (s\<lparr>frames := p\<rparr>)"
    and "phys = 0 \<Longrightarrow> free_set (frames s) = {} \<and> free_set p = {}"
    and "phys \<noteq> 0 \<Longrightarrow> frame_addr phys \<and> unat phys div 4096 \<in> free_set (frames s) \<and> free_set p = free_set (frames s) - {unat phys div 4096}
      \<and> not_table R (phys_mem s) phys"
proof -
  have inv: "pmm_inv (frames s)" "0 \<notin> free_set (frames s)" "tree_ok R (phys_mem s) (free_set (frames s))" "total_frames (frames s) \<le> 2 ^ 40"
    using ok by (simp_all add: space_ok_def pg_ok_def)
  have post: "alloc_post (frames s) (total_frames (frames s)) p phys" by (rule pmm_alloc_frame_post[OF inv(1) run])
  then have counts: "pmm_inv p" "total_frames p = total_frames (frames s)" by (simp_all add: alloc_post_def same_counts_def)
  consider "free_set (frames s) = {}" "phys = 0" "free_set p = {}"
    | n where "n \<in> free_set (frames s)" "unat phys = n * 4096" "free_set p = free_set (frames s) - {n}"
  proof (cases "free_set (frames s) = {}")
    case True
    then show thesis using post that(1) by (simp add: alloc_post_def)
  next
    case False
    then have "free_set (frames s) \<inter> {..<total_frames (frames s)} \<noteq> {}" by (auto simp: free_set_def)
    then show thesis using post that(2) by (auto simp: alloc_post_def)
  qed
  note cases = this
  show "space_ok R (s\<lparr>frames := p\<rparr>)"
    using cases by cases (use space_ok_frames[OF ok counts] in auto)
  show "phys = 0 \<Longrightarrow> free_set (frames s) = {} \<and> free_set p = {}"
    using cases by cases (use inv(2) in auto)
  show "phys \<noteq> 0 \<Longrightarrow> frame_addr phys \<and> unat phys div 4096 \<in> free_set (frames s) \<and> free_set p = free_set (frames s) - {unat phys div 4096}
      \<and> not_table R (phys_mem s) phys"
    using cases
  proof cases
    case (2 n)
    have "n < 2 ^ 40" using 2(1) inv(4) by (simp add: free_set_def)
    then have "frame_addr phys" using frame_of_unat[OF 2(2)] by simp
    moreover have n: "unat phys div 4096 = n" using 2(2) by simp
    moreover have "not_table R (phys_mem s) phys"
      using tree_okD(3)[OF inv(3)] 2(1) n unfolding tables_in_use_def not_table_def by blast
    ultimately show ?thesis using 2 by simp
  qed simp
qed

lemma clear_keeps_ok:
  assumes ok: "space_ok R s" and f: "not_table R (phys_mem s) f"
  defines "s' \<equiv> s\<lparr>phys_mem := page_clear f (phys_mem s)\<rparr>"
  shows "space_ok R s'" "same_mappings R s s'"
proof -
  have T: "tree_ok R (phys_mem s) (free_set (frames s))" and P: "pages_ok R (phys_mem s) (free_set (frames s))"
    using ok by (simp_all add: space_ok_def pg_ok_def)
  note C = clear_same[OF tree_okD(1)[OF T] f]
  have map: "mapping (page_clear f (phys_mem s)) r v = mapping (phys_mem s) r v" if "r \<in> R" for r v
    using C(2)[OF that path_of_ok(1)[of v]] C(2)[OF that path_of_ok(3)[of v]] by (simp add: mapping_def path_of_def Let_def)
  then show "same_mappings R s s'" by (simp add: same_mappings_def s'_def)
  have "tree_ok R (page_clear f (phys_mem s)) (free_set (frames s))"
    using T clear_unique[OF tree_okD(1)[OF T] f] C path_ok_snoc
    unfolding tree_ok_def tables_in_use_def no_huge_above_def user_chain_def by simp
  moreover have "pages_ok R (page_clear f (phys_mem s)) (free_set (frames s))"
    using P map C(1) unfolding pages_ok_def not_table_def by simp
  ultimately show "space_ok R s'" using ok by (simp add: space_ok_def pg_ok_def s'_def)
qed

lemma page_of_physical:
  assumes "frame_addr t"
  shows "page_of (t OR (v AND 0xFFF)) = t"
proof (rule bit_word_eqI)
  fix n
  have m: "(0xFFF :: u64) = mask 12" by (simp add: mask_eq_exp_minus_1)
  show "bit (page_of (t OR (v AND 0xFFF))) n \<longleftrightarrow> bit t n"
    using assms unfolding frame_addr_bit m by (auto simp: bit_page_of bit_or_iff bit_and_iff bit_mask_iff)
qed


section \<open>A page on a fresh frame\<close>

definition only_page :: "u64 set \<Rightarrow> paging \<Rightarrow> paging \<Rightarrow> u64 \<Rightarrow> u64 \<Rightarrow> mapped option \<Rightarrow> bool" where
  "only_page R s s' r v x \<longleftrightarrow> (\<forall>r'\<in>R. \<forall>v'. mapping (phys_mem s') r' v' =
     (if r' = r \<and> same_page v v' then x else mapping (phys_mem s) r' v'))"

lemma map_alloc_law:
  assumes ok: "space_ok R s" and r: "root_of s as \<in> R" and v: "\<not> shared (path_of v)"
    and cur: "zero \<longrightarrow> as = this_space s" and new: "mapping (phys_mem s) (root_of s as) v = None"
  shows "\<exists>s' b. paging_map_alloc s as v flags zero = Some (s', b) \<and> space_ok R s'
    \<and> (if b then \<exists>phys. frame_addr phys \<and> phys \<noteq> 0 \<and> unat phys div 4096 \<in> free_set (frames s)
            \<and> only_page R s s' (root_of s as) v (Some (Page (page_entry phys flags)))
            \<and> (zero \<longrightarrow> (\<forall>a. page_of a = phys \<longrightarrow> phys_mem s' a = 0)) \<and> keeps_rest (flush_own as v s) s'
       else same_mappings R s s' \<and> keeps_rest s s')"
proof -
  obtain p phys where al: "pmm_alloc_frame (frames s) = (p, phys)" by fastforce
  note A = frame_alloc_law[OF ok al]
  have tot: "total_frames p = total_frames (frames s)"
    using pmm_alloc_frame_post[OF _ al] ok by (auto simp: space_ok_def pg_ok_def alloc_post_def same_counts_def)
  let ?s = "s\<lparr>frames := p\<rparr>" and ?r = "root_of s as"
  show ?thesis
  proof (cases "phys = 0")
    case True
    then show ?thesis using A(1) al tot
      by (intro exI[of _ ?s] exI[of _ False]) (simp add: paging_map_alloc_def same_mappings_def keeps_rest_def)
  next
    case False
    note F = A(3)[OF False]
    have r': "root_of ?s as = ?r" by (simp add: root_of_def)
    have fr: "FRAME_OF phys = phys" using F by (simp add: frame_addr_def)
    have pg: "pg_ok R ?s" using A(1) by (simp add: space_ok_def)
    have nt: "not_table R (phys_mem ?s) phys" "unat phys div 4096 \<notin> free_set (frames ?s)" using F by auto
    note M = map_law[OF pg, of as v phys flags, unfolded r', OF r v]
    have keep: "space_ok R s1" if "paging_map ?s as v phys flags = Some (s1, b)" for s1 b
      using map_keeps_ok[OF A(1), of as v phys flags s1 b] r' r v False fr nt that by simp
    obtain s1 b where run: "paging_map ?s as v phys flags = Some (s1, b)" using M new by (cases "paging_map ?s as v phys flags") auto
    show ?thesis
    proof (cases b)
      case b: False
      have S: "same_mappings R ?s s1" "keeps_rest ?s s1" "new_tables R ?s s1" using M run b by auto
      have "unat phys div 4096 \<notin> free_set (frames s1)" using S(3) nt(2) unfolding new_tables_def by blast
      moreover have inv: "pmm_inv (frames s1)" using keep[OF run] by (simp add: space_ok_def pg_ok_def)
      ultimately obtain q where q: "pmm_free_frame (frames s1) phys = Some q" "pmm_inv q" "total_frames q = total_frames (frames s1)"
        "free_set q \<subseteq> free_set (frames s1) \<union> {unat phys div 4096}"
        using pmm_free_frame_spec[OF inv, of phys] by (auto simp: same_counts_def split: option.splits)
      have sole: "FRAME_OF e \<noteq> phys" if "r' \<in> R" "\<not> shared (path_of v')" "mapping (phys_mem s1) r' v' = Some (Page e)" for r' v' e
        using pages_okD(3)[of R "phys_mem s" "free_set (frames s)" r' v' e] ok F that S(1) by (auto simp: space_ok_def same_mappings_def)
      have "space_ok R (s1\<lparr>frames := q\<rparr>)"
        by (rule space_ok_release[OF keep[OF run] False not_table_new[OF S(3) nt] _ sole q(2-4)]) (use F in auto)
      then show ?thesis using al False run b q S(1,2) tot
        by (intro exI[of _ "s1\<lparr>frames := q\<rparr>"] exI[of _ False])
          (simp add: paging_map_alloc_def Let_def same_mappings_def keeps_rest_def)
    next
      case b: True
      have S: "keeps_rest (flush_own as v ?s) s1" "only_page R s s1 ?r v (Some (Page (page_entry phys flags)))" "new_tables R ?s s1"
        using M run b by (auto simp: only_page_def)
      have rest: "keeps_rest (flush_own as v s) s1"
        using S(1) tot by (simp add: keeps_rest_def flush_own_def invlpg_def this_space_def)
      have root1: "root_of s1 as = ?r" and this1: "this_space s1 = this_space s"
        using rest by (simp_all add: keeps_rest_def root_of_def this_space_def flush_own_def invlpg_def split: if_splits)
      show ?thesis
      proof (cases zero)
        case False
        then show ?thesis using al \<open>phys \<noteq> 0\<close> run b keep[OF run] F S(2) rest by (auto simp: paging_map_alloc_def Let_def)
      next
        case True
        have pg1: "pg_ok R s1" using keep[OF run] by (simp add: space_ok_def)
        have "mapping (phys_mem s1) ?r v = Some (Page (page_entry phys flags))" using S(2) r by (simp add: only_page_def same_page_def)
        then have "paging_translate s1 as v = phys OR (v AND 0xFFF)"
          using translate_mapping[OF pg1, of as v] root1 r fr page_entry_flags(2)[of phys flags] by simp
        then have tr: "page_of (paging_translate s1 as v) = phys" using page_of_physical F by simp
        note C = clear_keeps_ok[OF keep[OF run] not_table_new[OF S(3) nt]]
        have "paging_map_alloc s as v flags zero = Some (s1\<lparr>phys_mem := page_clear phys (phys_mem s1)\<rparr>, True)"
          using al \<open>phys \<noteq> 0\<close> run b True cur this1 tr by (simp add: paging_map_alloc_def Let_def)
        then show ?thesis using C S(2) F \<open>phys \<noteq> 0\<close> rest
          by (auto simp: only_page_def same_mappings_def page_clear_def keeps_rest_def)
      qed
    qed
  qed
qed


section \<open>Unmapping\<close>

lemma walk_read:
  assumes "pg_ok R s" "root_of s as \<in> R"
  shows "walk_to_pt s as v False 0 = (s, table_at (phys_mem s) (root_of s as) (path_of v))"
proof -
  obtain e1 e2 e3 e4 where w: "walk (phys_mem s) (root_of s as) v = (e1, e2, e3, e4)" using prod_cases4 by blast
  note W = walk_entries[OF assms w]
  have nu: "\<not> for_user 0" by (simp add: flag_iff)
  have e: "e3 = ent (phys_mem s) (root_of s as) [PML4_INDEX v, PDPT_INDEX v] (PD_INDEX v)" using w by (simp add: walk_def)
  have t: "table_at (phys_mem s) (root_of s as) (path_of v) = (if present e3 \<and> \<not> huge e3 then Some (FRAME_OF e3) else None)"
    unfolding path_of_def table_at_3 e ..
  show ?thesis
    unfolding t walk_to_pt_def next_level_def root_of_def[symmetric] W(1) Let_def
    using W(2-6) nu by auto
qed

lemma page_table_entry:
  assumes "table_at m r (path_of v) = Some pt"
  shows "mapping m r v = (if present (entry_at m pt (PT_INDEX v)) then Some (Page (entry_at m pt (PT_INDEX v))) else None)"
    and "present (ent m r [PML4_INDEX v, PDPT_INDEX v] (PD_INDEX v))"
  using assms table_at_3[of m r]
  by (auto simp: mapping_def path_of_def ent_def[of _ _ "[PML4_INDEX v, PDPT_INDEX v, PD_INDEX v]"] Let_def split: if_splits)

lemma no_page_table:
  "table_at m r (path_of v) = None \<Longrightarrow> mapping m r v \<noteq> Some (Page e)"
  using table_at_3[of m r] by (auto simp: mapping_def path_of_def ent_def[of _ _ "[PML4_INDEX v, PDPT_INDEX v, PD_INDEX v]"] Let_def flag_iff split: if_splits)

definition unmapped :: "mapped option \<Rightarrow> mapped option" where
  "unmapped x = (case x of Some (Page e) \<Rightarrow> None | _ \<Rightarrow> x)"

lemma mapping_page:
  assumes "same_page v v'"
  shows "mapping m r v' = mapping m r v"
  using assms by (simp add: same_page_def path_of_def mapping_def Let_def)

lemma unmap_law:
  assumes ok: "space_ok R s" and r: "root_of s as \<in> R" and v: "\<not> shared (path_of v)"
    and sole: "\<And>e r' v' e'. fr \<Longrightarrow> mapping (phys_mem s) (root_of s as) v = Some (Page e) \<Longrightarrow> r' \<in> R \<Longrightarrow> \<not> shared (path_of v') \<Longrightarrow>
      mapping (phys_mem s) r' v' = Some (Page e') \<Longrightarrow> FRAME_OF e' = FRAME_OF e \<Longrightarrow> r' = root_of s as \<and> same_page v v'"
  shows "\<exists>s'. unmap s as v fr = Some s' \<and> space_ok R s'
    \<and> only_page R s s' (root_of s as) v (unmapped (mapping (phys_mem s) (root_of s as) v))
    \<and> (case mapping (phys_mem s) (root_of s as) v of
         Some (Page e) \<Rightarrow> keeps_rest (flush_own as v s) s'
           \<and> free_set (frames s') = free_set (frames s) \<union> (if fr then {unat (FRAME_OF e) div 4096} \<inter> {..<total_frames (frames s)} else {})
       | _ \<Rightarrow> s' = s)"
proof -
  let ?r = "root_of s as" and ?x = "mapping (phys_mem s) (root_of s as) v"
  have pg: "pg_ok R s" and pages: "pages_ok R (phys_mem s) (free_set (frames s))" and tot: "total_frames (frames s) \<le> 2 ^ 40"
    and inv: "pmm_inv (frames s)"
    using ok by (simp_all add: space_ok_def pg_ok_def)
  note W = walk_read[OF pg r, of v]
  have same: "only_page R s s ?r v ?x" using mapping_page by (auto simp: only_page_def)
  show ?thesis
  proof (cases "\<exists>e. ?x = Some (Page e)")
    case False
    have "unmap s as v fr = Some s"
    proof (cases "table_at (phys_mem s) ?r (path_of v)")
      case None
      then show ?thesis using W by (simp add: unmap_def)
    next
      case (Some pt)
      then have "\<not> present (entry_at (phys_mem s) pt (PT_INDEX v))" using page_table_entry(1)[OF Some] False by auto
      then show ?thesis using W Some by (simp add: unmap_def)
    qed
    moreover have "unmapped ?x = ?x" using False by (auto simp: unmapped_def split: option.split mapped.split)
    ultimately show ?thesis using ok same False by (auto split: option.split mapped.split)
  next
    case True
    then obtain e where e: "?x = Some (Page e)" by blast
    obtain pt where pt: "table_at (phys_mem s) ?r (path_of v) = Some pt" using no_page_table[of "phys_mem s" ?r v e] e by fastforce
    have en: "entry_at (phys_mem s) pt (PT_INDEX v) = e" "present e" using page_table_entry(1)[OF pt] e by (auto split: if_splits)
    note P = pages_okD[OF pages r v e]
    obtain p where p: "(if fr then pmm_free_frame (frames s) (FRAME_OF e) else Some (frames s)) = Some p" "pmm_inv p"
      "total_frames p = total_frames (frames s)"
      "free_set p = free_set (frames s) \<union> (if fr then {unat (FRAME_OF e) div 4096} \<inter> {..<total_frames (frames s)} else {})"
      using pmm_free_frame_spec[OF inv, of "FRAME_OF e"] P(3) inv by (cases fr) (auto simp: same_counts_def split: option.splits)
    define s1 where "s1 = s\<lparr>phys_mem := (phys_mem s)(pt + 8 * PT_INDEX v := 0)\<rparr>"
    define s2 where "s2 = s1\<lparr>frames := p\<rparr>"
    have s2_alt: "s2 = s\<lparr>frames := p, phys_mem := (phys_mem s)(pt + 8 * PT_INDEX v := 0)\<rparr>"
      by (cases s) (simp add: s2_def s1_def)
    define s3 where "s3 = flush_own as v (if for_user e then add_user_frames as (- 1) s2 else s2)"
    have run: "unmap s as v fr = Some s3"
      unfolding unmap_def W pt prod.case option.case Let_def en(1) p(1)
      using en(2) by (simp add: s3_def s2_alt set_entry_def)
    have leaf: "tree_ok R (phys_mem s1) (free_set (frames s))" "only_page R s s1 ?r v None"
      using leaf_set[OF pg r v pt, of 0] by (simp_all add: s1_def only_page_def flag_iff)
    have nt: "new_tables R s s1" using leaf_tables[OF pg r v pt] by (simp add: new_tables_def s1_def)
    have "pages_ok R (phys_mem s1) (free_set (frames s1))"
      by (rule pages_ok_step[OF pages nt]) (use leaf(2) in \<open>auto simp: only_page_def split: if_splits\<close>)
    then have ok1: "space_ok R s1" using leaf(1) inv tot pg by (simp add: space_ok_def pg_ok_def s1_def)
    have ok2: "space_ok R s2"
    proof (cases fr)
      case False
      then have "s2 = s1" using p(1) by (cases s) (simp add: s2_def s1_def)
      then show ?thesis using ok1 by simp
    next
      case True
      show ?thesis unfolding s2_def
      proof (rule space_ok_release[OF ok1 P(1) not_table_new[OF nt P(2,3)] frame_addr_FRAME_OF _ p(2)])
        show "FRAME_OF e' \<noteq> FRAME_OF e" if "r' \<in> R" "\<not> shared (path_of v')" "mapping (phys_mem s1) r' v' = Some (Page e')" for r' v' e'
          using sole[OF True e that(1,2)] that leaf(2) by (auto simp: only_page_def split: if_splits)
      qed (use p True in \<open>auto simp: s1_def\<close>)
    qed
    have s3: "phys_mem s3 = phys_mem s1" "frames s3 = p"
      by (simp_all add: s3_def s2_def flush_own_def invlpg_def add_user_frames_def)
    have "space_ok R s3" using ok2 unfolding space_ok_def pg_ok_def s3 by (simp add: s2_def)
    moreover have "keeps_rest (flush_own as v s) s3"
      using p(3) by (simp add: s3_def s2_def s1_def keeps_rest_def flush_own_def invlpg_def add_user_frames_def this_space_def)
    moreover have "only_page R s s3 ?r v None" using leaf(2) by (simp add: only_page_def s3)
    ultimately show ?thesis using run e p(4) by (simp add: unmapped_def s3(2))
  qed
qed


section \<open>No stale translations\<close>

definition tlb_ok :: "paging \<Rightarrow> bool" where
  "tlb_ok s \<longleftrightarrow> (\<forall>v t. v < 2 ^ 48 \<longrightarrow> tlb s (drop_bit 12 v) = Some t \<longrightarrow>
     (\<exists>x. mapping (phys_mem s) (root_of s (this_space s)) v = Some x \<and> page_of (physical v x) = t))"

lemma index_bits:
  "bit (PML4_INDEX v) n \<longleftrightarrow> n < 9 \<and> bit v (39 + n)" "bit (PDPT_INDEX v) n \<longleftrightarrow> n < 9 \<and> bit v (30 + n)"
  "bit (PD_INDEX v) n \<longleftrightarrow> n < 9 \<and> bit v (21 + n)" "bit (PT_INDEX v) n \<longleftrightarrow> n < 9 \<and> bit v (12 + n)"
proof -
  have m: "(0x1FF :: u64) = mask 9" by (simp add: mask_eq_exp_minus_1)
  show "bit (PML4_INDEX v) n \<longleftrightarrow> n < 9 \<and> bit v (39 + n)" "bit (PDPT_INDEX v) n \<longleftrightarrow> n < 9 \<and> bit v (30 + n)"
    "bit (PD_INDEX v) n \<longleftrightarrow> n < 9 \<and> bit v (21 + n)" "bit (PT_INDEX v) n \<longleftrightarrow> n < 9 \<and> bit v (12 + n)"
    unfolding PML4_INDEX_def PDPT_INDEX_def PD_INDEX_def PT_INDEX_def m
    by (auto simp: bit_and_iff bit_mask_iff bit_drop_bit_eq)
qed

lemma small_bits: "v < 2 ^ 48 \<Longrightarrow> bit v n \<Longrightarrow> n < 48" for v :: u64
proof (rule ccontr)
  assume a: "v < 2 ^ 48" "bit v n" "\<not> n < 48"
  have "bit (unat v) n" using a(2) by (auto simp: bit_unsigned_iff dest: bit_imp_le_length)
  then have "unat v div 2 ^ n \<noteq> 0" by (metis bit_iff_odd even_zero)
  moreover have "unat v < 2 ^ 48" using a(1) by (simp add: word_less_nat_alt)
  moreover have "(2 :: nat) ^ 48 \<le> 2 ^ n" using a(3) by (intro power_increasing) auto
  ultimately show False by simp
qed

lemma same_page_number:
  assumes "v < 2 ^ 48" "v' < 2 ^ 48" "same_page v v'"
  shows "drop_bit 12 v = drop_bit 12 v'"
proof (rule bit_word_eqI)
  fix n
  have eq: "PML4_INDEX v = PML4_INDEX v'" "PDPT_INDEX v = PDPT_INDEX v'" "PD_INDEX v = PD_INDEX v'" "PT_INDEX v = PT_INDEX v'"
    using assms(3) by (auto simp: same_page_def path_of_def)
  have b: "bit v (39 + k) = bit v' (39 + k)" "bit v (30 + k) = bit v' (30 + k)" "bit v (21 + k) = bit v' (21 + k)"
    "bit v (12 + k) = bit v' (12 + k)" if "k < 9" for k
    using that index_bits[of v k] index_bits[of v' k] eq by auto
  have "bit v (12 + n) = bit v' (12 + n)"
  proof (cases "n < 36")
    case True
    consider "n < 9" | "9 \<le> n" "n < 18" | "18 \<le> n" "n < 27" | "27 \<le> n" "n < 36" using True by linarith
    then show ?thesis using b(4)[of n] b(3)[of "n - 9"] b(2)[of "n - 18"] b(1)[of "n - 27"] by cases auto
  next
    case False
    then show ?thesis using small_bits[OF assms(1), of "12 + n"] small_bits[OF assms(2), of "12 + n"] by auto
  qed
  then show "bit (drop_bit 12 v) n = bit (drop_bit 12 v') n" by (simp add: bit_drop_bit_eq)
qed

lemma number_same_page: "drop_bit 12 v = drop_bit 12 v' \<Longrightarrow> same_page v v'"
proof -
  assume d: "drop_bit 12 v = drop_bit 12 v'"
  have b: "bit v (12 + k) = bit v' (12 + k)" for k
    using d by (metis bit_drop_bit_eq comp_apply)
  have "bit v (39 + k) = bit v' (39 + k)" "bit v (30 + k) = bit v' (30 + k)" "bit v (21 + k) = bit v' (21 + k)" for k
    using b[of "27 + k"] b[of "18 + k"] b[of "9 + k"] by (simp_all add: add.assoc[symmetric])
  then show "same_page v v'" unfolding same_page_def path_of_def using b
    by (auto intro!: bit_word_eqI simp: index_bits)
qed


lemma physical_page:
  assumes "drop_bit 12 w = drop_bit 12 v"
  shows "page_of (physical w x) = page_of (physical v x)"
proof (rule bit_word_eqI)
  fix n
  have b: "bit w (12 + k) = bit v (12 + k)" for k using assms by (metis bit_drop_bit_eq comp_apply)
  have "12 \<le> n \<Longrightarrow> bit w n = bit v n" using b[of "n - 12"] by simp
  then show "bit (page_of (physical w x)) n = bit (page_of (physical v x)) n"
    by (cases x) (auto simp: bit_page_of bit_or_iff bit_and_iff)
qed

text \<open>What the kernel does to the spaces in \<^term>\<open>A\<close>, and the processor filling its buffer.\<close>

inductive pg_step :: "u64 set \<Rightarrow> u64 set \<Rightarrow> paging \<Rightarrow> paging \<Rightarrow> bool" for A R where
  Map: "\<lbrakk>as \<in> A; v < 2 ^ 48; \<not> shared (path_of v); FRAME_OF phys \<noteq> 0; not_table R (phys_mem s) (FRAME_OF phys);
     unat (FRAME_OF phys) div 4096 \<notin> free_set (frames s); paging_map s as v phys flags = Some (s', b)\<rbrakk> \<Longrightarrow> pg_step A R s s'"
| Map_Alloc: "\<lbrakk>as \<in> A; v < 2 ^ 48; \<not> shared (path_of v); zero \<longrightarrow> as = this_space s; mapping (phys_mem s) (root_of s as) v = None;
     paging_map_alloc s as v flags zero = Some (s', b)\<rbrakk> \<Longrightarrow> pg_step A R s s'"
| Unmap: "\<lbrakk>as \<in> A; v < 2 ^ 48; \<not> shared (path_of v);
     \<forall>e r' v' e'. mapping (phys_mem s) (root_of s as) v = Some (Page e) \<longrightarrow> r' \<in> R \<longrightarrow> \<not> shared (path_of v') \<longrightarrow>
       mapping (phys_mem s) r' v' = Some (Page e') \<longrightarrow> FRAME_OF e' = FRAME_OF e \<longrightarrow> r' = root_of s as \<and> same_page v v';
     paging_unmap s as v = Some s'\<rbrakk> \<Longrightarrow> pg_step A R s s'"
| Unmap_Keep: "\<lbrakk>as \<in> A; v < 2 ^ 48; \<not> shared (path_of v); paging_unmap_keep s as v = Some s'\<rbrakk> \<Longrightarrow> pg_step A R s s'"
| Switch: "as \<in> A \<Longrightarrow> pg_step A R s (paging_switch s as)"
| Fill: "\<lbrakk>v < 2 ^ 48; mapping (phys_mem s) (root_of s (this_space s)) v = Some x\<rbrakk>
     \<Longrightarrow> pg_step A R s (s\<lparr>tlb := (tlb s)(drop_bit 12 v := Some (page_of (physical v x)))\<rparr>)"

definition machine_ok :: "u64 set \<Rightarrow> u64 set \<Rightarrow> paging \<Rightarrow> bool" where
  "machine_ok A R s \<longleftrightarrow> space_ok R s \<and> tlb_ok s \<and> root_of s ` A \<subseteq> R \<and> inj_on (root_of s) A \<and> 0 \<notin> A
     \<and> this_space s \<in> A \<and> this_cpu s < length (cpu_space s)"

lemma tlb_page:
  assumes ok: "tlb_ok s" and one: "only_page R s s' (root_of s as) v x" and rest: "keeps_rest (flush_own as v s) s'"
    and A: "root_of s ` A \<subseteq> R" "inj_on (root_of s) A" "this_space s \<in> A" "as \<in> A" and v: "v < 2 ^ 48"
  shows "tlb_ok s'"
  unfolding tlb_ok_def
proof (intro allI impI)
  fix w t assume w: "w < 2 ^ 48" "tlb s' (drop_bit 12 w) = Some t"
  have keep: "root_of s' (this_space s') = root_of s (this_space s)"
    using rest by (auto simp: keeps_rest_def root_of_def this_space_def flush_own_def invlpg_def split: if_splits)
  have tl: "tlb s (drop_bit 12 w) = Some t" "as = this_space s \<longrightarrow> drop_bit 12 w \<noteq> drop_bit 12 v"
    using rest w(2) by (auto simp: keeps_rest_def flush_own_def invlpg_def split: if_splits)
  have "\<not> (root_of s (this_space s) = root_of s as \<and> same_page v w)"
  proof
    assume a: "root_of s (this_space s) = root_of s as \<and> same_page v w"
    then have "as = this_space s" using A(2-4) by (auto dest: inj_onD)
    then show False using tl(2) same_page_number[OF v w(1)] a by simp
  qed
  then have "mapping (phys_mem s') (root_of s (this_space s)) w = mapping (phys_mem s) (root_of s (this_space s)) w"
    using one A(1,3) unfolding only_page_def by (metis image_subset_iff)
  then show "\<exists>x. mapping (phys_mem s') (root_of s' (this_space s')) w = Some x \<and> page_of (physical w x) = t"
    using ok w(1) tl(1) unfolding tlb_ok_def keep by simp
qed


lemma same_mappings_tlb:
  assumes "tlb_ok s" "same_mappings R s s'" "keeps_rest s s'" "root_of s (this_space s) \<in> R"
  shows "tlb_ok s'"
  using assms unfolding tlb_ok_def same_mappings_def keeps_rest_def root_of_def this_space_def by auto

lemma machine_okI:
  assumes "machine_ok A R s" "space_ok R s'" "tlb_ok s'" "keeps_rest (flush_own as v s) s' \<or> keeps_rest s s'"
  shows "machine_ok A R s'"
proof -
  have "root_of s' = root_of s" "this_space s' = this_space s" "this_cpu s' = this_cpu s" "cpu_space s' = cpu_space s"
    using assms(4) by (auto simp: keeps_rest_def root_of_def this_space_def flush_own_def invlpg_def fun_eq_iff split: if_splits)
  then show ?thesis using assms(1-3) by (simp add: machine_ok_def)
qed

lemma machine_okD:
  assumes "machine_ok A R s"
  shows "space_ok R s" "tlb_ok s" "root_of s ` A \<subseteq> R" "inj_on (root_of s) A" "this_space s \<in> A" "root_of s (this_space s) \<in> R"
    "as \<in> A \<Longrightarrow> root_of s as \<in> R"
  using assms by (auto simp: machine_ok_def)

lemma switch_keeps_ok:
  assumes "machine_ok A R s" "as \<in> A"
  shows "machine_ok A R (paging_switch s as)"
proof -
  have "root_of (paging_switch s as) = root_of s"
    by (simp add: fun_eq_iff root_of_def paging_switch_def load_cr3_def set_this_space_def)
  then show ?thesis
    using assms by (auto simp: machine_ok_def paging_switch_def load_cr3_def set_this_space_def tlb_ok_def this_space_def
        space_ok_def pg_ok_def)
qed

lemma unmap_keeps_ok:
  assumes ok: "machine_ok A R s" and as: "as \<in> A" and v: "v < 2 ^ 48" "\<not> shared (path_of v)"
    and sole: "fr \<longrightarrow> (\<forall>e r' v' e'. mapping (phys_mem s) (root_of s as) v = Some (Page e) \<longrightarrow> r' \<in> R \<longrightarrow> \<not> shared (path_of v') \<longrightarrow>
       mapping (phys_mem s) r' v' = Some (Page e') \<longrightarrow> FRAME_OF e' = FRAME_OF e \<longrightarrow> r' = root_of s as \<and> same_page v v')"
    and run: "unmap s as v fr = Some s'"
  shows "machine_ok A R s'"
proof -
  note M = machine_okD[OF ok]
  have L: "space_ok R s'" "only_page R s s' (root_of s as) v (unmapped (mapping (phys_mem s) (root_of s as) v))"
    "keeps_rest (flush_own as v s) s' \<or> s' = s"
    using unmap_law[OF M(1) M(7)[OF as] v(2), of fr] sole run by (auto split: option.splits mapped.splits)
  show ?thesis using L(3)
  proof
    assume rest: "keeps_rest (flush_own as v s) s'"
    show ?thesis using machine_okI[OF ok L(1) tlb_page[OF M(2) L(2) rest M(3,4,5) as v(1)]] rest by blast
  qed (use ok in simp)
qed

lemma pg_step_ok:
  assumes "pg_step A R s s'" "machine_ok A R s"
  shows "machine_ok A R s'"
  using assms
proof (cases rule: pg_step.cases)
  case (Map as v phys flags b)
  note M = machine_okD[OF assms(2)]
  have ok: "space_ok R s'" by (rule map_keeps_ok[OF M(1) M(7)[OF Map(1)] Map(3-7)])
  have pg: "pg_ok R s" using M(1) by (simp add: space_ok_def)
  note L = map_law[OF pg M(7)[OF Map(1)] Map(3), of phys flags, unfolded Map(7)]
  show ?thesis
  proof (cases b)
    case True
    then have "only_page R s s' (root_of s as) v (Some (Page (page_entry phys flags)))" "keeps_rest (flush_own as v s) s'"
      using L by (simp_all add: only_page_def)
    then show ?thesis using machine_okI[OF assms(2) ok tlb_page[OF M(2) _ _ M(3,4,5) Map(1,2)]] by blast
  next
    case False
    then show ?thesis using L machine_okI[OF assms(2) ok same_mappings_tlb[OF M(2) _ _ M(6)]] by simp
  qed
next
  case (Map_Alloc as v zero flags b)
  note M = machine_okD[OF assms(2)]
  have L: "space_ok R s'" "b \<longrightarrow> (\<exists>x. only_page R s s' (root_of s as) v x) \<and> keeps_rest (flush_own as v s) s'"
    "\<not> b \<longrightarrow> same_mappings R s s' \<and> keeps_rest s s'"
    using map_alloc_law[OF M(1) M(7)[OF Map_Alloc(1)] Map_Alloc(3-5), of flags] Map_Alloc(6) by auto
  show ?thesis
    using L machine_okI[OF assms(2) L(1) tlb_page[OF M(2) _ _ M(3,4,5) Map_Alloc(1,2)]]
      machine_okI[OF assms(2) L(1) same_mappings_tlb[OF M(2) _ _ M(6)]] by (cases b) blast+
next
  case (Unmap as v)
  then show ?thesis using unmap_keeps_ok[OF assms(2) Unmap(1-3), of True s'] by (simp add: paging_unmap_def)
next
  case (Unmap_Keep as v)
  then show ?thesis using unmap_keeps_ok[OF assms(2) Unmap_Keep(1-3), of False s'] by (simp add: paging_unmap_keep_def)
next
  case (Switch as)
  then show ?thesis using switch_keeps_ok[OF assms(2)] by simp
next
  case (Fill v x)
  have "tlb_ok s'"
    unfolding tlb_ok_def
  proof (intro allI impI)
    fix w t assume w: "w < 2 ^ 48" "tlb s' (drop_bit 12 w) = Some t"
    show "\<exists>x. mapping (phys_mem s') (root_of s' (this_space s')) w = Some x \<and> page_of (physical w x) = t"
    proof (cases "drop_bit 12 w = drop_bit 12 v")
      case True
      then have "page_of (physical w x) = t" "mapping (phys_mem s) (root_of s (this_space s)) w = Some x"
        using w(2) Fill physical_page[OF True] mapping_page[OF number_same_page[OF True[symmetric]]] by auto
      then show ?thesis using Fill by (simp add: root_of_def this_space_def)
    next
      case False
      then show ?thesis using w Fill machine_okD(2)[OF assms(2)] by (simp add: tlb_ok_def root_of_def this_space_def)
    qed
  qed
  moreover have "root_of s' = root_of s" using Fill by (simp add: fun_eq_iff root_of_def)
  ultimately show ?thesis using assms(2) Fill(1) by (simp add: machine_ok_def space_ok_def pg_ok_def this_space_def)
qed


text \<open>C6. Whatever sequence of mapping, unmapping and switching the kernel goes through, with the processor
  filling its translation buffer at any time, no page table is reached by two ways or lies in a free
  frame, no page lies in a page table or a free frame, and the processor never holds a translation that
  the tables of the current space do not give.\<close>

theorem paging_invariant:
  assumes "(pg_step A R)\<^sup>*\<^sup>* s s'" "machine_ok A R s"
  shows "machine_ok A R s' \<and> tlb_ok s'"
proof -
  have "machine_ok A R s'" using assms by (induction rule: rtranclp_induct) (auto intro: pg_step_ok)
  then show ?thesis by (simp add: machine_ok_def)
qed



text \<open>C18. Unmapping a page of a space gives its frame back to the allocator, makes its address translate to
  nothing, drops the translation the processor may hold for it if the space is the current one, and
  changes no other mapping of any space.  The frame must not be behind another page.\<close>

theorem paging_unmap_correct:
  assumes "machine_ok A R s" "as \<in> A" "v < 2 ^ 48" "\<not> shared (path_of v)"
    and page: "mapping (phys_mem s) (root_of s as) v = Some (Page e)" "unat (FRAME_OF e) div 4096 < total_frames (frames s)"
    and sole: "\<forall>r u e'. r \<in> R \<longrightarrow> \<not> shared (path_of u) \<longrightarrow> mapping (phys_mem s) r u = Some (Page e') \<longrightarrow> FRAME_OF e' = FRAME_OF e
        \<longrightarrow> r = root_of s as \<and> same_page v u"
  shows "\<exists>s'. paging_unmap s as v = Some s' \<and> machine_ok A R s' \<and> paging_translate s' as v = 0
    \<and> free_set (frames s') = free_set (frames s) \<union> {unat (FRAME_OF e) div 4096}
    \<and> (as = this_space s \<longrightarrow> tlb s' (drop_bit 12 v) = None)
    \<and> (\<forall>r\<in>R. \<forall>u. \<not> (r = root_of s as \<and> same_page v u) \<longrightarrow> mapping (phys_mem s') r u = mapping (phys_mem s) r u)"
proof -
  note M = machine_okD[OF assms(1)]
  have r: "root_of s as \<in> R" using M(7) assms(2) .
  obtain s' where run: "unmap s as v True = Some s'" and one: "only_page R s s' (root_of s as) v None"
    and rest: "keeps_rest (flush_own as v s) s'" "free_set (frames s') = free_set (frames s) \<union> {unat (FRAME_OF e) div 4096}"
    using unmap_law[OF M(1) r assms(4), of True] page sole by (auto simp: unmapped_def)
  have sole': "True \<longrightarrow> (\<forall>e r' v' e'. mapping (phys_mem s) (root_of s as) v = Some (Page e) \<longrightarrow> r' \<in> R \<longrightarrow> \<not> shared (path_of v') \<longrightarrow>
       mapping (phys_mem s) r' v' = Some (Page e') \<longrightarrow> FRAME_OF e' = FRAME_OF e \<longrightarrow> r' = root_of s as \<and> same_page v v')"
    using sole page(1) by simp
  have ok: "machine_ok A R s'" by (rule unmap_keeps_ok[OF assms(1-4) sole' run])
  have r': "root_of s' as = root_of s as" and tl: "as = this_space s \<longrightarrow> tlb s' (drop_bit 12 v) = None"
    using rest(1) by (auto simp: keeps_rest_def root_of_def flush_own_def invlpg_def)
  have pg: "pg_ok R s'" using ok by (simp add: machine_ok_def space_ok_def)
  have "mapping (phys_mem s') (root_of s' as) v = None" using one r by (simp add: only_page_def same_page_def r')
  then have "paging_translate s' as v = 0" using translate_mapping[OF pg, of as v] r r' by simp
  moreover have "\<forall>r\<in>R. \<forall>u. \<not> (r = root_of s as \<and> same_page v u) \<longrightarrow> mapping (phys_mem s') r u = mapping (phys_mem s) r u"
    using one unfolding only_page_def by auto
  ultimately show ?thesis using run ok rest(2) tl by (intro exI[of _ s']) (simp add: paging_unmap_def)
qed

section \<open>A small machine\<close>

text \<open>One address space with one user page.\<close>

definition with_entry :: "u64 \<Rightarrow> u64 \<Rightarrow> u64 \<Rightarrow> words \<Rightarrow> words" where
  "with_entry t i e m = m(t + 8 * i := e)"

lemma entry_at_with:
  "frame_addr t \<Longrightarrow> i < 512 \<Longrightarrow> frame_addr u \<Longrightarrow> j < 512 \<Longrightarrow>
   entry_at (with_entry t i e m) u j = (if u = t \<and> j = i then e else entry_at m u j)"
  unfolding with_entry_def by (rule entry_at_upd)

definition demo_words :: words where
  "demo_words = with_entry 0xA000 0 0x3007 (with_entry 0x9000 0 0xA007 (with_entry 0x2000 1 0x9007 (with_entry 0x1000 0 0x2007 (\<lambda>_. 0))))"

definition demo_paging :: paging where
  "demo_paging = \<lparr>phys_mem = demo_words, frames = demo_pmm, as_heap = demo_kheap,
     spaces = (\<lambda>_. \<lparr>pml4 = 0x1000, user_frames = 1, table_frames = 4\<rparr>), kernel_space = 0x200,
     cpu_space = [0x100], this_cpu = 0, tlb = (\<lambda>_. None), device_next = DEVICE_WINDOW, early_pd = [], early_pd_used = 0,
     boot_pml4 = 0, boot_pdpt = 0, boot_pd = 0, paging_is_up = True\<rparr>"

definition demo_virt :: u64 where "demo_virt = 0x40000000"

lemma demo_space_frames: "frame_addr 0x1000" "frame_addr 0x2000" "frame_addr 0x9000" "frame_addr 0xA000" "frame_addr 0x3000"
  by (simp_all add: frame_addr_def FRAME_OF_def)

lemma demo_entries_at:
  "i < 512 \<Longrightarrow> entry_at demo_words 0x1000 i = (if i = 0 then 0x2007 else 0)"
  "i < 512 \<Longrightarrow> entry_at demo_words 0x2000 i = (if i = 1 then 0x9007 else 0)"
  "i < 512 \<Longrightarrow> entry_at demo_words 0x9000 i = (if i = 0 then 0xA007 else 0)"
  "i < 512 \<Longrightarrow> entry_at demo_words 0xA000 i = (if i = 0 then 0x3007 else 0)"
  by (simp_all add: demo_words_def entry_at_with demo_space_frames) (simp_all add: entry_at_def)


lemma demo_space_flags:
  "present 0x2007" "\<not> huge 0x2007" "FRAME_OF 0x2007 = 0x2000" "present 0x9007" "\<not> huge 0x9007" "FRAME_OF 0x9007 = 0x9000"
  "present 0xA007" "\<not> huge 0xA007" "FRAME_OF 0xA007 = 0xA000" "present 0x3007" "FRAME_OF 0x3007 = 0x3000" "\<not> present 0"
  "for_user 0x2007" "for_user 0x9007" "for_user 0xA007"
  by (simp_all add: present_def huge_def for_user_def FRAME_OF_def PTE_PRESENT_def PTE_HUGE_def PTE_USER_def)

lemma demo_table_at:
  assumes "path_ok p"
  shows "table_at demo_words 0x1000 p = (if p = [] then Some 0x1000 else if p = [0] then Some 0x2000 else if p = [0, 1] then Some 0x9000
    else if p = [0, 1, 0] then Some 0xA000 else None)"
proof -
  have i: "i < 512" if "i \<in> set p" for i using assms that by (simp add: path_ok_def)
  consider "p = []" | a where "p = [a]" | a b where "p = [a, b]" | a b c where "p = [a, b, c]"
    using assms by (cases p rule: list.exhaust; cases "tl p" rule: list.exhaust; cases "tl (tl p)" rule: list.exhaust) (auto simp: path_ok_def)
  then show ?thesis using i by cases (auto simp: demo_entries_at demo_space_flags Let_def)
qed

lemma demo_ent:
  assumes "path_ok p" "i < 512"
  shows "ent demo_words 0x1000 p i = (if p = [] \<and> i = 0 then 0x2007 else if p = [0] \<and> i = 1 then 0x9007 else if p = [0, 1] \<and> i = 0 then 0xA007
    else if p = [0, 1, 0] \<and> i = 0 then 0x3007 else 0)"
  using assms by (auto simp: ent_def demo_table_at demo_entries_at)

lemma demo_mapping: "mapping demo_words 0x1000 v = (if path_of v = [0, 1, 0] \<and> PT_INDEX v = 0 then Some (Page 0x3007) else None)"
  using path_of_ok[of v] by (auto simp: mapping_def demo_ent path_of_def demo_space_flags Let_def split: if_splits)

lemma demo_space_ok: "space_ok {0x1000} demo_paging"
proof -
  have free: "free_set (frames demo_paging) = {4, 5, 6, 7}" "pmm_inv (frames demo_paging)" "total_frames (frames demo_paging) = 8"
    using demo_free_set demo_inv demo_simps by (simp_all add: demo_paging_def)
  have mem: "phys_mem demo_paging = demo_words" by (simp add: demo_paging_def)
  have "unique_tables {0x1000} demo_words" unfolding unique_tables_def by (auto simp: demo_table_at split: if_splits)
  moreover have "tables_in_use {0x1000} demo_words {4, 5, 6, 7}"
    unfolding tables_in_use_def by (auto simp: demo_table_at split: if_splits)
  moreover have "no_huge_above {0x1000} demo_words" unfolding no_huge_above_def by (auto simp: demo_ent demo_space_flags split: if_splits)
  moreover have "user_chain {0x1000} demo_words"
    unfolding user_chain_def by (auto simp: demo_ent demo_space_flags path_ok_snoc split: if_splits)
  moreover have "pages_ok {0x1000} demo_words {4, 5, 6, 7}"
    unfolding pages_ok_def not_table_def by (auto simp: demo_mapping demo_space_flags demo_table_at split: if_splits)
  ultimately show ?thesis unfolding space_ok_def pg_ok_def tree_ok_def free(1,3) mem using demo_space_frames free(2) by simp
qed

lemma demo_machine_ok: "machine_ok {0x100} {0x1000} demo_paging"
  using demo_space_ok by (simp add: machine_ok_def tlb_ok_def demo_paging_def root_of_def this_space_def)

lemma demo_path: "path_of demo_virt = [0, 1, 0]" "PT_INDEX demo_virt = 0" "\<not> shared (path_of demo_virt)" "demo_virt < 2 ^ 48"
  by (simp_all add: path_of_def demo_virt_def PML4_INDEX_def PDPT_INDEX_def PD_INDEX_def PT_INDEX_def shared_def DEVICE_WINDOW_def)


lemma demo_page: "mapping (phys_mem demo_paging) (root_of demo_paging 0x100) demo_virt = Some (Page 0x3007)"
  by (simp add: demo_paging_def root_of_def demo_mapping demo_path)

theorem paging_invariant_witness:
  "\<exists>s'. (pg_step {0x100} {0x1000})\<^sup>*\<^sup>* demo_paging s' \<and> tlb s' (drop_bit 12 demo_virt) = Some 0x3000 \<and> tlb_ok s'"
proof -
  let ?s = "demo_paging\<lparr>tlb := (tlb demo_paging)(drop_bit 12 demo_virt := Some (page_of (physical demo_virt (Page 0x3007))))\<rparr>"
  have "mapping (phys_mem demo_paging) (root_of demo_paging (this_space demo_paging)) demo_virt = Some (Page 0x3007)"
    using demo_page by (simp add: this_space_def demo_paging_def)
  then have "pg_step {0x100} {0x1000} demo_paging ?s" by (rule pg_step.Fill[OF demo_path(4)])
  then have steps: "(pg_step {0x100} {0x1000})\<^sup>*\<^sup>* demo_paging ?s" by blast
  moreover have "page_of (physical demo_virt (Page 0x3007)) = 0x3000"
    by (simp add: demo_space_flags page_of_def demo_virt_def)
  ultimately show ?thesis using paging_invariant[OF steps demo_machine_ok] by (intro exI[of _ ?s]) simp
qed


theorem paging_unmap_correct_witness:
  "\<exists>s'. paging_unmap demo_paging 0x100 demo_virt = Some s' \<and> paging_translate s' 0x100 demo_virt = 0
    \<and> free_set (frames s') = {3, 4, 5, 6, 7}"
proof -
  have r: "root_of demo_paging 0x100 = 0x1000" "phys_mem demo_paging = demo_words" "frames demo_paging = demo_pmm"
    by (simp_all add: root_of_def demo_paging_def)
  have sole: "\<forall>r u e'. r \<in> {0x1000} \<longrightarrow> \<not> shared (path_of u) \<longrightarrow> mapping (phys_mem demo_paging) r u = Some (Page e') \<longrightarrow>
      FRAME_OF e' = FRAME_OF 0x3007 \<longrightarrow> r = root_of demo_paging 0x100 \<and> same_page demo_virt u"
    by (auto simp: r demo_mapping same_page_def demo_path split: if_splits)
  have "unat (FRAME_OF 0x3007) div 4096 < total_frames (frames demo_paging)" by (simp add: demo_space_flags r demo_simps)
  from paging_unmap_correct[OF demo_machine_ok _ demo_path(4,3) demo_page this sole]
  show ?thesis by (auto simp: demo_space_flags r demo_free_set)
qed

end
