(* ===== verification/Uaccess.thy ===== *)
theory Uaccess
  imports User Paging_Space
begin

text \<open>
  How a system call reaches memory of the calling program, \<^verbatim>\<open>kernel/proc/syscall.c\<close>: the check of a
  range of addresses and the copy of a string, over the page tables of the calling process.

  The lemmas show that both are exact: a range is accepted if and only if every byte of it lies in user
  space and the page tables let a user program reach it, and a string is copied if and only if it and
  its terminator do.  The strings the account calls receive are such strings.
\<close>

section \<open>Ranges\<close>

function range_pages :: "paging \<Rightarrow> u64 \<Rightarrow> bool \<Rightarrow> nat \<Rightarrow> nat \<Rightarrow> bool" where
  "range_pages s as need_write page stop =
     (if page < stop
      then if \<not> paging_user_can_access s as (of_nat page) need_write then False
           else range_pages s as need_write (page + PAGE_SIZE) stop
      else True)"
  by auto
termination by (relation "measure (\<lambda>(s, as, w, page, stop). stop - page)") (auto simp: PAGE_SIZE_def)

declare range_pages.simps [simp del]

definition user_range_ok :: "paging \<Rightarrow> u64 \<Rightarrow> u64 \<Rightarrow> u64 \<Rightarrow> bool \<Rightarrow> bool" where
  "user_range_ok s as start len need_write =
     (if len = 0 then True
      else if start < USER_BASE \<or> start + len < start then False
      else if start + len > USER_STACK_TOP then False
      else range_pages s as need_write (unat (align_down start 4096)) (unat (start + len)))"

section \<open>Strings\<close>

definition user_byte :: "paging \<Rightarrow> u64 \<Rightarrow> u64 \<Rightarrow> u8" where
  "user_byte s as v =
     (let phys = paging_translate s as v
      in ucast (drop_bit (8 * (unat phys mod 8)) (phys_mem s (phys AND NOT 7))))"

function copy_loop :: "paging \<Rightarrow> u64 \<Rightarrow> u64 \<Rightarrow> nat \<Rightarrow> nat \<Rightarrow> bytes \<Rightarrow> bytes res" where
  "copy_loop s as addr mx i dst =
     (if i < mx
      then
        (let at = addr + of_nat i
         in if at \<ge> USER_STACK_TOP then Inl W_EFAULT
            else if (i = 0 \<or> unat at mod PAGE_SIZE = 0) \<and> \<not> paging_user_can_access s as at False then Inl W_EFAULT
            else
              (let c = user_byte s as at
               in if c = 0 then Inr dst else copy_loop s as addr mx (i + 1) (dst @ [c])))
      else Inl W_ENAMETOOLONG)"
  by auto
termination by (relation "measure (\<lambda>(s, as, addr, mx, i, dst). mx - i)") auto

declare copy_loop.simps [simp del]

definition copy_string_from_user :: "paging \<Rightarrow> u64 \<Rightarrow> u64 \<Rightarrow> nat \<Rightarrow> bytes res" where
  "copy_string_from_user s as addr mx =
     (if addr < USER_BASE \<or> addr \<ge> USER_STACK_TOP then Inl W_EFAULT else copy_loop s as addr mx 0 [])"

section \<open>Access is a matter of pages\<close>

lemma can_access_page:
  assumes "unat v div 4096 = unat w div 4096"
  shows "paging_user_can_access s as v b = paging_user_can_access s as w b"
proof -
  have "unat (drop_bit 12 v) = unat (drop_bit 12 w)" using assms by (simp add: drop_bit_eq_div unat_div)
  then have "same_page v w" by (intro number_same_page) (simp add: word_unat_eq_iff)
  then show ?thesis by (simp add: same_page_def path_of_def paging_user_can_access_def)
qed

lemma range_pages_exact:
  assumes "page mod 4096 = 0" "stop < 2 ^ 64"
  shows "range_pages s as w page stop \<longleftrightarrow> (\<forall>a. page \<le> a \<longrightarrow> a < stop \<longrightarrow> paging_user_can_access s as (of_nat a) w)"
  using assms
proof (induction s as w page stop rule: range_pages.induct)
  case (1 s as w page stop)
  have same: "paging_user_can_access s as (of_nat a) w = paging_user_can_access s as (of_nat page) w"
    if "page \<le> a" "a < page + 4096" "a < stop" for a
  proof (rule can_access_page)
    obtain q where q: "page = q * 4096" using 1(2) by (metis mod_0_imp_dvd dvd_def mult.commute)
    then have "a = q * 4096 + (a - page)" "a - page < 4096" using that by auto
    then have "a div 4096 = q" by (metis div_mult_self3 div_less add.right_neutral zero_neq_numeral)
    then have "a div 4096 = page div 4096" using q by simp
    then show "unat (of_nat a :: u64) div 4096 = unat (of_nat page :: u64) div 4096"
      using that 1(3) by (simp add: unat_of_nat_u64)
  qed
  show ?case
  proof (cases "page < stop \<and> paging_user_can_access s as (of_nat page) w")
    case True
    have IH: "range_pages s as w (page + PAGE_SIZE) stop \<longleftrightarrow>
        (\<forall>a. page + PAGE_SIZE \<le> a \<longrightarrow> a < stop \<longrightarrow> paging_user_can_access s as (of_nat a) w)"
      using 1(1) True 1(2,3) by (simp add: PAGE_SIZE_def)
    have "range_pages s as w page stop = range_pages s as w (page + PAGE_SIZE) stop"
      using True by (subst range_pages.simps) simp
    moreover have "paging_user_can_access s as (of_nat a) w" if "page \<le> a" "a < stop" "\<not> page + PAGE_SIZE \<le> a" for a
      using same[of a] that True by (simp add: PAGE_SIZE_def)
    ultimately show ?thesis unfolding IH using True by (metis add_leD1)
  next
    case False
    then show ?thesis by (subst range_pages.simps) auto
  qed
qed


section \<open>Both checks are exact\<close>

definition reachable :: "paging \<Rightarrow> u64 \<Rightarrow> bool \<Rightarrow> nat \<Rightarrow> bool" where
  "reachable s as w a \<longleftrightarrow> unat USER_BASE \<le> a \<and> a < unat USER_STACK_TOP \<and> paging_user_can_access s as (of_nat a) w"

lemma user_limits: "unat USER_BASE = 0x40000000" "unat USER_STACK_TOP = 0xBFFF0000"
  by (simp_all add: USER_BASE_def USER_STACK_TOP_def)

lemma unat_wrap_less: "2 ^ 64 \<le> unat x + unat y \<Longrightarrow> x + y < x" for x y :: u64
proof -
  assume a: "2 ^ 64 \<le> unat x + unat y"
  have "unat (x + y) = (unat x + unat y) mod 2 ^ 64" by (simp add: unat_word_ariths(1))
  also have "\<dots> = unat x + unat y - 2 ^ 64" using a unat_lt_2_64[of x] unat_lt_2_64[of y] by (simp add: mod_if)
  also have "\<dots> < unat x" using a unat_lt_2_64[of y] by linarith
  finally show ?thesis by (simp add: word_less_nat_alt)
qed

text \<open>C25. A range of user memory is accepted exactly when each of its bytes lies in user space and in a page
  that the page tables of the process let a user program read, or write where the call writes; a range
  that wraps around the end of the address space is not.\<close>

theorem user_range_ok_exact:
  "user_range_ok s as start len w \<longleftrightarrow> (\<forall>k<unat len. reachable s as w (unat start + k))"
proof (cases "len = 0")
  case False
  then have l: "0 < unat len" by (simp add: unat_gt_0)
  show ?thesis
  proof (cases "USER_BASE \<le> start \<and> unat start + unat len \<le> unat USER_STACK_TOP")
    case True
    have sum: "unat (start + len) = unat start + unat len" using True user_limits by (intro unat_add_small) simp
    have down: "unat (align_down start 4096) = unat start div 4096 * 4096"
      using unat_page_of[of start] by (simp add: align_down_def page_of_def)
    have wrap: "\<not> start + len < start" "\<not> start + len > USER_STACK_TOP"
      using True sum by (simp_all add: word_less_nat_alt)
    have base: "\<not> start < USER_BASE" using True by (simp add: not_less)
    have first: "unat start div 4096 * 4096 \<le> unat start" by simp
    have head: "paging_user_can_access s as (of_nat a) w = paging_user_can_access s as (of_nat (unat start)) w"
      if "unat start div 4096 * 4096 \<le> a" "a < unat start" for a
    proof (rule can_access_page)
      have "a div 4096 = unat start div 4096" using that div_le_mono[OF that(1), of 4096] div_le_mono[of a "unat start" 4096] by simp
      moreover have "a < 2 ^ 64" using that(2) unat_lt_2_64[of start] by simp
      ultimately show "unat (of_nat a :: u64) div 4096 = unat (of_nat (unat start) :: u64) div 4096" by (simp add: unat_of_nat_u64)
    qed
    have "user_range_ok s as start len w = range_pages s as w (unat start div 4096 * 4096) (unat start + unat len)"
      using False base wrap unfolding user_range_ok_def sum down by (simp only: if_False simp_thms)
    also have "\<dots> \<longleftrightarrow> (\<forall>a. unat start div 4096 * 4096 \<le> a \<longrightarrow> a < unat start + unat len \<longrightarrow> paging_user_can_access s as (of_nat a) w)"
      using True user_limits by (intro range_pages_exact) auto
    also have "\<dots> \<longleftrightarrow> (\<forall>a. unat start \<le> a \<longrightarrow> a < unat start + unat len \<longrightarrow> paging_user_can_access s as (of_nat a) w)"
    proof (intro iffI allI impI)
      fix a assume all: "\<forall>a. unat start \<le> a \<longrightarrow> a < unat start + unat len \<longrightarrow> paging_user_can_access s as (of_nat a) w"
        and a: "unat start div 4096 * 4096 \<le> a" "a < unat start + unat len"
      have "paging_user_can_access s as (of_nat (unat start)) w" using all[rule_format, OF order_refl] l by (simp only: less_add_same_cancel1)
      then show "paging_user_can_access s as (of_nat a) w" using all a head by (cases "a < unat start") auto
    qed (use first in auto)
    also have "\<dots> \<longleftrightarrow> (\<forall>k<unat len. paging_user_can_access s as (of_nat (unat start + k)) w)"
    proof (intro iffI allI impI)
      fix a assume all: "\<forall>k<unat len. paging_user_can_access s as (of_nat (unat start + k)) w" and a: "unat start \<le> a" "a < unat start + unat len"
      then show "paging_user_can_access s as (of_nat a) w" using all[rule_format, of "a - unat start"] by simp
    next
      fix k assume all: "\<forall>a. unat start \<le> a \<longrightarrow> a < unat start + unat len \<longrightarrow> paging_user_can_access s as (of_nat a) w" and k: "k < unat len"
      show "paging_user_can_access s as (of_nat (unat start + k)) w" by (rule all[rule_format]) (use k in auto)
    qed
    also have "\<dots> \<longleftrightarrow> (\<forall>k<unat len. reachable s as w (unat start + k))"
      using True by (simp add: reachable_def word_le_nat_alt)
    finally show ?thesis .
  next
    case bad: False
    have "\<not> reachable s as w (unat start) \<or> \<not> reachable s as w (unat start + (unat len - 1))"
      using bad l by (auto simp: reachable_def word_le_nat_alt not_le)
    then have "\<not> (\<forall>k<unat len. reachable s as w (unat start + k))"
      using l by (metis add.right_neutral diff_less zero_less_one)
    moreover have "\<not> user_range_ok s as start len w"
    proof (cases "USER_BASE \<le> start \<and> \<not> start + len < start")
      case True
      then have "unat start + unat len < 2 ^ 64" using unat_wrap_less[of start len] by (meson not_le)
      then have "unat (start + len) = unat start + unat len" by (rule unat_add_small)
      then have "start + len > USER_STACK_TOP" using bad True by (simp add: word_less_nat_alt)
      then show ?thesis using False by (simp add: user_range_ok_def)
    next
      case wrong: False
      then show ?thesis using False by (auto simp: user_range_ok_def not_le)
    qed
    ultimately show ?thesis by blast
  qed
qed (simp add: user_range_ok_def)


text \<open>The string of the program at an address.\<close>

definition byte_at :: "paging \<Rightarrow> u64 \<Rightarrow> nat \<Rightarrow> u8" where
  "byte_at s as a = user_byte s as (of_nat a)"

fun c_string :: "paging \<Rightarrow> u64 \<Rightarrow> nat \<Rightarrow> bytes \<Rightarrow> bool" where
  "c_string s as a [] = (byte_at s as a = 0)"
| "c_string s as a (c # u) = (byte_at s as a = c \<and> c \<noteq> 0 \<and> c_string s as (a + 1) u)"

lemma reach_next:
  assumes "reachable s as w a" "a + 1 < unat USER_STACK_TOP" "(a + 1) mod 4096 \<noteq> 0"
  shows "reachable s as w (a + 1)"
proof -
  have "(a + 1) div 4096 = a div 4096" using assms(3) by (metis Suc_eq_plus1 div_Suc)
  moreover have "a + 1 < 2 ^ 64" using assms(2) user_limits by simp
  ultimately have "paging_user_can_access s as (of_nat (a + 1)) w = paging_user_can_access s as (of_nat a) w"
    using unat_of_nat_u64[of a] unat_of_nat_u64[of "a + 1"] by (intro can_access_page) simp
  then show ?thesis using assms unfolding reachable_def by auto
qed

lemma copy_loop_step:
  assumes "USER_BASE \<le> addr" "addr < USER_STACK_TOP" "0 < i \<longrightarrow> reachable s as False (unat addr + (i - 1))" "i < mx"
  shows "copy_loop s as addr mx i dst =
    (if \<not> reachable s as False (unat addr + i) then Inl W_EFAULT
     else if byte_at s as (unat addr + i) = 0 then Inr dst else copy_loop s as addr mx (i + 1) (dst @ [byte_at s as (unat addr + i)]))"
proof -
  have small: "unat addr + i \<le> unat USER_STACK_TOP" using assms(2,3) by (cases i) (auto simp: reachable_def word_less_nat_alt)
  have at: "addr + of_nat i = of_nat (unat addr + i)" by simp
  have un: "unat (addr + of_nat i) = unat addr + i" unfolding at using small user_limits by (intro unat_of_nat_u64) simp
  have base: "unat USER_BASE \<le> unat addr + i" using assms(1) by (simp add: word_le_nat_alt)
  have onward: "reachable s as False (unat addr + i)"
    if "i \<noteq> 0" "(unat addr + i) mod 4096 \<noteq> 0" "unat addr + i < unat USER_STACK_TOP"
    using reach_next[of s as False "unat addr + (i - 1)"] assms(3) that by simp
  have split: "reachable s as False (unat addr + i) \<longleftrightarrow>
      \<not> USER_STACK_TOP \<le> addr + of_nat i \<and> \<not> ((i = 0 \<or> unat (addr + of_nat i) mod PAGE_SIZE = 0) \<and> \<not> paging_user_can_access s as (addr + of_nat i) False)"
    using base onward unfolding reachable_def at[symmetric] word_le_nat_alt un PAGE_SIZE_def by (auto simp: not_le)
  show ?thesis
    using assms(4) unfolding split byte_at_def at[symmetric] by (subst copy_loop.simps) (auto simp: Let_def)
qed

lemma copy_loop_exact:
  assumes "USER_BASE \<le> addr" "addr < USER_STACK_TOP" "0 < i \<longrightarrow> reachable s as False (unat addr + (i - 1))"
  shows "copy_loop s as addr mx i dst = Inr t \<longleftrightarrow>
    (\<exists>u. t = dst @ u \<and> i + length u < mx \<and> (\<forall>k\<le>length u. reachable s as False (unat addr + i + k)) \<and> c_string s as (unat addr + i) u)"
  (is "_ \<longleftrightarrow> (\<exists>u. ?ok i dst u)")
  using assms
proof (induction "mx - i" arbitrary: i dst)
  case 0
  then show ?case by (subst copy_loop.simps) auto
next
  case (Suc n)
  let ?c = "byte_at s as (unat addr + i)"
  have i: "i < mx" using Suc.hyps(2) by simp
  note step = copy_loop_step[OF Suc.prems i, of dst]
  show ?case
  proof (cases "reachable s as False (unat addr + i) \<and> ?c \<noteq> 0")
    case True
    have "copy_loop s as addr mx i dst = Inr t \<longleftrightarrow> (\<exists>u. t = (dst @ [?c]) @ u \<and> i + 1 + length u < mx
        \<and> (\<forall>k\<le>length u. reachable s as False (unat addr + (i + 1) + k)) \<and> c_string s as (unat addr + (i + 1)) u)"
      unfolding step using True Suc.hyps(1)[of "i + 1" "dst @ [?c]"] Suc.hyps(2) Suc.prems by simp
    also have "\<dots> \<longleftrightarrow> (\<exists>u. t = dst @ u \<and> i + length u < mx \<and> (\<forall>k\<le>length u. reachable s as False (unat addr + i + k)) \<and> c_string s as (unat addr + i) u)"
    proof (intro iffI; elim exE conjE)
      fix u assume u: "t = (dst @ [?c]) @ u" "i + 1 + length u < mx" "c_string s as (unat addr + (i + 1)) u"
        "\<forall>k\<le>length u. reachable s as False (unat addr + (i + 1) + k)"
      have "reachable s as False (unat addr + i + k)" if "k \<le> length (?c # u)" for k
        using True that u(4)[rule_format, of "k - 1"] by (cases k) simp_all
      then show "\<exists>u. ?ok i dst u" using u(1-3) True by (intro exI[of _ "?c # u"]) simp
    next
      fix u assume u: "t = dst @ u" "i + length u < mx" "c_string s as (unat addr + i) u"
        "\<forall>k\<le>length u. reachable s as False (unat addr + i + k)"
      then obtain u' where u': "u = ?c # u'" using True by (cases u) auto
      have "reachable s as False (unat addr + (i + 1) + k)" if "k \<le> length u'" for k
        using u(4)[rule_format, of "k + 1"] that u' by simp
      then show "\<exists>u. t = (dst @ [?c]) @ u \<and> i + 1 + length u < mx
          \<and> (\<forall>k\<le>length u. reachable s as False (unat addr + (i + 1) + k)) \<and> c_string s as (unat addr + (i + 1)) u"
        using u(1-3) u' by (intro exI[of _ u']) simp
    qed
    finally show ?thesis .
  next
    case False
    show ?thesis
    proof (cases "reachable s as False (unat addr + i)")
      case True
      then have c: "?c = 0" using False by simp
      have "u = []" if "?ok i dst u" for u using that c by (cases u) auto
      then show ?thesis unfolding step using True c i by auto
    next
      case bad: False
      have "\<not> ?ok i dst u" for u using bad by (metis add.right_neutral le0)
      then show ?thesis unfolding step using bad by simp
    qed
  qed
qed


lemma copy_string_iff:
  "copy_string_from_user s as addr mx = Inr t \<longleftrightarrow>
     length t < mx \<and> (\<forall>k\<le>length t. reachable s as False (unat addr + k)) \<and> c_string s as (unat addr) t"
proof (cases "USER_BASE \<le> addr \<and> addr < USER_STACK_TOP")
  case True
  then show ?thesis using copy_loop_exact[of addr 0 s as mx "[]" t] by (simp add: copy_string_from_user_def not_less[symmetric])
next
  case False
  then have "\<not> reachable s as False (unat addr)" by (auto simp: reachable_def word_le_nat_alt word_less_nat_alt)
  then have "\<not> (\<forall>k\<le>length t. reachable s as False (unat addr + k))" by (metis add.right_neutral le0)
  moreover have "copy_string_from_user s as addr mx = Inl W_EFAULT" using False by (auto simp: copy_string_from_user_def)
  ultimately show ?thesis by auto
qed

text \<open>C26. A string is taken from the calling program exactly when it and its terminator fit the buffer and
  every byte up to and including the terminator is one the program itself can read; what arrives is the
  string.\<close>

theorem copy_string_exact:
  "copy_string_from_user s as addr mx = Inr t \<longleftrightarrow>
     length t < mx \<and> (\<forall>k\<le>length t. reachable s as False (unat addr + k)) \<and> c_string s as (unat addr) t"
  by (rule copy_string_iff)

lemma c_string_no_nul: "c_string s as a t \<Longrightarrow> 0 \<notin> set t"
  by (induction t arbitrary: a) auto

text \<open>The strings the account calls receive are such strings, so that an ordinary user is held to their
  own account whatever lies in their memory.\<close>

lemma copies_strings_from_user: "copies_strings (copy_string_from_user s as)"
  using c_string_no_nul by (auto simp: copies_strings_def copy_string_iff)

lemma ordinary_user_calls:
  assumes "\<not> privileged (users st) u"
  shows "only_own u (users st) (users (do_call (copy_string_from_user s as) u c st))"
  using do_call_only_own[OF copies_strings_from_user assms] by blast

section \<open>A small program\<close>

text \<open>The small machine with the string \<open>ab\<close> at the start of its page.\<close>

definition demo_program :: paging where
  "demo_program = demo_paging\<lparr>phys_mem := with_entry 0x3000 0 0x6261 demo_words\<rparr>"

lemma demo_program_simps:
  "spaces demo_program as = \<lparr>pml4 = 0x1000, user_frames = 1, table_frames = 4\<rparr>"
  "phys_mem demo_program = with_entry 0x3000 0 0x6261 demo_words"
  by (simp_all add: demo_program_def demo_paging_def)

lemma demo_program_entries:
  "entry_at (phys_mem demo_program) 0x1000 0 = 0x2007" "entry_at (phys_mem demo_program) 0x2000 1 = 0x9007"
  "entry_at (phys_mem demo_program) 0x9000 0 = 0xA007" "entry_at (phys_mem demo_program) 0xA000 0 = 0x3007"
  "entry_at (phys_mem demo_program) 0xA000 1 = 0"
  by (simp_all add: demo_program_simps entry_at_with demo_space_frames demo_entries_at)

lemma demo_program_index:
  assumes "unat v div 4096 = 0x40000"
  shows "PML4_INDEX v = 0" "PDPT_INDEX v = 1" "PD_INDEX v = 0" "PT_INDEX v = 0"
proof -
  have "unat (drop_bit 12 v) = unat (drop_bit 12 demo_virt)" using assms by (simp add: drop_bit_eq_div unat_div demo_virt_def)
  then have "same_page v demo_virt" by (intro number_same_page) (simp add: word_unat_eq_iff)
  then show "PML4_INDEX v = 0" "PDPT_INDEX v = 1" "PD_INDEX v = 0" "PT_INDEX v = 0"
    using demo_path(1,2) by (simp_all add: same_page_def path_of_def)
qed

lemma demo_program_access:
  assumes "0x40000000 \<le> a" "a < 0x40001000"
  shows "reachable demo_program as w a"
proof -
  have "a div 4096 = 0x40000" using assms by simp
  then have "unat (of_nat a :: u64) div 4096 = 0x40000" using assms unat_of_nat_u64[of a] by simp
  note ix = demo_program_index[OF this]
  have "writable 0x3007" "for_user 0x3007" by (simp_all add: writable_def for_user_def PTE_WRITE_def PTE_USER_def)
  then have "paging_user_can_access demo_program as (of_nat a) w"
    by (simp add: paging_user_can_access_def demo_program_simps(1) ix demo_program_entries demo_space_flags)
  then show ?thesis using assms by (simp add: reachable_def user_limits)
qed

lemma demo_program_end: "\<not> reachable demo_program as w 0x40001000"
proof -
  have "PML4_INDEX 0x40001000 = 0" "PDPT_INDEX 0x40001000 = 1" "PD_INDEX 0x40001000 = 0" "PT_INDEX 0x40001000 = 1"
    by (simp_all add: PML4_INDEX_def PDPT_INDEX_def PD_INDEX_def PT_INDEX_def)
  then show ?thesis
    by (simp add: reachable_def paging_user_can_access_def demo_program_simps(1) demo_program_entries demo_space_flags)
qed

lemma demo_program_bytes:
  "byte_at demo_program as 0x40000000 = 0x61" "byte_at demo_program as 0x40000001 = 0x62" "byte_at demo_program as 0x40000002 = 0"
proof -
  have word: "phys_mem demo_program 0x3000 = 0x6261" by (simp add: demo_program_simps with_entry_def)
  have tr: "paging_translate demo_program as v = 0x3000 OR (v AND 0xFFF)" if "unat v div 4096 = 0x40000" for v
    using demo_program_index[OF that] by (simp add: paging_translate_def next_level_def demo_program_simps(1) demo_program_entries
      demo_space_flags Let_def for_user_def)
  show "byte_at demo_program as 0x40000000 = 0x61" "byte_at demo_program as 0x40000001 = 0x62" "byte_at demo_program as 0x40000002 = 0"
    by (simp_all add: byte_at_def user_byte_def tr word drop_bit_eq_div word_unat_eq_iff unsigned_ucast_eq take_bit_nat_def unat_div)
qed

text \<open>A range that ends with the page is accepted, one byte more is not, and neither is one that wraps.\<close>

theorem user_range_ok_exact_witness:
  "user_range_ok demo_program 0x100 0x40000FF0 16 True \<and> \<not> user_range_ok demo_program 0x100 0x40000FF0 17 False
    \<and> \<not> user_range_ok demo_program 0x100 0x40000FF0 (- 16) False"
proof (intro conjI)
  show "user_range_ok demo_program 0x100 0x40000FF0 16 True"
    unfolding user_range_ok_exact by (auto intro!: demo_program_access)
  show "\<not> user_range_ok demo_program 0x100 0x40000FF0 17 False"
    unfolding user_range_ok_exact using demo_program_end[of "0x100" False] by (auto intro!: exI[of _ 16])
  show "\<not> user_range_ok demo_program 0x100 0x40000FF0 (- 16) False"
    unfolding user_range_ok_exact using demo_program_end[of "0x100" False] by (auto intro!: exI[of _ 16])
qed

theorem copy_string_exact_witness:
  "copy_string_from_user demo_program 0x100 0x40000000 3 = Inr [0x61, 0x62]
    \<and> copy_string_from_user demo_program 0x100 0x40000000 2 \<noteq> Inr [0x61, 0x62]"
proof (intro conjI)
  show "copy_string_from_user demo_program 0x100 0x40000000 3 = Inr [0x61, 0x62]"
    unfolding copy_string_exact using demo_program_bytes[of "0x100"] by (auto intro!: demo_program_access)
  show "copy_string_from_user demo_program 0x100 0x40000000 2 \<noteq> Inr [0x61, 0x62]"
    unfolding copy_string_exact by simp
qed

end
