(* ===== verification/Wfs_Write.thy ===== *)
theory Wfs_Write
  imports Wfs_Read
begin

text \<open>
  Writing files.  While a write is under way the inode in memory runs ahead of the one on the disk;
  \<open>extends\<close> relates the state the write started from to the one it has reached: the file's tree has
  grown by the blocks allocated since, the bytes are as wanted, and no block of another file or of the
  inode table has changed.  The block map with allocation and the write loop keep it.
\<close>

lemma loc_at_blocks [simp]: "loc_at D (x\<lparr>blocks := n\<rparr>) l = loc_at D x l"
  by (cases l) simp_all

lemma tree_blocks [simp]: "file_blocks D (x\<lparr>blocks := n\<rparr>) = file_blocks D x"
  "tree_ok D U (x\<lparr>blocks := n\<rparr>) = tree_ok D U x" "file_byte D (x\<lparr>blocks := n\<rparr>) pos = file_byte D x pos"
  by (simp_all add: file_blocks_def tree_ok_def file_byte_def)

lemma place_inode_blocks: "place_inode (x\<lparr>blocks := n\<rparr>) l b = (place_inode x l b)\<lparr>blocks := n\<rparr>"
  by (cases l) simp_all

lemma place_inode_fields [simp]:
  "isize (place_inode x l b) = isize x" "itype (place_inode x l b) = itype x"
  "links (place_inode x l b) = links x" "mtime (place_inode x l b) = mtime x" "blocks (place_inode x l b) = blocks x"
  by (cases l; simp)+

lemma place_inode_fits: "inode_fits x \<Longrightarrow> b < 2 ^ 32 \<Longrightarrow> inode_fits (place_inode x l b)"
  using set_update_subset_insert[of "direct x" _ b] by (cases l) (auto simp: inode_fits_def)

lemma blocks_fits: "inode_fits x \<Longrightarrow> n < 2 ^ 32 \<Longrightarrow> inode_fits (x\<lparr>blocks := n\<rparr>)"
  by (simp add: inode_fits_def)

lemma place_fields_blocks:
  "isize ((place_inode x l b)\<lparr>blocks := n\<rparr>) = isize x" "itype ((place_inode x l b)\<lparr>blocks := n\<rparr>) = itype x"
  "links ((place_inode x l b)\<lparr>blocks := n\<rparr>) = links x" "mtime ((place_inode x l b)\<lparr>blocks := n\<rparr>) = mtime x"
  by simp_all

text \<open>The bytes of a file with some of them replaced.\<close>

definition overlay :: "(nat \<Rightarrow> u8) \<Rightarrow> nat \<Rightarrow> bytes \<Rightarrow> nat \<Rightarrow> u8" where
  "overlay F off bs pos = (if off \<le> pos \<and> pos < off + length bs then bs ! (pos - off) else F pos)"

lemma overlay_Nil [simp]: "overlay F off [] = F"
  by (rule ext) (auto simp: overlay_def)

lemma memcpy_at_nth:
  "i + length bs \<le> length d \<Longrightarrow> j < length d \<Longrightarrow> memcpy_at d i bs ! j = (if i \<le> j \<and> j < i + length bs then bs ! (j - i) else d ! j)"
  by (auto simp: memcpy_at_def nth_append min_def)

lemma overlay_block:
  assumes c: "0 < c" "c \<le> length src - n" "c \<le> K - (off + n) mod K"
    and same: "pos div K = (off + n) div K"
  shows "overlay F off (take (n + c) src) pos =
    (if (off + n) mod K \<le> pos mod K \<and> pos mod K < (off + n) mod K + c then take c (drop n src) ! (pos mod K - (off + n) mod K)
     else overlay F off (take n src) pos)"
proof -
  have "pos = (off + n) div K * K + pos mod K" using same by (metis div_mult_mod_eq)
  moreover have "off + n = (off + n) div K * K + (off + n) mod K" by simp
  ultimately have "pos mod K - (off + n) mod K = pos - (off + n)" "(off + n) mod K \<le> pos mod K \<longleftrightarrow> off + n \<le> pos"
    "pos mod K < (off + n) mod K + c \<longleftrightarrow> pos < off + n + c" by linarith+
  then show ?thesis using c by (auto simp: overlay_def)
qed

lemma overlay_other_block:
  assumes c: "c \<le> K - (off + n) mod K" "0 < K" and other: "pos div K \<noteq> (off + n) div K"
  shows "overlay F off (take (n + c) src) pos = overlay F off (take n src) pos"
proof -
  have "\<not> (off + n \<le> pos \<and> pos < off + n + c)"
  proof
    assume a: "off + n \<le> pos \<and> pos < off + n + c"
    then have "pos - (off + n) < c" by linarith
    moreover have "(off + n) mod K < K" using c(2) by simp
    ultimately have "(off + n) mod K + (pos - (off + n)) < K" using c(1) by linarith
    from div_mod_add_small(1)[OF this] a other show False by simp
  qed
  then show ?thesis by (auto simp: overlay_def)
qed

section \<open>Consistent volumes\<close>

definition in_use :: "('d drives \<Rightarrow> nat \<Rightarrow> bytes) \<Rightarrow> 'd wfs \<Rightarrow> nat \<Rightarrow> bool" where
  "in_use sector s i \<longleftrightarrow> 0 < i \<and> i < total_inodes (sb s) \<and> itype (inode_at sector s i) \<noteq> WFS_TYPE_FREE"

definition fs_inv :: "('d drives \<Rightarrow> nat \<Rightarrow> bool) \<Rightarrow> ('d drives \<Rightarrow> nat \<Rightarrow> bytes) \<Rightarrow> 'd wfs \<Rightarrow> bool" where
  "fs_inv good sector s \<longleftrightarrow> fs_ok good sector s \<and> rtc_epoch s < 2 ^ 32
     \<and> (\<forall>i. in_use sector s i \<longrightarrow> file_ok sector s (inode_at sector s i))
     \<and> (\<forall>i j. in_use sector s i \<longrightarrow> in_use sector s j \<longrightarrow> i \<noteq> j \<longrightarrow>
          file_blocks (disk_block sector s) (inode_at sector s i) \<inter> file_blocks (disk_block sector s) (inode_at sector s j) = {})"

text \<open>Writing at an offset of a sequence of bytes; what lies between its end and the offset is zero.\<close>

definition write_at :: "bytes \<Rightarrow> nat \<Rightarrow> bytes \<Rightarrow> bytes" where
  "write_at old off bs = take off (old @ replicate (off - length old) 0) @ bs @ drop (off + length bs) old"

lemma write_at_length: "length (write_at old off bs) = max (length old) (off + length bs)"
  by (auto simp: write_at_def max_def min_def)

lemma write_at_nth:
  assumes "pos < length (write_at old off bs)"
  shows "write_at old off bs ! pos =
    (if off \<le> pos \<and> pos < off + length bs then bs ! (pos - off) else if pos < length old then old ! pos else 0)"
  using assms by (auto simp: write_at_length) (auto simp: write_at_def nth_append min_def)

lemma overlay_write_at:
  assumes "\<forall>pos. sz \<le> pos \<and> pos < mx \<longrightarrow> F pos = 0" "sz \<le> mx" "off + length bs \<le> mx"
  shows "map (overlay F off bs) [0..<max sz (off + length bs)] = write_at (map F [0..<sz]) off bs"
proof (rule nth_equalityI)
  show "length (map (overlay F off bs) [0..<max sz (off + length bs)]) = length (write_at (map F [0..<sz]) off bs)"
    by (simp add: write_at_length)
  fix i assume i: "i < length (map (overlay F off bs) [0..<max sz (off + length bs)])"
  then have "i < length (write_at (map F [0..<sz]) off bs)" by (simp add: write_at_length)
  from write_at_nth[OF this] show "map (overlay F off bs) [0..<max sz (off + length bs)] ! i = write_at (map F [0..<sz]) off bs ! i"
    using assms i by (auto simp: overlay_def)
qed

context wfs_device
begin

definition extends :: "'d wfs \<Rightarrow> wfs_inode \<Rightarrow> 'd wfs \<Rightarrow> wfs_inode \<Rightarrow> (nat \<Rightarrow> u8) \<Rightarrow> bool" where
  "extends s0 x0 s x F \<longleftrightarrow> fs_ok good sector s \<and> same_fs s0 s \<and> tree_ok (dblock s) (used_data s) x \<and> inode_fits x
     \<and> isize x = isize x0 \<and> itype x = itype x0 \<and> links x = links x0 \<and> mtime x = mtime x0
     \<and> used_data s0 \<subseteq> used_data s
     \<and> file_blocks (dblock s) x = file_blocks (dblock s0) x0 \<union> (used_data s - used_data s0)
     \<and> (\<forall>n. inode_start (sb s0) \<le> n \<and> n < total_blocks (sb s0) \<and> n \<notin> free_data s0
          \<and> n \<notin> file_blocks (dblock s0) x0 \<longrightarrow> dblock s n = dblock s0 n)
     \<and> (\<forall>pos < max_size. file_byte (dblock s) x pos = F pos)"

lemma extends_start:
  assumes "fs_ok good sector s" "tree_ok (dblock s) (used_data s) x" "inode_fits x"
  shows "extends s x s x (file_byte (dblock s) x)"
  using assms by (simp add: extends_def)

lemma extendsD:
  assumes "extends s0 x0 s x F"
  shows "fs_ok good sector s" "same_fs s0 s" "tree_ok (dblock s) (used_data s) x" "inode_fits x"
    "isize x = isize x0 \<and> itype x = itype x0 \<and> links x = links x0 \<and> mtime x = mtime x0"
    "used_data s0 \<subseteq> used_data s"
    "file_blocks (dblock s) x = file_blocks (dblock s0) x0 \<union> (used_data s - used_data s0)"
    "\<And>n. inode_start (sb s0) \<le> n \<Longrightarrow> n < total_blocks (sb s0) \<Longrightarrow> n \<notin> free_data s0
          \<Longrightarrow> n \<notin> file_blocks (dblock s0) x0 \<Longrightarrow> dblock s n = dblock s0 n"
    "\<And>pos. pos < max_size \<Longrightarrow> file_byte (dblock s) x pos = F pos"
  using assms by (simp_all add: extends_def)

lemma free_data_range: "n \<in> free_data s \<Longrightarrow> data_start (sb s) \<le> n \<and> n < total_blocks (sb s)"
  by (simp add: free_data_def)

lemma used_data_eq: "same_fs s s' \<Longrightarrow> used_data s' = {data_start (sb s)..<total_blocks (sb s)} - free_data s'"
  using same_fs_sb[of s s'] by (simp add: used_data_def)

lemma extends_free:
  assumes "extends s0 x0 s x F"
  shows "free_data s \<subseteq> free_data s0"
proof
  fix n assume n: "n \<in> free_data s"
  then have "n \<in> {data_start (sb s0)..<total_blocks (sb s0)}"
    using free_data_range same_fs_sb(1,2)[OF extendsD(2)[OF assms]] by fastforce
  moreover have "n \<notin> used_data s0" using extendsD(6)[OF assms] n by (auto simp: used_data_def)
  ultimately show "n \<in> free_data s0" by (simp add: used_data_def)
qed

lemma place_step:
  assumes ext: "extends s0 x0 s x F" and l: "loc_valid l" "place_ok (dblock s) x l" "loc_at (dblock s) x l = 0"
    and s2: "fs_ok good sector s2" "same_fs s s2" "b \<in> free_data s" "free_data s2 = free_data s - {b}"
      "\<forall>n. inode_start (sb s) \<le> n \<and> n < total_blocks (sb s) \<longrightarrow>
         dblock s2 n = ((place_block (dblock s) x l b)(b := zero_block)) n"
    and w: "w < 2 ^ 32"
  shows "extends s0 x0 s2 ((place_inode x l b)\<lparr>blocks := w\<rparr>) F"
    and "loc_at (dblock s2) ((place_inode x l b)\<lparr>blocks := w\<rparr>) l = b"
proof -
  let ?D = "(place_block (dblock s) x l b)(b := zero_block)" and ?x = "place_inode x l b"
  note e = extendsD[OF ext]
  note ok = e(1) and sf = e(2) and tr = e(3)
  note lay = fs_okD(2)[OF ok]
  have b: "b \<notin> used_data s" "data_start (sb s) \<le> b" "b < total_blocks (sb s)" "b \<noteq> 0" "b < 2 ^ 32"
    using s2(3) lay by (auto simp: used_data_def free_data_def layout_ok_def)
  note pt = place_tree[OF tr l b(1,4,5) refl]
  have u2: "used_data s2 = insert b (used_data s)"
  proof -
    have "used_data s2 = {data_start (sb s)..<total_blocks (sb s)} - (free_data s - {b})" using used_data_eq[OF s2(2)] s2(4) by simp
    also have "\<dots> = insert b (used_data s)" unfolding used_data_def using b(2,3) by auto
    finally show ?thesis .
  qed
  have fb: "file_blocks ?D ?x \<subseteq> used_data s2" using pt(1) u2 by (simp add: tree_ok_def)
  have "\<forall>n \<in> file_blocks ?D ?x. dblock s2 n = ?D n"
  proof
    fix n assume "n \<in> file_blocks ?D ?x"
    then have "n \<in> used_data s2" using fb by blast
    then have "inode_start (sb s) \<le> n" "n < total_blocks (sb s)"
      using used_data_eq[OF s2(2)] lay by (auto simp: layout_ok_def)
    then show "dblock s2 n = ?D n" using s2(5) by blast
  qed
  note fr = tree_frame[OF this]
  have fb2: "file_blocks (dblock s2) ?x = insert b (file_blocks (dblock s) x)" using fr(2) pt(2) by simp
  have mono: "used_data s0 \<subseteq> used_data s" "free_data s \<subseteq> free_data s0" using e(6) extends_free[OF ext] by simp_all
  have "dblock s2 n = dblock s0 n" if n: "inode_start (sb s0) \<le> n" "n < total_blocks (sb s0)" "n \<notin> free_data s0"
    "n \<notin> file_blocks (dblock s0) x0" for n
  proof -
    have ne: "n \<noteq> b" using n(3) s2(3) mono(2) by auto
    have "place_block (dblock s) x l b n = dblock s n"
    proof (rule ccontr)
      assume "place_block (dblock s) x l b n \<noteq> dblock s n"
      from place_block_changes[OF l(1,2) this] have "n \<in> file_blocks (dblock s) x" by (auto simp: file_blocks_iff)
      then have "n \<in> used_data s" "n \<notin> used_data s0" using e(7) n(4) tr by (auto simp: tree_ok_def)
      then show False using n(3) same_fs_sb[OF sf] by (auto simp: used_data_def)
    qed
    then have "dblock s2 n = dblock s n" using s2(5) n ne same_fs_sb[OF sf] by simp
    then show ?thesis using e(8)[OF n] by simp
  qed
  moreover have "tree_ok (dblock s2) (used_data s2) ?x" using fr(3)[OF pt(1) fb] .
  moreover have "file_byte (dblock s2) ?x pos = F pos" if "pos < max_size" for pos
    using fr(4)[OF that] place_byte[OF tr l b(1,4,5) refl that] e(9)[OF that] by simp
  moreover have "file_blocks (dblock s2) ?x = file_blocks (dblock s0) x0 \<union> (used_data s2 - used_data s0)"
    using fb2 u2 e(7) b(1) mono(1) by auto
  moreover have "inode_fits (?x\<lparr>blocks := w\<rparr>)"
    by (rule blocks_fits[OF place_inode_fits[OF e(4) b(5)] w])
  moreover have "used_data s0 \<subseteq> used_data s2" using e(6) u2 by blast
  ultimately show "extends s0 x0 s2 (?x\<lparr>blocks := w\<rparr>) F"
    using e(5) s2(1) same_fs_trans[OF sf s2(2)] unfolding extends_def tree_blocks place_fields_blocks by blast
  show "loc_at (dblock s2) (?x\<lparr>blocks := w\<rparr>) l = b"
    using fr(1)[OF l(1)] place_at[OF tr l b(1,4,5) l(1) refl] by simp
qed


lemma extends_quiet:
  assumes "extends s0 x0 s x F" "quiet s s'"
  shows "extends s0 x0 s' x F"
proof -
  note e = extendsD[OF assms(1)]
  have q: "\<And>n. n < total_blocks (sb s) \<Longrightarrow> dblock s' n = dblock s n" using assms(2) by (simp add: quiet_def)
  have sb: "sb s' = sb s" "same_fs s s'" "used_data s' = used_data s"
    using assms(2) kept_wfs[of s s'] quiet_free_data[OF assms(2)] by (simp_all add: quiet_def same_fs_def used_data_def)
  have "\<forall>b \<in> file_blocks (dblock s) x. dblock s' b = dblock s b"
    using e(3) q by (auto simp: tree_ok_def used_data_def)
  note fr = tree_frame[OF this]
  have "tree_ok (dblock s') (used_data s) x" by (rule fr(3)[OF e(3)]) (use e(3) in \<open>simp add: tree_ok_def\<close>)
  moreover have "dblock s' n = dblock s0 n" if "inode_start (sb s0) \<le> n" "n < total_blocks (sb s0)" "n \<notin> free_data s0"
    "n \<notin> file_blocks (dblock s0) x0" for n
    using e(8)[OF that] q[of n] that(2) same_fs_sb[OF e(2)] by simp
  moreover have "file_byte (dblock s') x pos = F pos" if "pos < max_size" for pos using fr(4)[OF that] e(9)[OF that] by simp
  ultimately show ?thesis unfolding extends_def sb(3) fr(2)
    using quiet_fs_ok[OF e(1) assms(2)] same_fs_trans[OF e(2) sb(2)] e(4,5,6,7) by blast
qed

text \<open>A slot of the inode itself: a direct pointer, or one of the two blocks of pointers.\<close>

definition inode_loc :: "loc \<Rightarrow> bool" where
  "inode_loc l \<longleftrightarrow> loc_valid l \<and> (case l of Direct _ \<Rightarrow> True | Indirect \<Rightarrow> True | Double \<Rightarrow> True | _ \<Rightarrow> False)"

lemma inode_loc_place: "inode_loc l \<Longrightarrow> loc_valid l" "inode_loc l \<Longrightarrow> place_ok D x l" "inode_loc l \<Longrightarrow> place_block D x l b = D"
  "inode_loc l \<Longrightarrow> length (direct x) = 10 \<Longrightarrow> place_inode x l (loc_at D x l) = x"
  by (cases l; simp add: inode_loc_def)+

lemma fill_law:
  assumes ext: "extends s0 x0 s x F" and l: "inode_loc l"
  shows "(\<exists>b s' x' d'. fill_slot s (loc_at (dblock s) x l) x True d = (s', Inr (b, x', d')) \<and> b \<noteq> 0
        \<and> extends s0 x0 s' (place_inode x' l b) F \<and> loc_at (dblock s') (place_inode x' l b) l = b
        \<and> (\<not> d' \<longrightarrow> place_inode x' l b = x \<and> \<not> d))
    \<or> fill_slot s (loc_at (dblock s) x l) x True d = (s, Inl W_ENOSPC) \<and> free_data s = {}"
proof (cases "loc_at (dblock s) x l = 0")
  case False
  have "length (direct x) = 10" using extendsD(3)[OF ext] by (simp add: tree_ok_def)
  from inode_loc_place(4)[OF l this] show ?thesis using False ext by (simp add: fill_slot_def)
next
  case True
  note e = extendsD[OF ext]
  from block_alloc_law[OF e(1)] consider "free_data s = {}" "block_alloc s = (s, 0)"
    | s' where "block_alloc s = (s', Min (free_data s))" "took s s' (Min (free_data s))" by blast
  then show ?thesis
  proof cases
    case 1
    then show ?thesis using True by (simp add: fill_slot_def)
  next
    case (2 s')
    let ?b = "Min (free_data s)" and ?w = "w32 (blocks x + 1)"
    have t: "?b \<in> free_data s" "free_data s' = free_data s - {?b}" "same_fs s s'" "fs_ok good sector s'"
      "\<forall>n. inode_start (sb s) \<le> n \<and> n < total_blocks (sb s) \<longrightarrow> dblock s' n = ((place_block (dblock s) x l ?b)(?b := zero_block)) n"
      using 2(2) inode_loc_place(3)[OF l] by (auto simp: took_def)
    have "?b \<noteq> 0" using t(1) fs_okD(2)[OF e(1)] by (auto simp: free_data_def layout_ok_def)
    moreover note place_step[OF ext inode_loc_place(1,2)[OF l] True t(4,3,1,2,5) w32_less[of "blocks x + 1"]]
    ultimately show ?thesis using True 2(1)
      by (intro disjI1 exI[of _ ?b] exI[of _ s'] exI[of _ "x\<lparr>blocks := ?w\<rparr>"] exI[of _ True]) (simp add: fill_slot_def place_inode_blocks)
  qed
qed

text \<open>A slot of a block of pointers.\<close>

definition table_loc :: "(nat \<Rightarrow> bytes) \<Rightarrow> wfs_inode \<Rightarrow> loc \<Rightarrow> nat \<Rightarrow> nat \<Rightarrow> bool" where
  "table_loc D x l t i \<longleftrightarrow> t \<noteq> 0 \<and> i < 256 \<and> loc_valid l
     \<and> (l = Indirect_Entry i \<and> t = indirect x \<or> l = Middle i \<and> t = double_indirect x
        \<or> (\<exists>k. l = Double_Entry k i \<and> t = loc_at D x (Middle k)))"

lemma table_loc_facts:
  assumes "table_loc D x l t i"
  shows "loc_valid l" "place_ok D x l" "place_inode x l b = x" "place_block D x l b = D(t := put_entry (D t) i b)"
    "loc_at D x l = entry (D t) i" "\<exists>k. loc_valid k \<and> loc_at D x k = t" "t \<noteq> 0" "i < 256"
proof -
  from assms have t: "t \<noteq> 0" "i < 256" "loc_valid l" by (simp_all add: table_loc_def)
  from assms consider "l = Indirect_Entry i" "t = indirect x" | "l = Middle i" "t = double_indirect x"
    | k where "l = Double_Entry k i" "t = loc_at D x (Middle k)" by (auto simp: table_loc_def)
  then have "place_ok D x l \<and> place_inode x l b = x \<and> place_block D x l b = D(t := put_entry (D t) i b)
    \<and> loc_at D x l = entry (D t) i \<and> (\<exists>k. loc_valid k \<and> loc_at D x k = t)"
  proof cases
    case 1
    then show ?thesis using t by (auto intro: exI[of _ Indirect])
  next
    case 2
    then show ?thesis using t by (auto intro: exI[of _ Double])
  next
    case (3 k)
    then show ?thesis using t by (auto simp: Let_def intro: exI[of _ "Middle k"] split: if_splits)
  qed
  then show "loc_valid l" "place_ok D x l" "place_inode x l b = x" "place_block D x l b = D(t := put_entry (D t) i b)"
    "loc_at D x l = entry (D t) i" "\<exists>k. loc_valid k \<and> loc_at D x k = t" "t \<noteq> 0" "i < 256" using t by blast+
qed

lemma data_write_law:
  assumes ok: "fs_ok good sector s" and t: "data_start (sb s) \<le> t" "t < total_blocks (sb s)" and len: "length buf = WFS_BLOCK_SIZE"
  shows "\<exists>s'. block_write s t buf = (s', True) \<and> fs_ok good sector s' \<and> same_fs s s' \<and> sb s' = sb s \<and> free_data s' = free_data s
    \<and> (\<forall>n < total_blocks (sb s). dblock s' n = (if n = t then buf else dblock s n))"
proof -
  from block_write_law[OF fs_okD(1)[OF ok] t(2) len] obtain s' where
    s': "block_write s t buf = (s', True)" "vol s' (total_blocks (sb s))" "kept s s'"
      "\<forall>n < total_blocks (sb s). dblock s' n = (if n = t then buf else dblock s n)" by blast
  note k = kept_wfs[OF s'(3)]
  have f: "free_data s' = free_data s" using k by (simp add: free_data_def wfs_bitmap_test_def)
  have low: "\<And>n. n < data_start (sb s) \<Longrightarrow> dblock s' n = dblock s n" using s'(4) t by simp
  have "fs_ok good sector s'"
    using ok low fs_okD(2)[OF ok] s'(2) unfolding fs_ok_def k f by (auto simp: layout_ok_def)
  then show ?thesis using s' k f by (auto simp: same_fs_def)
qed

lemma table_law:
  assumes ext: "extends s0 x0 s x F" and l: "table_loc (dblock s) x l t i"
  shows "\<exists>s' x' d' r. table_slot s t i True x d = (s', x', d', r) \<and> extends s0 x0 s' x' F
     \<and> (\<not> d' \<longrightarrow> x' = x \<and> \<not> d)
     \<and> (case r of Inl e \<Rightarrow> e = W_ENOSPC \<and> free_data s' = {} | Inr b \<Rightarrow> b \<noteq> 0 \<and> loc_at (dblock s') x' l = b)"
proof -
  note e = extendsD[OF ext] and tf = table_loc_facts[OF l]
  have tN: "t < total_blocks (sb s)" "data_start (sb s) \<le> t" "t \<notin> free_data s"
    using tf(6,7) tree_ok_used[OF e(3)] by (auto simp: used_data_def)
  from block_read_quiet[OF e(1) tN(1)] obtain s1 where s1: "block_read s t = (s1, Some (dblock s t))" "quiet s s1" by blast
  note ext1 = extends_quiet[OF ext s1(2)] and sbq = quiet_free_data[OF s1(2)]
  note e1 = extendsD[OF ext1]
  have sb1: "sb s1 = sb s" "\<And>n. n < total_blocks (sb s) \<Longrightarrow> dblock s1 n = dblock s n"
    using s1(2) kept_wfs(1)[of s s1] by (simp_all add: quiet_def)
  have at: "decode_table (dblock s t) ! i = entry (dblock s t) i" by (rule decode_table_nth[OF tf(8)])
  have "loc_at (dblock s1) x l = loc_at (dblock s) x l"
    using e(3) sb1(2) by (intro tree_frame(1)[OF _ tf(1)]) (auto simp: tree_ok_def used_data_def)
  then have at1: "loc_at (dblock s1) x l = entry (dblock s t) i" using tf(5) by simp
  have ex: "\<And>l. loc_valid l \<Longrightarrow> loc_at (dblock s1) x l = loc_at (dblock s) x l"
    using e(3) sb1(2) by (intro tree_frame(1)) (auto simp: tree_ok_def used_data_def)
  have "k < 256 \<Longrightarrow> loc_at (dblock s1) x (Middle k) = loc_at (dblock s) x (Middle k)" for k using ex[of "Middle k"] by simp
  then have l1: "table_loc (dblock s1) x l t i" using l unfolding table_loc_def by (auto simp del: loc_at.simps)
  note tf1 = table_loc_facts[OF l1]
  show ?thesis
  proof (cases "entry (dblock s t) i = 0")
    case False
    then show ?thesis using s1 ext1 at at1 by (simp add: table_slot_def)
  next
    case True
    from block_alloc_law[OF e1(1)] consider "free_data s1 = {}" "block_alloc s1 = (s1, 0)"
      | s2 where "block_alloc s1 = (s2, Min (free_data s1))" "took s1 s2 (Min (free_data s1))" by blast
    then show ?thesis
    proof cases
      case 1
      then show ?thesis using True s1 ext1 at by (simp add: table_slot_def)
    next
      case (2 s2)
      let ?b = "Min (free_data s1)" and ?w = "w32 (blocks x + 1)" and ?buf = "put_entry (dblock s t) i (Min (free_data s1))"
      note tk = 2(2)[unfolded took_def]
      have bF: "?b \<in> free_data s1" using tk by blast
      have b: "?b \<noteq> 0" "?b \<noteq> t" using bF fs_okD(2)[OF e1(1)] tN(3) sbq by (auto simp: free_data_def layout_ok_def)
      have sb2: "data_start (sb s2) = data_start (sb s)" "total_blocks (sb s2) = total_blocks (sb s)" "inode_start (sb s2) = inode_start (sb s)"
        using tk same_fs_sb[of s1 s2] sb1 by auto
      have ok2: "fs_ok good sector s2" using tk by blast
      from data_write_law[OF ok2, of t ?buf] tN sb2 put_entry_length[of "dblock s t" i ?b] obtain s3 where
        s3: "block_write s2 t ?buf = (s3, True)" "fs_ok good sector s3" "same_fs s2 s3" "free_data s3 = free_data s2"
          "\<forall>n < total_blocks (sb s). dblock s3 n = (if n = t then ?buf else dblock s2 n)" by auto
      have d3: "\<forall>n. inode_start (sb s1) \<le> n \<and> n < total_blocks (sb s1) \<longrightarrow>
          dblock s3 n = ((place_block (dblock s1) x l ?b)(?b := zero_block)) n"
        using s3(5) tk b sb1 tN(1) unfolding tf1(4) by auto
      have f3: "free_data s3 = free_data s1 - {?b}" using s3(4) tk by simp
      have e0: "loc_at (dblock s1) x l = 0" using at1 True by simp
      note ps = place_step[OF ext1 tf1(1,2) e0 s3(2) same_fs_trans[OF _ s3(3)] bF f3 d3 w32_less[of "blocks x + 1"]]
      have "same_fs s1 s2" using tk by blast
      note ps = ps[OF this, unfolded tf1(3)]
      show ?thesis using True s1(1) at 2(1) b(1) s3(1) ps
        by (intro exI[of _ s3] exI[of _ "x\<lparr>blocks := ?w\<rparr>"] exI[of _ True] exI[of _ "Inr ?b"]) (simp add: table_slot_def put_entry_def)
    qed
  qed
qed

text \<open>What finding the block of a position, allocating where needed, comes to.\<close>

definition mapped :: "'d wfs \<Rightarrow> wfs_inode \<Rightarrow> (nat \<Rightarrow> u8) \<Rightarrow> wfs_inode \<Rightarrow> bool \<Rightarrow> loc \<Rightarrow> 'd wfs \<times> wfs_inode \<times> bool \<times> nat res \<Rightarrow> bool" where
  "mapped s0 x0 F x d l = (\<lambda>(s', x', d', r). extends s0 x0 s' x' F \<and> (\<not> d' \<longrightarrow> x' = x \<and> \<not> d)
     \<and> (case r of Inl e \<Rightarrow> e = W_ENOSPC \<and> free_data s' = {} | Inr b \<Rightarrow> b \<noteq> 0 \<and> loc_at (dblock s') x' l = b))"

lemma mapped_table:
  assumes "extends s0 x0 s x F" "table_loc (dblock s) x l t i"
  shows "mapped s0 x0 F x d l (table_slot s t i True x d)"
  using table_law[OF assms, of d] by (auto simp: mapped_def)

lemma mapped_from: "mapped s0 x0 F x' d' l r \<Longrightarrow> (\<not> d' \<Longrightarrow> x' = x \<and> \<not> d) \<Longrightarrow> mapped s0 x0 F x d l r"
  by (auto simp: mapped_def)

lemma mapped_full: "extends s0 x0 s x F \<Longrightarrow> free_data s = {} \<Longrightarrow> mapped s0 x0 F x d l (s, x, d, Inl W_ENOSPC)"
  by (simp add: mapped_def)

lemma fill_cases:
  assumes "extends s0 x0 s x F" "inode_loc l"
  obtains (Filled) b s' x' d' where "fill_slot s (loc_at (dblock s) x l) x True d = (s', Inr (b, x', d'))" "b \<noteq> 0"
      "extends s0 x0 s' (place_inode x' l b) F" "loc_at (dblock s') (place_inode x' l b) l = b"
      "\<not> d' \<Longrightarrow> place_inode x' l b = x \<and> \<not> d"
    | (Full) "fill_slot s (loc_at (dblock s) x l) x True d = (s, Inl W_ENOSPC)" "free_data s = {}"
  using fill_law[OF assms, of d] by blast

lemma bmap_alloc_law:
  assumes ext: "extends s0 x0 s x F" and i: "index < max_blocks"
  shows "mapped s0 x0 F x d (data_loc index) (bmap s x index True d)"
proof -
  consider "index < 10" | "10 \<le> index" "index < 266" | "266 \<le> index" by linarith
  then show ?thesis
  proof cases
    case 1
    then have l: "inode_loc (Direct index)" "data_loc index = Direct index" by (simp_all add: inode_loc_def data_loc_def)
    show ?thesis
      by (cases rule: fill_cases[OF ext l(1), of d, case_names Filled Full]) (use 1 ext in \<open>simp_all add: l(2) mapped_def bmap_tier1\<close>)
  next
    case 2
    have l: "inode_loc Indirect" "data_loc index = Indirect_Entry (index - 10)" using 2 by (simp_all add: inode_loc_def data_loc_def)
    show ?thesis
    proof (cases rule: fill_cases[OF ext l(1), of d, case_names Filled Full])
      case (Filled b s' x' d')
      have "table_loc (dblock s') (x'\<lparr>indirect := b\<rparr>) (Indirect_Entry (index - 10)) b (index - 10)"
        using 2 Filled(2) by (simp add: table_loc_def)
      with Filled(3) have "mapped s0 x0 F (x'\<lparr>indirect := b\<rparr>) d' (data_loc index) (table_slot s' b (index - 10) True (x'\<lparr>indirect := b\<rparr>) d')"
        by (intro mapped_table) (simp_all add: l(2))
      then show ?thesis using Filled(1,2,5) by (auto simp: bmap_tier2[OF 2] intro: mapped_from)
    next
      case Full
      then show ?thesis using ext by (simp add: bmap_tier2[OF 2] mapped_full)
    qed
  next
    case 3
    let ?k = "index - 266"
    have k: "?k div 256 < 256" "?k mod 256 < 256" using i 3 by (simp_all add: max_blocks_def less_mult_imp_div_less)
    have l: "inode_loc Double" "data_loc index = Double_Entry (?k div 256) (?k mod 256)" using 3 by (simp_all add: inode_loc_def data_loc_def)
    show ?thesis
    proof (cases rule: fill_cases[OF ext l(1), of d, case_names Filled Full])
      case Full
      then show ?thesis using ext by (simp add: bmap_tier3[OF 3 i] mapped_full)
    next
      case (Filled b s' x' d')
      let ?x = "x'\<lparr>double_indirect := b\<rparr>"
      have tl: "table_loc (dblock s') ?x (Middle (?k div 256)) b (?k div 256)"
        using k Filled(2) by (simp add: table_loc_def)
      obtain s2 x2 d2 r where t: "table_slot s' b (?k div 256) True ?x d' = (s2, x2, d2, r)" by (metis prod_cases4)
      have m: "mapped s0 x0 F ?x d' (Middle (?k div 256)) (s2, x2, d2, r)"
        using mapped_table[OF _ tl, of s0 x0 F d'] Filled(3) t by simp
      have step: "bmap s x index True d = (case r of Inl e \<Rightarrow> (s2, x2, d2, Inl e) | Inr middle \<Rightarrow>
          if middle = 0 then (s2, x2, d2, Inr 0) else table_slot s2 middle (?k mod 256) True x2 d2)"
        using Filled(1,2) t by (simp add: bmap_tier3[OF 3 i] split: sum.split)
      show ?thesis
      proof (cases r)
        case (Inl e)
        then show ?thesis using step m Filled(5) by (auto simp: mapped_def)
      next
        case (Inr m')
        then have m2: "extends s0 x0 s2 x2 F" "m' \<noteq> 0" "loc_at (dblock s2) x2 (Middle (?k div 256)) = m'" "\<not> d2 \<Longrightarrow> x2 = ?x \<and> \<not> d'"
          using m by (simp_all add: mapped_def)
        have "table_loc (dblock s2) x2 (data_loc index) m' (?k mod 256)"
          using m2(2,3) k unfolding l(2) table_loc_def by auto
        from mapped_table[OF m2(1) this] show ?thesis using Inr step m2(2,4) Filled(5) by (auto intro: mapped_from)
      qed
    qed
  qed
qed

lemma extends_cong: "extends s0 x0 s x F \<Longrightarrow> (\<And>pos. pos < max_size \<Longrightarrow> F' pos = F pos) \<Longrightarrow> extends s0 x0 s x F'"
  by (simp add: extends_def)

lemma extends_write:
  assumes ext: "extends s0 x0 s x F" and l: "loc_valid l" "is_data l" "loc_at (dblock s) x l = b" "b \<noteq> 0"
    and buf: "length buf = WFS_BLOCK_SIZE"
  shows "\<exists>s'. block_write s b buf = (s', True) \<and> free_data s' = free_data s
    \<and> extends s0 x0 s' x (\<lambda>pos. if data_loc (pos div WFS_BLOCK_SIZE) = l then buf ! (pos mod WFS_BLOCK_SIZE) else F pos)"
proof -
  note e = extendsD[OF ext]
  have bu: "b \<in> used_data s" using tree_ok_used[OF e(3) l(1)] l(3,4) by simp
  then have b: "data_start (sb s) \<le> b" "b < total_blocks (sb s)" by (simp_all add: used_data_def)
  from data_write_law[OF e(1) b buf] obtain s' where
    s': "block_write s b buf = (s', True)" "fs_ok good sector s'" "same_fs s s'" "sb s' = sb s" "free_data s' = free_data s"
      "\<forall>n < total_blocks (sb s). dblock s' n = (if n = b then buf else dblock s n)" by blast
  have u: "used_data s' = used_data s" using s'(4,5) by (simp add: used_data_def)
  let ?D = "(dblock s)(b := buf)"
  have ln: "loc_at (dblock s) x l \<noteq> 0" using l(3,4) by simp
  have D: "?D = (dblock s)(loc_at (dblock s) x l := buf)" using l(3) by simp
  note wd = write_data[OF e(3) l(1,2) ln D]
  have sub: "file_blocks ?D x \<subseteq> used_data s" using wd(2) by (simp add: tree_ok_def)
  have "\<forall>n \<in> file_blocks ?D x. dblock s' n = ?D n" using sub s'(6) by (auto simp: used_data_def)
  note fr = tree_frame[OF this]
  have "tree_ok (dblock s') (used_data s') x" unfolding u by (rule fr(3)[OF wd(2) sub])
  moreover have "dblock s' n = dblock s0 n" if n: "inode_start (sb s0) \<le> n" "n < total_blocks (sb s0)" "n \<notin> free_data s0"
    "n \<notin> file_blocks (dblock s0) x0" for n
  proof -
    have "n \<noteq> b"
    proof
      assume nb: "n = b"
      then have "n \<in> file_blocks (dblock s) x" using l by (auto simp: file_blocks_iff)
      then have "n \<notin> used_data s0" using e(7) n(4) by auto
      then show False using n(2,3) b(1) nb same_fs_sb(1)[OF e(2)] by (simp add: used_data_def)
    qed
    then show ?thesis using s'(6) n(2) same_fs_sb(2)[OF e(2)] e(8)[OF n] by simp
  qed
  moreover have "file_byte (dblock s') x pos = (if data_loc (pos div WFS_BLOCK_SIZE) = l then buf ! (pos mod WFS_BLOCK_SIZE) else F pos)"
    if "pos < max_size" for pos
    using fr(4)[OF that] wd(4)[OF that] e(9)[OF that] by simp
  moreover have "file_blocks (dblock s') x = file_blocks (dblock s0) x0 \<union> (used_data s' - used_data s0)"
    using fr(2) wd(3) e(7) u by simp
  ultimately have "extends s0 x0 s' x (\<lambda>pos. if data_loc (pos div WFS_BLOCK_SIZE) = l then buf ! (pos mod WFS_BLOCK_SIZE) else F pos)"
    unfolding extends_def u using s'(2) same_fs_trans[OF e(2) s'(3)] e(4,5,6) by blast
  then show ?thesis using s'(1,5) by blast
qed

text \<open>One round of the write loop.\<close>

definition written :: "'d wfs \<Rightarrow> wfs_inode \<Rightarrow> (nat \<Rightarrow> u8) \<Rightarrow> nat \<Rightarrow> bytes \<Rightarrow> wfs_inode \<Rightarrow> bool \<Rightarrow> nat \<Rightarrow>
    'd wfs \<times> wfs_inode \<times> bool \<times> nat \<times> write_end \<Rightarrow> bool" where
  "written s0 x0 F off src x d n = (\<lambda>(s', x', d', c, fin). extends s0 x0 s' x' (overlay F off (take c src))
     \<and> (\<not> d' \<longrightarrow> x' = x \<and> \<not> d) \<and> n \<le> c \<and> c \<le> length src
     \<and> (fin = Loop_Done \<and> c = length src \<or> fin = Loop_Broke W_ENOSPC \<and> c < length src \<and> free_data s' = {}))"

lemma chunk_law:
  assumes ext: "extends s0 x0 s x (overlay F off (take n src))" and c: "0 < c" "c \<le> length src - n" "c \<le> WFS_BLOCK_SIZE - (off + n) mod WFS_BLOCK_SIZE"
    and pos: "off + n < max_size" and b: "loc_at (dblock s) x (data_loc ((off + n) div WFS_BLOCK_SIZE)) = b" "b \<noteq> 0"
  shows "\<exists>s1 tmp s2. (if c \<noteq> WFS_BLOCK_SIZE then block_read s b else (s, Some zero_block)) = (s1, Some tmp)
    \<and> block_write s1 b (memcpy_at tmp ((off + n) mod WFS_BLOCK_SIZE) (take c (drop n src))) = (s2, True)
    \<and> extends s0 x0 s2 x (overlay F off (take (n + c) src))"
proof -
  let ?K = WFS_BLOCK_SIZE and ?p = "off + n"
  note e = extendsD[OF ext] and l = data_loc_valid(1)[OF max_size_index[OF pos]] data_loc_valid(2)[of "?p div ?K"]
  have K: "0 < ?K" by (simp add: WFS_BLOCK_SIZE_def)
  have bN: "b < total_blocks (sb s)" using tree_ok_used[OF e(3) l(1)] b by (simp add: used_data_def)
  from block_read_quiet[OF e(1) bN] obtain t where t: "block_read s b = (t, Some (dblock s b))" "quiet s t" by blast
  define s1 where "s1 = (if c \<noteq> ?K then t else s)"
  define tmp where "tmp = (if c \<noteq> ?K then dblock s b else zero_block)"
  have first: "(if c \<noteq> ?K then block_read s b else (s, Some zero_block)) = (s1, Some tmp)"
    using t by (simp add: s1_def tmp_def)
  have ext1: "extends s0 x0 s1 x (overlay F off (take n src))"
    using ext extends_quiet[OF ext t(2)] by (simp add: s1_def)
  have at1: "loc_at (dblock s1) x (data_loc (?p div ?K)) = b"
  proof -
    have "\<forall>k \<in> file_blocks (dblock s) x. dblock t k = dblock s k" using e(3) t(2) by (auto simp: tree_ok_def used_data_def quiet_def)
    from tree_frame(1)[OF this l(1)] show ?thesis using b(1) by (simp add: s1_def)
  qed
  have lt: "length tmp = ?K" using dblock_full[OF e(1) bN] by (simp add: tmp_def zero_block_def)
  have fits: "?p mod ?K + length (take c (drop n src)) \<le> length tmp" using c lt K by (auto simp: min_def)
  let ?buf = "memcpy_at tmp (?p mod ?K) (take c (drop n src))"
  have lb: "length ?buf = ?K" using fits lt by (simp add: memcpy_at_def)
  from extends_write[OF ext1 l at1 b(2) lb] obtain s2 where s2: "block_write s1 b ?buf = (s2, True)"
    "extends s0 x0 s2 x (\<lambda>pos. if data_loc (pos div ?K) = data_loc (?p div ?K) then ?buf ! (pos mod ?K) else overlay F off (take n src) pos)"
    by blast
  have "extends s0 x0 s2 x (overlay F off (take (n + c) src))"
  proof (rule extends_cong[OF s2(2)])
    fix pos assume pm: "pos < max_size"
    show "overlay F off (take (n + c) src) pos =
      (if data_loc (pos div ?K) = data_loc (?p div ?K) then ?buf ! (pos mod ?K) else overlay F off (take n src) pos)"
    proof (cases "pos div ?K = ?p div ?K")
      case False
      then show ?thesis using overlay_other_block[OF c(3) K False] by (simp add: data_loc_inj)
    next
      case True
      let ?in = "?p mod ?K \<le> pos mod ?K \<and> pos mod ?K < ?p mod ?K + c"
      have lc: "length (take c (drop n src)) = c" using c(2) by simp
      have "pos mod ?K < length tmp" using K lt by simp
      note mn = memcpy_at_nth[OF fits this]
      have "tmp ! (pos mod ?K) = overlay F off (take n src) pos" if "\<not> ?in"
      proof -
        have "c \<noteq> ?K"
        proof
          assume "c = ?K"
          then have "?p mod ?K = 0" using c(3) K by simp
          then show False using that \<open>c = ?K\<close> K by simp
        qed
        then have "tmp ! (pos mod ?K) = file_byte (dblock s) x pos" using True b by (simp add: tmp_def file_byte_def Let_def)
        then show ?thesis using e(9)[OF pm] by simp
      qed
      then show ?thesis using overlay_block[OF c True, of F] mn lc True by auto
    qed
  qed
  then show ?thesis using first s2(1) by blast
qed

lemma write_loop_law:
  assumes "extends s0 x0 s x (overlay F off (take n src))" "off + length src \<le> max_size" "n \<le> length src"
  shows "written s0 x0 F off src x d n (wfs_write_loop s x d off src n)"
  using assms
proof (induction "length src - n" arbitrary: s x d n rule: less_induct)
  case less
  show ?case
  proof (cases "n < length src")
    case False
    then have "wfs_write_loop s x d off src n = (s, x, d, n, Loop_Done)" by (subst wfs_write_loop.simps) simp
    then show ?thesis using less.prems False by (simp add: written_def)
  next
    case True
    define pos where "pos = off + n"
    define c where "c = chunk_of (pos mod WFS_BLOCK_SIZE) (length src - n)"
    have ps: "pos < max_size" using True less.prems(2) by (simp add: pos_def)
    have wpos: "w32 (off + n) = pos" using ps by (simp add: pos_def w32_def max_size_eq(2))
    have c: "0 < c" "c \<le> length src - n" "c \<le> WFS_BLOCK_SIZE - pos mod WFS_BLOCK_SIZE"
      using chunk_of_pos[of "length src - n" pos] True by (simp_all add: c_def chunk_of_def)
    obtain t x1 d1 r where b: "bmap s x (pos div WFS_BLOCK_SIZE) True d = (t, x1, d1, r)" by (metis prod_cases4)
    note m = bmap_alloc_law[OF less.prems(1) max_size_index[OF ps], of d, unfolded b mapped_def, simplified]
    show ?thesis
    proof (cases r)
      case (Inl e)
      then have "wfs_write_loop s x d off src n = (t, x1, d1, n, Loop_Broke e)"
        using True b by (subst wfs_write_loop.simps) (simp add: Let_def wpos)
      then show ?thesis using m Inl True by (auto simp: written_def)
    next
      case (Inr blk)
      have m': "extends s0 x0 t x1 (overlay F off (take n src))" "\<not> d1 \<longrightarrow> x1 = x \<and> \<not> d" "blk \<noteq> 0"
        "loc_at (dblock t) x1 (data_loc (pos div WFS_BLOCK_SIZE)) = blk" using m Inr by auto
      from chunk_law[OF m'(1) c(1,2) c(3)[unfolded pos_def] ps[unfolded pos_def] m'(4)[unfolded pos_def] m'(3)] obtain s1 tmp s2 where
        k: "(if c \<noteq> WFS_BLOCK_SIZE then block_read t blk else (t, Some zero_block)) = (s1, Some tmp)"
          "block_write s1 blk (memcpy_at tmp (pos mod WFS_BLOCK_SIZE) (take c (drop n src))) = (s2, True)"
          "extends s0 x0 s2 x1 (overlay F off (take (n + c) src))" unfolding pos_def by blast
      have step: "wfs_write_loop s x d off src n = wfs_write_loop s2 x1 d1 off src (n + c)"
        using True b Inr k(1,2) by (subst wfs_write_loop.simps) (simp add: Let_def wpos c_def)
      have lt: "length src - (n + c) < length src - n" "n + c \<le> length src" using c True by auto
      from less.hyps[OF lt(1) k(3) less.prems(2) lt(2), of d1] show ?thesis
        unfolding step using m'(2) by (auto simp: written_def split: prod.splits)
    qed
  qed
qed

section \<open>Writing a file\<close>

text \<open>The inode as a write leaves it on the disk.\<close>

lemma loc_at_size [simp]: "loc_at D (x\<lparr>isize := n\<rparr>) l = loc_at D x l" "loc_at D (x\<lparr>mtime := m\<rparr>) l = loc_at D x l"
  by (cases l; simp)+

lemma tree_size [simp]: "file_blocks D (x\<lparr>isize := n\<rparr>) = file_blocks D x" "file_blocks D (x\<lparr>mtime := m\<rparr>) = file_blocks D x"
  "tree_ok D U (x\<lparr>isize := n\<rparr>) = tree_ok D U x" "tree_ok D U (x\<lparr>mtime := m\<rparr>) = tree_ok D U x"
  "file_byte D (x\<lparr>isize := n\<rparr>) = file_byte D x" "file_byte D (x\<lparr>mtime := m\<rparr>) = file_byte D x"
  by (simp_all add: file_blocks_def tree_ok_def file_byte_def fun_eq_iff)

text \<open>What a write leaves behind: the new inode, every other inode, and the blocks from the write loop.\<close>

definition stored :: "'d wfs \<Rightarrow> nat \<Rightarrow> 'd wfs \<Rightarrow> wfs_inode \<Rightarrow> 'd wfs \<Rightarrow> bool" where
  "stored s ino s1 x s2 \<longleftrightarrow> fs_ok good sector s2 \<and> same_fs s1 s2 \<and> free_data s2 = free_data s1
     \<and> (\<forall>i < total_inodes (sb s). inode_slot s2 i = (if i = ino then x else inode_slot s i))
     \<and> (\<forall>b < total_blocks (sb s). data_start (sb s) \<le> b \<longrightarrow> dblock s2 b = dblock s1 b)"

lemma extends_inodes:
  assumes ext: "extends s x0 s1 x F" and tr: "tree_ok (dblock s) (used_data s) x0" and ok: "fs_ok good sector s"
    and i: "i < total_inodes (sb s)"
  shows "inode_slot s1 i = inode_slot s i"
proof -
  note e = extendsD[OF ext] and b = inode_block_bounds[OF ok i]
  have "inode_block s i \<notin> free_data s" "inode_block s i \<notin> file_blocks (dblock s) x0"
    using b tr free_data_range[of "inode_block s i" s] by (auto simp: tree_ok_def used_data_def)
  then have "dblock s1 (inode_block s i) = dblock s (inode_block s i)" using b by (intro e(8)) auto
  moreover have "inode_block s1 i = inode_block s i" using same_fs_sb[OF e(2)] by (simp add: inode_block_def)
  ultimately show ?thesis by (simp add: inode_at_def)
qed

lemma store_law:
  assumes ext: "extends s x0 s1 x F" and tr: "tree_ok (dblock s) (used_data s) x0" and ok: "fs_ok good sector s"
    and ino: "0 < ino" "ino < total_inodes (sb s)" and y: "inode_fits y" and clean: "\<not> d \<Longrightarrow> y = inode_slot s ino"
  shows "stored s ino s1 y (if d then fst (write_inode s1 ino y) else s1)"
proof -
  note e = extendsD[OF ext]
  note sb = same_fs_sb[OF e(2)] and inodes = extends_inodes[OF ext tr ok]
  show ?thesis
  proof (cases d)
    case False
    then show ?thesis using inodes clean e(1) ino by (auto simp: stored_def)
  next
    case True
    from write_inode_law[OF e(1) ino(1) _ y] ino(2) sb obtain s2 where
      s2: "write_inode s1 ino y = (s2, Inr ())" "kept s1 s2" "fs_ok good sector s2"
        "\<forall>i < total_inodes (sb s). inode_slot s2 i = (if i = ino then y else inode_slot s1 i)"
        "\<forall>b < total_blocks (sb s). data_start (sb s) \<le> b \<longrightarrow> dblock s2 b = dblock s1 b" by auto
    have "same_fs s1 s2" "free_data s2 = free_data s1"
      using kept_wfs[OF s2(2)] by (simp_all add: same_fs_def free_data_def wfs_bitmap_test_def)
    then show ?thesis using True s2 inodes by (simp add: stored_def)
  qed
qed

lemma fs_invD:
  assumes "fs_inv good sector s"
  shows "fs_ok good sector s" "rtc_epoch s < 2 ^ 32" "in_use sector s i \<Longrightarrow> file_ok sector s (inode_slot s i)"
    "in_use sector s i \<Longrightarrow> in_use sector s j \<Longrightarrow> i \<noteq> j \<Longrightarrow>
       file_blocks (dblock s) (inode_slot s i) \<inter> file_blocks (dblock s) (inode_slot s j) = {}"
  using assms by (simp_all add: fs_inv_def)

lemma file_ok_fits: "file_ok sector s x \<Longrightarrow> inode_fits x" "file_ok sector s x \<Longrightarrow> tree_ok (dblock s) (used_data s) x"
  "file_ok sector s x \<Longrightarrow> isize x \<le> max_size"
  "file_ok sector s x \<Longrightarrow> \<forall>pos. isize x \<le> pos \<and> pos < max_size \<longrightarrow> file_byte (dblock s) x pos = 0"
  by (simp_all add: file_ok_def)

text \<open>The file that was written and the files that were not.\<close>

lemma stored_files:
  assumes inv: "fs_inv good sector s" and use: "in_use sector s ino" and ext: "extends s (inode_slot s ino) s1 x F"
    and st: "stored s ino s1 y s2"
  shows "used_data s2 = used_data s1" "\<And>n. n \<in> used_data s1 \<Longrightarrow> dblock s2 n = dblock s1 n"
    "\<And>i n. in_use sector s i \<Longrightarrow> i \<noteq> ino \<Longrightarrow> n \<in> file_blocks (dblock s) (inode_slot s i) \<Longrightarrow> dblock s2 n = dblock s n"
proof -
  note e = extendsD[OF ext] and S = st[unfolded stored_def]
  have sf: "same_fs s s2" using same_fs_trans[OF e(2)] S by blast
  show u: "used_data s2 = used_data s1"
    using used_data_eq[OF sf] used_data_eq[OF e(2)] S by simp
  show one: "dblock s2 n = dblock s1 n" if "n \<in> used_data s1" for n
    using S that used_data_eq[OF e(2)] by auto
  fix i n assume i: "in_use sector s i" "i \<noteq> ino" "n \<in> file_blocks (dblock s) (inode_slot s i)"
  have n: "n \<in> used_data s" using file_ok_fits(2)[OF fs_invD(3)[OF inv i(1)]] i(3) by (auto simp: tree_ok_def)
  moreover have "n \<notin> file_blocks (dblock s) (inode_slot s ino)" using fs_invD(4)[OF inv i(1) use i(2)] i(3) by blast
  moreover have "inode_start (sb s) \<le> n" using n fs_okD(2)[OF fs_invD(1)[OF inv]] by (auto simp: used_data_def layout_ok_def)
  ultimately have "dblock s1 n = dblock s n" by (intro e(8)) (auto simp: used_data_def)
  then show "dblock s2 n = dblock s n" using one[of n] n e(6) by auto
qed

definition same_tree :: "wfs_inode \<Rightarrow> wfs_inode \<Rightarrow> bool" where
  "same_tree x y \<longleftrightarrow> direct y = direct x \<and> indirect y = indirect x \<and> double_indirect y = double_indirect x"

lemma same_tree_facts:
  assumes "same_tree x y"
  shows "file_blocks D y = file_blocks D x" "tree_ok D U y = tree_ok D U x" "file_byte D y = file_byte D x"
proof -
  have "loc_at D y l = loc_at D x l" for l using assms by (cases l) (simp_all add: same_tree_def)
  then show "file_blocks D y = file_blocks D x" "tree_ok D U y = tree_ok D U x" "file_byte D y = file_byte D x"
    using assms by (simp_all add: file_blocks_def tree_ok_def file_byte_def fun_eq_iff same_tree_def)
qed

lemma stored_law:
  assumes inv: "fs_inv good sector s" and use: "in_use sector s ino" and x0: "x0 = inode_slot s ino"
    and ext: "extends s x0 s1 x (overlay (file_byte (dblock s) x0) off bs)" and st: "stored s ino s1 y s2"
    and y: "same_tree x y" "itype y = itype x" "isize y = max (isize x0) (off + length bs)" "inode_fits y"
    and fits: "off + length bs \<le> max_size"
  shows "fs_inv good sector s2 \<and> file_data sector s2 ino = write_at (file_data sector s ino) off bs
    \<and> (\<forall>i. in_use sector s2 i \<longleftrightarrow> in_use sector s i)
    \<and> (\<forall>i. in_use sector s i \<longrightarrow> i \<noteq> ino \<longrightarrow> file_data sector s2 i = file_data sector s i)"
proof -
  let ?F = "overlay (file_byte (dblock s) x0) off bs"
  note e = extendsD[OF ext] and S = st[unfolded stored_def] and ty = same_tree_facts[OF y(1)]
  note sf = stored_files[OF inv use ext[unfolded x0] st]
  have same: "same_fs s s2" using same_fs_trans[OF e(2)] S by blast
  note sb = same_fs_sb[OF same]
  have ok0: "file_ok sector s x0" using fs_invD(3)[OF inv use] x0 by simp
  have inode: "inode_slot s2 i = (if i = ino then y else inode_slot s i)" if "i < total_inodes (sb s)" for i
    using S that by blast
  have uses: "in_use sector s2 i \<longleftrightarrow> in_use sector s i" for i
    using inode[of i] y(2) e(5) x0 sb(4) by (auto simp: in_use_def split: if_splits)
  have D2: "\<forall>n \<in> file_blocks (dblock s1) x. dblock s2 n = dblock s1 n" using e(3) sf(2) by (auto simp: tree_ok_def)
  note fr = tree_frame[OF D2]
  have ty2: "tree_ok (dblock s2) (used_data s2) y"
    unfolding ty(2) sf(1) by (rule fr(3)[OF e(3)]) (use e(3) in \<open>simp add: tree_ok_def\<close>)
  have bytes: "file_byte (dblock s2) y pos = ?F pos" if "pos < max_size" for pos
    unfolding ty(3) using fr(4)[OF that] e(9)[OF that] by simp
  have zero: "?F pos = 0" if "max (isize x0) (off + length bs) \<le> pos" "pos < max_size" for pos
    using file_ok_fits(4)[OF ok0] that by (auto simp: overlay_def)
  have y_ok: "file_ok sector s2 y"
    unfolding file_ok_def using ty2 y(3,4) file_ok_fits(3)[OF ok0] fits bytes zero by simp
  have ino_i: "inode_slot s2 ino = y" "ino < total_inodes (sb s)" using inode[of ino] use by (simp_all add: in_use_def)
  have other: "inode_slot s2 i = inode_slot s i \<and> file_ok sector s2 (inode_slot s i)
      \<and> file_blocks (dblock s2) (inode_slot s i) = file_blocks (dblock s) (inode_slot s i) \<and> file_data sector s2 i = file_data sector s i"
    if i: "in_use sector s i" "i \<noteq> ino" for i
  proof -
    let ?z = "inode_slot s i"
    have oki: "file_ok sector s ?z" by (rule fs_invD(3)[OF inv i(1)])
    have "\<forall>n \<in> file_blocks (dblock s) ?z. dblock s2 n = dblock s n" using sf(3)[OF i] by blast
    note fz = tree_frame[OF this]
    have tz: "tree_ok (dblock s2) (used_data s2) ?z"
      by (rule fz(3)[OF file_ok_fits(2)[OF oki]]) (use file_ok_fits(2)[OF oki] sf(1) e(6) in \<open>auto simp: tree_ok_def\<close>)
    have eq: "inode_slot s2 i = ?z" using inode[of i] i by (simp add: in_use_def)
    moreover have "file_ok sector s2 ?z" using oki tz fz(4) by (simp add: file_ok_def)
    moreover have "file_data sector s2 i = file_data sector s i"
      unfolding file_data_def eq using fz(4) file_ok_fits(3)[OF oki] by simp
    ultimately show ?thesis using fz(2) by blast
  qed
  have fby: "file_blocks (dblock s2) y = file_blocks (dblock s) x0 \<union> (used_data s1 - used_data s)"
    using fr(2) ty(1) e(7) by simp
  have apart: "file_blocks (dblock s2) y \<inter> file_blocks (dblock s) (inode_slot s i) = {}" if i: "in_use sector s i" "i \<noteq> ino" for i
  proof -
    have "file_blocks (dblock s) (inode_slot s i) \<subseteq> used_data s"
      using file_ok_fits(2)[OF fs_invD(3)[OF inv i(1)]] by (simp add: tree_ok_def)
    then show ?thesis unfolding fby using fs_invD(4)[OF inv use i(1)] i(2) x0 by blast
  qed
  have "fs_inv good sector s2"
  proof -
    have "file_ok sector s2 (inode_slot s2 i)" if "in_use sector s i" for i
      using other[OF that] y_ok ino_i(1) by (cases "i = ino") auto
    moreover have "file_blocks (dblock s2) (inode_slot s2 i) \<inter> file_blocks (dblock s2) (inode_slot s2 j) = {}"
      if ij: "in_use sector s i" "in_use sector s j" "i \<noteq> j" for i j
    proof (cases "i = ino \<or> j = ino")
      case True
      then show ?thesis using ij other[OF ij(1)] other[OF ij(2)] apart[OF ij(1)] apart[OF ij(2)] ino_i(1) by auto
    next
      case False
      then show ?thesis using other[OF ij(1)] other[OF ij(2)] fs_invD(4)[OF inv ij] by auto
    qed
    ultimately show ?thesis using S same fs_invD(2)[OF inv] unfolding fs_inv_def uses by (simp add: same_fs_def)
  qed
  moreover have "file_data sector s2 ino = write_at (file_data sector s ino) off bs"
  proof -
    have "file_data sector s2 ino = map ?F [0..<max (isize x0) (off + length bs)]"
      unfolding file_data_def ino_i(1) y(3) using bytes file_ok_fits(3)[OF ok0] fits by simp
    then show ?thesis using overlay_write_at[OF file_ok_fits(4)[OF ok0] file_ok_fits(3)[OF ok0] fits] x0 by (simp add: file_data_def)
  qed
  ultimately show ?thesis using uses other by blast
qed

lemma wfs_write_law:
  assumes inv: "fs_inv good sector s" and use: "in_use sector s ino" and fits: "off + length src \<le> max_size"
  shows "\<exists>s' c. wfs_write s ino off src = (s', if c = 0 \<and> src \<noteq> [] then Inl W_ENOSPC else Inr c)
    \<and> c \<le> length src \<and> (c < length src \<longrightarrow> free_data s' = {}) \<and> fs_inv good sector s'
    \<and> file_data sector s' ino = write_at (file_data sector s ino) off (take c src)
    \<and> (\<forall>i. in_use sector s' i \<longleftrightarrow> in_use sector s i)
    \<and> (\<forall>i. in_use sector s i \<longrightarrow> i \<noteq> ino \<longrightarrow> file_data sector s' i = file_data sector s i)"
proof -
  let ?x0 = "inode_slot s ino"
  have ino: "0 < ino" "ino < total_inodes (sb s)" using use by (simp_all add: in_use_def)
  note ok = fs_invD(1)[OF inv] and fok = fs_invD(3)[OF inv use]
  from read_inode_law[OF ok ino] obtain t where t: "wfs_read_inode s ino = (t, Inr ?x0)" "quiet s t" by blast
  have "extends s ?x0 t ?x0 (overlay (file_byte (dblock s) ?x0) off (take 0 src))"
    using extends_quiet[OF extends_start[OF ok file_ok_fits(2,1)[OF fok]] t(2)] by simp
  note w = write_loop_law[OF this fits, of False]
  obtain s1 x d c fin where run: "wfs_write_loop t ?x0 False off src 0 = (s1, x, d, c, fin)" by (metis prod_cases5)
  have w: "extends s ?x0 s1 x (overlay (file_byte (dblock s) ?x0) off (take c src))" "\<not> d \<Longrightarrow> x = ?x0" "c \<le> length src"
    "fin = Loop_Done \<and> c = length src \<or> fin = Loop_Broke W_ENOSPC \<and> c < length src \<and> free_data s1 = {}"
    using w run by (auto simp: written_def)
  note e = extendsD[OF w(1)]
  have small: "w32 (off + length src) = off + length src" "w32 (off + c) = off + c"
    using fits w(3) by (simp_all add: w32_def max_size_eq(2))
  let ?x1 = "if off + c > isize x then x\<lparr>isize := off + c\<rparr> else x" and ?d1 = "off + c > isize x \<or> d"
  let ?y = "if c > 0 then ?x1\<lparr>mtime := rtc_epoch s1\<rparr> else ?x1" and ?d = "c > 0 \<or> off + c > isize x \<or> d"
  define s2 where "s2 = (if ?d then fst (write_inode s1 ino ?y) else s1)"
  have result: "wfs_write s ino off src = (s2, if c = 0 \<and> src \<noteq> [] then Inl W_ENOSPC else Inr c)"
    using w(4) t(1) run small fits
    by (auto simp: wfs_write_def max_size_eq(1)[symmetric] s2_def Let_def)
  have rt: "rtc_epoch s1 < 2 ^ 32" using e(2) fs_invD(2)[OF inv] by (simp add: same_fs_def)
  have szf: "off + c < 2 ^ 32" using fits w(3) by (simp add: max_size_eq(2))
  have fy: "inode_fits ?y" using e(4) rt szf by (auto simp: inode_fits_def)
  have clean: "\<not> ?d \<Longrightarrow> ?y = ?x0" using w(2) by auto
  have st: "stored s ino s1 ?y s2"
    unfolding s2_def by (rule store_law[OF w(1) file_ok_fits(2)[OF fok] ok ino fy clean])
  have "isize ?y = max (isize ?x0) (off + length (take c src))" using e(5) w(3) by (auto simp: max_def)
  from stored_law[OF inv use refl w(1) st _ _ this fy] fits w(3) have
    fin: "fs_inv good sector s2 \<and> file_data sector s2 ino = write_at (file_data sector s ino) off (take c src)
    \<and> (\<forall>i. in_use sector s2 i \<longleftrightarrow> in_use sector s i)
    \<and> (\<forall>i. in_use sector s i \<longrightarrow> i \<noteq> ino \<longrightarrow> file_data sector s2 i = file_data sector s i)"
    by (auto simp: same_tree_def)
  have "c < length src \<longrightarrow> free_data s2 = {}" using w(4) st by (auto simp: stored_def)
  then show ?thesis using result w(3) fin by blast
qed

lemma bmap_beyond:
  assumes "max_blocks \<le> index"
  shows "bmap s x index alloc d = (s, x, d, Inl W_EFBIG)"
proof -
  have c: "WFS_PTRS_PER_BLOCK = 256" "WFS_DIRECT = 10" "WFS_DOUBLE_BLOCKS = 65536"
    by (simp_all add: WFS_DIRECT_def WFS_PTRS_PER_BLOCK_def WFS_BLOCK_SIZE_def WFS_DOUBLE_BLOCKS_def)
  have "\<not> index < 10" "\<not> index - 10 < 256" "65536 \<le> index - 10 - 256" using assms by (simp_all add: max_blocks_def)
  then show ?thesis unfolding bmap_def c Let_def by simp
qed

lemma wfs_write_wrap_law:
  assumes inv: "fs_inv good sector s" and use: "in_use sector s ino" and off: "max_size < off" "off < 2 ^ 32"
    and wrap: "2 ^ 32 \<le> off + length src" "off + length src \<le> 2 ^ 32 + max_size"
  shows "\<exists>s'. wfs_write s ino off src = (s', Inl W_EFBIG) \<and> isize (inode_slot s' ino) = off \<and> \<not> fs_inv good sector s'"
proof -
  let ?x = "inode_slot s ino"
  have ino: "0 < ino" "ino < total_inodes (sb s)" using use by (simp_all add: in_use_def)
  note ok = fs_invD(1)[OF inv] and fok = fs_invD(3)[OF inv use]
  from read_inode_law[OF ok ino] obtain t where t: "wfs_read_inode s ino = (t, Inr ?x)" "quiet s t" by blast
  have "max_blocks \<le> off div WFS_BLOCK_SIZE" using off(1) by (simp add: max_size_def WFS_BLOCK_SIZE_def)
  then have "bmap t ?x (off div WFS_BLOCK_SIZE) True False = (t, ?x, False, Inl W_EFBIG)" by (rule bmap_beyond)
  moreover have "src \<noteq> []" using off(2) wrap(1) by auto
  ultimately have loop: "wfs_write_loop t ?x False off src 0 = (t, ?x, False, 0, Loop_Broke W_EFBIG)"
    using off(2) by (subst wfs_write_loop.simps) (simp add: Let_def)
  have small: "w32 (off + length src) \<le> WFS_MAX_FILE_SIZE"
  proof -
    have "w32 (off + length src) = off + length src - 2 ^ 32"
      using off(2) wrap(2) wrap(1) by (simp add: w32_def mod_if max_size_eq(2))
    then show ?thesis using wrap unfolding max_size_eq(1)[symmetric] by simp
  qed
  have bigger: "isize ?x < off" using file_ok_fits(3)[OF fok] off(1) by linarith
  have fy: "inode_fits (?x\<lparr>isize := off\<rparr>)" using file_ok_fits(1)[OF fok] off(2) by (simp add: inode_fits_def)
  have sbt: "sb t = sb s" using t(2) kept_wfs(1)[of s t] by (simp add: quiet_def)
  from write_inode_law[OF quiet_fs_ok[OF ok t(2)] ino(1) _ fy] ino(2) sbt obtain s' where
    s': "write_inode t ino (?x\<lparr>isize := off\<rparr>) = (s', Inr ())" "inode_slot s' ino = ?x\<lparr>isize := off\<rparr>" "kept t s'" by auto
  have "wfs_write s ino off src = (s', Inl W_EFBIG)"
    using t(1) loop small bigger off(2) s'(1) \<open>src \<noteq> []\<close> by (simp add: wfs_write_def)
  moreover have "in_use sector s' ino" using use s'(2) kept_wfs(1)[OF s'(3)] sbt by (simp add: in_use_def)
  then have "\<not> fs_inv good sector s'"
    using file_ok_fits(3)[OF fs_invD(3)] s'(2) off(1) by fastforce
  ultimately show ?thesis using s'(2) by (intro exI[of _ s']) simp
qed

text \<open>A new, empty file.\<close>

lemma empty_file:
  assumes "ty < 2 ^ 16" "m < 2 ^ 32"
  shows "file_ok sector s (zero_inode\<lparr>itype := ty, links := 1, mtime := m\<rparr>)"
    "file_blocks D (zero_inode\<lparr>itype := ty, links := 1, mtime := m\<rparr>) = {}"
proof -
  let ?x = "zero_inode\<lparr>itype := ty, links := 1, mtime := m\<rparr>"
  have z: "loc_at D ?x l = 0" if "loc_valid l" for D l
    using that by (cases l) (simp_all add: zero_inode_def WFS_DIRECT_def)
  then show b: "file_blocks D ?x = {}" for D by (auto simp: file_blocks_def)
  have "file_byte D ?x pos = 0" if "pos < max_size" for D pos
    using z[OF data_loc_valid(1)[OF max_size_index[OF that]]] by (simp add: file_byte_def)
  moreover have "tree_ok D U ?x" for D U
  proof -
    have "length (direct ?x) = 10" by (simp add: zero_inode_def WFS_DIRECT_def)
    then show ?thesis using z b unfolding tree_ok_def by (metis empty_subsetI)
  qed
  moreover have "inode_fits ?x" using assms by (simp add: inode_fits_def zero_inode_def)
  ultimately show "file_ok sector s ?x" by (simp add: file_ok_def zero_inode_def)
qed

end

section \<open>The properties\<close>

text \<open>C2. On a consistent volume a write of bytes at an offset of a file changes the contents of that file
  exactly there, filling with zeros what lies between its old end and the offset; the contents of every
  other file stay what they were and the volume stays consistent.  All bytes are written unless the
  volume is full, the count returned is the number written, and where none could be written the call
  fails for lack of space.\<close>

theorem wfs_write_correct:
  assumes "wfs_device good sector" "fs_inv good sector s" "in_use sector s ino" "off + length src \<le> WFS_MAX_FILE_SIZE"
  shows "\<exists>s' c. wfs_write s ino off src = (s', if c = 0 \<and> src \<noteq> [] then Inl W_ENOSPC else Inr c)
    \<and> c \<le> length src \<and> (c < length src \<longrightarrow> free_data s' = {}) \<and> fs_inv good sector s'
    \<and> file_data sector s' ino = write_at (file_data sector s ino) off (take c src)
    \<and> (\<forall>i. in_use sector s' i \<longleftrightarrow> in_use sector s i)
    \<and> (\<forall>i. in_use sector s i \<longrightarrow> i \<noteq> ino \<longrightarrow> file_data sector s' i = file_data sector s i)"
  by (rule wfs_device.wfs_write_law[OF assms(1-3)]) (use assms(4) in \<open>simp add: max_size_eq(1)\<close>)

text \<open>C9. On a consistent volume a read returns exactly the bytes of the file in the range asked for, cut off
  at its end, and changes neither the contents of a file nor the consistency of the volume.\<close>

theorem wfs_read_correct:
  assumes "wfs_device good sector" "fs_inv good sector s" "in_use sector s ino" "off + len < 2 ^ 32"
  shows "\<exists>s'. wfs_read s ino off len = (s', Inr (take len (drop off (file_data sector s ino))))
    \<and> fs_ok good sector s' \<and> sb s' = sb s \<and> block_bitmap s' = block_bitmap s
    \<and> (\<forall>b < total_blocks (sb s). disk_block sector s' b = disk_block sector s b)"
proof -
  note d = wfs_device.fs_invD[OF assms(1,2)]
  from assms(3) have ino: "0 < ino" "ino < total_inodes (sb s)" by (simp_all add: in_use_def)
  from wfs_device.wfs_read_law[OF assms(1) d(1) ino d(3)[OF assms(3)] assms(4)] obtain s' where
    s': "wfs_read s ino off len = (s', Inr (take len (drop off (file_data sector s ino))))" "wfs_device.quiet good sector s s'" by blast
  then show ?thesis
    using wfs_device.quiet_fs_ok[OF assms(1) d(1) s'(2)] wfs_device.kept_wfs[OF assms(1), of s s']
    by (simp add: wfs_device.quiet_def[OF assms(1)])
qed

text \<open>The limit on the size of a file is tested on a sum that wraps: a write that starts beyond the largest
  offset and ends past the end of the 32-bit range fails, but leaves the file with the offset as its size,
  which no file can have.\<close>

theorem wfs_write_wraps:
  assumes "wfs_device good sector" "fs_inv good sector s" "in_use sector s ino"
    and "WFS_MAX_FILE_SIZE < off" "off < 2 ^ 32" "2 ^ 32 \<le> off + length src" "off + length src \<le> 2 ^ 32 + WFS_MAX_FILE_SIZE"
  shows "\<exists>s'. wfs_write s ino off src = (s', Inl W_EFBIG) \<and> isize (inode_at sector s' ino) = off \<and> \<not> fs_inv good sector s'"
  by (rule wfs_device.wfs_write_wrap_law[OF assms(1-3)]) (use assms(4-) in \<open>simp_all add: max_size_eq(1)\<close>)

text \<open>One empty file on the volume of sixteen blocks.\<close>

definition demo_file :: wfs_inode where
  "demo_file = zero_inode\<lparr>itype := WFS_TYPE_FILE, links := 1, mtime := 7\<rparr>"

definition demo_file_fs :: "unit wfs" where
  "demo_file_fs = fst (write_inode demo_fs 1 demo_file)"

lemma demo_file_ok: "inode_fits demo_file" "file_ok ram_sector s demo_file" "isize demo_file = 0" "itype demo_file \<noteq> WFS_TYPE_FREE"
  unfolding demo_file_def using rd.empty_file(1)[of WFS_TYPE_FILE 7 s]
  by (simp_all add: file_ok_def WFS_TYPE_FILE_def WFS_TYPE_FREE_def zero_inode_def)

lemma demo_file_fs_facts:
  "fs_ok ram_good ram_sector demo_file_fs" "sb demo_file_fs = demo_sb" "rtc_epoch demo_file_fs = 7"
  "\<And>j. j < 16 \<Longrightarrow> inode_at ram_sector demo_file_fs j = (if j = 1 then demo_file else zero_inode)"
  "free_data demo_file_fs = {3..<16}"
proof -
  from rd.write_inode_law[OF demo_fs_ok, of 1 demo_file] demo_file_ok(1) demo_inode obtain s' where
    s': "write_inode demo_fs 1 demo_file = (s', Inr ())" "rd.kept demo_fs s'" "fs_ok ram_good ram_sector s'"
      "\<And>j. j < 16 \<Longrightarrow> inode_at ram_sector s' j = (if j = 1 then demo_file else zero_inode)"
    by (auto simp: demo_fs_fields demo_sb_def)
  have "demo_file_fs = s'" using s'(1) by (simp add: demo_file_fs_def)
  then show "fs_ok ram_good ram_sector demo_file_fs" "sb demo_file_fs = demo_sb" "rtc_epoch demo_file_fs = 7"
    "\<And>j. j < 16 \<Longrightarrow> inode_at ram_sector demo_file_fs j = (if j = 1 then demo_file else zero_inode)" "free_data demo_file_fs = {3..<16}"
    using s'(3,4) rd.kept_wfs[OF s'(2)] demo_fs_fields by (simp_all add: free_data_def wfs_bitmap_test_def)
qed

lemma demo_file_in_use: "in_use ram_sector demo_file_fs i \<longleftrightarrow> i = 1"
  using demo_file_fs_facts(2) demo_file_fs_facts(4)[of i] demo_file_ok(4)
  by (auto simp: in_use_def demo_sb_def zero_inode_def WFS_TYPE_FREE_def split: if_splits)

lemma demo_file_fs_inv: "fs_inv ram_good ram_sector demo_file_fs"
  using demo_file_fs_facts demo_file_ok(2) unfolding fs_inv_def demo_file_in_use by simp

lemma demo_file_data: "file_data ram_sector demo_file_fs (Suc 0) = []"
  using demo_file_fs_facts(4)[of 1] demo_file_ok(3) by (simp add: file_data_def)

text \<open>Bytes written at the third position of the empty file, and an empty read.\<close>

theorem wfs_write_correct_witness:
  "\<exists>s' c. wfs_write demo_file_fs 1 2 [5, 6] = (s', if c = 0 then Inl W_ENOSPC else Inr c) \<and> fs_inv ram_good ram_sector s'
    \<and> (c < 2 \<longrightarrow> free_data s' = {}) \<and> file_data ram_sector s' 1 = [0, 0] @ take c [5, 6]"
proof -
  have "in_use ram_sector demo_file_fs 1" by (simp add: demo_file_in_use)
  moreover have "2 + length [5, 6 :: u8] \<le> WFS_MAX_FILE_SIZE" unfolding max_size_eq(1)[symmetric] max_size_eq(2) by simp
  ultimately obtain s' c where
    "wfs_write demo_file_fs 1 2 [5, 6] = (s', if c = 0 \<and> [5, 6 :: u8] \<noteq> [] then Inl W_ENOSPC else Inr c)" "fs_inv ram_good ram_sector s'"
    "c < length [5, 6 :: u8] \<longrightarrow> free_data s' = {}"
    "file_data ram_sector s' 1 = write_at (file_data ram_sector demo_file_fs 1) 2 (take c [5, 6])"
    using wfs_write_correct[OF rd.wfs_device_axioms demo_file_fs_inv, of 1 2 "[5, 6]"] by metis
  then show ?thesis by (intro exI[of _ s'] exI[of _ c]) (simp add: demo_file_data write_at_def numeral_2_eq_2)
qed

theorem wfs_read_correct_witness: "\<exists>s'. wfs_read demo_file_fs 1 0 10 = (s', Inr []) \<and> sb s' = demo_sb"
proof -
  have "in_use ram_sector demo_file_fs 1" by (simp add: demo_file_in_use)
  from wfs_read_correct[OF rd.wfs_device_axioms demo_file_fs_inv this, of 0 10] show ?thesis
    by (auto simp: demo_file_data demo_file_fs_facts(2))
qed

theorem wfs_write_wraps_witness:
  "\<exists>s'. wfs_write demo_file_fs 1 (2 ^ 32 - 1) [5, 6] = (s', Inl W_EFBIG) \<and> isize (inode_at ram_sector s' 1) = 2 ^ 32 - 1"
proof -
  have "in_use ram_sector demo_file_fs 1" by (simp add: demo_file_in_use)
  moreover have "WFS_MAX_FILE_SIZE < 2 ^ 32 - 1" "(2 :: nat) ^ 32 - 1 < 2 ^ 32" "2 ^ 32 \<le> 2 ^ 32 - 1 + length [5, 6 :: u8]"
    "2 ^ 32 - 1 + length [5, 6 :: u8] \<le> 2 ^ 32 + WFS_MAX_FILE_SIZE"
    unfolding max_size_eq(1)[symmetric] max_size_eq(2) by simp_all
  ultimately show ?thesis using wfs_write_wraps[OF rd.wfs_device_axioms demo_file_fs_inv] by blast
qed

end
