(* ===== verification/Sched.thy ===== *)
theory Sched
  imports Paging_Space
begin

text \<open>
  The scheduler, \<^verbatim>\<open>kernel/proc/sched.c\<close>, with the structures of \<^verbatim>\<open>kernel/include/proc.h\<close> it works on.

  Threads are the entries of a fixed table, so a pointer to one is its index; the run queue is the ring
  their \<open>t_next\<close> links form.  What differs between processors is the pair of the thread one is running
  and the thread it idles in.  Switching stacks is the change of \<open>current\<close>: the model is in the thread the
  processor runs next once \<open>schedule\<close> returns.  The state of the page tables is part of the
  state, since \<open>schedule\<close> loads the address space of the thread it picks.  The loops of the code that
  follow links until they are back at the start are partial functions; on a ring they are shown to
  return.
\<close>

section \<open>Threads and processes\<close>

datatype thread_state = THREAD_UNUSED | THREAD_READY | THREAD_RUNNING | THREAD_BLOCKED | THREAD_ZOMBIE

datatype wait_reason = WAIT_NONE | WAIT_INPUT | WAIT_CHILD | WAIT_PIPE | WAIT_TIME | WAIT_SOCKET

datatype proc_ref = Kernel_Proc | Slot nat

record thread =
  tid :: int
  t_proc :: "proc_ref option"
  t_state :: thread_state
  t_reason :: wait_reason
  kernel_stack :: u64
  kernel_stack_size :: u64
  t_rsp :: u64
  user_entry :: u64
  user_stack :: u64
  is_idle :: bool
  t_ticks :: u64
  wake_at :: u32
  t_next :: "nat option"

record 'f process =
  pid :: int
  p_name :: "u8 list"
  p_used :: bool
  p_space :: u64
  cwd :: "u8 list"
  fds :: 'f
  p_uid :: u32
  seat :: bool
  seat_pending :: bool
  term_rows :: u32
  term_cols :: u32
  own_terminal :: bool
  p_ticks :: u64
  code_bytes :: u64
  data_bytes :: u64
  stack_bytes :: u64
  heap_start :: u64
  heap_break :: u64
  p_parent :: "proc_ref option"
  exited :: bool
  killed :: bool
  exit_status :: int
  p_thread :: "nat option"
  thread_count :: int

definition MAX_THREADS :: nat where "MAX_THREADS = 64"
definition MAX_PROCESSES :: nat where "MAX_PROCESSES = 32"

record cpu =
  cpu_current :: "nat option"
  cpu_idle :: "nat option"
  tss_rsp0 :: u64

record 'f kernel =
  threads :: "nat \<Rightarrow> thread"
  processes :: "nat \<Rightarrow> 'f process"
  kernel_proc :: "'f process"
  next_pid :: int
  next_tid :: int
  run_queue :: "nat option"
  sched_active :: bool
  cpus :: "cpu list"
  ticks :: u32
  pages :: paging

definition set_thread :: "nat \<Rightarrow> (thread \<Rightarrow> thread) \<Rightarrow> 'f kernel \<Rightarrow> 'f kernel" where
  "set_thread t f s = s\<lparr>threads := (threads s)(t := f (threads s t))\<rparr>"

definition proc_at :: "'f kernel \<Rightarrow> proc_ref \<Rightarrow> 'f process" where
  "proc_at s p = (case p of Kernel_Proc \<Rightarrow> kernel_proc s | Slot i \<Rightarrow> processes s i)"

definition set_proc :: "proc_ref \<Rightarrow> ('f process \<Rightarrow> 'f process) \<Rightarrow> 'f kernel \<Rightarrow> 'f kernel" where
  "set_proc p f s =
     (case p of Kernel_Proc \<Rightarrow> s\<lparr>kernel_proc := f (kernel_proc s)\<rparr>
      | Slot i \<Rightarrow> s\<lparr>processes := (processes s)(i := f (processes s i))\<rparr>)"

definition smp_this :: "'f kernel \<Rightarrow> cpu" where
  "smp_this s = cpus s ! this_cpu (pages s)"

definition set_this_cpu :: "(cpu \<Rightarrow> cpu) \<Rightarrow> 'f kernel \<Rightarrow> 'f kernel" where
  "set_this_cpu f s = s\<lparr>cpus := (cpus s)[this_cpu (pages s) := f (smp_this s)]\<rparr>"

section \<open>The run queue\<close>

definition sched_current_thread :: "'f kernel \<Rightarrow> nat option" where
  "sched_current_thread s = cpu_current (smp_this s)"

definition sched_current_is_idle :: "'f kernel \<Rightarrow> bool" where
  "sched_current_is_idle s \<longleftrightarrow>
     sched_active s \<and> cpu_current (smp_this s) \<noteq> None \<and> cpu_current (smp_this s) = cpu_idle (smp_this s)"

definition sched_add :: "nat \<Rightarrow> 'f kernel \<Rightarrow> 'f kernel" where
  "sched_add t s =
     (case run_queue s of
        None \<Rightarrow> (set_thread t (t_next_update (\<lambda>_. Some t)) s)\<lparr>run_queue := Some t\<rparr>
      | Some q \<Rightarrow>
          set_thread q (t_next_update (\<lambda>_. Some t)) (set_thread t (t_next_update (\<lambda>_. t_next (threads s q))) s))"

text \<open>The loop of \<open>sched_remove\<close>.  Following a null link is no value.\<close>

partial_function (option) remove_loop :: "nat \<Rightarrow> nat \<Rightarrow> nat \<Rightarrow> 'f kernel \<Rightarrow> 'f kernel option" where
  "remove_loop t q prev s =
     (if t_next (threads s prev) = Some t
      then
        (let s = set_thread prev (t_next_update (\<lambda>_. t_next (threads s t))) s;
             s = (if run_queue s = Some t
                  then s\<lparr>run_queue := (if t_next (threads s t) = Some t then None else t_next (threads s t))\<rparr> else s)
         in Some (set_thread t (t_next_update (\<lambda>_. None)) s))
      else
        (case t_next (threads s prev) of
           None \<Rightarrow> None
         | Some n \<Rightarrow> if n = q then Some s else remove_loop t q n s))"

definition sched_remove :: "nat \<Rightarrow> 'f kernel \<Rightarrow> 'f kernel option" where
  "sched_remove t s = (case run_queue s of None \<Rightarrow> Some s | Some q \<Rightarrow> remove_loop t q q s)"

definition sched_adopt_idle :: "nat \<Rightarrow> 'f kernel \<Rightarrow> 'f kernel" where
  "sched_adopt_idle idle s =
     sched_add idle
       (set_thread idle (\<lambda>t. t\<lparr>t_state := THREAD_RUNNING, is_idle := True\<rparr>)
         (set_this_cpu (\<lambda>c. c\<lparr>cpu_idle := Some idle, cpu_current := Some idle\<rparr>) s))"

definition sched_init :: "nat \<Rightarrow> 'f kernel \<Rightarrow> 'f kernel" where
  "sched_init idle s = (sched_adopt_idle idle s)\<lparr>sched_active := True\<rparr>"

section \<open>Choosing a thread\<close>

fun pick_loop :: "'f kernel \<Rightarrow> nat option \<Rightarrow> nat \<Rightarrow> nat \<Rightarrow> nat option" where
  "pick_loop s from t 0 = cpu_idle (smp_this s)"
| "pick_loop s from t (Suc n) =
     (if \<not> is_idle (threads s t) \<and> t_state (threads s t) = THREAD_READY then Some t
      else if Some t = from \<and> t_state (threads s t) = THREAD_RUNNING then Some t
      else pick_loop s from (case t_next (threads s t) of None \<Rightarrow> the (run_queue s) | Some n \<Rightarrow> n) n)"

definition pick_next :: "'f kernel \<Rightarrow> nat option \<Rightarrow> nat option" where
  "pick_next s from =
     (case run_queue s of
        None \<Rightarrow> cpu_idle (smp_this s)
      | Some q \<Rightarrow>
          (let t = (case from of None \<Rightarrow> q | Some f \<Rightarrow> (case t_next (threads s f) of None \<Rightarrow> q | Some n \<Rightarrow> n))
           in pick_loop s from t (MAX_THREADS + 1)))"

text \<open>The address space a thread runs in.\<close>

definition thread_space :: "'f kernel \<Rightarrow> nat \<Rightarrow> u64" where
  "thread_space s t =
     (case t_proc (threads s t) of
        None \<Rightarrow> kernel_space (pages s)
      | Some p \<Rightarrow> if p_space (proc_at s p) \<noteq> 0 then p_space (proc_at s p) else kernel_space (pages s))"

text \<open>Leaving one thread for another.\<close>

definition switch_to :: "nat \<Rightarrow> nat \<Rightarrow> 'f kernel \<Rightarrow> 'f kernel" where
  "switch_to prev nxt s =
     (let s = (if t_state (threads s prev) = THREAD_RUNNING
               then set_thread prev (t_state_update (\<lambda>_. THREAD_READY)) s else s);
          s = set_thread nxt (t_state_update (\<lambda>_. THREAD_RUNNING)) s;
          s = set_this_cpu (\<lambda>c. c\<lparr>cpu_current := Some nxt,
                tss_rsp0 := kernel_stack (threads s nxt) + kernel_stack_size (threads s nxt)\<rparr>) s
      in s\<lparr>pages := paging_switch (pages s) (thread_space s nxt)\<rparr>)"

text \<open>The current and the idle thread of a processor that has joined are never null; \<open>None\<close> stands for
  following a null pointer.\<close>

definition schedule :: "'f kernel \<Rightarrow> 'f kernel option" where
  "schedule s =
     (if \<not> sched_active s then Some s
      else
        (case cpu_current (smp_this s) of
           None \<Rightarrow> None
         | Some prev \<Rightarrow>
             (case pick_next s (Some prev) of
                None \<Rightarrow> None
              | Some nxt \<Rightarrow>
                  if nxt = prev
                  then
                    (if t_state (threads s prev) = THREAD_RUNNING then Some s
                     else
                       (case cpu_idle (smp_this s) of
                          None \<Rightarrow> None
                        | Some idle \<Rightarrow> if idle = prev then Some s else Some (switch_to prev idle s)))
                  else Some (switch_to prev nxt s))))"

definition sched_yield :: "'f kernel \<Rightarrow> 'f kernel option" where
  "sched_yield s = schedule s"

section \<open>Waiting and waking\<close>

text \<open>Blocking, up to the switch to another thread: what follows the call of \<open>schedule\<close> in the code, leaving by
  \<open>proc_exit\<close> when \<open>proc_should_exit\<close> holds, happens in the blocked thread when it is picked again, as a step of
  its own.  Before the scheduler is active the calls only let time pass.\<close>

definition block_current :: "wait_reason \<Rightarrow> u32 \<Rightarrow> 'f kernel \<Rightarrow> 'f kernel option" where
  "block_current reason until s =
     (case cpu_current (smp_this s) of
        None \<Rightarrow> None
      | Some t \<Rightarrow> schedule (set_thread t (\<lambda>x. x\<lparr>t_state := THREAD_BLOCKED, t_reason := reason, wake_at := until\<rparr>) s))"

definition sched_block :: "wait_reason \<Rightarrow> 'f kernel \<Rightarrow> 'f kernel option" where
  "sched_block reason s = (if \<not> sched_active s then Some s else block_current reason 0 s)"

definition sched_block_until :: "wait_reason \<Rightarrow> u32 \<Rightarrow> 'f kernel \<Rightarrow> 'f kernel option" where
  "sched_block_until reason until_tick s =
     (if \<not> sched_active s then Some s
      else block_current reason (if until_tick \<noteq> 0 then until_tick else 1) s)"

definition sched_sleep_until :: "u32 \<Rightarrow> 'f kernel \<Rightarrow> 'f kernel option" where
  "sched_sleep_until until_tick s = sched_block_until WAIT_TIME until_tick s"

definition proc_current :: "'f kernel \<Rightarrow> proc_ref option" where
  "proc_current s = (case sched_current_thread s of None \<Rightarrow> Some Kernel_Proc | Some t \<Rightarrow> t_proc (threads s t))"

definition proc_should_exit :: "'f kernel \<Rightarrow> bool" where
  "proc_should_exit s =
     (case proc_current s of None \<Rightarrow> False | Some p \<Rightarrow> killed (proc_at s p) \<and> \<not> exited (proc_at s p))"

text \<open>A loop over the ring that changes threads one by one.\<close>

partial_function (option) over_queue :: "(thread \<Rightarrow> thread) \<Rightarrow> nat \<Rightarrow> nat \<Rightarrow> 'f kernel \<Rightarrow> 'f kernel option" where
  "over_queue f q t s =
     (let s = set_thread t f s
      in case t_next (threads s t) of
           None \<Rightarrow> None
         | Some n \<Rightarrow> if n = q then Some s else over_queue f q n s)"

definition wake_if :: "(thread \<Rightarrow> bool) \<Rightarrow> thread \<Rightarrow> thread" where
  "wake_if due t = (if t_state t = THREAD_BLOCKED \<and> due t then t\<lparr>t_state := THREAD_READY, t_reason := WAIT_NONE\<rparr> else t)"

definition sched_wake :: "wait_reason \<Rightarrow> 'f kernel \<Rightarrow> 'f kernel option" where
  "sched_wake reason s =
     (case run_queue s of None \<Rightarrow> Some s | Some q \<Rightarrow> over_queue (wake_if (\<lambda>t. t_reason t = reason)) q q s)"

definition wake_expired :: "u32 \<Rightarrow> 'f kernel \<Rightarrow> 'f kernel option" where
  "wake_expired now s =
     (case run_queue s of
        None \<Rightarrow> Some s
      | Some q \<Rightarrow> over_queue (wake_if (\<lambda>t. wake_at t \<noteq> 0 \<and> sint (now - wake_at t) \<ge> 0)) q q s)"

text \<open>The tick of the timer, up to the point where a process that was asked to stop leaves
  (\<open>Inl\<close>), or else with the next thread chosen (\<open>Inr\<close>).\<close>

definition charge_tick :: "'f kernel \<Rightarrow> 'f kernel" where
  "charge_tick s =
     (case sched_current_thread s of
        None \<Rightarrow> s
      | Some t \<Rightarrow>
          (let s = set_thread t (\<lambda>x. x\<lparr>t_ticks := t_ticks x + 1\<rparr>) s
           in case t_proc (threads s t) of None \<Rightarrow> s | Some p \<Rightarrow> set_proc p (\<lambda>x. x\<lparr>p_ticks := p_ticks x + 1\<rparr>) s))"

definition sched_tick :: "bool \<Rightarrow> 'f kernel \<Rightarrow> ('f kernel + 'f kernel) option" where
  "sched_tick from_user s =
     (if \<not> sched_active s then Some (Inr s)
      else
        (case wake_expired (ticks s) (charge_tick s) of
           None \<Rightarrow> None
         | Some s \<Rightarrow>
             if from_user \<and> proc_should_exit s then Some (Inl s) else map_option Inr (schedule s)))"

section \<open>Rings\<close>

fun chain :: "(nat \<Rightarrow> nat option) \<Rightarrow> nat list \<Rightarrow> bool" where
  "chain f (a # b # xs) = (f a = Some b \<and> chain f (b # xs))"
| "chain f _ = True"

lemma chain_split: "chain f (xs @ a # ys) \<longleftrightarrow> chain f (xs @ [a]) \<and> chain f (a # ys)"
proof (induction xs)
  case (Cons x xs)
  then show ?case by (cases xs) auto
qed simp

lemma chain_upd: "t \<notin> set xs \<Longrightarrow> chain (f(t := v)) (xs @ [a]) = chain f (xs @ [a])"
proof (induction xs)
  case (Cons x xs)
  then show ?case by (cases xs) auto
qed simp

lemma chain_head: "chain f (a # xs @ [q]) \<Longrightarrow> f a = Some (hd (xs @ [q]))"
  by (cases xs) auto

lemma chain_cons: "chain f (a # xs @ [q]) \<longleftrightarrow> f a = Some (hd (xs @ [q])) \<and> chain f (xs @ [q])"
  by (cases xs) auto

definition nexts :: "'f kernel \<Rightarrow> nat \<Rightarrow> nat option" where
  "nexts s t = t_next (threads s t)"

definition ring :: "'f kernel \<Rightarrow> nat list \<Rightarrow> bool" where
  "ring s ts \<longleftrightarrow> distinct ts
     \<and> (case ts of [] \<Rightarrow> run_queue s = None | q # _ \<Rightarrow> run_queue s = Some q \<and> chain (nexts s) (ts @ [q]))"

lemma ring_Nil [simp]: "ring s [] \<longleftrightarrow> run_queue s = None"
  by (simp add: ring_def)

lemma ring_Cons: "ring s (q # ts) \<longleftrightarrow> distinct (q # ts) \<and> run_queue s = Some q \<and> chain (nexts s) (q # ts @ [q])"
  by (simp add: ring_def)

lemma ring_cong: "nexts s' = nexts s \<Longrightarrow> run_queue s' = run_queue s \<Longrightarrow> ring s' ts = ring s ts"
  by (cases ts) (simp_all add: ring_Cons)

lemma set_thread_next [simp]:
  "nexts (set_thread t (t_next_update (\<lambda>_. v)) s) = (nexts s)(t := v)"
  "run_queue (set_thread t f s) = run_queue s" "nexts (s\<lparr>run_queue := r\<rparr>) = nexts s"
  by (auto simp: set_thread_def nexts_def)

lemma sched_add_nexts:
  "sched_add t s =
     (case run_queue s of
        None \<Rightarrow> (set_thread t (t_next_update (\<lambda>_. Some t)) s)\<lparr>run_queue := Some t\<rparr>
      | Some q \<Rightarrow> set_thread q (t_next_update (\<lambda>_. Some t)) (set_thread t (t_next_update (\<lambda>_. nexts s q)) s))"
  by (simp add: sched_add_def nexts_def split: option.split)

lemma remove_loop_nexts:
  "remove_loop t q prev s =
     (if nexts s prev = Some t
      then
        (let s = set_thread prev (t_next_update (\<lambda>_. nexts s t)) s;
             s = (if run_queue s = Some t then s\<lparr>run_queue := (if nexts s t = Some t then None else nexts s t)\<rparr> else s)
         in Some (set_thread t (t_next_update (\<lambda>_. None)) s))
      else (case nexts s prev of None \<Rightarrow> None | Some n \<Rightarrow> if n = q then Some s else remove_loop t q n s))"
  by (subst remove_loop.simps) (simp only: nexts_def)

lemma ring_add:
  assumes "ring s ts" "t \<notin> set ts"
  shows "ring (sched_add t s) (if ts = [] then [t] else hd ts # t # tl ts)"
proof (cases ts)
  case Nil
  then show ?thesis using assms by (simp add: sched_add_nexts ring_Cons)
next
  case (Cons q r)
  have r: "distinct (q # r)" "run_queue s = Some q" "chain (nexts s) (q # r @ [q])" "t \<noteq> q" "t \<notin> set r"
    using assms Cons by (simp_all add: ring_Cons)
  have nx: "nexts (sched_add t s) = (nexts s)(t := nexts s q, q := Some t)"
    using r(2) by (simp add: sched_add_nexts fun_upd_twist[OF r(4)])
  have "chain (nexts (sched_add t s)) (r @ [q])"
    unfolding nx using r chain_upd[of q r "(nexts s)(t := nexts s q)"] chain_upd[of t r "nexts s"] chain_cons[of "nexts s" q r q] by simp
  moreover have "nexts (sched_add t s) t = Some (hd (r @ [q]))" unfolding nx using r(3,4) chain_head[of "nexts s" q r q] by simp
  ultimately have "chain (nexts (sched_add t s)) (q # t # r @ [q])" unfolding nx by (simp add: chain_cons)
  moreover have "run_queue (sched_add t s) = Some q" using r(2) by (simp add: sched_add_def)
  ultimately show ?thesis using Cons r by (simp add: ring_Cons)
qed

text \<open>What changing links leaves alone.\<close>

definition links_only :: "'f kernel \<Rightarrow> 'f kernel \<Rightarrow> bool" where
  "links_only s s' \<longleftrightarrow> s' = s\<lparr>threads := threads s', run_queue := run_queue s'\<rparr>
     \<and> (\<forall>u. (threads s' u)\<lparr>t_next := None\<rparr> = (threads s u)\<lparr>t_next := None\<rparr>)"

lemma links_only_refl [simp]: "links_only s s"
  by (simp add: links_only_def)

lemma links_only_thread:
  assumes "links_only s s'"
  shows "t_state (threads s' u) = t_state (threads s u)" "is_idle (threads s' u) = is_idle (threads s u)"
    "t_proc (threads s' u) = t_proc (threads s u)" "t_reason (threads s' u) = t_reason (threads s u)"
    "cpus s' = cpus s" "pages s' = pages s" "sched_active s' = sched_active s"
proof -
  have e: "(threads s' u)\<lparr>t_next := None\<rparr> = (threads s u)\<lparr>t_next := None\<rparr>" using assms by (simp add: links_only_def)
  show "t_state (threads s' u) = t_state (threads s u)" using arg_cong[OF e, of t_state] by simp
  show "is_idle (threads s' u) = is_idle (threads s u)" using arg_cong[OF e, of is_idle] by simp
  show "t_proc (threads s' u) = t_proc (threads s u)" using arg_cong[OF e, of t_proc] by simp
  show "t_reason (threads s' u) = t_reason (threads s u)" using arg_cong[OF e, of t_reason] by simp
  have "s' = s\<lparr>threads := threads s', run_queue := run_queue s'\<rparr>" using assms by (simp add: links_only_def)
  from arg_cong[OF this, of cpus] arg_cong[OF this, of pages] arg_cong[OF this, of sched_active]
  show "cpus s' = cpus s" "pages s' = pages s" "sched_active s' = sched_active s" by simp_all
qed

lemma links_only_add: "links_only s (sched_add t s)"
  by (auto simp: links_only_def sched_add_def set_thread_def split: option.splits)

lemma ring_split:
  "ring s (xs @ p # ys) \<longleftrightarrow> distinct (xs @ p # ys) \<and> run_queue s = Some (hd (xs @ [p]))
     \<and> chain (nexts s) (xs @ [p]) \<and> chain (nexts s) (p # ys @ [hd (xs @ [p])])"
proof (cases xs)
  case Nil
  then show ?thesis by (simp add: ring_Cons)
next
  case (Cons q zs)
  then show ?thesis using chain_split[of "nexts s" "q # zs" p "ys @ [q]"] by (auto simp: ring_Cons)
qed

text \<open>One removal: \<open>prev\<close> is the thread before \<open>t\<close>.\<close>

lemma remove_here:
  assumes "nexts s prev = Some t"
  shows "\<exists>s'. remove_loop t q prev s = Some s' \<and> links_only s s' \<and> nexts s' = (nexts s)(prev := nexts s t, t := None)
    \<and> run_queue s' = (if run_queue s = Some t then (if nexts s t = Some t then None else nexts s t) else run_queue s)"
proof -
  let ?s1 = "set_thread prev (t_next_update (\<lambda>_. nexts s t)) s"
  let ?s2 = "if run_queue s = Some t then ?s1\<lparr>run_queue := (if nexts s t = Some t then None else nexts s t)\<rparr> else ?s1"
  let ?s3 = "set_thread t (t_next_update (\<lambda>_. None)) ?s2"
  have "remove_loop t q prev s = Some ?s3"
    using assms by (subst remove_loop_nexts) (simp add: Let_def)
  moreover have "links_only s ?s3" by (auto simp: links_only_def set_thread_def)
  moreover have "nexts ?s3 = (nexts s)(prev := nexts s t, t := None)" by simp
  ultimately show ?thesis by (intro exI[of _ ?s3]) simp
qed

lemma remove_loop_law:
  assumes "ring s (xs @ prev # ys)" "q = hd (xs @ [prev])" "t \<notin> set (tl (xs @ [prev]))"
  shows "\<exists>s'. remove_loop t q prev s = Some s' \<and> ring s' (remove1 t (xs @ prev # ys)) \<and> links_only s s'"
  using assms
proof (induction ys arbitrary: xs prev)
  case Nil
  let ?ts = "xs @ [prev]"
  have q: "run_queue s = Some q" "distinct ?ts" "chain (nexts s) ?ts" "nexts s prev = Some q"
    using Nil(1)[unfolded ring_split] Nil(2) by simp_all
  show ?case
  proof (cases "q = t")
    case False
    then have "remove_loop t q prev s = Some s" using q(4) by (subst remove_loop_nexts) simp
    moreover have "t \<notin> set ?ts" using Nil(2,3) False by (cases xs) auto
    ultimately show ?thesis using Nil(1) by (auto simp: remove1_idem)
  next
    case True
    then have "nexts s prev = Some t" using q(4) by simp
    from remove_here[OF this, of q] obtain s' where s': "remove_loop t q prev s = Some s'" "links_only s s'"
      "nexts s' = (nexts s)(prev := nexts s t, t := None)" "run_queue s' = (if nexts s t = Some t then None else nexts s t)"
      using q(1) True by auto
    show ?thesis
    proof (cases xs)
      case [simp]: Nil
      then have "prev = t" using Nil.prems(2) True by simp
      then show ?thesis using s' q(4) True by (intro exI[of _ s']) simp
    next
      case [simp]: (Cons x zs)
      have x: "x = t" "t \<notin> set zs" "prev \<noteq> t" "prev \<notin> set zs" "distinct zs" using Nil.prems(2) q(2) True by auto
      have c: "nexts s t = Some (hd (zs @ [prev]))" "chain (nexts s) (zs @ [prev])"
        using q(3) x by (simp_all add: chain_cons)
      have "run_queue s' = Some (hd (zs @ [prev]))" using s'(4) c(1) x by (cases zs) auto
      moreover have "chain (nexts s') (zs @ [prev])"
        unfolding s'(3) using c(2) x chain_upd[of t zs "(nexts s)(prev := nexts s t)"] chain_upd[of prev zs "nexts s"] by simp
      moreover have "nexts s' prev = Some (hd (zs @ [prev]))" unfolding s'(3) using c(1) x by simp
      ultimately have "ring s' (zs @ prev # [])" unfolding ring_split using x by auto
      then show ?thesis using s'(1,2) x by (intro exI[of _ s']) simp
    qed
  qed
next
  case (Cons n ys)
  let ?ts = "xs @ prev # n # ys"
  have q: "run_queue s = Some q" "distinct ?ts" "chain (nexts s) (xs @ [prev])" "chain (nexts s) (n # ys @ [q])" "nexts s prev = Some n"
    using Cons.prems(1)[unfolded ring_split] Cons.prems(2) by simp_all
  have nq: "n \<noteq> q" using q(2) Cons.prems(2) by (cases xs) auto
  show ?case
  proof (cases "n = t")
    case False
    then have "remove_loop t q prev s = remove_loop t q n s" using q(5) nq by (subst remove_loop_nexts) simp
    moreover have "q = hd ((xs @ [prev]) @ [n])" using Cons.prems(2) by (cases xs) auto
    moreover have "t \<notin> set (tl ((xs @ [prev]) @ [n]))" using Cons.prems(3) False by (cases xs) auto
    ultimately show ?thesis using Cons.IH[of "xs @ [prev]" n] Cons.prems(1) by simp
  next
    case True
    from remove_here[OF q(5)[unfolded True], of q] obtain s' where s': "remove_loop t q prev s = Some s'" "links_only s s'"
      "nexts s' = (nexts s)(prev := nexts s t, t := None)" "run_queue s' = Some q"
      using q(1) nq True by auto
    have d: "t \<notin> set (xs @ [prev])" "t \<notin> set ys" "prev \<notin> set ys" "prev \<notin> set xs" using q(2) True by auto
    have c: "chain (nexts s) (xs @ [prev])" "nexts s t = Some (hd (ys @ [q]))" "chain (nexts s) (ys @ [q])"
      using q(3,4) True by (simp_all add: chain_cons)
    have up: "chain (nexts s') (zs @ [a]) = chain (nexts s) (zs @ [a])" if "t \<notin> set zs" "prev \<notin> set zs" for zs a
      unfolding s'(3) using chain_upd[of t zs "(nexts s)(prev := nexts s t)"] chain_upd[of prev zs "nexts s"] that by simp
    have "chain (nexts s') (xs @ [prev])" "chain (nexts s') (prev # ys @ [q])"
      unfolding chain_cons using up[of xs prev] up[of ys q] c d s'(3) by simp_all
    then have "ring s' (xs @ prev # ys)" using s'(4) q(2) Cons.prems(2) unfolding ring_split by simp
    moreover have "remove1 t ?ts = xs @ prev # ys" using d True by (simp add: remove1_append)
    ultimately have "ring s' (remove1 t ?ts)" by simp
    then show ?thesis using s'(1,2) by blast
  qed
qed

lemma sched_remove_law:
  assumes "ring s ts"
  shows "\<exists>s'. sched_remove t s = Some s' \<and> ring s' (remove1 t ts) \<and> links_only s s'"
proof (cases ts)
  case Nil
  then show ?thesis using assms by (simp add: sched_remove_def)
next
  case (Cons q r)
  then have "run_queue s = Some q" using assms by (simp add: ring_Cons)
  then show ?thesis using remove_loop_law[of s "[]" q r q t] assms Cons by (simp add: sched_remove_def)
qed

section \<open>Loops over the ring\<close>

definition map_threads :: "nat set \<Rightarrow> (thread \<Rightarrow> thread) \<Rightarrow> 'f kernel \<Rightarrow> 'f kernel" where
  "map_threads A f s = s\<lparr>threads := (\<lambda>u. if u \<in> A then f (threads s u) else threads s u)\<rparr>"

lemma over_queue_law:
  assumes "chain (nexts s) (p # ys @ [q])" "distinct (p # ys)" "q \<notin> set ys" "\<And>t. t_next (f t) = t_next t"
  shows "over_queue f q p s = Some (map_threads (set (p # ys)) f s)"
  using assms
proof (induction ys arbitrary: p s)
  case Nil
  then have "t_next (threads s p) = Some q" by (simp add: nexts_def)
  then show ?case using Nil.prems(4)
    by (subst over_queue.simps) (auto simp: Let_def set_thread_def map_threads_def fun_eq_iff intro!: kernel.equality)
next
  case (Cons n ys)
  let ?s = "set_thread p f s"
  have n: "t_next (threads s p) = Some n" using Cons.prems(1) by (simp add: nexts_def)
  have nx: "nexts ?s = nexts s" using Cons.prems(4) by (auto simp: nexts_def set_thread_def fun_eq_iff)
  have "over_queue f q p s = over_queue f q n ?s"
    using n Cons.prems(3,4) by (subst over_queue.simps) (simp add: Let_def set_thread_def)
  also have "\<dots> = Some (map_threads (set (n # ys)) f ?s)"
    using Cons.prems nx by (intro Cons.IH) auto
  also have "map_threads (set (n # ys)) f ?s = map_threads (set (p # n # ys)) f s"
    using Cons.prems(2) by (auto simp: map_threads_def set_thread_def fun_eq_iff)
  finally show ?case .
qed

lemma wake_if_keeps [simp]: "t_next (wake_if P t) = t_next t" "is_idle (wake_if P t) = is_idle t" "t_proc (wake_if P t) = t_proc t"
  by (simp_all add: wake_if_def)

lemma over_ring:
  assumes "ring s ts" "\<And>t. t_next (f t) = t_next t"
  shows "(case run_queue s of None \<Rightarrow> Some s | Some q \<Rightarrow> over_queue f q q s) = Some (map_threads (set ts) f s)"
proof (cases ts)
  case Nil
  then show ?thesis using assms(1) by (simp add: map_threads_def)
next
  case (Cons q r)
  then show ?thesis using assms over_queue_law[of s q r q f] by (simp add: ring_Cons)
qed

lemma sched_wake_law: "ring s ts \<Longrightarrow> sched_wake reason s = Some (map_threads (set ts) (wake_if (\<lambda>t. t_reason t = reason)) s)"
  unfolding sched_wake_def by (rule over_ring) simp_all

lemma wake_expired_law:
  "ring s ts \<Longrightarrow> wake_expired now s = Some (map_threads (set ts) (wake_if (\<lambda>t. wake_at t \<noteq> 0 \<and> sint (now - wake_at t) \<ge> 0)) s)"
  unfolding wake_expired_def by (rule over_ring) simp_all

lemma map_threads_ring: "(\<And>t. t_next (f t) = t_next t) \<Longrightarrow> ring (map_threads A f s) ts = ring s ts"
  by (rule ring_cong) (auto simp: map_threads_def nexts_def fun_eq_iff)

section \<open>Whose turn it is\<close>

definition turns :: "nat list \<Rightarrow> nat \<Rightarrow> nat list" where
  "turns ts f = tl (dropWhile (\<lambda>t. t \<noteq> f) ts) @ takeWhile (\<lambda>t. t \<noteq> f) ts @ [f]"

lemma turns_split: "f \<notin> set xs \<Longrightarrow> turns (xs @ f # ys) f = ys @ xs @ [f]"
proof -
  assume "f \<notin> set xs"
  then have "dropWhile (\<lambda>t. t \<noteq> f) (xs @ f # ys) = f # ys" "takeWhile (\<lambda>t. t \<noteq> f) (xs @ f # ys) = xs"
    by (induction xs) auto
  then show ?thesis by (simp add: turns_def)
qed

lemma turns_set: "f \<in> set ts \<Longrightarrow> set (turns ts f) = set ts"
proof -
  assume "f \<in> set ts"
  then obtain xs ys where "ts = xs @ f # ys" "f \<notin> set xs" by (metis split_list_first)
  then show ?thesis using turns_split[of f xs ys] by auto
qed

definition eligible :: "'f kernel \<Rightarrow> nat \<Rightarrow> nat \<Rightarrow> bool" where
  "eligible s from t \<longleftrightarrow> \<not> is_idle (threads s t) \<and> t_state (threads s t) = THREAD_READY
     \<or> t = from \<and> t_state (threads s t) = THREAD_RUNNING"

lemma pick_loop_eligible:
  "pick_loop s (Some from) t (Suc n) =
     (if eligible s from t then Some t else pick_loop s (Some from) (case nexts s t of None \<Rightarrow> the (run_queue s) | Some n \<Rightarrow> n) n)"
  by (auto simp: eligible_def nexts_def)

lemma pick_loop_find:
  assumes "chain (nexts s) (us @ [v])" "us \<noteq> []" "find (eligible s from) us = Some t" "length us \<le> n"
  shows "pick_loop s (Some from) (hd us) n = Some t"
  using assms
proof (induction us arbitrary: n)
  case (Cons u us)
  then obtain m where [simp]: "n = Suc m" by (cases n) auto
  show ?case
  proof (cases "eligible s from u")
    case True
    then show ?thesis using Cons.prems(3) by (simp add: pick_loop_eligible del: pick_loop.simps)
  next
    case False
    have ne: "us \<noteq> []" using Cons.prems(3) False by auto
    have nx: "nexts s u = Some (hd us)" "chain (nexts s) (us @ [v])" using Cons.prems(1) ne by (auto simp: chain_cons)
    have "pick_loop s (Some from) u n = pick_loop s (Some from) (hd us) m"
      using False nx(1) by (simp add: pick_loop_eligible del: pick_loop.simps)
    then show ?thesis using Cons.IH[OF nx(2) ne, of m] Cons.prems(3,4) False by simp
  qed
qed simp

lemma ring_next_in:
  assumes "ring s ts" "t \<in> set ts"
  shows "\<exists>n. nexts s t = Some n \<and> n \<in> set ts"
proof -
  obtain xs ys where ts: "ts = xs @ t # ys" using assms(2) by (metis split_list)
  then have "nexts s t = Some (hd (ys @ [hd (xs @ [t])]))" using assms(1) by (simp add: ring_split chain_cons)
  then show ?thesis using ts by (cases ys; cases xs) auto
qed

lemma pick_loop_none:
  assumes "ring s ts" "\<forall>t \<in> set ts. \<not> eligible s from t" "t \<in> set ts"
  shows "pick_loop s (Some from) t n = cpu_idle (smp_this s)"
  using assms(3)
proof (induction n arbitrary: t)
  case (Suc n)
  then show ?case using assms(2) ring_next_in[OF assms(1) Suc.prems] by (auto simp: pick_loop_eligible simp del: pick_loop.simps(2))
qed simp

lemma chain_turns:
  assumes "ring s ts" "f \<in> set ts"
  shows "\<exists>v. chain (nexts s) (turns ts f @ [v])" "nexts s f = Some (hd (turns ts f))"
proof -
  obtain xs ys where ts: "ts = xs @ f # ys" "f \<notin> set xs" using assms(2) by (metis split_list_first)
  have t: "turns ts f = ys @ xs @ [f]" using ts turns_split by simp
  have r: "chain (nexts s) (xs @ [f])" "chain (nexts s) (f # ys @ [hd (xs @ [f])])" using assms(1) ts by (simp_all add: ring_split)
  show "nexts s f = Some (hd (turns ts f))" unfolding t using r(2) by (cases ys; cases xs) (auto simp: chain_cons)
  have "chain (nexts s) (ys @ xs @ [f])"
  proof (cases xs)
    case Nil
    then show ?thesis using r(2) by (simp add: chain_cons)
  next
    case (Cons x zs)
    then show ?thesis using r chain_split[of "nexts s" ys x "zs @ [f]"] by (simp add: chain_cons)
  qed
  moreover have "nexts s f = Some (hd (ys @ xs @ [f]))" using \<open>nexts s f = Some (hd (turns ts f))\<close> t by simp
  ultimately have "chain (nexts s) ((ys @ xs @ [f]) @ [hd (ys @ xs @ [f])])"
    using chain_split[of "nexts s" "ys @ xs" f "[hd (ys @ xs @ [f])]"] by simp
  then show "\<exists>v. chain (nexts s) (turns ts f @ [v])" unfolding t by blast
qed

lemma turns_length: "f \<in> set ts \<Longrightarrow> length (turns ts f) = length ts"
proof -
  assume "f \<in> set ts"
  then obtain xs ys where "ts = xs @ f # ys" "f \<notin> set xs" by (metis split_list_first)
  then show ?thesis using turns_split[of f xs ys] by simp
qed

lemma pick_next_law:
  assumes r: "ring s ts" and f: "f \<in> set ts" and n: "length ts \<le> MAX_THREADS"
  shows "pick_next s (Some f) = (case find (eligible s f) (turns ts f) of Some t \<Rightarrow> Some t | None \<Rightarrow> cpu_idle (smp_this s))"
proof -
  obtain q where q: "run_queue s = Some q" using r f by (cases ts) (auto simp: ring_Cons)
  have p: "pick_next s (Some f) = pick_loop s (Some f) (hd (turns ts f)) (MAX_THREADS + 1)"
    using q chain_turns(2)[OF r f] by (simp add: pick_next_def nexts_def Let_def)
  have ne: "turns ts f \<noteq> []" by (simp add: turns_def)
  show ?thesis
  proof (cases "find (eligible s f) (turns ts f)")
    case None
    then have "\<forall>t \<in> set ts. \<not> eligible s f t" using turns_set[OF f] by (simp add: find_None_iff)
    moreover have "hd (turns ts f) \<in> set ts" using turns_set[OF f] hd_in_set[OF ne] by simp
    ultimately have "pick_loop s (Some f) (hd (turns ts f)) (MAX_THREADS + 1) = cpu_idle (smp_this s)" by (rule pick_loop_none[OF r])
    then show ?thesis using p None by simp
  next
    case (Some t)
    obtain v where "chain (nexts s) (turns ts f @ [v])" using chain_turns(1)[OF r f] by blast
    then show ?thesis using pick_loop_find[OF _ ne Some, of v "MAX_THREADS + 1"] p Some turns_length[OF f] n by (simp del: pick_loop.simps)
  qed
qed

section \<open>Processors\<close>

abbreviation running :: "'f kernel \<Rightarrow> nat \<Rightarrow> bool" where
  "running s t \<equiv> t_state (threads s t) = THREAD_RUNNING"

abbreviation me :: "'f kernel \<Rightarrow> nat" where
  "me s \<equiv> this_cpu (pages s)"

definition cpu_ok :: "'f kernel \<Rightarrow> nat list \<Rightarrow> nat \<Rightarrow> bool" where
  "cpu_ok s ts c \<longleftrightarrow> (\<exists>t i. cpu_current (cpus s ! c) = Some t \<and> cpu_idle (cpus s ! c) = Some i \<and> t \<in> set ts \<and> i \<in> set ts
     \<and> is_idle (threads s i) \<and> (is_idle (threads s t) \<longrightarrow> t = i) \<and> (c \<noteq> me s \<longrightarrow> running s t))"

text \<open>The state between the moment a thread changes its own state and the switch to another one: every
  processor but this one is in a running thread, and no two are in the same.\<close>

definition sched_mid :: "nat list \<Rightarrow> 'f kernel \<Rightarrow> bool" where
  "sched_mid ts s \<longleftrightarrow> ring s ts \<and> set ts \<subseteq> {..<MAX_THREADS} \<and> sched_active s \<and> me s < length (cpus s)
     \<and> (\<forall>c < length (cpus s). cpu_ok s ts c)
     \<and> (\<forall>c < length (cpus s). \<forall>c' < length (cpus s). cpu_current (cpus s ! c) = cpu_current (cpus s ! c') \<longrightarrow> c = c')
     \<and> (\<forall>c < length (cpus s). \<forall>c' < length (cpus s). cpu_idle (cpus s ! c) = cpu_idle (cpus s ! c') \<longrightarrow> c = c')
     \<and> (\<forall>t \<in> set ts. running s t \<longrightarrow> (\<exists>c < length (cpus s). cpu_current (cpus s ! c) = Some t))
     \<and> (\<forall>t \<in> set ts. is_idle (threads s t) \<longrightarrow> t_state (threads s t) \<in> {THREAD_READY, THREAD_RUNNING})
     \<and> (\<forall>t \<in> set ts. t_state (threads s t) \<noteq> THREAD_UNUSED)
     \<and> (\<exists>t. cpu_current (cpus s ! me s) = Some t \<and> (running s t \<or> \<not> is_idle (threads s t)))"

definition sched_ok :: "nat list \<Rightarrow> 'f kernel \<Rightarrow> bool" where
  "sched_ok ts s \<longleftrightarrow> sched_mid ts s \<and> (\<exists>t. cpu_current (cpus s ! me s) = Some t \<and> running s t)"

lemma sched_midD:
  assumes "sched_mid ts s"
  shows "ring s ts" "set ts \<subseteq> {..<MAX_THREADS}" "sched_active s" "me s < length (cpus s)"
    "c < length (cpus s) \<Longrightarrow> cpu_ok s ts c"
    "c < length (cpus s) \<Longrightarrow> c' < length (cpus s) \<Longrightarrow> cpu_current (cpus s ! c) = cpu_current (cpus s ! c') \<Longrightarrow> c = c'"
    "c < length (cpus s) \<Longrightarrow> c' < length (cpus s) \<Longrightarrow> cpu_idle (cpus s ! c) = cpu_idle (cpus s ! c') \<Longrightarrow> c = c'"
    "t \<in> set ts \<Longrightarrow> running s t \<Longrightarrow> \<exists>c < length (cpus s). cpu_current (cpus s ! c) = Some t"
    "t \<in> set ts \<Longrightarrow> is_idle (threads s t) \<Longrightarrow> t_state (threads s t) \<in> {THREAD_READY, THREAD_RUNNING}"
    "\<exists>t. cpu_current (cpus s ! me s) = Some t \<and> (running s t \<or> \<not> is_idle (threads s t))"
    "t \<in> set ts \<Longrightarrow> t_state (threads s t) \<noteq> THREAD_UNUSED"
  using assms unfolding sched_mid_def by blast+

lemma ring_small: "sched_mid ts s \<Longrightarrow> length ts \<le> MAX_THREADS"
proof -
  assume a: "sched_mid ts s"
  have "distinct ts" using sched_midD(1)[OF a] by (cases ts) (simp_all add: ring_Cons)
  then have "length ts = card (set ts)" by (simp add: distinct_card)
  also have "\<dots> \<le> card {..<MAX_THREADS}" using sched_midD(2)[OF a] by (intro card_mono) simp_all
  finally show ?thesis by simp
qed

lemma switch_to_fields:
  "nexts (switch_to prev nxt s) = nexts s" "run_queue (switch_to prev nxt s) = run_queue s"
  "sched_active (switch_to prev nxt s) = sched_active s" "me (switch_to prev nxt s) = me s"
  "length (cpus (switch_to prev nxt s)) = length (cpus s)"
  "is_idle (threads (switch_to prev nxt s) t) = is_idle (threads s t)"
  "t_state (threads (switch_to prev nxt s) t) =
     (if t = nxt then THREAD_RUNNING else if t = prev \<and> running s prev then THREAD_READY else t_state (threads s t))"
  "me s < length (cpus s) \<Longrightarrow> cpu_current (cpus (switch_to prev nxt s) ! c) = (if c = me s then Some nxt else cpu_current (cpus s ! c))"
  "me s < length (cpus s) \<Longrightarrow> cpu_idle (cpus (switch_to prev nxt s) ! c) = cpu_idle (cpus s ! c)"
  by (auto simp: switch_to_def set_thread_def set_this_cpu_def Let_def nexts_def smp_this_def nth_list_update
      paging_switch_def load_cr3_def set_this_space_def fun_eq_iff)

lemma switch_law:
  assumes mid: "sched_mid ts s" and prev: "cpu_current (cpus s ! me s) = Some prev" and nxt: "nxt \<in> set ts" "nxt \<noteq> prev"
    "t_state (threads s nxt) = THREAD_READY" "is_idle (threads s nxt) \<Longrightarrow> cpu_idle (cpus s ! me s) = Some nxt"
  shows "sched_ok ts (switch_to prev nxt s)"
proof -
  let ?s = "switch_to prev nxt s"
  note m = sched_midD[OF mid]
  note sw = switch_to_fields(1-7)[of prev nxt s] switch_to_fields(8,9)[OF m(4), of prev nxt]
  have others: "cpu_current (cpus s ! c) \<noteq> Some nxt \<and> cpu_current (cpus s ! c) \<noteq> Some prev" if "c < length (cpus s)" "c \<noteq> me s" for c
    using m(5)[OF that(1)] m(6)[OF that(1) m(4)] that(2) nxt(3) prev by (auto simp: cpu_ok_def)
  have c1: "ring ?s ts" using m(1) ring_cong[OF sw(1,2)] by simp
  have c2: "cpu_ok ?s ts c" if c: "c < length (cpus s)" for c
  proof -
    obtain t i where ti: "cpu_current (cpus s ! c) = Some t" "cpu_idle (cpus s ! c) = Some i" "t \<in> set ts" "i \<in> set ts"
      "is_idle (threads s i)" "is_idle (threads s t) \<longrightarrow> t = i" "c \<noteq> me s \<longrightarrow> running s t"
      using m(5)[OF c] by (auto simp: cpu_ok_def)
    show ?thesis
    proof (cases "c = me s")
      case True
      then show ?thesis using ti nxt unfolding cpu_ok_def sw by auto
    next
      case False
      then show ?thesis using ti others[OF c False] unfolding cpu_ok_def sw by auto
    qed
  qed
  have c3: "c = c'" if "c < length (cpus s)" "c' < length (cpus s)" "cpu_current (cpus ?s ! c) = cpu_current (cpus ?s ! c')" for c c'
    using that others[of c] others[of c'] m(6)[of c c'] unfolding sw by (auto split: if_splits)
  have c4: "\<exists>c < length (cpus s). cpu_current (cpus ?s ! c) = Some t" if t: "t \<in> set ts" "running ?s t" for t
  proof (cases "t = nxt")
    case True
    then show ?thesis using m(4) unfolding sw by auto
  next
    case False
    then have r: "running s t" "t \<noteq> prev" using t(2) unfolding sw by (auto split: if_splits)
    from m(8)[OF t(1) r(1)] obtain c where c: "c < length (cpus s)" "cpu_current (cpus s ! c) = Some t" by blast
    then have "c \<noteq> me s" using prev r(2) by auto
    then show ?thesis using c unfolding sw by auto
  qed
  have c5: "t_state (threads ?s t) \<in> {THREAD_READY, THREAD_RUNNING}" if "t \<in> set ts" "is_idle (threads s t)" for t
    using m(9)[OF that] unfolding sw by auto
  have c6: "t_state (threads ?s t) \<noteq> THREAD_UNUSED" if "t \<in> set ts" for t using m(11)[OF that] unfolding sw by auto
  have cur: "cpu_current (cpus ?s ! me s) = Some nxt" "running ?s nxt" unfolding sw by simp_all
  have "sched_mid ts ?s"
    unfolding sched_mid_def sw(3,4,5,6,9)
    by (intro conjI allI impI ballI) (use c1 c2 c3 c4 c5 c6 cur m(2,3,4,7) in blast)+
  then show ?thesis using cur unfolding sched_ok_def sw(4) by blast
qed

lemma schedule_law:
  assumes mid: "sched_mid ts s"
  shows "\<exists>s' prev i. schedule s = Some s' \<and> sched_ok ts s' \<and> cpu_current (cpus s ! me s) = Some prev \<and> prev \<in> set ts
    \<and> cpu_idle (cpus s ! me s) = Some i \<and> me s' = me s
    \<and> (running s prev \<longrightarrow> cpu_current (cpus s' ! me s) = Some (case find (eligible s prev) (turns ts prev) of Some t \<Rightarrow> t | None \<Rightarrow> i))"
proof -
  note m = sched_midD[OF mid]
  obtain prev i where p: "cpu_current (cpus s ! me s) = Some prev" "cpu_idle (cpus s ! me s) = Some i" "prev \<in> set ts" "i \<in> set ts"
    "is_idle (threads s i)" "is_idle (threads s prev) \<longrightarrow> prev = i" using m(5)[OF m(4)] by (auto simp: cpu_ok_def)
  have pr: "running s prev \<or> \<not> is_idle (threads s prev)" using m(10) p(1) by auto
  note pick = pick_next_law[OF m(1) p(3) ring_small[OF mid]]
  have idle_ready: "t_state (threads s i) = THREAD_READY" if "i \<noteq> prev"
  proof (rule ccontr)
    assume "t_state (threads s i) \<noteq> THREAD_READY"
    then have "running s i" using m(9)[OF p(4,5)] by simp
    then obtain c where c: "c < length (cpus s)" "cpu_current (cpus s ! c) = Some i" using m(8)[OF p(4)] by blast
    then have "cpu_idle (cpus s ! c) = Some i" using m(5)[OF c(1)] p(5) by (auto simp: cpu_ok_def)
    then have "c = me s" using m(7)[OF c(1) m(4)] p(2) by simp
    then show False using c(2) p(1) that by simp
  qed
  have sm: "smp_this s = cpus s ! me s" by (simp add: smp_this_def)
  have to_idle: "sched_ok ts (switch_to prev i s)" if "i \<noteq> prev"
    using switch_law[OF mid p(1,4) that idle_ready[OF that]] p(2) by simp
  have stay: "sched_ok ts s" if "running s prev" using mid p(1) that by (auto simp: sched_ok_def)
  have cur: "cpu_current (cpus (switch_to prev n s) ! me s) = Some n" "me (switch_to prev n s) = me s" for n
    using switch_to_fields(8)[OF m(4), of prev n "me s"] switch_to_fields(4)[of prev n s] by simp_all
  show ?thesis
  proof (cases "find (eligible s prev) (turns ts prev)")
    case None
    have "schedule s = (if i = prev then Some s else Some (switch_to prev i s))"
      using m(3) p(1,2) pick None by (simp add: schedule_def sm)
    moreover have "running s prev" if "i = prev" using pr p(5) that by auto
    ultimately show ?thesis using p stay to_idle cur None by (cases "i = prev") auto
  next
    case (Some t)
    then obtain k where "k < length (turns ts prev)" "t = turns ts prev ! k" and el: "eligible s prev t" by (auto simp: find_Some_iff)
    then have t: "t \<in> set ts" using turns_set[OF p(3)] nth_mem by metis
    show ?thesis
    proof (cases "t = prev")
      case False
      then have r: "t_state (threads s t) = THREAD_READY" "\<not> is_idle (threads s t)" using el by (auto simp: eligible_def)
      have "schedule s = Some (switch_to prev t s)" using m(3) p(1) pick Some False by (simp add: schedule_def sm)
      moreover have "sched_ok ts (switch_to prev t s)" using switch_law[OF mid p(1) t False r(1)] r(2) by simp
      ultimately show ?thesis using p cur Some by auto
    next
      case True
      have "schedule s = (if running s prev then Some s else if i = prev then Some s else Some (switch_to prev i s))"
        using m(3) p(1,2) pick Some True by (simp add: schedule_def sm)
      moreover have "running s prev" if "i = prev" using pr p(5) that by auto
      ultimately show ?thesis using p stay to_idle cur Some True by (cases "running s prev"; cases "i = prev") auto
    qed
  qed
qed

text \<open>Changes that leave the ring and the processors alone.\<close>

definition same_frame :: "'f kernel \<Rightarrow> 'f kernel \<Rightarrow> bool" where
  "same_frame s s' \<longleftrightarrow> nexts s' = nexts s \<and> run_queue s' = run_queue s \<and> sched_active s' = sched_active s \<and> cpus s' = cpus s
     \<and> me s' = me s \<and> (\<forall>t. is_idle (threads s' t) = is_idle (threads s t))"

lemma sched_mid_transfer:
  assumes mid: "sched_mid ts s" and fr: "same_frame s s'" and run: "\<And>t. t \<in> set ts \<Longrightarrow> running s' t = running s t"
    and st: "\<And>t. t \<in> set ts \<Longrightarrow> is_idle (threads s t) \<Longrightarrow> t_state (threads s' t) \<in> {THREAD_READY, THREAD_RUNNING}"
    and un: "\<And>t. t \<in> set ts \<Longrightarrow> t_state (threads s' t) \<noteq> THREAD_UNUSED"
  shows "sched_mid ts s'"
proof -
  note m = sched_midD[OF mid]
  have f: "nexts s' = nexts s" "run_queue s' = run_queue s" "sched_active s' = sched_active s" "cpus s' = cpus s" "me s' = me s"
    "\<And>t. is_idle (threads s' t) = is_idle (threads s t)" using fr by (simp_all add: same_frame_def)
  have r: "ring s' ts" using m(1) ring_cong[OF f(1,2)] by simp
  have c: "cpu_ok s' ts c" if "c < length (cpus s)" for c
    using m(5)[OF that] run unfolding cpu_ok_def f by blast
  have cur: "\<exists>t. cpu_current (cpus s ! me s) = Some t \<and> (running s' t \<or> \<not> is_idle (threads s t))"
    using m(10) m(5)[OF m(4)] run unfolding cpu_ok_def by fastforce
  show ?thesis
    unfolding sched_mid_def f
    by (intro conjI allI impI ballI) (use r c cur m(2,3,4,6,7,8) run st un in blast)+
qed

lemma sched_ok_transfer:
  assumes "sched_ok ts s" "same_frame s s'" "\<And>t. t \<in> set ts \<Longrightarrow> running s' t = running s t"
    "\<And>t. t \<in> set ts \<Longrightarrow> is_idle (threads s t) \<Longrightarrow> t_state (threads s' t) \<in> {THREAD_READY, THREAD_RUNNING}"
    "\<And>t. t \<in> set ts \<Longrightarrow> t_state (threads s' t) \<noteq> THREAD_UNUSED"
  shows "sched_ok ts s'"
proof -
  have mid: "sched_mid ts s" using assms(1) by (simp add: sched_ok_def)
  have "sched_mid ts s'" by (rule sched_mid_transfer[OF mid assms(2-)])
  moreover obtain t where t: "cpu_current (cpus s ! me s) = Some t" "running s t" using assms(1) by (auto simp: sched_ok_def)
  moreover have "t \<in> set ts" using sched_midD(5)[OF mid sched_midD(4)[OF mid]] t(1) by (auto simp: cpu_ok_def)
  ultimately show ?thesis using assms(2,3) by (auto simp: sched_ok_def same_frame_def)
qed

text \<open>Waking.\<close>

lemma wake_state: "t_state (wake_if P t) = (if t_state t = THREAD_BLOCKED \<and> P t then THREAD_READY else t_state t)"
  by (simp add: wake_if_def)

lemma wake_frame: "same_frame s (map_threads A (wake_if P) s)"
  by (auto simp: same_frame_def map_threads_def nexts_def fun_eq_iff)

lemma wake_mid: "sched_mid ts s \<Longrightarrow> sched_mid ts (map_threads A (wake_if P) s)"
  by (rule sched_mid_transfer[OF _ wake_frame]) (auto simp: map_threads_def wake_state dest: sched_midD(9,11))

lemma wake_ok: "sched_ok ts s \<Longrightarrow> sched_ok ts (map_threads A (wake_if P) s)"
  by (rule sched_ok_transfer[OF _ wake_frame])
    (auto simp: map_threads_def wake_state sched_ok_def dest: sched_midD(9,11))

text \<open>A thread that stops running.\<close>

lemma park_mid:
  assumes ok: "sched_ok ts s" and cur: "cpu_current (cpus s ! me s) = Some t" and t: "\<not> is_idle (threads s t)"
    and st: "st \<noteq> THREAD_RUNNING" "st \<noteq> THREAD_UNUSED"
    and s': "same_frame s s'" "\<And>u. t_state (threads s' u) = (if u = t then st else t_state (threads s u))"
  shows "sched_mid ts s'"
proof -
  have mid: "sched_mid ts s" using ok by (simp add: sched_ok_def)
  note m = sched_midD[OF mid]
  have f: "nexts s' = nexts s" "run_queue s' = run_queue s" "sched_active s' = sched_active s" "cpus s' = cpus s" "me s' = me s"
    "\<And>t. is_idle (threads s' t) = is_idle (threads s t)" using s'(1) by (simp_all add: same_frame_def)
  have r: "ring s' ts" using m(1) ring_cong[OF f(1,2)] by simp
  have c: "cpu_ok s' ts c" if c: "c < length (cpus s)" for c
  proof -
    have "cpu_current (cpus s ! c) \<noteq> Some t" if "c \<noteq> me s" using m(6)[OF c m(4)] cur that by auto
    then show ?thesis using m(5)[OF c] unfolding cpu_ok_def f s'(2) by (cases "c = me s") auto
  qed
  have n: "\<exists>c<length (cpus s). cpu_current (cpus s ! c) = Some u" if "u \<in> set ts" "running s' u" for u
    using m(8)[OF that(1)] that(2) st(1) unfolding s'(2) by (auto split: if_splits)
  have i: "t_state (threads s' u) \<in> {THREAD_READY, THREAD_RUNNING}" if "u \<in> set ts" "is_idle (threads s u)" for u
    using m(9)[OF that] t that(2) unfolding s'(2) by auto
  have u: "t_state (threads s' u) \<noteq> THREAD_UNUSED" if "u \<in> set ts" for u using m(11)[OF that] st(2) unfolding s'(2) by auto
  show ?thesis
    unfolding sched_mid_def f by (intro conjI allI impI ballI) (use r c n i u cur t m(2,3,4,6,7) in blast)+
qed

lemma block_law:
  assumes ok: "sched_ok ts s" and cur: "cpu_current (cpus s ! me s) = Some t" and t: "\<not> is_idle (threads s t)"
  shows "\<exists>s'. block_current r w s = Some s' \<and> sched_ok ts s' \<and> me s' = me s"
proof -
  let ?s = "set_thread t (\<lambda>x. x\<lparr>t_state := THREAD_BLOCKED, t_reason := r, wake_at := w\<rparr>) s"
  have "same_frame s ?s" by (auto simp: same_frame_def set_thread_def nexts_def fun_eq_iff)
  then have mid: "sched_mid ts ?s" by (intro park_mid[OF ok cur t, of THREAD_BLOCKED]) (auto simp: set_thread_def)
  have "me ?s = me s" by (simp add: set_thread_def)
  then show ?thesis using schedule_law[OF mid] cur by (auto simp: block_current_def smp_this_def)
qed

section \<open>Everything the kernel does with threads\<close>

text \<open>The scheduler's own operations, and what starting, ending, killing and reaping a process do to its
  thread (\<^verbatim>\<open>kernel/proc/proc.c\<close>).  \<open>Cpu\<close> lets another processor go on: the kernel lock makes the
  operations of different processors follow one another.\<close>

definition start_thread :: "nat \<Rightarrow> 'f kernel \<Rightarrow> 'f kernel" where
  "start_thread t s = sched_add t (set_thread t (t_state_update (\<lambda>_. THREAD_READY)) s)"

definition end_thread :: "nat \<Rightarrow> 'f kernel \<Rightarrow> 'f kernel option" where
  "end_thread t s =
     (case sched_wake WAIT_CHILD (set_thread t (t_state_update (\<lambda>_. THREAD_ZOMBIE)) s) of None \<Rightarrow> None | Some s \<Rightarrow> schedule s)"

definition drop_thread :: "nat \<Rightarrow> 'f kernel \<Rightarrow> 'f kernel option" where
  "drop_thread t s = map_option (set_thread t (t_state_update (\<lambda>_. THREAD_UNUSED))) (sched_remove t s)"

definition unblock :: "nat \<Rightarrow> 'f kernel \<Rightarrow> 'f kernel" where
  "unblock t s =
     (if t_state (threads s t) = THREAD_BLOCKED
      then set_thread t (\<lambda>x. x\<lparr>t_state := THREAD_READY, t_reason := WAIT_NONE, wake_at := 0\<rparr>) s else s)"

inductive sched_step :: "'f kernel \<Rightarrow> 'f kernel \<Rightarrow> bool" where
  Yield: "sched_yield s = Some s' \<Longrightarrow> sched_step s s'"
| Tick: "sched_tick user s = Some (Inr s') \<Longrightarrow> sched_step s s'"
| Block: "\<not> sched_current_is_idle s \<Longrightarrow> sched_block reason s = Some s' \<Longrightarrow> sched_step s s'"
| Block_Until: "\<not> sched_current_is_idle s \<Longrightarrow> sched_block_until reason until s = Some s' \<Longrightarrow> sched_step s s'"
| Wake: "sched_wake reason s = Some s' \<Longrightarrow> sched_step s s'"
| Spawn: "t < MAX_THREADS \<Longrightarrow> t_state (threads s t) = THREAD_UNUSED \<Longrightarrow> \<not> is_idle (threads s t) \<Longrightarrow> sched_step s (start_thread t s)"
| Exit: "\<not> sched_current_is_idle s \<Longrightarrow> sched_current_thread s = Some t \<Longrightarrow> end_thread t s = Some s' \<Longrightarrow> sched_step s s'"
| Reap: "t_state (threads s t) = THREAD_ZOMBIE \<Longrightarrow> drop_thread t s = Some s' \<Longrightarrow> sched_step s s'"
| Kill: "sched_step s (unblock t s)"
| Join: "t < MAX_THREADS \<Longrightarrow> t_state (threads s t) = THREAD_UNUSED \<Longrightarrow>
    sched_step s (sched_adopt_idle t (s\<lparr>cpus := cpus s @ [c], pages := (pages s)\<lparr>this_cpu := length (cpus s)\<rparr>\<rparr>))"
| Cpu: "c < length (cpus s) \<Longrightarrow> sched_step s (s\<lparr>pages := (pages s)\<lparr>this_cpu := c\<rparr>\<rparr>)"

lemma sched_okD:
  assumes "sched_ok ts s"
  shows "sched_mid ts s" "ring s ts" "\<exists>t. cpu_current (cpus s ! me s) = Some t \<and> running s t \<and> t \<in> set ts \<and> (is_idle (threads s t) \<longrightarrow> sched_current_is_idle s)"
proof -
  show mid: "sched_mid ts s" using assms by (simp add: sched_ok_def)
  note m = sched_midD[OF mid]
  show "ring s ts" by (rule m(1))
  show "\<exists>t. cpu_current (cpus s ! me s) = Some t \<and> running s t \<and> t \<in> set ts \<and> (is_idle (threads s t) \<longrightarrow> sched_current_is_idle s)"
    using assms m(3) m(5)[OF m(4)] by (auto simp: sched_ok_def cpu_ok_def sched_current_is_idle_def smp_this_def)
qed

lemma block_ok:
  assumes ok: "sched_ok ts s" and "\<not> sched_current_is_idle s" "block_current r w s = Some s'"
  shows "sched_ok ts s'"
proof -
  obtain t where t: "cpu_current (cpus s ! me s) = Some t" "\<not> is_idle (threads s t)" using sched_okD(3)[OF ok] assms(2) by blast
  from block_law[OF ok t, of r w] assms(3) show ?thesis by auto
qed

lemma start_ok:
  assumes ok: "sched_ok ts s" and t: "t < MAX_THREADS" "t_state (threads s t) = THREAD_UNUSED" "\<not> is_idle (threads s t)"
  shows "sched_ok (hd ts # t # tl ts) (start_thread t s)"
proof -
  let ?u = "set_thread t (t_state_update (\<lambda>_. THREAD_READY)) s" and ?ts = "hd ts # t # tl ts"
  note m = sched_midD[OF sched_okD(1)[OF ok]]
  have nt: "t \<notin> set ts" using m(11)[of t] t(2) by auto
  have ne: "ts \<noteq> []" using sched_okD(3)[OF ok] by auto
  have ts: "set ?ts = insert t (set ts)" using ne by (cases ts) auto
  have fu: "same_frame s ?u" by (auto simp: same_frame_def set_thread_def nexts_def fun_eq_iff)
  have oku: "sched_ok ts ?u"
    using nt m(9,11) by (intro sched_ok_transfer[OF ok fu]) (auto simp: set_thread_def)
  note mu = sched_midD[OF sched_okD(1)[OF oku]]
  have r: "ring (start_thread t s) ?ts" using ring_add[OF mu(1) nt] ne by (simp add: start_thread_def)
  note lo = links_only_thread[OF links_only_add[of ?u t]]
  have x: "t_state (threads (start_thread t s) v) = t_state (threads ?u v)" "is_idle (threads (start_thread t s) v) = is_idle (threads ?u v)"
    "cpus (start_thread t s) = cpus ?u" "pages (start_thread t s) = pages ?u" "sched_active (start_thread t s) = sched_active ?u" for v
    using lo by (simp_all add: start_thread_def)
  have tu: "\<not> is_idle (threads ?u t)" "t_state (threads ?u t) = THREAD_READY" using t(3) by (simp_all add: set_thread_def)
  have c: "cpu_ok (start_thread t s) ?ts c" if "c < length (cpus ?u)" for c
    using mu(5)[OF that] unfolding cpu_ok_def x ts by blast
  have "sched_mid ?ts (start_thread t s)"
    unfolding sched_mid_def x
  proof (intro conjI allI impI ballI)
    show "set ?ts \<subseteq> {..<MAX_THREADS}" using mu(2) t(1) unfolding ts by simp
    show "\<exists>t. cpu_current (cpus ?u ! me ?u) = Some t \<and> (running ?u t \<or> \<not> is_idle (threads ?u t))" by (rule mu(10))
    fix v assume v: "v \<in> set ?ts"
    show "t_state (threads ?u v) \<noteq> THREAD_UNUSED" using v tu mu(11)[of v] unfolding ts by auto
    show "t_state (threads ?u v) \<in> {THREAD_READY, THREAD_RUNNING}" if "is_idle (threads ?u v)" using v tu mu(9)[of v] that unfolding ts by auto
    show "\<exists>c<length (cpus ?u). cpu_current (cpus ?u ! c) = Some v" if "running ?u v" using v tu mu(8)[of v] that unfolding ts by auto
  qed (use r c mu(3,4,6,7) in blast)+
  then show ?thesis using oku unfolding sched_ok_def x by blast
qed

lemma drop_ok:
  assumes ok: "sched_ok ts s" and t: "t_state (threads s t) = THREAD_ZOMBIE"
  shows "\<exists>s'. drop_thread t s = Some s' \<and> sched_ok (remove1 t ts) s'"
proof -
  note m = sched_midD[OF sched_okD(1)[OF ok]]
  from sched_remove_law[OF m(1), of t] obtain u where u: "sched_remove t s = Some u" "ring u (remove1 t ts)" "links_only s u" by blast
  let ?s = "set_thread t (t_state_update (\<lambda>_. THREAD_UNUSED)) u"
  note lo = links_only_thread[OF u(3)]
  have d: "distinct ts" using m(1) by (cases ts) (simp_all add: ring_Cons)
  have set: "set (remove1 t ts) = set ts - {t}" using d by (rule set_remove1_eq)
  have x: "t_state (threads ?s v) = (if v = t then THREAD_UNUSED else t_state (threads s v))" "is_idle (threads ?s v) = is_idle (threads s v)"
    "cpus ?s = cpus s" "pages ?s = pages s" "sched_active ?s = sched_active s" for v
    using lo by (simp_all add: set_thread_def)
  have ti: "t \<in> set ts \<Longrightarrow> \<not> is_idle (threads s t)" using m(9)[of t] t by auto
  have r: "ring ?s (remove1 t ts)" using u(2) by (subst ring_cong[of ?s u]) (auto simp: nexts_def set_thread_def fun_eq_iff)
  have nt: "cpu_current (cpus s ! c) \<noteq> Some t \<and> cpu_idle (cpus s ! c) \<noteq> Some t" if "c < length (cpus s)" for c
    using m(5)[OF that] sched_okD(3)[OF ok] t ti by (auto simp: cpu_ok_def)
  have c: "cpu_ok ?s (remove1 t ts) c" if "c < length (cpus s)" for c
    using m(5)[OF that] nt[OF that] unfolding cpu_ok_def x set by auto
  have "sched_mid (remove1 t ts) ?s"
    unfolding sched_mid_def x(2-) set
  proof (intro conjI allI impI ballI)
    show "set ts - {t} \<subseteq> {..<MAX_THREADS}" using m(2) by blast
    show "\<exists>v. cpu_current (cpus s ! me s) = Some v \<and> (running ?s v \<or> \<not> is_idle (threads s v))"
      using m(10) nt[OF m(4)] unfolding x(1) by auto
    fix v assume v: "v \<in> set ts - {t}"
    show "t_state (threads ?s v) \<noteq> THREAD_UNUSED" using v m(11)[of v] unfolding x(1) by auto
    show "t_state (threads ?s v) \<in> {THREAD_READY, THREAD_RUNNING}" if "is_idle (threads s v)" using v m(9)[of v] that unfolding x(1) by auto
    show "\<exists>c<length (cpus s). cpu_current (cpus s ! c) = Some v" if "running ?s v" using v m(8)[of v] that unfolding x(1) by auto
  qed (use r c m(3,4,6,7) in blast)+
  moreover have "\<exists>v. cpu_current (cpus s ! me s) = Some v \<and> running ?s v"
    using sched_okD(3)[OF ok] nt[OF m(4)] unfolding x(1) by auto
  ultimately have "sched_ok (remove1 t ts) ?s" unfolding sched_ok_def x by blast
  then show ?thesis using u(1) by (simp add: drop_thread_def)
qed

lemma end_law:
  assumes ok: "sched_ok ts s" and cur: "sched_current_thread s = Some t" "\<not> sched_current_is_idle s"
  shows "\<exists>s'. end_thread t s = Some s' \<and> sched_ok ts s'"
proof -
  let ?u = "set_thread t (t_state_update (\<lambda>_. THREAD_ZOMBIE)) s"
  have c: "cpu_current (cpus s ! me s) = Some t" using cur(1) by (simp add: sched_current_thread_def smp_this_def)
  then have ni: "\<not> is_idle (threads s t)" using sched_okD(3)[OF ok] cur(2) by auto
  have "same_frame s ?u" by (auto simp: same_frame_def set_thread_def nexts_def fun_eq_iff)
  then have mid: "sched_mid ts ?u" by (intro park_mid[OF ok c ni, of THREAD_ZOMBIE]) (auto simp: set_thread_def)
  from wake_mid[OF this] have "sched_mid ts (map_threads (set ts) (wake_if (\<lambda>t. t_reason t = WAIT_CHILD)) ?u)" .
  from schedule_law[OF this] show ?thesis
    using sched_wake_law[OF sched_midD(1)[OF mid], of WAIT_CHILD] by (auto simp: end_thread_def)
qed

lemma tick_ok:
  assumes ok: "sched_ok ts s" and run: "sched_tick user s = Some (Inr s')"
  shows "sched_ok ts s'"
proof -
  have f: "same_frame s (charge_tick s)" "\<And>t. t_state (threads (charge_tick s) t) = t_state (threads s t)"
    by (auto simp: same_frame_def charge_tick_def set_thread_def set_proc_def Let_def nexts_def fun_eq_iff
        split: option.splits proc_ref.splits)
  note m = sched_midD[OF sched_okD(1)[OF ok]]
  have okc: "sched_ok ts (charge_tick s)" using m(9,11) f(2) by (intro sched_ok_transfer[OF ok f(1)]) auto
  let ?w = "map_threads (set ts) (wake_if (\<lambda>t. wake_at t \<noteq> 0 \<and> sint (ticks s - wake_at t) \<ge> 0)) (charge_tick s)"
  have w: "wake_expired (ticks s) (charge_tick s) = Some ?w" by (rule wake_expired_law[OF sched_okD(2)[OF okc]])
  have "sched_ok ts ?w" by (rule wake_ok[OF okc])
  then show ?thesis using run m(3) w schedule_law[OF sched_okD(1), of ts ?w] by (auto simp: sched_tick_def split: if_splits)
qed

lemma unblock_ok: "sched_ok ts s \<Longrightarrow> sched_ok ts (unblock t s)"
proof -
  assume ok: "sched_ok ts s"
  note m = sched_midD[OF sched_okD(1)[OF ok]]
  show ?thesis
    by (rule sched_ok_transfer[OF ok])
      (use m(9,11) in \<open>auto simp: unblock_def same_frame_def set_thread_def nexts_def fun_eq_iff\<close>)
qed

lemma cpu_step_ok: "sched_ok ts s \<Longrightarrow> c < length (cpus s) \<Longrightarrow> sched_ok ts (s\<lparr>pages := (pages s)\<lparr>this_cpu := c\<rparr>\<rparr>)"
proof -
  assume ok: "sched_ok ts s" and c: "c < length (cpus s)"
  let ?s = "s\<lparr>pages := (pages s)\<lparr>this_cpu := c\<rparr>\<rparr>"
  note m = sched_midD[OF sched_okD(1)[OF ok]]
  have r: "ring ?s ts" using m(1) by (subst ring_cong[of ?s s]) (auto simp: nexts_def fun_eq_iff)
  have all: "\<exists>t i. cpu_current (cpus s ! d) = Some t \<and> cpu_idle (cpus s ! d) = Some i \<and> t \<in> set ts \<and> i \<in> set ts
     \<and> is_idle (threads s i) \<and> (is_idle (threads s t) \<longrightarrow> t = i) \<and> running s t" if "d < length (cpus s)" for d
    using m(5)[OF that] ok by (cases "d = me s") (auto simp: cpu_ok_def sched_ok_def)
  have k: "cpu_ok ?s ts d" if "d < length (cpus s)" for d using all[OF that] by (auto simp: cpu_ok_def)
  have x: "threads ?s = threads s" "cpus ?s = cpus s" "sched_active ?s = sched_active s" "me ?s = c" by simp_all
  have cur: "\<exists>t. cpu_current (cpus s ! c) = Some t \<and> running s t" using all[OF c] by blast
  have "sched_mid ts ?s"
    unfolding sched_mid_def x by (intro conjI allI impI ballI) (use r k c cur m(2,3,6,7,8,9,11) in blast)+
  then show ?thesis using cur unfolding sched_ok_def x by blast
qed

lemma join_ok:
  assumes ok: "sched_ok ts s" and t: "t < MAX_THREADS" "t_state (threads s t) = THREAD_UNUSED"
  shows "sched_ok (hd ts # t # tl ts) (sched_adopt_idle t (s\<lparr>cpus := cpus s @ [c], pages := (pages s)\<lparr>this_cpu := length (cpus s)\<rparr>\<rparr>))"
proof -
  let ?n = "length (cpus s)" and ?ts = "hd ts # t # tl ts"
  let ?v = "s\<lparr>cpus := cpus s @ [c], pages := (pages s)\<lparr>this_cpu := ?n\<rparr>\<rparr>"
  let ?u = "set_thread t (\<lambda>x. x\<lparr>t_state := THREAD_RUNNING, is_idle := True\<rparr>)
    (set_this_cpu (\<lambda>c. c\<lparr>cpu_idle := Some t, cpu_current := Some t\<rparr>) ?v)"
  note m = sched_midD[OF sched_okD(1)[OF ok]]
  have nt: "t \<notin> set ts" using m(11)[of t] t(2) by auto
  have ne: "ts \<noteq> []" using sched_okD(3)[OF ok] by auto
  have ts: "set ?ts = insert t (set ts)" using ne by (cases ts) auto
  have nu: "nexts ?u = nexts s" "run_queue ?u = run_queue s"
    by (auto simp: nexts_def set_thread_def set_this_cpu_def fun_eq_iff)
  have r: "ring (sched_add t ?u) ?ts" using ring_add[OF _ nt, of ?u] m(1) ring_cong[OF nu] ne by simp
  note lo = links_only_thread[OF links_only_add[of ?u t]]
  have x: "t_state (threads (sched_add t ?u) v) = (if v = t then THREAD_RUNNING else t_state (threads s v))"
    "is_idle (threads (sched_add t ?u) v) = (v = t \<or> is_idle (threads s v))" "sched_active (sched_add t ?u) = sched_active s"
    "me (sched_add t ?u) = ?n" "length (cpus (sched_add t ?u)) = Suc ?n" for v
    using lo by (simp_all add: set_thread_def set_this_cpu_def)
  have old: "cpus (sched_add t ?u) ! d = cpus s ! d" if "d < ?n" for d
    using lo(5) that by (simp add: set_thread_def set_this_cpu_def nth_list_update nth_append)
  have new: "cpu_current (cpus (sched_add t ?u) ! ?n) = Some t" "cpu_idle (cpus (sched_add t ?u) ! ?n) = Some t"
    using lo(5) by (simp_all add: set_thread_def set_this_cpu_def)
  have all: "\<exists>w i. cpu_current (cpus s ! d) = Some w \<and> cpu_idle (cpus s ! d) = Some i \<and> w \<in> set ts \<and> i \<in> set ts
     \<and> is_idle (threads s i) \<and> (is_idle (threads s w) \<longrightarrow> w = i) \<and> running s w" if "d < ?n" for d
    using m(5)[OF that] ok by (cases "d = me s") (auto simp: cpu_ok_def sched_ok_def)
  have k: "cpu_ok (sched_add t ?u) ?ts d" if d: "d < Suc ?n" for d
  proof (cases "d < ?n")
    case True
    then show ?thesis using all[OF True] nt unfolding cpu_ok_def x ts old[OF True] by auto
  next
    case False
    then have "d = ?n" using d by simp
    then show ?thesis using new unfolding cpu_ok_def x ts by auto
  qed
  have inj: "d = d'" if "d < Suc ?n" "d' < Suc ?n" "F (cpus (sched_add t ?u) ! d) = F (cpus (sched_add t ?u) ! d')"
    "F (cpus (sched_add t ?u) ! ?n) = Some t" "\<And>d. d < ?n \<Longrightarrow> F (cpus s ! d) \<noteq> Some t"
    "\<And>d d'. d < ?n \<Longrightarrow> d' < ?n \<Longrightarrow> F (cpus s ! d) = F (cpus s ! d') \<Longrightarrow> d = d'" for F :: "cpu \<Rightarrow> nat option" and d d'
    using that(1-4) that(5)[of d] that(5)[of d'] that(6)[of d d'] old[of d] old[of d'] by (auto simp: less_Suc_eq)
  have notin: "cpu_current (cpus s ! d) \<noteq> Some t" "cpu_idle (cpus s ! d) \<noteq> Some t" if "d < ?n" for d using all[OF that] nt by auto
  have "sched_mid ?ts (sched_add t ?u)"
    unfolding sched_mid_def x
  proof (intro conjI allI impI ballI)
    show "set ?ts \<subseteq> {..<MAX_THREADS}" using m(2) t(1) unfolding ts by simp
    show "\<exists>v. cpu_current (cpus (sched_add t ?u) ! ?n) = Some v \<and> ((if v = t then THREAD_RUNNING else t_state (threads s v)) = THREAD_RUNNING \<or> \<not> (v = t \<or> is_idle (threads s v)))"
      using new by simp
    fix v assume v: "v \<in> set ?ts"
    show "(if v = t then THREAD_RUNNING else t_state (threads s v)) \<noteq> THREAD_UNUSED" using v m(11)[of v] unfolding ts by auto
    show "(if v = t then THREAD_RUNNING else t_state (threads s v)) \<in> {THREAD_READY, THREAD_RUNNING}" if "v = t \<or> is_idle (threads s v)"
      using v m(9)[of v] that unfolding ts by auto
    show "\<exists>d<Suc ?n. cpu_current (cpus (sched_add t ?u) ! d) = Some v" if "(if v = t then THREAD_RUNNING else t_state (threads s v)) = THREAD_RUNNING"
    proof (cases "v = t")
      case True
      then show ?thesis using new by auto
    next
      case False
      then have "running s v" "v \<in> set ts" using v that unfolding ts by auto
      then obtain d where "d < ?n" "cpu_current (cpus s ! d) = Some v" using m(8)[of v] by blast
      then show ?thesis using old[of d] by (intro exI[of _ d]) simp
    qed
  next
    fix d d' assume "d < Suc ?n" "d' < Suc ?n" "cpu_current (cpus (sched_add t ?u) ! d) = cpu_current (cpus (sched_add t ?u) ! d')"
    then show "d = d'" using new(1) notin(1) m(6) by (intro inj[of d d' cpu_current]) auto
  next
    fix d d' assume "d < Suc ?n" "d' < Suc ?n" "cpu_idle (cpus (sched_add t ?u) ! d) = cpu_idle (cpus (sched_add t ?u) ! d')"
    then show "d = d'" using new(2) notin(2) m(7) by (intro inj[of d d' cpu_idle]) auto
  qed (use r k m(3) in auto)
  then show ?thesis unfolding sched_ok_def sched_adopt_idle_def x using new by simp
qed

lemma init_ok:
  assumes "run_queue s = None" "length (cpus s) = 1" "me s = 0" "idle < MAX_THREADS"
  shows "sched_ok [idle] (sched_init idle s)"
proof -
  obtain c where [simp]: "cpus s = [c]" using assms(2) by (cases "cpus s") auto
  have x: "threads (sched_init idle s) = (threads s)(idle := (threads s idle)\<lparr>t_state := THREAD_RUNNING, is_idle := True, t_next := Some idle\<rparr>)"
    "run_queue (sched_init idle s) = Some idle" "sched_active (sched_init idle s)" "pages (sched_init idle s) = pages s"
    "cpus (sched_init idle s) = [c\<lparr>cpu_idle := Some idle, cpu_current := Some idle\<rparr>]"
    using assms by (auto simp: sched_init_def sched_adopt_idle_def sched_add_def set_thread_def set_this_cpu_def smp_this_def fun_eq_iff)
  show ?thesis
    using assms(3,4) unfolding sched_ok_def sched_mid_def cpu_ok_def x by (simp add: ring_Cons nexts_def x)
qed

lemma sched_step_ok:
  assumes "sched_step s s'" "sched_ok ts s"
  shows "\<exists>ts'. sched_ok ts' s'"
  using assms
proof cases
  case Yield
  then show ?thesis using schedule_law[OF sched_okD(1)[OF assms(2)]] by (auto simp: sched_yield_def)
next
  case (Tick user)
  then show ?thesis using tick_ok[OF assms(2)] by blast
next
  case (Block reason)
  then show ?thesis using block_ok[OF assms(2)] sched_midD(3)[OF sched_okD(1)[OF assms(2)]]
    by (auto simp: sched_block_def)
next
  case (Block_Until reason until)
  then show ?thesis using block_ok[OF assms(2)] sched_midD(3)[OF sched_okD(1)[OF assms(2)]]
    by (auto simp: sched_block_until_def)
next
  case (Wake reason)
  then show ?thesis using wake_ok[OF assms(2)] sched_wake_law[OF sched_okD(2)[OF assms(2)]] by auto
next
  case (Spawn t)
  then show ?thesis using start_ok[OF assms(2)] by blast
next
  case (Exit t)
  then show ?thesis using end_law[OF assms(2)] by auto
next
  case (Reap t)
  then show ?thesis using drop_ok[OF assms(2), of t] by auto
next
  case (Kill t)
  then show ?thesis using unblock_ok[OF assms(2)] by blast
next
  case (Join t c)
  then show ?thesis using join_ok[OF assms(2)] by blast
next
  case (Cpu c)
  then show ?thesis using cpu_step_ok[OF assms(2)] by blast
qed

section \<open>The properties\<close>


text \<open>C13. \<open>sched_remove\<close> returns for every run queue and takes out exactly the thread it is given, leaving the
  order of the others.\<close>

theorem sched_remove_correct:
  assumes "ring s ts"
  shows "\<exists>s'. sched_remove t s = Some s' \<and> ring s' (remove1 t ts) \<and> links_only s s'"
  by (rule sched_remove_law[OF assms])

text \<open>A processor passes a waiting thread over: in a state in which the thread is ready and the processor is
  still in the thread it was in, it schedules and picks another one.  Between two such moments anything
  may happen that leaves the queue as it is.\<close>

definition passed_over :: "nat \<Rightarrow> nat list \<Rightarrow> 'f kernel \<Rightarrow> 'f kernel \<Rightarrow> bool" where
  "passed_over t ts s s' \<longleftrightarrow>
     (\<exists>u. sched_ok ts u \<and> cpu_current (cpus u ! me u) = cpu_current (cpus s ! me s)
        \<and> t_state (threads u t) = THREAD_READY \<and> \<not> is_idle (threads u t) \<and> schedule u = Some s')
     \<and> cpu_current (cpus s' ! me s') \<noteq> Some t"

definition ahead :: "nat list \<Rightarrow> nat \<Rightarrow> nat \<Rightarrow> nat" where
  "ahead ts c t = length (takeWhile (\<lambda>x. x \<noteq> t) (turns ts c))"

lemma turns_rotate:
  assumes "distinct ts" "c \<in> set ts" "turns ts c = as @ c' # bs"
  shows "turns ts c' = bs @ as @ [c']"
proof -
  obtain xs ys where ts: "ts = xs @ c # ys" "c \<notin> set xs" using assms(2) by (metis split_list_first)
  have u: "ys @ xs @ [c] = as @ c' # bs" using assms(3) turns_split[OF ts(2)] ts(1) by simp
  have du: "distinct (ys @ xs @ [c])" using assms(1) ts by auto
  have "c' \<in> set ys \<or> c' \<in> set xs \<or> c' = c" using arg_cong[OF u, of set] by auto
  then consider y1 y2 where "ys = y1 @ c' # y2" | x1 x2 where "xs = x1 @ c' # x2" | "c' = c" by (metis split_list)
  then show ?thesis
  proof cases
    case (1 y1 y2)
    then have "as = y1 \<and> bs = y2 @ xs @ [c]" using u du append_Cons_eq_iff[of c' as bs y1 "y2 @ xs @ [c]"] by auto
    then show ?thesis using 1 ts turns_split[of c' "xs @ c # y1" y2] du assms(1) by auto
  next
    case (2 x1 x2)
    then have "as = ys @ x1 \<and> bs = x2 @ [c]" using u du append_Cons_eq_iff[of c' as bs "ys @ x1" "x2 @ [c]"] by auto
    then show ?thesis using 2 ts turns_split[of c' x1 "x2 @ c # ys"] assms(1) by auto
  next
    case 3
    then have "as = ys @ xs \<and> bs = []" using u du append_Cons_eq_iff[of c' as bs "ys @ xs" "[]"] by auto
    then show ?thesis using 3 ts turns_split[OF ts(2)] by simp
  qed
qed

lemma passed_over_closer:
  assumes p: "passed_over t ts s s'" and t: "t \<in> set ts" and c: "cpu_current (cpus s ! me s) = Some c" "c \<in> set ts"
  shows "\<exists>c'. cpu_current (cpus s' ! me s') = Some c' \<and> c' \<in> set ts \<and> ahead ts c' t < ahead ts c t"
proof -
  obtain u where u: "sched_ok ts u" "cpu_current (cpus u ! me u) = Some c" "t_state (threads u t) = THREAD_READY" "\<not> is_idle (threads u t)"
    "schedule u = Some s'" using p c(1) by (auto simp: passed_over_def)
  have rc: "running u c" using u(1,2) by (auto simp: sched_ok_def)
  from schedule_law[OF sched_okD(1)[OF u(1)]] u(2,5) rc obtain i where
    n: "cpu_current (cpus s' ! me s') = Some (case find (eligible u c) (turns ts c) of Some t \<Rightarrow> t | None \<Rightarrow> i)" by fastforce
  have d: "distinct ts" using sched_okD(2)[OF u(1)] by (cases ts) (simp_all add: ring_Cons)
  have "eligible u c t" using u(3,4) by (simp add: eligible_def)
  then obtain c' where f: "find (eligible u c) (turns ts c) = Some c'"
    using t turns_set[OF c(2)] by (cases "find (eligible u c) (turns ts c)") (auto simp: find_None_iff)
  then obtain k where k: "k < length (turns ts c)" "turns ts c ! k = c'" "\<forall>j<k. \<not> eligible u c (turns ts c ! j)" by (auto simp: find_Some_iff)
  define as bs where "as = take k (turns ts c)" and "bs = drop (Suc k) (turns ts c)"
  have sp: "turns ts c = as @ c' # bs" using k(1,2) id_take_nth_drop[of k "turns ts c"] by (simp add: as_def bs_def)
  have ne: "c' \<noteq> t" using p n f by (simp add: passed_over_def)
  have "t \<notin> set as" using k(3) \<open>eligible u c t\<close> k(1) by (auto simp: as_def in_set_conv_nth)
  moreover have "t \<in> set (turns ts c)" using t turns_set[OF c(2)] by simp
  ultimately have tb: "t \<in> set bs" using sp ne by auto
  have "turns ts c' = bs @ as @ [c']" by (rule turns_rotate[OF d c(2) sp])
  then have "ahead ts c' t = length (takeWhile (\<lambda>x. x \<noteq> t) bs)" using tb by (simp add: ahead_def takeWhile_append1)
  moreover have "takeWhile (\<lambda>x. x \<noteq> t) (as @ c' # bs) = as @ c' # takeWhile (\<lambda>x. x \<noteq> t) bs"
    using \<open>t \<notin> set as\<close> ne by (induction as) auto
  then have "ahead ts c t = length as + 1 + length (takeWhile (\<lambda>x. x \<noteq> t) bs)" by (simp add: ahead_def sp)
  moreover have "c' \<in> set ts" using turns_set[OF c(2)] sp by auto
  ultimately show ?thesis using n f by simp
qed


section \<open>A small machine\<close>

text \<open>One processor with its idle thread and two more.\<close>

definition demo_thread :: thread where
  "demo_thread = \<lparr>tid = 0, t_proc = None, t_state = THREAD_UNUSED, t_reason = WAIT_NONE, kernel_stack = 0, kernel_stack_size = 0,
     t_rsp = 0, user_entry = 0, user_stack = 0, is_idle = False, t_ticks = 0, wake_at = 0, t_next = None\<rparr>"

definition demo_process :: "unit process" where
  "demo_process = \<lparr>pid = 0, p_name = [], p_used = True, p_space = 0, cwd = [], fds = (), p_uid = 0, seat = False, seat_pending = False,
     term_rows = 25, term_cols = 80, own_terminal = False, p_ticks = 0, code_bytes = 0, data_bytes = 0, stack_bytes = 0,
     heap_start = 0, heap_break = 0, p_parent = None, exited = False, killed = False, exit_status = 0, p_thread = None, thread_count = 0\<rparr>"

definition demo_boot_kernel :: "unit kernel" where
  "demo_boot_kernel = \<lparr>threads = (\<lambda>_. demo_thread), processes = (\<lambda>_. demo_process\<lparr>p_used := False\<rparr>), kernel_proc = demo_process,
     next_pid = 1, next_tid = 1, run_queue = None, sched_active = False,
     cpus = [\<lparr>cpu_current = None, cpu_idle = None, tss_rsp0 = 0\<rparr>], ticks = 0, pages = demo_paging\<rparr>"

definition demo_kernel :: "unit kernel" where
  "demo_kernel = start_thread 2 (start_thread 1 (sched_init 0 demo_boot_kernel))"

lemma demo_boot_kernel_facts: "run_queue demo_boot_kernel = None" "length (cpus demo_boot_kernel) = 1" "me demo_boot_kernel = 0" "0 < MAX_THREADS" "1 < MAX_THREADS" "2 < MAX_THREADS"
  by (simp_all add: demo_boot_kernel_def demo_paging_def MAX_THREADS_def)

lemma demo_kernel_threads:
  "t_state (threads (sched_init 0 demo_boot_kernel) 1) = THREAD_UNUSED" "\<not> is_idle (threads (sched_init 0 demo_boot_kernel) 1)"
  "t_state (threads (start_thread 1 (sched_init 0 demo_boot_kernel)) 2) = THREAD_UNUSED" "\<not> is_idle (threads (start_thread 1 (sched_init 0 demo_boot_kernel)) 2)"
  "t_state (threads demo_kernel 2) = THREAD_READY" "\<not> is_idle (threads demo_kernel 2)"
  "t_state (threads demo_kernel 1) = THREAD_READY" "\<not> is_idle (threads demo_kernel 1)" "running demo_kernel 0"
  "cpu_current (cpus demo_kernel ! me demo_kernel) = Some 0"
  by (simp_all add: demo_kernel_def start_thread_def sched_init_def sched_adopt_idle_def sched_add_def set_thread_def
      set_this_cpu_def smp_this_def demo_boot_kernel_def demo_thread_def demo_paging_def)

lemma demo_kernel_ok: "sched_ok [0, 2, 1] demo_kernel"
proof -
  have "sched_ok [0] (sched_init 0 demo_boot_kernel)" by (rule init_ok[OF demo_boot_kernel_facts(1-4)])
  from start_ok[OF this demo_boot_kernel_facts(5) demo_kernel_threads(1,2)] have "sched_ok [0, 1] (start_thread 1 (sched_init 0 demo_boot_kernel))" by simp
  from start_ok[OF this demo_boot_kernel_facts(6) demo_kernel_threads(3,4)] show ?thesis by (simp add: demo_kernel_def)
qed


theorem sched_remove_correct_witness: "\<exists>s'. sched_remove 2 demo_kernel = Some s' \<and> ring s' [0, 1]"
  using sched_remove_correct[OF sched_okD(2)[OF demo_kernel_ok], of 2] by auto


end
