(* ===== verification/Umem.thy ===== *)
theory Umem
  imports Uaccess
begin

text \<open>
  Memory of a program as the kernel fills it: the loops of \<^verbatim>\<open>kernel/proc/elf.c\<close> and \<^verbatim>\<open>kernel/proc/proc.c\<close>
  that map the missing pages of a range, and stores through user addresses of the current space.

  The lemmas say what both do to the whole machine: which mappings appear, which bytes of the program
  change, and that no page of another program and no page table is touched.
\<close>

section \<open>Bytes of physical memory\<close>

definition get_byte :: "words \<Rightarrow> u64 \<Rightarrow> u8" where
  "get_byte m phys = ucast (drop_bit (8 * (unat phys mod 8)) (m (phys AND NOT 7)))"

definition put_byte :: "u64 \<Rightarrow> u8 \<Rightarrow> words \<Rightarrow> words" where
  "put_byte phys c m =
     (let a = phys AND NOT 7; k = 8 * (unat phys mod 8)
      in m(a := (m a AND NOT (push_bit k 0xFF)) OR push_bit k (ucast c)))"

lemma user_byte_get: "user_byte s as v = get_byte (phys_mem s) (paging_translate s as v)"
  by (simp add: user_byte_def get_byte_def Let_def)

lemma word_split:
  fixes p q :: u64
  assumes "p AND NOT 7 = q AND NOT 7" "unat p mod 8 = unat q mod 8"
  shows "p = q"
proof -
  have "unat p div 8 * 8 = unat q div 8 * 8"
    using unat_align_down[of p 3] unat_align_down[of q 3] assms(1) by (simp add: align_down_def)
  then have "unat p = unat q" using assms(2) by (metis div_mult_mod_eq)
  then show ?thesis by (simp add: word_unat_eq_iff)
qed

lemma get_put: "get_byte (put_byte p c m) q = (if q = p then c else get_byte m q)"
proof (cases "q AND NOT 7 = p AND NOT 7")
  case True
  let ?k = "8 * (unat p mod 8)" and ?j = "8 * (unat q mod 8)"
  have ff: "(0xFF :: u64) = mask 8" by (simp add: mask_eq_exp_minus_1)
  have k: "?k + 8 \<le> 64" "?j + 8 \<le> 64" using mod_less_divisor[of 8 "unat p"] mod_less_divisor[of 8 "unat q"] by linarith+
  have "bit (get_byte (put_byte p c m) q) n = bit (if q = p then c else get_byte m q) n" if n: "n < 8" for n
  proof (cases "unat q mod 8 = unat p mod 8")
    case same: True
    then have "q = p" using word_split True by blast
    then show ?thesis using n k unfolding get_byte_def put_byte_def Let_def ff
      by (simp add: bit_ucast_iff bit_drop_bit_eq bit_or_iff bit_and_iff bit_not_iff bit_push_bit_iff bit_mask_iff)
  next
    case False
    then have "\<not> (?k \<le> ?j + n \<and> ?j + n < ?k + 8)" using n by (cases "unat q mod 8 < unat p mod 8") auto
    moreover have "q \<noteq> p" using False by auto
    ultimately show ?thesis using n k True bit_imp_le_length[of c "?j + n - ?k"] unfolding get_byte_def put_byte_def Let_def ff
      by (auto simp: bit_ucast_iff bit_drop_bit_eq bit_or_iff bit_and_iff bit_not_iff bit_push_bit_iff bit_mask_iff)
  qed
  then show ?thesis by (intro bit_word_eqI) simp
next
  case False
  then show ?thesis by (auto simp: get_byte_def put_byte_def Let_def)
qed

lemma page_of_word: "page_of (phys AND NOT 7) = page_of phys"
proof (rule bit_word_eqI)
  fix n
  have seven: "(7 :: u64) = mask 3" by (simp add: mask_eq_exp_minus_1)
  show "bit (page_of (phys AND NOT 7)) n = bit (page_of phys) n"
    unfolding seven by (auto simp: bit_page_of bit_and_iff bit_not_iff bit_mask_iff dest: bit_imp_le_length)
qed

lemma put_byte_off: "page_of a \<noteq> page_of phys \<Longrightarrow> put_byte phys c m a = m a"
  using page_of_word[of phys] by (auto simp: put_byte_def Let_def)

section \<open>Stores\<close>

definition user_store_byte :: "u64 \<Rightarrow> u64 \<Rightarrow> u8 \<Rightarrow> paging \<Rightarrow> paging option" where
  "user_store_byte as v c s =
     (let phys = paging_translate s as v
      in if phys = 0 then None else Some (s\<lparr>phys_mem := put_byte phys c (phys_mem s)\<rparr>))"

primrec user_store :: "u64 \<Rightarrow> u64 \<Rightarrow> bytes \<Rightarrow> paging \<Rightarrow> paging option" where
  "user_store as v [] s = Some s"
| "user_store as v (c # cs) s = (case user_store_byte as v c s of None \<Rightarrow> None | Some s \<Rightarrow> user_store as (v + 1) cs s)"

section \<open>Mapping what is missing\<close>

function map_missing :: "paging \<Rightarrow> u64 \<Rightarrow> nat \<Rightarrow> nat \<Rightarrow> (paging \<times> bool) option" where
  "map_missing s as page stop =
     (if page < stop
      then if paging_translate s as (of_nat page) \<noteq> 0 then map_missing s as (page + PAGE_SIZE) stop
           else
             (case paging_map_alloc s as (of_nat page) (PTE_WRITE OR PTE_USER) True of
                None \<Rightarrow> None
              | Some (s, ok) \<Rightarrow> if ok then map_missing s as (page + PAGE_SIZE) stop else Some (s, False))
      else Some (s, True))"
  by auto
termination by (relation "measure (\<lambda>(s, as, page, stop). stop - page)") (auto simp: PAGE_SIZE_def)

declare map_missing.simps [simp del]

section \<open>Changes outside the tables\<close>

lemma table_at_agree:
  assumes "frame_addr r" "\<And>q. path_ok q \<Longrightarrow> table_at m r q \<noteq> Some f" "\<And>a. page_of a \<noteq> f \<Longrightarrow> m' a = m a" "path_ok q"
  shows "table_at m' r q = table_at m r q"
  using assms(4)
proof (induction q rule: rev_induct)
  case (snoc j q)
  have q: "path_ok q" "j < 512" using snoc.prems by (auto simp: path_ok_snoc)
  show ?case
  proof (cases "table_at m r q")
    case None
    then show ?thesis using snoc.IH[OF q(1)] unfolding table_at_snoc by simp
  next
    case (Some u)
    then have "page_of (u + 8 * j) \<noteq> f" using slot_page[OF table_at_frame[OF assms(1) Some] q(2)] assms(2)[OF q(1)] by auto
    then have "entry_at m' u j = entry_at m u j" using assms(3) by (simp add: entry_at_def)
    then show ?thesis using snoc.IH[OF q(1)] Some unfolding table_at_snoc by simp
  qed
qed simp

lemma agree_same:
  assumes "\<forall>r\<in>R. frame_addr r" "not_table R m f" "\<And>a. page_of a \<noteq> f \<Longrightarrow> m' a = m a" "r \<in> R" "path_ok q"
  shows "table_at m' r q = table_at m r q" "j < 512 \<Longrightarrow> ent m' r q j = ent m r q j"
proof -
  show same: "table_at m' r q = table_at m r q"
    by (rule table_at_agree[of r m f m' q]) (use assms in \<open>auto simp: not_table_def\<close>)
  show "ent m' r q j = ent m r q j" if "j < 512"
  proof (cases "table_at m r q")
    case None
    then show ?thesis using same by (simp add: ent_def)
  next
    case (Some u)
    then have "u \<noteq> f" "frame_addr u" using assms table_at_frame unfolding not_table_def by blast+
    then have "page_of (u + 8 * j) \<noteq> f" using slot_page that by simp
    then show ?thesis using same Some assms(3) by (simp add: ent_def entry_at_def)
  qed
qed

lemma agree_mapping:
  assumes "\<forall>r\<in>R. frame_addr r" "not_table R m f" "\<And>a. page_of a \<noteq> f \<Longrightarrow> m' a = m a" "r \<in> R"
  shows "mapping m' r v = mapping m r v"
  using agree_same(2)[OF assms path_of_ok(1)[of v]] agree_same(2)[OF assms path_of_ok(3)[of v]]
  by (simp add: mapping_def path_of_def Let_def)

lemma agree_keeps_ok:
  assumes ok: "space_ok R s" and f: "not_table R (phys_mem s) f" and off: "\<And>a. page_of a \<noteq> f \<Longrightarrow> m' a = phys_mem s a"
  shows "space_ok R (s\<lparr>phys_mem := m'\<rparr>)" "same_mappings R s (s\<lparr>phys_mem := m'\<rparr>)"
proof -
  have T: "tree_ok R (phys_mem s) (free_set (frames s))" and P: "pages_ok R (phys_mem s) (free_set (frames s))"
    using ok by (simp_all add: space_ok_def pg_ok_def)
  note C = agree_same[OF tree_okD(1)[OF T] f off] and M = agree_mapping[OF tree_okD(1)[OF T] f off]
  show "same_mappings R s (s\<lparr>phys_mem := m'\<rparr>)" using M by (simp add: same_mappings_def)
  have "unique_tables R m'" using tree_okD(2)[OF T] C(1) unfolding unique_tables_def by metis
  then have "tree_ok R m' (free_set (frames s))"
    using T C path_ok_snoc unfolding tree_ok_def tables_in_use_def no_huge_above_def user_chain_def by simp
  moreover have "pages_ok R m' (free_set (frames s))"
    using P M C(1) unfolding pages_ok_def not_table_def by simp
  ultimately show "space_ok R (s\<lparr>phys_mem := m'\<rparr>)" using ok by (simp add: space_ok_def pg_ok_def)
qed


section \<open>What mapping a page leaves alone\<close>

definition spared :: "u64 set \<Rightarrow> paging \<Rightarrow> u64 \<Rightarrow> bool" where
  "spared R s a \<longleftrightarrow> not_table R (phys_mem s) (page_of a) \<and> unat (page_of a) div 4096 \<notin> free_set (frames s)"

lemma spared_step: "spared R s a \<Longrightarrow> new_tables R s s' \<Longrightarrow> spared R s' a"
  using not_table_new unfolding spared_def new_tables_def by blast

lemma next_level_mem:
  assumes ok: "pg_ok R s" and r: "r \<in> R" and p: "path_ok (p @ [i])" and t: "table_at (phys_mem s) r p = Some t"
    and run: "next_level s t i True flags (Some as) = (s', res)" and a: "spared R s a"
  shows "phys_mem s' a = phys_mem s a"
proof -
  have inv: "pmm_inv (frames s)" "0 \<notin> free_set (frames s)" "tree_ok R (phys_mem s) (free_set (frames s))"
    using ok by (simp_all add: pg_ok_def)
  have i: "i < 512" and pp: "path_ok p" using p by (simp_all add: path_ok_snoc)
  have ft: "frame_addr t" using table_at_frame[OF _ t] tree_okD(1)[OF inv(3)] r by blast
  have "t \<noteq> page_of a" using a r pp t unfolding spared_def not_table_def by blast
  then have ne: "a \<noteq> t + 8 * i" using slot_page[OF ft i] by auto
  show ?thesis
  proof (cases "present (entry_at (phys_mem s) t i)")
    case True
    then show ?thesis using run ne by (auto simp: next_level_def Let_def set_entry_def split: if_splits)
  next
    case False
    obtain s1 z where z: "zeroed_low_frame s = (s1, z)" by fastforce
    note Z = low_frame_law[OF inv(1,2) z]
    have "phys_mem s1 a = phys_mem s a"
    proof (cases z)
      case (Some f)
      then have "phys_mem s1 = page_clear f (phys_mem s)" "unat f div 4096 \<in> free_set (frames s)" using Z(4) by auto
      moreover have "page_of a \<noteq> f" using a calculation(2) unfolding spared_def by auto
      ultimately show ?thesis by (simp add: page_clear_def)
    qed (use Z(4) in simp)
    then show ?thesis using run ne False z
      by (auto simp: next_level_def Let_def set_entry_def add_table_frames_def split: option.splits)
  qed
qed

lemma walk_mem:
  assumes ok: "pg_ok R s" and r: "root_of s as \<in> R" and v: "\<not> shared (path_of v)"
    and run: "walk_to_pt s as v True flags = (s', res)" and a: "spared R s a"
  shows "phys_mem s' a = phys_mem s a"
proof -
  let ?r = "root_of s as" and ?i1 = "PML4_INDEX v" and ?i2 = "PDPT_INDEX v" and ?i3 = "PD_INDEX v"
  have sh: "\<not> shared []" "\<not> shared [?i1]" "\<not> shared [?i1, ?i2]" "\<not> shared [?i1, ?i2, ?i3]"
    using v shared_prefix[of "[?i1]" "[?i2, ?i3]"] shared_prefix[of "[?i1, ?i2]" "[?i3]"] by (auto simp: path_of_def shared_def)
  note P = path_of_ok[of v, unfolded path_of_def]
  obtain s1 r1 where 1: "next_level s ?r ?i1 True flags (Some as) = (s1, r1)" by fastforce
  have m1: "phys_mem s1 a = phys_mem s a" by (rule next_level_mem[OF ok r _ _ 1 a, of "[]"]) (use P in auto)
  have L1: "level_post R s s1 ?r [] ?i1 flags r1"
    by (rule next_level_law[OF ok pg_ok_slot[OF ok r] _ _ _ _ 1]) (use sh in auto)
  show ?thesis
  proof (cases r1)
    case None
    then have "s' = s1" using run 1 by (auto simp: walk_to_pt_def root_of_def)
    then show ?thesis using m1 by simp
  next
    case (Some t1)
    note N1 = level_next[OF L1[unfolded Some] r, unfolded append.simps, OF P(2)]
    have a1: "spared R s1 a" by (rule spared_step[OF a N1(4)])
    obtain s2 r2 where 2: "next_level s1 t1 ?i2 True flags (Some as) = (s2, r2)" by fastforce
    have m2: "phys_mem s2 a = phys_mem s1 a" by (rule next_level_mem[OF N1(1) r _ N1(5) 2 a1]) (use P in auto)
    have L2: "level_post R s1 s2 ?r [?i1] ?i2 flags r2"
      by (rule next_level_law[OF N1(1) pg_ok_slot[OF N1(1) r P(2) sh(2) N1(5)] _ _ _ _ 2]) (use sh N1(6) in auto)
    show ?thesis
    proof (cases r2)
      case None
      then have "s' = s2" using run 1 2 Some by (auto simp: walk_to_pt_def root_of_def)
      then show ?thesis using m1 m2 by simp
    next
      case t2: (Some t2)
      note N2 = level_next[OF L2[unfolded t2 N1(2)[symmetric]], unfolded N1(2) append.simps, OF r P(3)]
      have "s' = s2 \<or> next_level s2 t2 ?i3 True flags (Some as) = (s', res)"
        using run 1 2 Some t2 by (auto simp: walk_to_pt_def root_of_def split: if_splits)
      moreover have "phys_mem s' a = phys_mem s2 a" if "next_level s2 t2 ?i3 True flags (Some as) = (s', res)"
        by (rule next_level_mem[OF N2(1) r _ N2(5) that spared_step[OF a1 N2(4)]]) (use P in auto)
      ultimately show ?thesis using m1 m2 by auto
    qed
  qed
qed

lemma map_mem:
  assumes ok: "pg_ok R s" and r: "root_of s as \<in> R" and v: "\<not> shared (path_of v)"
    and run: "paging_map s as v phys flags = Some (s', b)" and a: "spared R s a"
  shows "phys_mem s' a = phys_mem s a"
proof -
  obtain s1 res where w: "walk_to_pt s as v True flags = (s1, res)" by fastforce
  have m1: "phys_mem s1 a = phys_mem s a" by (rule walk_mem[OF ok r v w a])
  note W = walk_law[OF ok r v w]
  show ?thesis
  proof (cases res)
    case None
    then show ?thesis using run w m1 by (simp add: paging_map_def)
  next
    case (Some pt)
    then have pt: "table_at (phys_mem s1) (root_of s as) (path_of v) = Some pt" "pg_ok R s1" "new_tables R s s1"
      using W by (simp_all add: walk_post_def)
    have "frame_addr pt" using table_at_frame[OF _ pt(1)] pt(2) r by (auto simp: pg_ok_def tree_ok_def)
    moreover have "pt \<noteq> page_of a" using spared_step[OF a pt(3)] pt(1) r path_of_ok(1)[of v] unfolding spared_def not_table_def by blast
    ultimately have "a \<noteq> pt + 8 * PT_INDEX v" using slot_page[of pt "PT_INDEX v"] by auto
    then show ?thesis using run w m1 Some
      by (auto simp: paging_map_def Let_def set_entry_def flush_own_def invlpg_def add_user_frames_def split: if_splits)
  qed
qed

lemma map_alloc_mem:
  assumes ok: "space_ok R s" and r: "root_of s as \<in> R" and v: "\<not> shared (path_of v)"
    and run: "paging_map_alloc s as v flags zero = Some (s', b)" and a: "spared R s a"
  shows "phys_mem s' a = phys_mem s a"
proof -
  obtain p phys where al: "pmm_alloc_frame (frames s) = (p, phys)" by fastforce
  note A = frame_alloc_law[OF ok al]
  let ?s = "s\<lparr>frames := p\<rparr>"
  show ?thesis
  proof (cases "phys = 0")
    case True
    then show ?thesis using run al by (auto simp: paging_map_alloc_def)
  next
    case False
    note F = A(3)[OF False]
    have pg: "pg_ok R ?s" using A(1) by (simp add: space_ok_def)
    have r': "root_of ?s as = root_of s as" by (simp add: root_of_def)
    have a': "spared R ?s a" using a F by (auto simp: spared_def)
    obtain s1 c where m: "paging_map ?s as v phys flags = Some (s1, c)"
      using run al False by (auto simp: paging_map_alloc_def Let_def split: option.splits)
    have m1: "phys_mem s1 a = phys_mem s a" using map_mem[OF pg, of as v phys flags s1 c a] r r' v m a' by simp
    have "page_of (paging_translate s1 as v) = phys" if c
    proof -
      have M: "pg_ok R s1" "keeps_rest (flush_own as v ?s) s1" "mapping (phys_mem s1) (root_of s as) v = Some (Page (page_entry phys flags))"
        using map_law[OF pg, of as v phys flags, unfolded r', OF r v] m that r by (simp_all add: same_page_def)
      have "root_of s1 as = root_of s as"
        using M(2) by (simp add: keeps_rest_def root_of_def flush_own_def invlpg_def split: if_splits)
      then show ?thesis using translate_mapping[OF M(1), of as v] M(3) r F page_entry_flags(2)[of phys flags] page_of_physical[of phys v]
        by (simp add: frame_addr_def)
    qed
    moreover have "page_of a \<noteq> phys" using a F unfolding spared_def by auto
    ultimately show ?thesis using run al False m m1
      by (auto simp: paging_map_alloc_def Let_def page_clear_def split: option.splits if_splits bool.splits)
  qed
qed


section \<open>The memory of a program\<close>

lemma user_private:
  assumes "0x40000000 \<le> unat v" "unat v < 0xC0000000"
  shows "\<not> shared (path_of v)" "v < 2 ^ 48"
proof -
  have m: "(0x1FF :: u64) = mask 9" by (simp add: mask_eq_exp_minus_1)
  have "unat (PDPT_INDEX v) = unat v div 2 ^ 30 mod 512"
    unfolding PDPT_INDEX_def m take_bit_eq_mask[symmetric] unsigned_take_bit_eq unsigned_drop_bit_eq
    using unat_lt_2_64[of v] by (simp add: take_bit_eq_mod drop_bit_eq_div)
  moreover have "1 \<le> unat v div 2 ^ 30" "unat v div 2 ^ 30 \<le> 2" using assms by (simp_all add: div_le_mono[of _ _ "2 ^ 30", simplified] le_div_geq less_mult_imp_div_less Suc_leI)
  ultimately have i: "unat (PDPT_INDEX v) \<noteq> 0" "unat (PDPT_INDEX v) \<noteq> 3" by simp_all
  have "PDPT_INDEX DEVICE_WINDOW = 3" by (simp add: PDPT_INDEX_def DEVICE_WINDOW_def)
  then show "\<not> shared (path_of v)" using i by (auto simp: shared_def path_of_def)
  show "v < 2 ^ 48" using assms by (simp add: word_less_nat_alt)
qed

definition owned :: "u64 set \<Rightarrow> u64 \<Rightarrow> nat \<Rightarrow> nat \<Rightarrow> paging \<Rightarrow> bool" where
  "owned R as lo hi s \<longleftrightarrow> (\<forall>v x. lo \<le> unat v \<longrightarrow> unat v < hi \<longrightarrow> mapping (phys_mem s) (root_of s as) v = Some x \<longrightarrow>
     (\<exists>e. x = Page e \<and> for_user e \<and> writable e \<and>
        (\<forall>r\<in>R. \<forall>w e'. \<not> shared (path_of w) \<longrightarrow> mapping (phys_mem s) r w = Some (Page e') \<longrightarrow> FRAME_OF e' = FRAME_OF e \<longrightarrow>
           r = root_of s as \<and> same_page v w)))"

lemma ownedD:
  assumes "owned R as lo hi s" "lo \<le> unat v" "unat v < hi" "mapping (phys_mem s) (root_of s as) v = Some x"
  shows "\<exists>e. x = Page e \<and> for_user e \<and> writable e"
    and "x = Page e \<Longrightarrow> r \<in> R \<Longrightarrow> \<not> shared (path_of w) \<Longrightarrow> mapping (phys_mem s) r w = Some (Page e') \<Longrightarrow> FRAME_OF e' = FRAME_OF e \<Longrightarrow>
      r = root_of s as \<and> same_page v w"
  using assms unfolding owned_def by blast+

text \<open>A part of the address space whose pages only this program has, in a consistent machine.\<close>

definition uenv :: "u64 set \<Rightarrow> u64 set \<Rightarrow> u64 \<Rightarrow> nat \<Rightarrow> nat \<Rightarrow> paging \<Rightarrow> bool" where
  "uenv A R as lo hi s \<longleftrightarrow> machine_ok A R s \<and> as \<in> A \<and> owned R as lo hi s
     \<and> 0x40000000 \<le> lo \<and> hi \<le> 0xBFFF0000 \<and> lo mod 4096 = 0 \<and> hi mod 4096 = 0"

lemma uenvD:
  assumes "uenv A R as lo hi s"
  shows "machine_ok A R s" "as \<in> A" "owned R as lo hi s" "space_ok R s" "pg_ok R s" "root_of s as \<in> R"
    "pages_ok R (phys_mem s) (free_set (frames s))" "\<forall>r\<in>R. frame_addr r"
    and "lo \<le> unat v \<Longrightarrow> unat v < hi \<Longrightarrow> \<not> shared (path_of v)" "lo \<le> unat v \<Longrightarrow> unat v < hi \<Longrightarrow> v < 2 ^ 48"
  using assms machine_okD(1,7)[of A R s] user_private[of v] by (auto simp: uenv_def space_ok_def pg_ok_def tree_ok_def)

text \<open>What the program finds there.\<close>

definition prog_mem :: "paging \<Rightarrow> u64 \<Rightarrow> nat \<Rightarrow> nat \<Rightarrow> nat \<Rightarrow> u8 option" where
  "prog_mem s as lo hi a =
     (if lo \<le> a \<and> a < hi \<and> mapping (phys_mem s) (root_of s as) (of_nat a) \<noteq> None then Some (user_byte s as (of_nat a)) else None)"

text \<open>What a change of this program's memory leaves alone: the mappings of every other space and the
  contents of their pages.\<close>

definition others_kept :: "u64 set \<Rightarrow> u64 \<Rightarrow> paging \<Rightarrow> paging \<Rightarrow> bool" where
  "others_kept R as s s' \<longleftrightarrow> this_space s' = this_space s \<and> root_of s' = root_of s
     \<and> (\<forall>r\<in>R. r \<noteq> root_of s as \<longrightarrow> (\<forall>w. mapping (phys_mem s') r w = mapping (phys_mem s) r w)
        \<and> (\<forall>w e a. \<not> shared (path_of w) \<longrightarrow> mapping (phys_mem s) r w = Some (Page e) \<longrightarrow> page_of a = FRAME_OF e \<longrightarrow>
             phys_mem s' a = phys_mem s a))"

lemma others_kept_refl [simp]: "others_kept R as s s"
  by (simp add: others_kept_def)

lemma others_kept_trans: "others_kept R as s t \<Longrightarrow> others_kept R as t u \<Longrightarrow> others_kept R as s u"
  unfolding others_kept_def by simp

lemma unat_user:
  assumes "uenv A R as lo hi s" "a < hi"
  shows "unat (of_nat a :: u64) = a"
  using assms by (intro unat_of_nat_u64) (simp add: uenv_def)

lemma prog_mem_mapped:
  assumes u: "uenv A R as lo hi s" and a: "prog_mem s as lo hi a = Some c"
  shows "\<exists>e. mapping (phys_mem s) (root_of s as) (of_nat a) = Some (Page e) \<and> paging_translate s as (of_nat a) = FRAME_OF e OR (of_nat a AND 0xFFF)
    \<and> paging_translate s as (of_nat a) \<noteq> 0 \<and> not_table R (phys_mem s) (FRAME_OF e) \<and> unat (FRAME_OF e) div 4096 \<notin> free_set (frames s)
    \<and> paging_user_can_access s as (of_nat a) w"
proof -
  note D = uenvD[OF u]
  have r: "lo \<le> a" "a < hi" "unat (of_nat a :: u64) = a" using a unat_user[OF u, of a] by (auto simp: prog_mem_def split: if_splits)
  obtain x where x: "mapping (phys_mem s) (root_of s as) (of_nat a) = Some x" using a by (auto simp: prog_mem_def split: if_splits)
  then obtain e where e: "x = Page e" "for_user e" "writable e" using ownedD(1)[OF D(3), of "of_nat a" x] r by auto
  note P = pages_okD[OF D(7) D(6) D(9)[of "of_nat a"], of e]
  have p: "FRAME_OF e \<noteq> 0" "not_table R (phys_mem s) (FRAME_OF e)" "unat (FRAME_OF e) div 4096 \<notin> free_set (frames s)"
    using P x e(1) r by auto
  have tr: "paging_translate s as (of_nat a) = FRAME_OF e OR (of_nat a AND 0xFFF)" using translate_mapping[OF D(5,6), of "of_nat a"] x e(1) by simp
  have "FRAME_OF e OR (of_nat a AND 0xFFF) \<noteq> 0" using p(1) by (metis or_eq_0_iff)
  moreover have "paging_user_can_access s as (of_nat a) w" using can_access_mapping[OF D(5,6)] x e by auto
  ultimately show ?thesis using x e(1) p(2,3) tr by auto
qed

lemma translate_prog_mem:
  assumes u: "uenv A R as lo hi s" and a: "lo \<le> a" "a < hi"
  shows "paging_translate s as (of_nat a) \<noteq> 0 \<longleftrightarrow> prog_mem s as lo hi a \<noteq> None"
proof (cases "mapping (phys_mem s) (root_of s as) (of_nat a)")
  case None
  then show ?thesis using translate_mapping[OF uenvD(5,6)[OF u], of "of_nat a"] by (simp add: prog_mem_def)
next
  case (Some x)
  then have c: "prog_mem s as lo hi a = Some (user_byte s as (of_nat a))" using a by (simp add: prog_mem_def)
  then show ?thesis using prog_mem_mapped[OF u c] by auto
qed


section \<open>A store changes one byte of the program\<close>

lemma physical_inj:
  assumes "FRAME_OF e OR (v AND 0xFFF) = FRAME_OF e' OR (w AND 0xFFF)" "same_page v w" "v < 2 ^ 48" "w < 2 ^ 48"
  shows "v = w"
proof (rule bit_word_eqI)
  fix n
  have m: "(0xFFF :: u64) = mask 12" by (simp add: mask_eq_exp_minus_1)
  have "bit (FRAME_OF e OR (v AND 0xFFF)) n = bit (FRAME_OF e' OR (w AND 0xFFF)) n" by (simp only: assms(1))
  then have low: "n < 12 \<Longrightarrow> bit v n = bit w n" unfolding m by (simp add: bit_or_iff bit_and_iff bit_FRAME_OF bit_mask_iff)
  have "bit (drop_bit 12 v) (n - 12) = bit (drop_bit 12 w) (n - 12)" using same_page_number[OF assms(3,4,2)] by simp
  then show "bit v n = bit w n" using low by (cases "n < 12") (simp_all add: bit_drop_bit_eq)
qed

lemma page_of_translate:
  assumes "paging_translate s as v = FRAME_OF e OR (v AND 0xFFF)"
  shows "page_of (paging_translate s as v) = FRAME_OF e"
  using assms page_of_physical[of "FRAME_OF e" v] by simp

lemma translate_same:
  assumes "pg_ok R s" "pg_ok R s'" "root_of s as \<in> R" "root_of s' = root_of s" "mapping (phys_mem s') (root_of s as) v = mapping (phys_mem s) (root_of s as) v"
  shows "paging_translate s' as v = paging_translate s as v"
  using assms translate_mapping[of R s as v] translate_mapping[of R s' as v] by simp

lemma owned_same:
  assumes "owned R as lo hi s" "same_mappings R s s'" "root_of s' = root_of s" "root_of s as \<in> R"
  shows "owned R as lo hi s'"
  using assms unfolding owned_def same_mappings_def by simp

lemma store_byte_law:
  assumes u: "uenv A R as lo hi s" and a: "prog_mem s as lo hi a = Some c0"
  shows "\<exists>s'. user_store_byte as (of_nat a) c s = Some s' \<and> uenv A R as lo hi s' \<and> others_kept R as s s'
    \<and> prog_mem s' as lo hi = (prog_mem s as lo hi)(a \<mapsto> c)"
proof -
  note D = uenvD[OF u]
  obtain e where e: "mapping (phys_mem s) (root_of s as) (of_nat a) = Some (Page e)" "paging_translate s as (of_nat a) = FRAME_OF e OR (of_nat a AND 0xFFF)"
    "paging_translate s as (of_nat a) \<noteq> 0" "not_table R (phys_mem s) (FRAME_OF e)" using prog_mem_mapped[OF u a] by blast
  have ra: "lo \<le> a" "a < hi" using a by (auto simp: prog_mem_def split: if_splits)
  have un: "unat (of_nat a :: u64) = a" by (rule unat_user[OF u ra(2)])
  let ?p = "paging_translate s as (of_nat a)"
  define s' where "s' = s\<lparr>phys_mem := put_byte ?p c (phys_mem s)\<rparr>"
  have pp: "page_of ?p = FRAME_OF e" by (rule page_of_translate[OF e(2)])
  have off: "put_byte ?p c (phys_mem s) x = phys_mem s x" if "page_of x \<noteq> FRAME_OF e" for x
    by (rule put_byte_off) (use that pp in simp)
  note K = agree_keeps_ok[OF D(4) e(4) off, folded s'_def]
  have root: "root_of s' = root_of s" by (simp add: fun_eq_iff root_of_def s'_def)
  have rest: "keeps_rest s s'" by (simp add: keeps_rest_def s'_def)
  have tlb: "tlb_ok s'" using same_mappings_tlb[OF machine_okD(2)[OF D(1)] K(2) rest machine_okD(6)[OF D(1)]] .
  have ok: "machine_ok A R s'" using D(1) K(1) tlb root by (simp add: machine_ok_def s'_def this_space_def)
  have env: "uenv A R as lo hi s'" using u ok owned_same[OF D(3) K(2) root D(6)] by (simp add: uenv_def)
  have "phys_mem s' x = phys_mem s x" if "r \<in> R" "r \<noteq> root_of s as" "\<not> shared (path_of w)" "mapping (phys_mem s) r w = Some (Page e')" "page_of x = FRAME_OF e'"
    for r w e' x
  proof -
    have "FRAME_OF e' \<noteq> FRAME_OF e" using ownedD(2)[OF D(3), of "of_nat a" "Page e" e r w e'] ra un e(1) that(1-4) by auto
    then show ?thesis using off[of x] that(5) by (simp add: s'_def)
  qed
  then have kept: "others_kept R as s s'" using K(2) root by (auto simp: others_kept_def same_mappings_def s'_def this_space_def)
  have "prog_mem s' as lo hi b = ((prog_mem s as lo hi)(a \<mapsto> c)) b" for b
  proof (cases "prog_mem s as lo hi b")
    case None
    then have "b \<noteq> a" using a by auto
    then show ?thesis using None K(2) D(6) root by (auto simp: prog_mem_def same_mappings_def split: if_splits)
  next
    case (Some c1)
    obtain f where f: "mapping (phys_mem s) (root_of s as) (of_nat b) = Some (Page f)" "paging_translate s as (of_nat b) = FRAME_OF f OR (of_nat b AND 0xFFF)"
      using prog_mem_mapped[OF u Some] by blast
    have rb: "lo \<le> b" "b < hi" using Some by (auto simp: prog_mem_def split: if_splits)
    have ub: "unat (of_nat b :: u64) = b" by (rule unat_user[OF u rb(2)])
    have same: "mapping (phys_mem s') (root_of s as) (of_nat b) = mapping (phys_mem s) (root_of s as) (of_nat b)"
      using K(2) D(6) by (simp add: same_mappings_def)
    have tr: "paging_translate s' as (of_nat b) = paging_translate s as (of_nat b)"
      using translate_same[OF D(5) _ D(6) root same] K(1) by (simp add: space_ok_def)
    have "paging_translate s as (of_nat b) = ?p \<longleftrightarrow> b = a"
    proof
      assume eq: "paging_translate s as (of_nat b) = ?p"
      have fe: "FRAME_OF f = FRAME_OF e" using page_of_translate[OF f(2)] pp eq by simp
      have sp: "same_page (of_nat a) (of_nat b)"
        using ownedD(2)[OF D(3), of "of_nat a" "Page e" e "root_of s as" "of_nat b" f] ra un e(1) D(6) D(9)[of "of_nat b"] rb ub f(1) fe by auto
      have lt: "(of_nat a :: u64) < 2 ^ 48" "(of_nat b :: u64) < 2 ^ 48" using D(10)[of "of_nat a"] D(10)[of "of_nat b"] ra rb un ub by auto
      have "FRAME_OF e OR (of_nat a AND 0xFFF) = FRAME_OF f OR (of_nat b AND 0xFFF)" by (simp only: e(2)[symmetric] f(2)[symmetric] eq)
      then have "(of_nat a :: u64) = of_nat b" using sp lt by (rule physical_inj)
      then have "unat (of_nat a :: u64) = unat (of_nat b :: u64)" by (rule arg_cong)
      then show "b = a" unfolding un ub by (rule sym)
    qed simp
    then have "user_byte s' as (of_nat b) = (if b = a then c else user_byte s as (of_nat b))"
      unfolding user_byte_get tr by (simp add: s'_def get_put)
    then show ?thesis using Some rb f(1) same root by (auto simp: prog_mem_def)
  qed
  then have "prog_mem s' as lo hi = (prog_mem s as lo hi)(a \<mapsto> c)" by blast
  then show ?thesis using env kept e(3) by (intro exI[of _ s']) (simp add: user_store_byte_def s'_def)
qed

definition override_at :: "(nat \<Rightarrow> u8 option) \<Rightarrow> nat \<Rightarrow> bytes \<Rightarrow> nat \<Rightarrow> u8 option" where
  "override_at m a bs b = (if a \<le> b \<and> b < a + length bs then Some (bs ! (b - a)) else m b)"

lemma override_Nil [simp]: "override_at m a [] = m"
  by (rule ext) (auto simp: override_at_def)

lemma override_Cons: "override_at (m(a \<mapsto> c)) (Suc a) cs = override_at m a (c # cs)"
  by (rule ext) (auto simp: override_at_def nth_Cons' less_Suc_eq_le)

lemma user_store_law:
  assumes "uenv A R as lo hi s" "\<forall>k<length bs. prog_mem s as lo hi (a + k) \<noteq> None"
  shows "\<exists>s'. user_store as (of_nat a) bs s = Some s' \<and> uenv A R as lo hi s' \<and> others_kept R as s s'
    \<and> prog_mem s' as lo hi = override_at (prog_mem s as lo hi) a bs"
  using assms
proof (induction bs arbitrary: a s)
  case (Cons c cs)
  obtain c0 where c0: "prog_mem s as lo hi a = Some c0" using Cons.prems(2) by (auto dest: spec[of _ 0])
  obtain t where t: "user_store_byte as (of_nat a) c s = Some t" "uenv A R as lo hi t" "others_kept R as s t"
    "prog_mem t as lo hi = (prog_mem s as lo hi)(a \<mapsto> c)" using store_byte_law[OF Cons.prems(1) c0] by blast
  have "\<forall>k<length cs. prog_mem t as lo hi (Suc a + k) \<noteq> None"
  proof (intro allI impI)
    fix k assume "k < length cs"
    then show "prog_mem t as lo hi (Suc a + k) \<noteq> None" using Cons.prems(2)[rule_format, of "Suc k"] t(4) by simp
  qed
  from Cons.IH[OF t(2) this] obtain s' where s': "user_store as (of_nat (Suc a)) cs t = Some s'" "uenv A R as lo hi s'" "others_kept R as t s'"
    "prog_mem s' as lo hi = override_at (prog_mem t as lo hi) (Suc a) cs" by blast
  have "user_store as (of_nat a) (c # cs) s = Some s'" using t(1) s'(1) by (simp add: add.commute)
  then show ?case using s' t(3,4) others_kept_trans override_Cons by metis
qed simp


section \<open>A new page of the program\<close>

lemma page_div:
  fixes page a :: nat
  assumes "page mod 4096 = 0"
  shows "page div 4096 = a div 4096 \<longleftrightarrow> page \<le> a \<and> a < page + 4096"
proof -
  obtain q where q: "page = q * 4096" using assms by (metis mod_0_imp_dvd dvd_def mult.commute)
  have "q = a div 4096 \<longleftrightarrow> q \<le> a div 4096 \<and> a div 4096 < Suc q" by auto
  also have "\<dots> \<longleftrightarrow> q * 4096 \<le> a \<and> a < Suc q * 4096"
    by (simp add: less_eq_div_iff_mult_less_eq div_less_iff_less_mult)
  finally show ?thesis using q by (simp add: add.commute)
qed

lemma page_step:
  fixes page stop :: nat
  assumes "page mod 4096 = 0" "stop mod 4096 = 0" "page < stop"
  shows "page + 4096 \<le> stop"
proof -
  obtain q r where "page = 4096 * q" "stop = 4096 * r" using assms(1,2) by (metis mod_0_imp_dvd dvd_def)
  then show ?thesis using assms(3) by simp
qed

lemma same_page_iff:
  assumes "v < 2 ^ 48" "w < 2 ^ 48"
  shows "same_page v w \<longleftrightarrow> unat v div 4096 = unat w div 4096"
proof -
  have "drop_bit 12 v = drop_bit 12 w \<longleftrightarrow> unat v div 4096 = unat w div 4096"
    by (simp add: word_unat_eq_iff drop_bit_eq_div unat_div)
  then show ?thesis using same_page_number[OF assms] number_same_page[of v w] by blast
qed

lemma page_range:
  assumes u: "uenv A R as lo hi s" and p: "page mod 4096 = 0" "lo \<le> page" "page < hi" and a: "lo \<le> a" "a < hi"
  shows "same_page (of_nat page) (of_nat a) \<longleftrightarrow> page \<le> a \<and> a < page + 4096"
proof -
  have "unat (of_nat page :: u64) = page" "unat (of_nat a :: u64) = a" using unat_user[OF u] p(3) a(2) by auto
  then have "same_page (of_nat page) (of_nat a) \<longleftrightarrow> page div 4096 = a div 4096"
    using same_page_iff[of "of_nat page" "of_nat a"] uenvD(10)[OF u] p a by simp
  also have "\<dots> \<longleftrightarrow> page \<le> a \<and> a < page + 4096" by (rule page_div[OF p(1)])
  finally show ?thesis .
qed

lemma page_spared:
  assumes "space_ok R s" "r \<in> R" "\<not> shared (path_of w)" "mapping (phys_mem s) r w = Some (Page e)" "page_of x = FRAME_OF e"
  shows "spared R s x"
  using pages_okD[OF _ assms(2-4), of "free_set (frames s)"] assms(1,5) by (simp add: spared_def space_ok_def)

lemma prog_mem_spared:
  assumes u: "uenv A R as lo hi s" and a: "prog_mem s as lo hi a = Some c"
  shows "spared R s (paging_translate s as (of_nat a) AND NOT 7)"
proof -
  obtain e where e: "mapping (phys_mem s) (root_of s as) (of_nat a) = Some (Page e)" "paging_translate s as (of_nat a) = FRAME_OF e OR (of_nat a AND 0xFFF)"
    using prog_mem_mapped[OF u a] by blast
  have ra: "lo \<le> a" "a < hi" using a by (auto simp: prog_mem_def split: if_splits)
  have "\<not> shared (path_of (of_nat a))" using uenvD(9)[OF u, of "of_nat a"] ra unat_user[OF u ra(2)] by simp
  then show ?thesis using page_spared[OF uenvD(4,6)[OF u] _ e(1)] page_of_word page_of_translate[OF e(2)] by simp
qed

text \<open>Bytes whose mapping stays and whose frame is spared stay.\<close>

lemma prog_mem_kept:
  assumes u: "uenv A R as lo hi s" and a: "prog_mem s as lo hi a = Some c" and ok: "space_ok R s'" and root: "root_of s' = root_of s"
    and same: "mapping (phys_mem s') (root_of s as) (of_nat a) = mapping (phys_mem s) (root_of s as) (of_nat a)"
    and mem: "\<And>x. spared R s x \<Longrightarrow> phys_mem s' x = phys_mem s x"
  shows "prog_mem s' as lo hi a = Some c"
proof -
  have "paging_translate s' as (of_nat a) = paging_translate s as (of_nat a)"
    using translate_same[OF uenvD(5)[OF u] _ uenvD(6)[OF u] root same] ok by (simp add: space_ok_def)
  then have "user_byte s' as (of_nat a) = user_byte s as (of_nat a)"
    unfolding user_byte_get get_byte_def using mem[OF prog_mem_spared[OF u a]] by simp
  then show ?thesis using a same root by (auto simp: prog_mem_def split: if_splits)
qed

lemma owned_new_page:
  assumes u: "uenv A R as lo hi s" and root: "root_of s' = root_of s"
    and one: "only_page R s s' (root_of s as) p (Some (Page e0))" and e0: "for_user e0" "writable e0"
    and free: "unat (FRAME_OF e0) div 4096 \<in> free_set (frames s)"
  shows "owned R as lo hi s'"
  unfolding owned_def root
proof (intro allI impI)
  note D = uenvD[OF u]
  have map: "mapping (phys_mem s') r w = (if r = root_of s as \<and> same_page p w then Some (Page e0) else mapping (phys_mem s) r w)" if "r \<in> R" for r w
    using one that by (simp add: only_page_def)
  have old: "FRAME_OF e \<noteq> FRAME_OF e0" if "r \<in> R" "\<not> shared (path_of w)" "mapping (phys_mem s) r w = Some (Page e)" for r w e
    using pages_okD(3)[OF D(7) that] free by auto
  fix v x assume v: "lo \<le> unat v" "unat v < hi" "mapping (phys_mem s') (root_of s as) v = Some x"
  show "\<exists>e. x = Page e \<and> for_user e \<and> writable e \<and>
      (\<forall>r\<in>R. \<forall>w e'. \<not> shared (path_of w) \<longrightarrow> mapping (phys_mem s') r w = Some (Page e') \<longrightarrow> FRAME_OF e' = FRAME_OF e \<longrightarrow>
         r = root_of s as \<and> same_page v w)"
  proof (cases "same_page p v")
    case True
    then have x: "x = Page e0" using map[OF D(6)] v(3) by simp
    have "r = root_of s as \<and> same_page v w" if "r \<in> R" "\<not> shared (path_of w)" "mapping (phys_mem s') r w = Some (Page e')" "FRAME_OF e' = FRAME_OF e0" for r w e'
      using map[OF that(1), of w] that old[OF that(1,2)] True by (auto simp: same_page_def split: if_splits)
    then show ?thesis using x e0 by blast
  next
    case False
    then have x: "mapping (phys_mem s) (root_of s as) v = Some x" using map[OF D(6)] v(3) by simp
    obtain e where e: "x = Page e" "for_user e" "writable e" using ownedD(1)[OF D(3) v(1,2) x] by blast
    have ne: "FRAME_OF e \<noteq> FRAME_OF e0" using old[OF D(6) D(9)[OF v(1,2)]] x e(1) by simp
    have "r = root_of s as \<and> same_page v w" if "r \<in> R" "\<not> shared (path_of w)" "mapping (phys_mem s') r w = Some (Page e')" "FRAME_OF e' = FRAME_OF e" for r w e'
      using map[OF that(1), of w] that(3,4) ne ownedD(2)[OF D(3) v(1,2) x e(1) that(1,2), of e']
      by (cases "r = root_of s as \<and> same_page p w") auto
    then show ?thesis using e by blast
  qed
qed

definition add_page :: "(nat \<Rightarrow> u8 option) \<Rightarrow> nat \<Rightarrow> nat \<Rightarrow> nat \<Rightarrow> u8 option" where
  "add_page m lo hi a = (if lo \<le> a \<and> a < hi then Some (case m a of None \<Rightarrow> 0 | Some c \<Rightarrow> c) else m a)"

lemma new_page_law:
  assumes u: "uenv A R as lo hi s" and cur: "as = this_space s" and p: "page mod 4096 = 0" "lo \<le> page" "page < hi"
    and new: "prog_mem s as lo hi page = None"
  shows "\<exists>s' b. paging_map_alloc s as (of_nat page) (PTE_WRITE OR PTE_USER) True = Some (s', b) \<and> uenv A R as lo hi s' \<and> others_kept R as s s'
    \<and> prog_mem s' as lo hi = (if b then add_page (prog_mem s as lo hi) page (page + 4096) else prog_mem s as lo hi)"
proof -
  note D = uenvD[OF u]
  let ?f = "PTE_WRITE OR PTE_USER" and ?v = "of_nat page :: u64" and ?m = "prog_mem s as lo hi"
  have up: "unat ?v = page" by (rule unat_user[OF u p(3)])
  have v: "\<not> shared (path_of ?v)" "?v < 2 ^ 48" using D(9,10)[of ?v] p up by auto
  have none: "mapping (phys_mem s) (root_of s as) ?v = None" using new p by (auto simp: prog_mem_def split: if_splits)
  obtain s' b where run: "paging_map_alloc s as ?v ?f True = Some (s', b)" "space_ok R s'"
    and L: "if b then \<exists>phys. frame_addr phys \<and> phys \<noteq> 0 \<and> unat phys div 4096 \<in> free_set (frames s)
            \<and> only_page R s s' (root_of s as) ?v (Some (Page (page_entry phys ?f)))
            \<and> (True \<longrightarrow> (\<forall>a. page_of a = phys \<longrightarrow> phys_mem s' a = 0)) \<and> keeps_rest (flush_own as ?v s) s'
       else same_mappings R s s' \<and> keeps_rest s s'"
    using map_alloc_law[OF D(4,6) v(1) _ none, of True ?f] cur by blast
  have root: "root_of s' = root_of s" and here: "this_space s' = this_space s"
    using L by (auto simp: keeps_rest_def root_of_def this_space_def flush_own_def invlpg_def fun_eq_iff split: if_splits)
  have ok: "machine_ok A R s'" by (rule pg_step_ok[OF pg_step.Map_Alloc[OF D(2) v(2,1) _ none run(1)] D(1)]) (use cur in simp)
  have mem: "phys_mem s' x = phys_mem s x" if "spared R s x" for x using map_alloc_mem[OF D(4,6) v(1) run(1) that] .
  have other: "mapping (phys_mem s') r w = mapping (phys_mem s) r w" if "r \<in> R" "\<not> (b \<and> r = root_of s as \<and> same_page ?v w)" for r w
    using L that by (cases b) (auto simp: only_page_def same_mappings_def)
  have kept: "others_kept R as s s'" using other mem page_spared[OF D(4)] root here unfolding others_kept_def by blast
  have old: "prog_mem s' as lo hi a = Some c" if a: "?m a = Some c" for a c
  proof (rule prog_mem_kept[OF u a run(2) root _ mem])
    have ra: "lo \<le> a" "a < hi" using a by (auto simp: prog_mem_def split: if_splits)
    have "\<not> same_page ?v (of_nat a)" using mapping_page[of ?v "of_nat a"] none a by (auto simp: prog_mem_def split: if_splits)
    then show "mapping (phys_mem s') (root_of s as) (of_nat a) = mapping (phys_mem s) (root_of s as) (of_nat a)" using other D(6) by blast
  qed
  show ?thesis
  proof (cases b)
    case False
    then have same: "same_mappings R s s'" using L by simp
    have "prog_mem s' as lo hi a = ?m a" for a
      using old same D(6) root by (cases "?m a") (auto simp: prog_mem_def same_mappings_def split: if_splits)
    then have "prog_mem s' as lo hi = ?m" by blast
    moreover have "uenv A R as lo hi s'" using u ok owned_same[OF D(3) same root D(6)] by (simp add: uenv_def)
    ultimately show ?thesis using run(1) kept False by auto
  next
    case True
    obtain phys where ph: "frame_addr phys" "unat phys div 4096 \<in> free_set (frames s)"
      "only_page R s s' (root_of s as) ?v (Some (Page (page_entry phys ?f)))" "\<forall>a. page_of a = phys \<longrightarrow> phys_mem s' a = 0" using L True by auto
    have fr: "FRAME_OF (page_entry phys ?f) = phys" using page_entry_flags(2)[of phys ?f] ph(1) by (simp add: frame_addr_def)
    have fl: "for_user (page_entry phys ?f)" "writable (page_entry phys ?f)"
      unfolding page_entry_flags by (simp_all add: flag_iff bit_or_iff)
    have env: "uenv A R as lo hi s'"
      using u ok owned_new_page[OF u root ph(3) fl] fr ph(2) by (simp add: uenv_def)
    have "prog_mem s' as lo hi a = add_page ?m page (page + 4096) a" for a
    proof (cases "?m a")
      case (Some c)
      then show ?thesis using old[OF Some] by (simp add: add_page_def)
    next
      case None
      show ?thesis
      proof (cases "page \<le> a \<and> a < page + 4096")
        case in_page: True
        have "page + 4096 \<le> hi" using page_step[OF p(1) _ p(3)] u by (simp add: uenv_def)
        then have ra: "lo \<le> a" "a < hi" using in_page p by auto
        have sp: "same_page ?v (of_nat a)" using page_range[OF u p ra] in_page by simp
        then have m: "mapping (phys_mem s') (root_of s as) (of_nat a) = Some (Page (page_entry phys ?f))"
          using ph(3) D(6) by (simp add: only_page_def)
        then have "paging_translate s' as (of_nat a) = phys OR (of_nat a AND 0xFFF)"
          using translate_mapping[of R s' as "of_nat a"] run(2) root D(6) fr by (simp add: space_ok_def)
        then have "page_of (paging_translate s' as (of_nat a) AND NOT 7) = phys" using page_of_word page_of_physical[OF ph(1)] by simp
        then have "user_byte s' as (of_nat a) = 0" unfolding user_byte_get get_byte_def using ph(4) by simp
        then show ?thesis using None in_page ra m root by (simp add: prog_mem_def add_page_def)
      next
        case False
        then have "\<not> (lo \<le> a \<and> a < hi \<and> same_page ?v (of_nat a))" using page_range[OF u p] by blast
        then show ?thesis using None False other[OF D(6), of "of_nat a"] root by (auto simp: prog_mem_def add_page_def split: if_splits)
      qed
    qed
    then have "prog_mem s' as lo hi = add_page ?m page (page + 4096)" by blast
    then show ?thesis using run(1) kept env True by auto
  qed
qed

lemma map_missing_law:
  assumes "uenv A R as lo hi s" "as = this_space s" "page mod 4096 = 0" "stop mod 4096 = 0" "lo \<le> page" "stop \<le> hi"
  shows "\<exists>s' b. map_missing s as page stop = Some (s', b) \<and> uenv A R as lo hi s' \<and> others_kept R as s s'
    \<and> (if b then prog_mem s' as lo hi = add_page (prog_mem s as lo hi) page stop else prog_mem s as lo hi \<subseteq>\<^sub>m prog_mem s' as lo hi)"
  using assms
proof (induction s as page stop rule: map_missing.induct)
  case (1 s as page stop)
  note u = "1.prems"(1)
  let ?m = "prog_mem s as lo hi"
  show ?case
  proof (cases "page < stop")
    case False
    then have "add_page ?m page stop = ?m" by (auto simp: add_page_def fun_eq_iff)
    then show ?thesis using False u by (subst map_missing.simps) auto
  next
    case True
    have p: "page mod 4096 = 0" "lo \<le> page" "page < hi" using "1.prems" True by auto
    have next_page: "(page + PAGE_SIZE) mod 4096 = 0" "lo \<le> page + PAGE_SIZE" using p by (simp_all add: PAGE_SIZE_def)
    have le: "page + 4096 \<le> stop" by (rule page_step[OF p(1) "1.prems"(4) True])
    show ?thesis
    proof (cases "?m page")
      case (Some c)
      then have tr: "paging_translate s as (of_nat page) \<noteq> 0" using translate_prog_mem[OF u p(2,3)] by simp
      obtain s' b where s': "map_missing s as (page + PAGE_SIZE) stop = Some (s', b)" "uenv A R as lo hi s'" "others_kept R as s s'"
        "if b then prog_mem s' as lo hi = add_page ?m (page + PAGE_SIZE) stop else ?m \<subseteq>\<^sub>m prog_mem s' as lo hi"
        using "1.IH"(1)[OF True tr] "1.prems" next_page by blast
      have full: "?m a \<noteq> None" if "page \<le> a" "a < page + 4096" for a
      proof -
        have ra: "lo \<le> a" "a < hi" using that p le "1.prems"(6) by auto
        then have "same_page (of_nat page) (of_nat a)" using page_range[OF u p ra] that by simp
        then show ?thesis using mapping_page[of "of_nat page" "of_nat a"] Some ra by (auto simp: prog_mem_def split: if_splits)
      qed
      have "add_page ?m (page + PAGE_SIZE) stop a = add_page ?m page stop a" for a
        using full[of a] le by (cases "page \<le> a \<and> a < page + 4096") (auto simp: add_page_def PAGE_SIZE_def)
      then have "add_page ?m (page + PAGE_SIZE) stop = add_page ?m page stop" by blast
      then show ?thesis using s' True tr by (subst map_missing.simps) auto
    next
      case None
      then have tr: "\<not> paging_translate s as (of_nat page) \<noteq> 0" using translate_prog_mem[OF u p(2,3)] by simp
      obtain t c where t: "paging_map_alloc s as (of_nat page) (PTE_WRITE OR PTE_USER) True = Some (t, c)" "uenv A R as lo hi t" "others_kept R as s t"
        "prog_mem t as lo hi = (if c then add_page ?m page (page + 4096) else ?m)"
        using new_page_law[OF u "1.prems"(2) p None] by blast
      show ?thesis
      proof (cases c)
        case False
        then show ?thesis using t True tr by (subst map_missing.simps) auto
      next
        case c: True
        have cur: "as = this_space t" using t(3) "1.prems"(2) by (simp add: others_kept_def)
        obtain s' b where s': "map_missing t as (page + PAGE_SIZE) stop = Some (s', b)" "uenv A R as lo hi s'" "others_kept R as t s'"
          "if b then prog_mem s' as lo hi = add_page (prog_mem t as lo hi) (page + PAGE_SIZE) stop else prog_mem t as lo hi \<subseteq>\<^sub>m prog_mem s' as lo hi"
          using "1.IH"(2)[OF True tr t(1) refl c t(2) cur next_page(1) "1.prems"(4) next_page(2) "1.prems"(6)] by blast
        have run: "map_missing s as page stop = Some (s', b)" using True tr t(1) c s'(1) by (subst map_missing.simps) simp
        have a1: "add_page (add_page ?m page (page + 4096)) (page + PAGE_SIZE) stop = add_page ?m page stop"
          using le by (auto simp: add_page_def fun_eq_iff PAGE_SIZE_def split: option.split)
        have a2: "?m \<subseteq>\<^sub>m add_page ?m page (page + 4096)" by (auto simp: add_page_def map_le_def split: option.splits)
        have "if b then prog_mem s' as lo hi = add_page ?m page stop else ?m \<subseteq>\<^sub>m prog_mem s' as lo hi"
          using s'(4) t(4) c a1 a2 by (auto intro: map_le_trans split: if_splits)
        then show ?thesis using run s'(2) others_kept_trans[OF t(3) s'(3)] by blast
      qed
    qed
  qed
qed

end
