(* ===== verification/Elf.thy ===== *)
theory Elf
  imports Sched Umem
begin

text \<open>
  The program loader, \<^verbatim>\<open>kernel/proc/elf.c\<close> with \<^verbatim>\<open>kernel/include/elf.h\<close>.

  The image is kernel memory at an address, so that the sums of the code wrap around as they do there.
  The loader writes through user addresses of the current space; a write to an address that is not
  mapped is a fault of the kernel and no value.
\<close>

section \<open>The format\<close>

definition read16 :: "memory \<Rightarrow> u64 \<Rightarrow> u16" where
  "read16 m a = ucast (m a) OR push_bit 8 (ucast (m (a + 1)))"

definition EI_CLASS :: nat where "EI_CLASS = 4"
definition EI_DATA :: nat where "EI_DATA = 5"
definition ELFCLASS64 :: u8 where "ELFCLASS64 = 2"
definition ELFDATA2LSB :: u8 where "ELFDATA2LSB = 1"
definition ET_EXEC :: u16 where "ET_EXEC = 2"
definition EM_X86_64 :: u16 where "EM_X86_64 = 62"
definition PT_LOAD :: u32 where "PT_LOAD = 1"
definition PF_X :: u32 where "PF_X = 1"
definition USER_STACK_SIZE :: u64 where "USER_STACK_SIZE = 64 * 1024"
definition sizeof_Ehdr :: u64 where "sizeof_Ehdr = 64"
definition sizeof_Phdr :: u16 where "sizeof_Phdr = 56"

record Elf64_Ehdr =
  e_ident :: bytes
  e_type :: u16
  e_machine :: u16
  e_version :: u32
  e_entry :: u64
  e_phoff :: u64
  e_shoff :: u64
  e_flags :: u32
  e_ehsize :: u16
  e_phentsize :: u16
  e_phnum :: u16
  e_shentsize :: u16
  e_shnum :: u16
  e_shstrndx :: u16

record Elf64_Phdr =
  p_type :: u32
  p_flags :: u32
  p_offset :: u64
  p_vaddr :: u64
  p_paddr :: u64
  p_filesz :: u64
  p_memsz :: u64
  p_align :: u64

definition ehdr_at :: "memory \<Rightarrow> u64 \<Rightarrow> Elf64_Ehdr" where
  "ehdr_at m a = \<lparr>e_ident = load_bytes m a 16, e_type = read16 m (a + 16), e_machine = read16 m (a + 18), e_version = read32 m (a + 20),
     e_entry = read64 m (a + 24), e_phoff = read64 m (a + 32), e_shoff = read64 m (a + 40), e_flags = read32 m (a + 48),
     e_ehsize = read16 m (a + 52), e_phentsize = read16 m (a + 54), e_phnum = read16 m (a + 56), e_shentsize = read16 m (a + 58),
     e_shnum = read16 m (a + 60), e_shstrndx = read16 m (a + 62)\<rparr>"

definition phdr_at :: "memory \<Rightarrow> u64 \<Rightarrow> Elf64_Phdr" where
  "phdr_at m a = \<lparr>p_type = read32 m a, p_flags = read32 m (a + 4), p_offset = read64 m (a + 8), p_vaddr = read64 m (a + 16),
     p_paddr = read64 m (a + 24), p_filesz = read64 m (a + 32), p_memsz = read64 m (a + 40), p_align = read64 m (a + 48)\<rparr>"

section \<open>The loader\<close>

definition elf_validate :: "Elf64_Ehdr \<Rightarrow> u64 \<Rightarrow> unit res" where
  "elf_validate eh size' =
     (if size' < sizeof_Ehdr then Inl W_ENOEXEC
      else if e_ident eh ! 0 \<noteq> 0x7F \<or> e_ident eh ! 1 \<noteq> 0x45 \<or> e_ident eh ! 2 \<noteq> 0x4C \<or> e_ident eh ! 3 \<noteq> 0x46 then Inl W_ENOEXEC
      else if e_ident eh ! EI_CLASS \<noteq> ELFCLASS64 \<or> e_ident eh ! EI_DATA \<noteq> ELFDATA2LSB then Inl W_ENOEXEC
      else if e_type eh \<noteq> ET_EXEC \<or> e_machine eh \<noteq> EM_X86_64 then Inl W_ENOEXEC
      else if e_phoff eh = 0 \<or> e_phnum eh = 0 \<or> e_phentsize eh \<noteq> sizeof_Phdr then Inl W_ENOEXEC
      else if e_phoff eh + ucast (e_phnum eh) * ucast (e_phentsize eh) > size' then Inl W_ENOEXEC
      else Inr ())"

definition loadable :: "Elf64_Phdr \<Rightarrow> bool" where
  "loadable ph \<longleftrightarrow> \<not> (p_type ph \<noteq> PT_LOAD \<or> p_memsz ph = 0)"

definition load_segment :: "memory \<Rightarrow> u64 \<Rightarrow> u64 \<Rightarrow> Elf64_Phdr \<Rightarrow> paging \<Rightarrow> 'f process \<Rightarrow> (paging \<times> 'f process \<times> unit res) option" where
  "load_segment km img size' ph s p =
     (let vaddr = p_vaddr ph; memsz = p_memsz ph; filesz = p_filesz ph
      in if vaddr < USER_BASE \<or> vaddr + memsz > USER_STACK_TOP - USER_STACK_SIZE then Some (s, p, Inl W_ENOEXEC)
         else if filesz > memsz \<or> p_offset ph + filesz > size' then Some (s, p, Inl W_ENOEXEC)
         else
           (let start = align_down vaddr 4096; stop = align_up (vaddr + memsz) 4096
            in case map_missing s (p_space p) (unat start) (unat stop) of
                 None \<Rightarrow> None
               | Some (s, ok) \<Rightarrow>
                   if \<not> ok then Some (s, p, Inl W_ENOMEM)
                   else
                     (case user_store (p_space p) vaddr (load_bytes km (img + p_offset ph) (unat filesz)) s of
                        None \<Rightarrow> None
                      | Some s \<Rightarrow>
                          (case (if memsz > filesz then user_store (p_space p) (vaddr + filesz) (replicate (unat (memsz - filesz)) 0) s else Some s) of
                             None \<Rightarrow> None
                           | Some s \<Rightarrow>
                               (let p = (if p_flags ph AND PF_X \<noteq> 0 then p\<lparr>code_bytes := code_bytes p + (stop - start)\<rparr>
                                         else p\<lparr>data_bytes := data_bytes p + (stop - start)\<rparr>)
                                in Some (s, p, Inr ()))))))"

primrec load_segments :: "memory \<Rightarrow> u64 \<Rightarrow> u64 \<Rightarrow> Elf64_Phdr list \<Rightarrow> paging \<Rightarrow> 'f process \<Rightarrow> u64 \<Rightarrow> (paging \<times> 'f process \<times> u64 res) option" where
  "load_segments km img size' [] s p highest = Some (s, p, Inr highest)"
| "load_segments km img size' (ph # phs) s p highest =
     (if p_type ph \<noteq> PT_LOAD \<or> p_memsz ph = 0 then load_segments km img size' phs s p highest
      else
        (case load_segment km img size' ph s p of
           None \<Rightarrow> None
         | Some (s, p, Inl e) \<Rightarrow> Some (s, p, Inl e)
         | Some (s, p, Inr _) \<Rightarrow>
             load_segments km img size' phs s p (if p_vaddr ph + p_memsz ph > highest then p_vaddr ph + p_memsz ph else highest)))"

definition elf_headers :: "memory \<Rightarrow> u64 \<Rightarrow> Elf64_Phdr list" where
  "elf_headers km img =
     (let eh = ehdr_at km img in map (\<lambda>i. phdr_at km (img + e_phoff eh + of_nat (56 * i))) [0..<unat (e_phnum eh)])"

definition elf_load :: "memory \<Rightarrow> u64 \<Rightarrow> u64 \<Rightarrow> paging \<Rightarrow> 'f process \<Rightarrow> (paging \<times> 'f process \<times> u64 res) option" where
  "elf_load km img size' s p =
     (let eh = ehdr_at km img
      in case elf_validate eh size' of
           Inl e \<Rightarrow> Some (s, p, Inl e)
         | Inr _ \<Rightarrow>
             (case load_segments km img size' (elf_headers km img) s p 0 of
                None \<Rightarrow> None
              | Some (s, p, Inl e) \<Rightarrow> Some (s, p, Inl e)
              | Some (s, p, Inr highest) \<Rightarrow>
                  if highest = 0 then Some (s, p, Inl W_ENOEXEC)
                  else if e_entry eh < USER_BASE \<or> e_entry eh \<ge> highest then Some (s, p, Inl W_ENOEXEC)
                  else Some (s, p\<lparr>heap_start := align_up highest 4096, heap_break := align_up highest 4096\<rparr>, Inr (e_entry eh))))"


section \<open>What is loaded\<close>

text \<open>The memory image a list of segments describes, on top of what is there.\<close>

definition page_floor :: "nat \<Rightarrow> nat" where "page_floor a = a div 4096 * 4096"
definition page_ceil :: "nat \<Rightarrow> nat" where "page_ceil a = (a + 4095) div 4096 * 4096"

definition add_segment :: "nat \<times> bytes \<Rightarrow> (nat \<Rightarrow> u8 option) \<Rightarrow> nat \<Rightarrow> u8 option" where
  "add_segment sg m = (case sg of (v, bs) \<Rightarrow> override_at (add_page m (page_floor v) (page_ceil (v + length bs))) v bs)"

definition segment :: "memory \<Rightarrow> u64 \<Rightarrow> Elf64_Phdr \<Rightarrow> nat \<times> bytes" where
  "segment km img ph =
     (unat (p_vaddr ph), load_bytes km (img + p_offset ph) (unat (p_filesz ph)) @ replicate (unat (p_memsz ph) - unat (p_filesz ph)) 0)"

definition segments :: "memory \<Rightarrow> u64 \<Rightarrow> Elf64_Phdr list \<Rightarrow> (nat \<times> bytes) list" where
  "segments km img phs = map (segment km img) (filter loadable phs)"

definition seg_end :: "nat \<times> bytes \<Rightarrow> nat" where "seg_end sg = fst sg + length (snd sg)"

definition ends_fit :: "Elf64_Phdr list \<Rightarrow> bool" where
  "ends_fit phs \<longleftrightarrow> list_all (\<lambda>ph. unat (p_vaddr ph) + unat (p_memsz ph) < 2 ^ 64) (filter loadable phs)"

abbreviation user_lo :: nat where "user_lo \<equiv> 0x40000000"
abbreviation user_hi :: nat where "user_hi \<equiv> 0xBFFE0000"

abbreviation loader_env :: "u64 set \<Rightarrow> u64 set \<Rightarrow> u64 \<Rightarrow> paging \<Rightarrow> bool" where
  "loader_env A R as \<equiv> uenv A R as user_lo user_hi"

abbreviation program :: "paging \<Rightarrow> u64 \<Rightarrow> nat \<Rightarrow> u8 option" where
  "program s as \<equiv> prog_mem s as user_lo user_hi"

lemma load_limits: "unat (USER_STACK_TOP - USER_STACK_SIZE) = user_hi" "unat USER_BASE = user_lo"
  by (simp_all add: USER_STACK_TOP_def USER_STACK_SIZE_def USER_BASE_def)

lemma page_bounds:
  "page_floor a mod 4096 = 0" "page_ceil a mod 4096 = 0" "page_floor a \<le> a" "a \<le> page_ceil a"
  using ceiling_ge[of 4096 a] by (simp_all add: page_floor_def page_ceil_def)

lemma page_floor_ge: "lo mod 4096 = 0 \<Longrightarrow> lo \<le> a \<Longrightarrow> lo \<le> page_floor a"
  unfolding page_floor_def by (metis div_le_mono div_mult_mod_eq add.right_neutral mult_le_mono1)

lemma page_ceil_le: "hi mod 4096 = 0 \<Longrightarrow> a \<le> hi \<Longrightarrow> page_ceil a \<le> hi"
  using multiple_below_ceiling[of 4096 hi a] by (cases "hi < page_ceil a") (auto simp: page_ceil_def)

lemma override_append: "override_at (override_at m a bs) (a + length bs) cs = override_at m a (bs @ cs)"
  by (auto simp: override_at_def fun_eq_iff nth_append)


lemma load_segment_law:
  assumes u: "loader_env A R (p_space p) s" and cur: "p_space p = this_space s"
    and wrap: "unat (p_vaddr ph) + unat (p_memsz ph) < 2 ^ 64"
  shows "\<exists>s' p' r. load_segment km img size' ph s p = Some (s', p', r) \<and> loader_env A R (p_space p) s' \<and> others_kept R (p_space p) s s'
    \<and> p_space p' = p_space p
    \<and> (case r of
         Inl e \<Rightarrow> e = W_ENOEXEC \<or> e = W_ENOMEM
       | Inr _ \<Rightarrow> user_lo \<le> fst (segment km img ph) \<and> seg_end (segment km img ph) = unat (p_vaddr ph + p_memsz ph)
            \<and> seg_end (segment km img ph) \<le> user_hi \<and> program s' (p_space p) = add_segment (segment km img ph) (program s (p_space p)))"
proof -
  let ?as = "p_space p" and ?v = "p_vaddr ph" and ?n = "p_memsz ph" and ?k = "p_filesz ph"
  consider "?v < USER_BASE \<or> ?v + ?n > USER_STACK_TOP - USER_STACK_SIZE \<or> ?k > ?n \<or> p_offset ph + ?k > size'"
    | "\<not> ?v < USER_BASE" "\<not> ?v + ?n > USER_STACK_TOP - USER_STACK_SIZE" "\<not> ?k > ?n" "\<not> p_offset ph + ?k > size'" by blast
  then show ?thesis
  proof cases
    case 1
    then have "load_segment km img size' ph s p = Some (s, p, Inl W_ENOEXEC)" by (auto simp: load_segment_def Let_def)
    then show ?thesis using u by auto
  next
    case 2
    have sum: "unat (?v + ?n) = unat ?v + unat ?n" by (rule unat_add_small[OF wrap])
    have lo: "user_lo \<le> unat ?v" using 2(1) by (simp only: not_less word_le_nat_alt load_limits)
    have hi: "unat ?v + unat ?n \<le> user_hi" using 2(2) unfolding not_less word_le_nat_alt load_limits sum .
    have kn: "unat ?k \<le> unat ?n" using 2(3) by (simp add: not_less word_le_nat_alt)
    have down: "unat (align_down ?v 4096) = page_floor (unat ?v)" by (simp add: unat_align_down_page page_floor_def)
    have up: "unat (align_up (?v + ?n) 4096) = page_ceil (unat ?v + unat ?n)"
      using unat_align_up_page[of "?v + ?n"] sum hi by (simp add: page_ceil_def)
    let ?bs = "load_bytes km (img + p_offset ph) (unat ?k)" and ?zs = "replicate (unat ?n - unat ?k) (0 :: u8)" and ?m = "program s ?as"
    have len: "length ?bs = unat ?k" "length (?bs @ ?zs) = unat ?n" using kn by (simp_all add: load_bytes_def)
    have env: "user_lo mod 4096 = 0" "user_hi mod 4096 = 0" by simp_all
    obtain s1 b where s1: "map_missing s ?as (page_floor (unat ?v)) (page_ceil (unat ?v + unat ?n)) = Some (s1, b)" "loader_env A R ?as s1" "others_kept R ?as s s1"
      "if b then program s1 ?as = add_page ?m (page_floor (unat ?v)) (page_ceil (unat ?v + unat ?n)) else ?m \<subseteq>\<^sub>m program s1 ?as"
      using map_missing_law[OF u cur page_bounds(1,2) page_floor_ge[OF env(1) lo] page_ceil_le[OF env(2) hi]] by blast
    show ?thesis
    proof (cases b)
      case False
      then have "load_segment km img size' ph s p = Some (s1, p, Inl W_ENOMEM)" using 2 s1(1) by (simp add: load_segment_def Let_def down up)
      then show ?thesis using s1(2,3) by auto
    next
      case True
      let ?m1 = "add_page ?m (page_floor (unat ?v)) (page_ceil (unat ?v + unat ?n))"
      have m1: "program s1 ?as = ?m1" using s1(4) True by simp
      have full: "?m1 (unat ?v + i) \<noteq> None" if "i < unat ?n" for i
        using that page_bounds(3)[of "unat ?v"] page_bounds(4)[of "unat ?v + unat ?n"] by (simp add: add_page_def)
      have "\<forall>i<length ?bs. program s1 ?as (unat ?v + i) \<noteq> None" using full len kn unfolding m1 by auto
      from user_store_law[OF s1(2) this] obtain s2 where s2: "user_store ?as ?v ?bs s1 = Some s2" "loader_env A R ?as s2" "others_kept R ?as s1 s2"
        "program s2 ?as = override_at ?m1 (unat ?v) ?bs" unfolding m1 by auto
      have "\<forall>i<length ?zs. program s2 ?as (unat ?v + unat ?k + i) \<noteq> None"
      proof (intro allI impI)
        fix i assume "i < length ?zs"
        then show "program s2 ?as (unat ?v + unat ?k + i) \<noteq> None" using full[of "unat ?k + i"] unfolding s2(4) by (simp add: override_at_def len(1) add.assoc)
      qed
      from user_store_law[OF s2(2) this] obtain s3 where s3: "user_store ?as (?v + ?k) ?zs s2 = Some s3" "loader_env A R ?as s3" "others_kept R ?as s2 s3"
        "program s3 ?as = override_at (program s2 ?as) (unat ?v + unat ?k) ?zs" by auto
      have "program s3 ?as = override_at ?m1 (unat ?v) (?bs @ ?zs)"
        unfolding s3(4) s2(4) using override_append[of ?m1 "unat ?v" ?bs ?zs] by (simp add: len(1))
      then have m3: "program s3 ?as = add_segment (segment km img ph) ?m" unfolding add_segment_def segment_def prod.case len(2) .
      have kept: "others_kept R ?as s s3" using s1(3) s2(3) s3(3) others_kept_trans by blast
      have sub: "unat (?n - ?k) = unat ?n - unat ?k" using 2(3) by (simp add: unat_sub not_less)
      have third: "(if ?n > ?k then user_store ?as (?v + ?k) (replicate (unat (?n - ?k)) 0) s2 else Some s2) = Some s3"
        using s3(1) sub 2(3) by (cases "?n > ?k") (auto simp: not_less)
      obtain p' where p': "load_segment km img size' ph s p = Some (s3, p', Inr ())" "p_space p' = ?as"
        using 2 s1(1) True s2(1) third by (auto simp: load_segment_def Let_def down up)
      show ?thesis using p' s3(2) kept m3 lo hi sum len(2) by (intro exI[of _ s3] exI[of _ p'] exI[of _ "Inr ()"]) (simp add: segment_def seg_end_def)
    qed
  qed
qed

lemma load_segments_law:
  assumes "loader_env A R (p_space p) s" "p_space p = this_space s" "ends_fit phs"
  shows "\<exists>s' p' r. load_segments km img size' phs s p highest = Some (s', p', r) \<and> loader_env A R (p_space p) s' \<and> others_kept R (p_space p) s s'
    \<and> p_space p' = p_space p
    \<and> (case r of
         Inl e \<Rightarrow> e = W_ENOEXEC \<or> e = W_ENOMEM
       | Inr h \<Rightarrow> unat h = fold (\<lambda>sg. max (seg_end sg)) (segments km img phs) (unat highest)
            \<and> (\<forall>sg\<in>set (segments km img phs). user_lo \<le> fst sg \<and> seg_end sg \<le> user_hi)
            \<and> program s' (p_space p) = fold add_segment (segments km img phs) (program s (p_space p)))"
  using assms
proof (induction phs arbitrary: s p highest)
  case Nil
  then show ?case by (simp add: segments_def)
next
  case (Cons ph phs)
  have fit: "ends_fit phs" using Cons.prems(3) by (simp add: ends_fit_def split: if_splits)
  show ?case
  proof (cases "loadable ph")
    case False
    then have "load_segments km img size' (ph # phs) s p highest = load_segments km img size' phs s p highest"
      "segments km img (ph # phs) = segments km img phs" by (auto simp: loadable_def segments_def)
    then show ?thesis using Cons.IH[OF Cons.prems(1,2) fit, of highest] by (simp only:)
  next
    case True
    have w: "unat (p_vaddr ph) + unat (p_memsz ph) < 2 ^ 64" using Cons.prems(3) True by (simp add: ends_fit_def)
    let ?sg = "segment km img ph"
    have sg: "segments km img (ph # phs) = ?sg # segments km img phs" using True by (simp add: segments_def)
    obtain s1 p1 r1 where one: "load_segment km img size' ph s p = Some (s1, p1, r1)" "loader_env A R (p_space p) s1" "others_kept R (p_space p) s s1"
      "p_space p1 = p_space p"
      "case r1 of Inl e \<Rightarrow> e = W_ENOEXEC \<or> e = W_ENOMEM
       | Inr _ \<Rightarrow> user_lo \<le> fst ?sg \<and> seg_end ?sg = unat (p_vaddr ph + p_memsz ph) \<and> seg_end ?sg \<le> user_hi
            \<and> program s1 (p_space p) = add_segment ?sg (program s (p_space p))"
      using load_segment_law[OF Cons.prems(1,2) w] by blast
    show ?thesis
    proof (cases r1)
      case (Inl e)
      then have "load_segments km img size' (ph # phs) s p highest = Some (s1, p1, Inl e)" using True one(1) by (auto simp: loadable_def)
      then show ?thesis using one(2-5) Inl by auto
    next
      case (Inr x)
      let ?h = "if p_vaddr ph + p_memsz ph > highest then p_vaddr ph + p_memsz ph else highest"
      have run: "load_segments km img size' (ph # phs) s p highest = load_segments km img size' phs s1 p1 ?h"
        using True one(1) Inr by (auto simp: loadable_def)
      have d: "user_lo \<le> fst ?sg" "seg_end ?sg = unat (p_vaddr ph + p_memsz ph)" "seg_end ?sg \<le> user_hi"
        "program s1 (p_space p) = add_segment ?sg (program s (p_space p))" using one(5) Inr by auto
      have h: "unat ?h = max (seg_end ?sg) (unat highest)" unfolding d(2) by (auto simp: word_less_nat_alt max_def)
      have cur: "p_space p1 = this_space s1" using one(3,4) Cons.prems(2) by (simp add: others_kept_def)
      obtain s2 p2 r2 where two: "load_segments km img size' phs s1 p1 ?h = Some (s2, p2, r2)" "loader_env A R (p_space p) s2" "others_kept R (p_space p) s1 s2"
        "p_space p2 = p_space p"
        "case r2 of Inl e \<Rightarrow> e = W_ENOEXEC \<or> e = W_ENOMEM
         | Inr h \<Rightarrow> unat h = fold (\<lambda>sg. max (seg_end sg)) (segments km img phs) (unat ?h)
            \<and> (\<forall>sg\<in>set (segments km img phs). user_lo \<le> fst sg \<and> seg_end sg \<le> user_hi)
            \<and> program s2 (p_space p) = fold add_segment (segments km img phs) (program s1 (p_space p))"
        using Cons.IH[OF _ cur fit, of ?h, unfolded one(4), OF one(2)] by blast
      have "case r2 of Inl e \<Rightarrow> e = W_ENOEXEC \<or> e = W_ENOMEM
         | Inr h \<Rightarrow> unat h = fold (\<lambda>sg. max (seg_end sg)) (segments km img (ph # phs)) (unat highest)
            \<and> (\<forall>sg\<in>set (segments km img (ph # phs)). user_lo \<le> fst sg \<and> seg_end sg \<le> user_hi)
            \<and> program s2 (p_space p) = fold add_segment (segments km img (ph # phs)) (program s (p_space p))"
        using two(5) d(1,3,4) h unfolding sg by (cases r2) simp_all
      then show ?thesis using run two(1,2,4) others_kept_trans[OF one(3) two(3)] by (intro exI[of _ s2] exI[of _ p2] exI[of _ r2]) simp
    qed
  qed
qed


lemma fold_ends:
  "h \<le> fold (\<lambda>sg. max (seg_end sg)) sgs h"
  "sg \<in> set sgs \<Longrightarrow> seg_end sg \<le> fold (\<lambda>sg. max (seg_end sg)) sgs h"
  "fold (\<lambda>sg. max (seg_end sg)) sgs h = h \<or> (\<exists>sg\<in>set sgs. fold (\<lambda>sg. max (seg_end sg)) sgs h = seg_end sg)"
proof (induction sgs arbitrary: h)
  case (Cons x sgs)
  { case 1 show ?case using Cons.IH(1)[of "max (seg_end x) h"] by simp }
  { case 2 then show ?case using Cons.IH(1,2)[of "max (seg_end x) h"] by auto }
  { case 3 show ?case using Cons.IH(3)[of "max (seg_end x) h"] by (auto simp: max_def) }
qed simp_all

lemma fold_segment_dom:
  assumes "m a \<noteq> None \<or> (\<exists>sg\<in>set sgs. fst sg \<le> a \<and> a < seg_end sg)"
  shows "fold add_segment sgs m a \<noteq> None"
  using assms
proof (induction sgs arbitrary: m)
  case (Cons x sgs)
  have "add_segment x m a \<noteq> None" if "m a \<noteq> None \<or> fst x \<le> a \<and> a < seg_end x"
    using that by (cases x) (auto simp: add_segment_def override_at_def add_page_def seg_end_def)
  then show ?case using Cons.IH[of "add_segment x m"] Cons.prems by auto
qed simp

section \<open>The properties\<close>


text \<open>C22. The bounds check of the loader adds in 64 bits: a segment whose end wraps around to a small address
  passes it, no page is mapped for it, and the loader writes to unmapped memory.  Starting such a file
  is a fault of the kernel.\<close>

theorem elf_load_wraps:
  assumes "elf_validate (ehdr_at km img) size' = Inr ()" "elf_headers km img = ph # phs" "loadable ph"
    and "USER_BASE \<le> p_vaddr ph" "p_vaddr ph + p_memsz ph < USER_BASE" "p_filesz ph \<le> p_memsz ph" "p_offset ph + p_filesz ph \<le> size'"
    and "paging_translate s (p_space p) (p_vaddr ph) = 0"
  shows "elf_load km img size' s p = None"
proof -
  let ?v = "p_vaddr ph" and ?n = "p_memsz ph" and ?k = "p_filesz ph" and ?as = "p_space p"
  have lim: "\<not> ?v < USER_BASE" "\<not> ?v + ?n > USER_STACK_TOP - USER_STACK_SIZE" "\<not> ?k > ?n" "\<not> p_offset ph + ?k > size'"
    using assms(4-7) load_limits by (auto simp: word_less_nat_alt word_le_nat_alt)
  have small: "unat (?v + ?n) < user_lo" using assms(5) by (simp only: word_less_nat_alt load_limits)
  have "unat (align_up (?v + ?n) 4096) = page_ceil (unat (?v + ?n))" using small unat_align_up_page[of "?v + ?n"] by (simp add: page_ceil_def)
  also have "\<dots> \<le> user_lo" by (rule page_ceil_le) (use small in simp_all)
  also have "\<dots> \<le> unat (align_down ?v 4096)"
    using page_floor_ge[of user_lo "unat ?v"] assms(4) by (simp add: word_le_nat_alt load_limits unat_align_down_page page_floor_def)
  finally have none: "map_missing s ?as (unat (align_down ?v 4096)) (unat (align_up (?v + ?n) 4096)) = Some (s, True)"
    by (subst map_missing.simps) simp
  have fault: "user_store ?as ?v (c # cs) s = None" for c cs using assms(8) by (simp add: user_store_byte_def)
  have n: "?n \<noteq> 0" using assms(3) by (simp add: loadable_def)
  have "load_segment km img size' ph s p = None"
  proof (cases "?k = 0")
    case True
    have "0 < unat ?n" using n by (simp add: unat_gt_0)
    then have "unat (?n - 0) = Suc (unat ?n - 1)" by simp
    then have "replicate (unat (?n - 0)) (0 :: u8) = 0 # replicate (unat ?n - 1) 0" by (metis diff_zero replicate_Suc)
    then show ?thesis using lim none fault n True by (simp add: load_segment_def Let_def load_bytes_def word_neq_0_conv)
  next
    case False
    have "0 < unat ?k" using False by (simp add: unat_gt_0)
    then have "unat ?k = Suc (unat ?k - 1)" by simp
    then obtain c cs where "load_bytes km (img + p_offset ph) (unat ?k) = c # cs" by (metis load_bytes_def length_map length_upt diff_zero length_Suc_conv)
    then show ?thesis using lim none fault by (simp add: load_segment_def Let_def)
  qed
  then show ?thesis using assms(1-3) by (auto simp: elf_load_def Let_def loadable_def)
qed


section \<open>Two small images\<close>

text \<open>A program of one segment that lies in the page of the small machine, and one whose segment wraps.\<close>

definition demo_elf_bytes :: "bytes \<Rightarrow> bytes \<Rightarrow> bytes" where
  "demo_elf_bytes vaddr memsz =
     [0x7F, 0x45, 0x4C, 0x46, 2, 1, 1, 0, 0, 0, 0, 0, 0, 0, 0, 0, 2, 0, 62, 0, 1, 0, 0, 0] @ [0, 0, 0, 0x40, 0, 0, 0, 0] @ [64, 0, 0, 0, 0, 0, 0, 0]
     @ replicate 14 0 @ [56, 0, 1, 0, 0, 0, 0, 0, 0, 0]
     @ [1, 0, 0, 0, 5, 0, 0, 0] @ replicate 8 0 @ vaddr @ replicate 8 0 @ [2, 0, 0, 0, 0, 0, 0, 0] @ memsz @ replicate 8 0"

definition demo_elf :: memory where
  "demo_elf = store_bytes (\<lambda>_. 0) 0 (demo_elf_bytes [0, 0, 0, 0x40, 0, 0, 0, 0] [4, 0, 0, 0, 0, 0, 0, 0])"

definition demo_bad_elf :: memory where
  "demo_bad_elf = store_bytes (\<lambda>_. 0) 0 (demo_elf_bytes [0, 0x10, 0, 0x40, 0, 0, 0, 0] [0, 0, 0, 0xC0, 0xFF, 0xFF, 0xFF, 0xFF])"

lemma demo_elf_valid: "elf_validate (ehdr_at demo_elf 0) 120 = Inr ()" "elf_validate (ehdr_at demo_bad_elf 0) 120 = Inr ()"
  by code_simp+

lemma demo_elf_headers:
  "elf_headers demo_elf 0 = [\<lparr>p_type = 1, p_flags = 5, p_offset = 0, p_vaddr = 0x40000000, p_paddr = 0, p_filesz = 2, p_memsz = 4, p_align = 0\<rparr>]"
  "elf_headers demo_bad_elf 0 = [\<lparr>p_type = 1, p_flags = 5, p_offset = 0, p_vaddr = 0x40001000, p_paddr = 0, p_filesz = 2, p_memsz = 0xFFFFFFFFC0000000, p_align = 0\<rparr>]"
  by code_simp+

lemma demo_elf_rest: "e_entry (ehdr_at demo_elf 0) = 0x40000000" "load_bytes demo_elf 0 2 = [0x7F, 0x45]"
  by code_simp+


abbreviation demo_runner :: "unit process" where
  "demo_runner \<equiv> demo_process\<lparr>p_space := 0x100\<rparr>"

lemma demo_loader_env: "loader_env {0x100} {0x1000} 0x100 demo_paging"
proof -
  have "root_of demo_paging 0x100 = 0x1000" "phys_mem demo_paging = demo_words" by (simp_all add: root_of_def demo_paging_def)
  moreover have "writable 0x3007" "for_user 0x3007" by (simp_all add: writable_def for_user_def PTE_WRITE_def PTE_USER_def)
  ultimately have "owned {0x1000} 0x100 user_lo user_hi demo_paging"
    by (auto simp: owned_def demo_mapping same_page_def split: if_splits)
  then show ?thesis using demo_machine_ok by (simp add: uenv_def)
qed

lemma demo_program_mem: "prog_mem demo_paging 0x100 user_lo user_hi a \<noteq> None" if "user_lo \<le> a" "a < user_lo + 4096"
proof -
  have "same_page (of_nat user_lo) (of_nat a)" using page_range[OF demo_loader_env, of user_lo a] that by simp
  then have "mapping (phys_mem demo_paging) (root_of demo_paging 0x100) (of_nat a) = Some (Page 0x3007)"
    using mapping_page demo_page by (simp add: demo_virt_def)
  then show ?thesis using that by (simp add: prog_mem_def)
qed

lemma replicate_two: "replicate 2 x = [x, x]"
  by (simp add: numeral_2_eq_2)

lemma demo_load_runs:
  "\<exists>s' p'. elf_load demo_elf 0 120 demo_paging demo_runner = Some (s', p', Inr 0x40000000) \<and> heap_start p' = 0x40001000"
proof -
  have tr: "paging_translate demo_paging 0x100 (of_nat user_lo) \<noteq> 0"
    using translate_prog_mem[OF demo_loader_env, of user_lo] demo_program_mem[of user_lo] by simp
  have mm: "map_missing demo_paging 0x100 user_lo (user_lo + 4096) = Some (demo_paging, True)"
    by (subst map_missing.simps, subst map_missing.simps) (use tr in \<open>simp add: PAGE_SIZE_def\<close>)
  have "\<forall>k<length [0x7F, 0x45 :: u8]. prog_mem demo_paging 0x100 user_lo user_hi (user_lo + k) \<noteq> None" using demo_program_mem by simp
  from user_store_law[OF demo_loader_env this] obtain s1 where s1: "user_store 0x100 0x40000000 [0x7F, 0x45] demo_paging = Some s1"
    "loader_env {0x100} {0x1000} 0x100 s1" "prog_mem s1 0x100 user_lo user_hi = override_at (prog_mem demo_paging 0x100 user_lo user_hi) user_lo [0x7F, 0x45]" by auto
  have "\<forall>k<length [0, 0 :: u8]. prog_mem s1 0x100 user_lo user_hi (user_lo + 2 + k) \<noteq> None"
    unfolding s1(3) using demo_program_mem by (simp add: override_at_def)
  from user_store_law[OF s1(2) this] obtain s2 where s2: "user_store 0x100 0x40000002 [0, 0] s1 = Some s2" by auto
  show ?thesis
    unfolding elf_load_def Let_def demo_elf_valid demo_elf_headers
    using mm s1(1) s2 demo_elf_rest
    by (simp add: load_segment_def Let_def PT_LOAD_def USER_BASE_def USER_STACK_TOP_def USER_STACK_SIZE_def PF_X_def align_up_def align_down_def replicate_two del: user_store.simps)
qed


theorem elf_load_wraps_witness: "elf_load demo_bad_elf 0 120 demo_paging demo_runner = None"
proof (rule elf_load_wraps[OF demo_elf_valid(2) demo_elf_headers(2)])
  have "root_of demo_paging 0x100 = 0x1000" "phys_mem demo_paging = demo_words" by (simp_all add: root_of_def demo_paging_def)
  moreover have "PT_INDEX 0x40001000 = 1" by (simp add: PT_INDEX_def)
  ultimately have "mapping (phys_mem demo_paging) (root_of demo_paging 0x100) 0x40001000 = None" by (simp add: demo_mapping)
  moreover have "pg_ok {0x1000} demo_paging" "root_of demo_paging 0x100 \<in> {0x1000}" using uenvD(5,6)[OF demo_loader_env] by auto
  ultimately have "paging_translate demo_paging 0x100 0x40001000 = 0" using translate_mapping[of "{0x1000}" demo_paging "0x100" "0x40001000"] by simp
  then show "paging_translate demo_paging (p_space demo_runner)
     (p_vaddr \<lparr>p_type = 1, p_flags = 5, p_offset = 0, p_vaddr = 0x40001000, p_paddr = 0, p_filesz = 2, p_memsz = 0xFFFFFFFFC0000000, p_align = 0\<rparr>) = 0"
    by simp
qed (simp_all add: loadable_def PT_LOAD_def USER_BASE_def)

end
