(* ===== verification/Vfs_Path.thy ===== *)
theory Vfs_Path
  imports User "HOL-Library.Sublist"
begin

text \<open>
  Paths and who may use them, \<^verbatim>\<open>kernel/fs/vfs.c\<close>: making a path absolute and normal, and the rules that
  decide from the path who may read and who may write there.

  Paths are lists of bytes.  The lemmas relate the scan of \<open>vfs_resolve\<close>, with its stack of saved
  lengths, to a walk over the components of the path, and the tests of prefixes to the components of
  normal paths.
\<close>

section \<open>Resolving a path\<close>

definition W_NAME_MAX :: nat where "W_NAME_MAX = 27"
definition MAX_DEPTH :: nat where "MAX_DEPTH = 64"
definition sizeof_joined :: nat where "sizeof_joined = W_PATH_MAX * 2 + 2"

definition dot1 :: bytes where "dot1 = [46]"
definition dot2 :: bytes where "dot2 = [46, 46]"

definition join_path :: "bytes \<Rightarrow> bytes \<Rightarrow> bytes res" where
  "join_path cwd path =
     (if hd path = slash
      then if length path > W_PATH_MAX then Inl W_ENAMETOOLONG else Inr path
      else if length cwd + 1 + length path > sizeof_joined - 1 then Inl W_ENAMETOOLONG
      else Inr (cwd @ (if length cwd = 0 \<or> last cwd \<noteq> slash then [slash] else []) @ path))"

lemma scan_progress:
  assumes "dropWhile (\<lambda>c. c = slash) q \<noteq> []"
  shows "length (dropWhile (\<lambda>c. c \<noteq> slash) (dropWhile (\<lambda>c. c = slash) q)) < length q"
proof -
  let ?q = "dropWhile (\<lambda>c. c = slash) q"
  have "hd ?q \<noteq> slash" by (rule hd_dropWhile[OF assms])
  then have "length (dropWhile (\<lambda>c. c \<noteq> slash) ?q) < length ?q"
    using assms by (cases ?q) (auto simp: le_imp_less_Suc length_dropWhile_le)
  then show ?thesis using length_dropWhile_le[of "\<lambda>c. c = slash" q] by simp
qed

text \<open>The scan: \<open>out\<close> is what has been written so far, of length \<^verbatim>\<open>len\<close>, and \<open>saved\<close> the stack of lengths.\<close>

function resolve_loop :: "nat \<Rightarrow> bytes \<Rightarrow> nat list \<Rightarrow> bytes \<Rightarrow> bytes res" where
  "resolve_loop out_size q saved out =
     (let q = dropWhile (\<lambda>c. c = slash) q
      in if q = [] then Inr out
         else
           (let comp = takeWhile (\<lambda>c. c \<noteq> slash) q; q = dropWhile (\<lambda>c. c \<noteq> slash) q
            in if comp = dot1 then resolve_loop out_size q saved out
               else if comp = dot2
               then (if saved \<noteq> [] then resolve_loop out_size q (butlast saved) (take (last saved) out)
                     else resolve_loop out_size q saved out)
               else if length comp > W_NAME_MAX then Inl W_ENAMETOOLONG
               else if length saved \<ge> MAX_DEPTH then Inl W_ENAMETOOLONG
               else if length out + (if length out > 1 then 1 else 0) + length comp + 1 > out_size then Inl W_ENAMETOOLONG
               else resolve_loop out_size q (saved @ [length out]) (out @ (if length out > 1 then [slash] else []) @ comp)))"
  by auto

termination
  by (relation "measure (\<lambda>(n, q, saved, out). length q)") (auto simp: scan_progress)

declare resolve_loop.simps [simp del]

definition vfs_resolve :: "bytes \<Rightarrow> bytes \<Rightarrow> nat \<Rightarrow> bytes res" where
  "vfs_resolve cwd path out_size =
     (if path = [] then Inl W_EINVAL
      else
        (case join_path cwd path of
           Inl e \<Rightarrow> Inl e
         | Inr joined \<Rightarrow> resolve_loop out_size joined [] [slash]))"

section \<open>Permissions\<close>

text \<open>The texts \<^verbatim>\<open>"/kernel"\<close>, \<^verbatim>\<open>"/app"\<close>, \<^verbatim>\<open>"/services"\<close>, \<^verbatim>\<open>"/ramdisk"\<close>, \<^verbatim>\<open>"/home"\<close> and \<^verbatim>\<open>"password"\<close>.\<close>

definition KERNEL_DIR :: bytes where "KERNEL_DIR = [47, 107, 101, 114, 110, 101, 108]"
definition APP_DIR :: bytes where "APP_DIR = [47, 97, 112, 112]"
definition SERVICES_DIR :: bytes where "SERVICES_DIR = [47, 115, 101, 114, 118, 105, 99, 101, 115]"
definition RAMFS_MOUNT :: bytes where "RAMFS_MOUNT = [47, 114, 97, 109, 100, 105, 115, 107]"
definition HOME :: bytes where "HOME = [47, 104, 111, 109, 101]"
definition PASSWORD :: bytes where "PASSWORD = [112, 97, 115, 115, 119, 111, 114, 100]"

definition W_ROLE_APPEDITOR :: u32 where "W_ROLE_APPEDITOR = 1"
definition W_ROLE_SYSCTLEDIT :: u32 where "W_ROLE_SYSCTLEDIT = 8"

definition path_within :: "bytes \<Rightarrow> bytes \<Rightarrow> bool" where
  "path_within path pre =
     (let n = length pre in if take n path \<noteq> pre then False else length path = n \<or> path ! n = slash)"

definition is_password_file :: "bytes \<Rightarrow> bool" where
  "is_password_file path =
     (if \<not> path_within path USERCONFIG_DIR then False
      else if slash \<notin> set path \<or> rev (takeWhile (\<lambda>c. c \<noteq> slash) (rev path)) \<noteq> PASSWORD then False
      else length (filter (\<lambda>c. c = slash) path) = 3)"

definition home_of :: "'d accounts \<Rightarrow> u32 \<Rightarrow> nat \<Rightarrow> bytes option" where
  "home_of st u cap =
     (case user_by_uid st u of
        Inl _ \<Rightarrow> None
      | Inr me \<Rightarrow> Some (append_str cap (append_str cap [] HOME_DIR) (wname me)))"

definition may_read :: "'d accounts \<Rightarrow> u32 \<Rightarrow> bytes \<Rightarrow> bool" where
  "may_read st u path =
     (if u = ROOT_UID then True
      else if is_password_file path then False
      else if path_within path HOME
      then (if path = HOME then True
            else (case home_of st u (W_PATH_MAX + 1) of None \<Rightarrow> False | Some home \<Rightarrow> path_within path home))
      else True)"

definition may_write :: "'d accounts \<Rightarrow> u32 \<Rightarrow> bytes \<Rightarrow> bool" where
  "may_write st u path =
     (if u = ROOT_UID then True
      else if path_within path KERNEL_DIR then False
      else if is_password_file path then False
      else if path_within path USERCONFIG_DIR then user_has_role (users st) u W_ROLE_USEREDITOR
      else if path_within path APP_DIR then user_has_role (users st) u W_ROLE_APPEDITOR
      else if path_within path SERVICES_DIR then user_has_role (users st) u W_ROLE_SYSCTLEDIT
      else if path_within path RAMFS_MOUNT then True
      else (case home_of st u (W_PATH_MAX + 1) of None \<Rightarrow> False | Some home \<Rightarrow> path_within path home))"

definition resolve_for_write :: "'d accounts \<Rightarrow> u32 \<Rightarrow> bytes \<Rightarrow> bytes \<Rightarrow> nat \<Rightarrow> bytes res" where
  "resolve_for_write st u cwd path out_size =
     (case vfs_resolve cwd path out_size of
        Inl e \<Rightarrow> Inl e
      | Inr out \<Rightarrow> if may_write st u out then Inr out else Inl W_EACCES)"

section \<open>Paths and their components\<close>

function comps :: "bytes \<Rightarrow> bytes list" where
  "comps q =
     (let q = dropWhile (\<lambda>c. c = slash) q
      in if q = [] then [] else takeWhile (\<lambda>c. c \<noteq> slash) q # comps (dropWhile (\<lambda>c. c \<noteq> slash) q))"
  by auto
termination by (relation "measure length") (auto simp: scan_progress)

declare comps.simps [simp del]

definition render :: "bytes list \<Rightarrow> bytes" where
  "render cs = (if cs = [] then [slash] else concat (map (\<lambda>c. slash # c) cs))"

definition name_ok :: "bytes \<Rightarrow> bool" where
  "name_ok c \<longleftrightarrow> c \<noteq> [] \<and> slash \<notin> set c"

text \<open>The components of a normal path.\<close>

definition normal :: "bytes list \<Rightarrow> bool" where
  "normal cs \<longleftrightarrow> (\<forall>c\<in>set cs. name_ok c \<and> c \<noteq> dot1 \<and> c \<noteq> dot2 \<and> length c \<le> W_NAME_MAX) \<and> length cs \<le> MAX_DEPTH"

text \<open>The walk over the components, with the bounds of the code.\<close>

fun walk_comps :: "nat \<Rightarrow> bytes list \<Rightarrow> bytes list \<Rightarrow> bytes list res" where
  "walk_comps n stack [] = Inr stack"
| "walk_comps n stack (c # cs) =
     (if c = dot1 then walk_comps n stack cs
      else if c = dot2 then walk_comps n (butlast stack) cs
      else if length c > W_NAME_MAX \<or> length stack \<ge> MAX_DEPTH \<or> length (render (stack @ [c])) \<ge> n then Inl W_ENAMETOOLONG
      else walk_comps n (stack @ [c]) cs)"

text \<open>The same without bounds: where the path leads.\<close>

definition go :: "bytes \<Rightarrow> bytes list \<Rightarrow> bytes list" where
  "go c stack = (if c = dot1 then stack else if c = dot2 then butlast stack else stack @ [c])"

lemma walk_go: "walk_comps n stack cs = Inr stack' \<Longrightarrow> stack' = fold go cs stack"
  by (induction n stack cs rule: walk_comps.induct) (auto simp: go_def split: if_splits)

lemma comps_step:
  "dropWhile (\<lambda>c. c = slash) q = [] \<Longrightarrow> comps q = []"
  "dropWhile (\<lambda>c. c = slash) q \<noteq> [] \<Longrightarrow>
   comps q = takeWhile (\<lambda>c. c \<noteq> slash) (dropWhile (\<lambda>c. c = slash) q) # comps (dropWhile (\<lambda>c. c \<noteq> slash) (dropWhile (\<lambda>c. c = slash) q))"
proof -
  show "dropWhile (\<lambda>c. c = slash) q = [] \<Longrightarrow> comps q = []"
    by (subst comps.simps) (simp only: Let_def if_True simp_thms)
  show "dropWhile (\<lambda>c. c = slash) q \<noteq> [] \<Longrightarrow>
   comps q = takeWhile (\<lambda>c. c \<noteq> slash) (dropWhile (\<lambda>c. c = slash) q) # comps (dropWhile (\<lambda>c. c \<noteq> slash) (dropWhile (\<lambda>c. c = slash) q))"
    by (subst comps.simps) (simp only: Let_def if_False simp_thms)
qed

lemma first_name_ok:
  assumes "q \<noteq> []" "hd q \<noteq> slash"
  shows "name_ok (takeWhile (\<lambda>c. c \<noteq> slash) q)"
  using assms by (cases q) (auto simp: name_ok_def dest: set_takeWhileD)

lemma comps_name_ok: "c \<in> set (comps q) \<Longrightarrow> name_ok c"
proof (induction q rule: comps.induct)
  case (1 q)
  define q' where "q' = dropWhile (\<lambda>c. c = slash) q"
  have ne: "q' \<noteq> []"
  proof
    assume "q' = []"
    then show False using comps_step(1)[of q] 1(2) by (simp add: q'_def)
  qed
  have "hd q' \<noteq> slash" using hd_dropWhile[OF ne[unfolded q'_def]] unfolding q'_def .
  then have first: "name_ok (takeWhile (\<lambda>c. c \<noteq> slash) q')" by (rule first_name_ok[OF ne])
  have "comps q = takeWhile (\<lambda>c. c \<noteq> slash) q' # comps (dropWhile (\<lambda>c. c \<noteq> slash) q')"
    using comps_step(2)[OF ne[unfolded q'_def]] unfolding q'_def .
  then have "c = takeWhile (\<lambda>c. c \<noteq> slash) q' \<or> c \<in> set (comps (dropWhile (\<lambda>c. c \<noteq> slash) q'))" using 1(2) by simp
  then show ?case using first 1(1)[OF q'_def ne] by blast
qed

lemma render_snoc: "render (cs @ [c]) = (if cs = [] then [slash] else render cs @ [slash]) @ c"
  by (simp add: render_def)

lemma render_length: "\<forall>c\<in>set cs. name_ok c \<Longrightarrow> length (render cs) > 1 \<longleftrightarrow> cs \<noteq> []"
  by (cases cs) (auto simp: render_def name_ok_def)

lemma walk_normal:
  assumes "walk_comps n stack cs = Inr stack'" "\<forall>c\<in>set cs. name_ok c" "normal stack" "length (render stack) < n"
  shows "normal stack'" "length (render stack') < n"
proof -
  have shorter: "length (render (butlast s)) \<le> length (render s)" for s
    by (cases s rule: rev_cases) (auto simp: render_snoc, simp add: render_def)
  have "normal stack' \<and> length (render stack') < n"
    using assms
  proof (induction n stack cs rule: walk_comps.induct)
    case (2 n stack c cs)
    have names: "\<forall>c\<in>set cs. name_ok c" "name_ok c" using 2(5) by simp_all
    consider "c = dot1" | "c = dot2" "c \<noteq> dot1" | "c \<noteq> dot1" "c \<noteq> dot2" by blast
    then show ?case
    proof cases
      case 1
      then show ?thesis using 2(1)[OF 1] 2(4,6,7) names by simp
    next
      case two: 2
      have "normal (butlast stack)" using 2(6) by (auto simp: normal_def dest: in_set_butlastD)
      moreover have "length (render (butlast stack)) < n" using shorter[of stack] 2(7) by simp
      ultimately show ?thesis using 2(2)[OF two(2,1)] 2(4) names(1) two by simp
    next
      case 3
      have ok: "\<not> (length c > W_NAME_MAX \<or> length stack \<ge> MAX_DEPTH \<or> length (render (stack @ [c])) \<ge> n)"
        using 2(4) 3 by (auto split: if_splits)
      have "normal (stack @ [c])" using ok 2(6) names(2) 3 by (simp add: normal_def)
      then show ?thesis using 2(3)[OF 3 ok] 2(4) 3 ok names(1) by (simp split: if_splits)
    qed
  qed simp
  then show "normal stack'" "length (render stack') < n" by auto
qed


section \<open>The scan is the walk\<close>

definition saved_of :: "bytes list \<Rightarrow> nat list" where
  "saved_of stack = map (\<lambda>i. length (render (take i stack))) [0..<length stack]"

lemma saved_of_snoc: "saved_of (cs @ [c]) = saved_of cs @ [length (render cs)]"
  by (simp add: saved_of_def)

lemma saved_of_Nil [simp]: "saved_of [] = []"
  by (simp add: saved_of_def)

lemma render_pop: "take (length (render cs)) (render (cs @ [c])) = render cs"
  unfolding render_snoc by (auto simp: render_def)

lemma resolve_step:
  "dropWhile (\<lambda>c. c = slash) q = [] \<Longrightarrow> resolve_loop n q saved out = Inr out"
  "dropWhile (\<lambda>c. c = slash) q \<noteq> [] \<Longrightarrow> c = takeWhile (\<lambda>c. c \<noteq> slash) (dropWhile (\<lambda>c. c = slash) q) \<Longrightarrow>
   q' = dropWhile (\<lambda>c. c \<noteq> slash) (dropWhile (\<lambda>c. c = slash) q) \<Longrightarrow>
   resolve_loop n q saved out =
     (if c = dot1 then resolve_loop n q' saved out
      else if c = dot2 then (if saved \<noteq> [] then resolve_loop n q' (butlast saved) (take (last saved) out) else resolve_loop n q' saved out)
      else if length c > W_NAME_MAX then Inl W_ENAMETOOLONG
      else if length saved \<ge> MAX_DEPTH then Inl W_ENAMETOOLONG
      else if length out + (if length out > 1 then 1 else 0) + length c + 1 > n then Inl W_ENAMETOOLONG
      else resolve_loop n q' (saved @ [length out]) (out @ (if length out > 1 then [slash] else []) @ c))"
  by (subst resolve_loop.simps, simp only: Let_def if_True if_False simp_thms)
     (subst resolve_loop.simps, simp only: Let_def if_False simp_thms)

lemma resolve_loop_law:
  assumes "\<forall>c\<in>set stack. name_ok c"
  shows "resolve_loop n q (saved_of stack) (render stack) = map_sum id render (walk_comps n stack (comps q))"
  using assms
proof (induction "length q" arbitrary: q stack rule: less_induct)
  case less
  define q1 where "q1 = dropWhile (\<lambda>c. c = slash) q"
  show ?case
  proof (cases "q1 = []")
    case True
    then show ?thesis using resolve_step(1)[of q] comps_step(1)[of q] by (simp add: q1_def)
  next
    case False
    define c where "c = takeWhile (\<lambda>c. c \<noteq> slash) q1"
    define q2 where "q2 = dropWhile (\<lambda>c. c \<noteq> slash) q1"
    have short: "length q2 < length q" using scan_progress[of q] False by (simp add: q1_def q2_def)
    have cs: "comps q = c # comps q2" using comps_step(2)[OF False[unfolded q1_def]] by (simp only: c_def q2_def q1_def)
    note step = resolve_step(2)[OF False[unfolded q1_def] c_def[unfolded q1_def] q2_def[unfolded q1_def], of n]
    have ok: "name_ok c" using comps_name_ok[of c q] cs by simp
    note IH = less(1)[OF short]
    show ?thesis
    proof (cases "c = dot1 \<or> c = dot2")
      case True
      show ?thesis
      proof (cases stack rule: rev_cases)
        case Nil
        then show ?thesis using True IH[of "[]"] unfolding step cs by (auto simp: dot1_def dot2_def)
      next
        case (snoc st x)
        have "saved_of stack \<noteq> []" "butlast (saved_of stack) = saved_of st" "take (last (saved_of stack)) (render stack) = render st"
          using render_pop by (simp_all add: snoc saved_of_snoc)
        then show ?thesis using True IH[of stack] IH[of st] less(2) unfolding step cs by (auto simp: snoc dot1_def dot2_def)
      qed
    next
      case False
      have len: "length (render (stack @ [c])) = length (render stack) + (if length (render stack) > 1 then 1 else 0) + length c"
        using render_length[OF less(2)] unfolding render_snoc by (auto simp: render_def)
      have out: "render stack @ (if length (render stack) > 1 then [slash] else []) @ c = render (stack @ [c])"
        using render_length[OF less(2)] unfolding render_snoc by (auto simp: render_def)
      have depth: "length (saved_of stack) = length stack" by (simp add: saved_of_def)
      show ?thesis
      proof (cases "length c > W_NAME_MAX \<or> length stack \<ge> MAX_DEPTH \<or> length (render (stack @ [c])) \<ge> n")
        case True
        then show ?thesis using False len depth unfolding step cs by auto
      next
        case fits: False
        have "resolve_loop n q (saved_of stack) (render stack) = resolve_loop n q2 (saved_of (stack @ [c])) (render (stack @ [c]))"
          unfolding step out saved_of_snoc using False fits len depth by auto
        then show ?thesis using IH[of "stack @ [c]"] less(2) ok False fits unfolding cs by simp
      qed
    qed
  qed
qed

lemma vfs_resolve_walk:
  assumes "path \<noteq> []" "join_path cwd path = Inr joined"
  shows "vfs_resolve cwd path n = map_sum id render (walk_comps n [] (comps joined))"
  using assms resolve_loop_law[of "[]" n joined] by (simp add: vfs_resolve_def render_def)

section \<open>Normal paths\<close>

lemma comps_Cons:
  assumes "name_ok c" "rest = [] \<or> hd rest = slash"
  shows "comps (slash # c @ rest) = c # comps rest"
proof -
  have d: "dropWhile (\<lambda>c. c = slash) (slash # c @ rest) = c @ rest" using assms(1) by (cases c) (auto simp: name_ok_def)
  have t: "takeWhile (\<lambda>c. c \<noteq> slash) (c @ rest) = c" "dropWhile (\<lambda>c. c \<noteq> slash) (c @ rest) = rest"
    using assms by (cases rest; force simp: name_ok_def takeWhile_append dropWhile_append)+
  have "dropWhile (\<lambda>c. c = slash) (slash # c @ rest) \<noteq> []" unfolding d using assms(1) by (simp add: name_ok_def)
  from comps_step(2)[OF this] show ?thesis unfolding d t .
qed

lemma comps_append:
  assumes "\<forall>c\<in>set cs. name_ok c" "rest = [] \<or> hd rest = slash"
  shows "comps (concat (map (\<lambda>c. slash # c) cs) @ rest) = cs @ comps rest"
  using assms(1)
proof (induction cs)
  case (Cons c cs)
  have "concat (map (\<lambda>c. slash # c) cs) @ rest = [] \<or> hd (concat (map (\<lambda>c. slash # c) cs) @ rest) = slash"
    using assms(2) by (cases cs) auto
  then show ?case using comps_Cons[of c "concat (map (\<lambda>c. slash # c) cs) @ rest"] Cons by simp
qed simp

lemma comps_Nil [simp]: "comps [] = []"
  by (rule comps_step(1)) simp

lemma comps_render: "\<forall>c\<in>set cs. name_ok c \<Longrightarrow> comps (render cs) = cs"
  using comps_append[of cs "[]"] comps_step(1)[of "[slash]"] by (auto simp: render_def)

lemma render_inj: "\<forall>c\<in>set cs. name_ok c \<Longrightarrow> \<forall>c\<in>set ds. name_ok c \<Longrightarrow> render cs = render ds \<longleftrightarrow> cs = ds"
  using comps_render by metis

lemma normal_names: "normal cs \<Longrightarrow> \<forall>c\<in>set cs. name_ok c"
  by (simp add: normal_def)

lemma walk_id:
  assumes "normal (stack @ cs)" "length (render (stack @ cs)) < n"
  shows "walk_comps n stack cs = Inr (stack @ cs)"
  using assms
proof (induction cs arbitrary: stack)
  case (Cons c cs)
  have "length (render (stack @ [c])) \<le> length (render (stack @ c # cs))" by (simp add: render_def)
  then show ?case using Cons.IH[of "stack @ [c]"] Cons.prems by (auto simp: normal_def)
qed simp

text \<open>C19. Whatever a program writes as a path, and wherever it stands, what the kernel works with is the normal
  absolute path the components lead to: each component is a name, none of them \<open>.\<close> or \<open>..\<close>, no name and no
  path is longer than the limits, and resolving it again, from anywhere, changes nothing.\<close>

theorem vfs_resolve_correct:
  assumes "vfs_resolve cwd path n = Inr out" "1 < n"
  shows "\<exists>joined cs. join_path cwd path = Inr joined \<and> cs = fold go (comps joined) [] \<and> out = render cs \<and> normal cs \<and> length out < n
    \<and> (length out \<le> W_PATH_MAX \<longrightarrow> vfs_resolve cwd' out n = Inr out)"
proof -
  have ne: "path \<noteq> []" using assms(1) by (auto simp: vfs_resolve_def)
  obtain joined where j: "join_path cwd path = Inr joined" using assms(1) ne by (cases "join_path cwd path") (auto simp: vfs_resolve_def)
  obtain cs where w: "walk_comps n [] (comps joined) = Inr cs" and out: "out = render cs"
    using assms(1) vfs_resolve_walk[OF ne j] by (cases "walk_comps n [] (comps joined)") auto
  have N: "normal cs" "length (render cs) < n"
    using walk_normal[OF w] comps_name_ok assms(2) by (auto simp: normal_def render_def)
  have "vfs_resolve cwd' out n = Inr out" if "length out \<le> W_PATH_MAX"
  proof -
    have "out \<noteq> []" "hd out = slash" unfolding out by (cases cs; simp add: render_def)+
    then have "join_path cwd' out = Inr out" using that by (simp add: join_path_def)
    from vfs_resolve_walk[OF \<open>out \<noteq> []\<close> this] show ?thesis
      using walk_id[of "[]" cs n] N comps_render[OF normal_names[OF N(1)]] by (simp add: out)
  qed
  then show ?thesis using j walk_go[OF w] out N by blast
qed


section \<open>The rules on components\<close>

definition n_kernel :: bytes where "n_kernel = tl KERNEL_DIR"
definition n_userconfig :: bytes where "n_userconfig = tl USERCONFIG_DIR"
definition n_app :: bytes where "n_app = tl APP_DIR"
definition n_services :: bytes where "n_services = tl SERVICES_DIR"
definition n_ramdisk :: bytes where "n_ramdisk = tl RAMFS_MOUNT"
definition n_home :: bytes where "n_home = tl HOME"

lemmas dir_defs = KERNEL_DIR_def USERCONFIG_DIR_def APP_DIR_def SERVICES_DIR_def RAMFS_MOUNT_def HOME_def PASSWORD_def
  n_kernel_def n_userconfig_def n_app_def n_services_def n_ramdisk_def n_home_def

lemma dir_renders:
  "KERNEL_DIR = render [n_kernel]" "USERCONFIG_DIR = render [n_userconfig]" "APP_DIR = render [n_app]" "SERVICES_DIR = render [n_services]"
  "RAMFS_MOUNT = render [n_ramdisk]" "HOME = render [n_home]"
  by (simp_all add: dir_defs render_def slash_def)

lemma dir_names:
  "name_ok n_kernel" "name_ok n_userconfig" "name_ok n_app" "name_ok n_services" "name_ok n_ramdisk" "name_ok n_home" "name_ok PASSWORD"
  by (simp_all add: dir_defs name_ok_def slash_def)

lemma dir_differ:
  "n_kernel \<noteq> n_userconfig" "n_kernel \<noteq> n_app" "n_kernel \<noteq> n_services" "n_kernel \<noteq> n_ramdisk" "n_kernel \<noteq> n_home"
  "n_userconfig \<noteq> n_app" "n_userconfig \<noteq> n_services" "n_userconfig \<noteq> n_ramdisk" "n_userconfig \<noteq> n_home"
  "n_app \<noteq> n_services" "n_app \<noteq> n_ramdisk" "n_app \<noteq> n_home" "n_services \<noteq> n_ramdisk" "n_services \<noteq> n_home" "n_ramdisk \<noteq> n_home"
  by (simp_all add: dir_defs)

lemma path_within_iff:
  assumes "\<forall>c\<in>set cs. name_ok c" "\<forall>c\<in>set ps. name_ok c" "ps \<noteq> []"
  shows "path_within (render cs) (render ps) \<longleftrightarrow> prefix ps cs"
proof
  assume w: "path_within (render cs) (render ps)"
  define rest where "rest = drop (length (render ps)) (render cs)"
  have "take (length (render ps)) (render cs) = render ps" using w by (simp add: path_within_def Let_def split: if_splits)
  then have cs: "render cs = render ps @ rest" unfolding rest_def by (metis append_take_drop_id)
  moreover have "rest = [] \<or> hd rest = slash"
    using w cs by (cases rest) (auto simp: path_within_def Let_def nth_append split: if_splits)
  ultimately have "comps (render cs) = ps @ comps rest" using comps_append[OF assms(2), of rest] assms(3) by (simp add: render_def)
  then show "prefix ps cs" using comps_render[OF assms(1)] by simp
next
  assume "prefix ps cs"
  then obtain zs where zs: "cs = ps @ zs" by (auto simp: prefix_def)
  then have "render cs = render ps @ concat (map (\<lambda>c. slash # c) zs)" using assms(3) by (simp add: render_def)
  then show "path_within (render cs) (render ps)" by (cases zs) (simp_all add: path_within_def Let_def nth_append)
qed

lemma within_dir:
  assumes "\<forall>c\<in>set cs. name_ok c"
  shows "path_within (render cs) KERNEL_DIR \<longleftrightarrow> prefix [n_kernel] cs" "path_within (render cs) USERCONFIG_DIR \<longleftrightarrow> prefix [n_userconfig] cs"
    "path_within (render cs) APP_DIR \<longleftrightarrow> prefix [n_app] cs" "path_within (render cs) SERVICES_DIR \<longleftrightarrow> prefix [n_services] cs"
    "path_within (render cs) RAMFS_MOUNT \<longleftrightarrow> prefix [n_ramdisk] cs" "path_within (render cs) HOME \<longleftrightarrow> prefix [n_home] cs"
  unfolding dir_renders using path_within_iff[OF assms] dir_names by simp_all

lemma slashes:
  assumes "\<forall>c\<in>set cs. name_ok c" "cs \<noteq> []"
  shows "length (filter (\<lambda>c. c = slash) (render cs)) = length cs"
proof -
  have "length (filter (\<lambda>c. c = slash) (concat (map (\<lambda>c. slash # c) cs))) = length cs"
    using assms(1)
  proof (induction cs)
    case (Cons c cs)
    then have "filter (\<lambda>c. c = slash) c = []" by (auto simp: name_ok_def filter_empty_conv)
    then show ?case using Cons by simp
  qed simp
  then show ?thesis using assms(2) by (simp add: render_def)
qed

lemma last_name:
  assumes "\<forall>c\<in>set cs. name_ok c" "cs \<noteq> []"
  shows "rev (takeWhile (\<lambda>c. c \<noteq> slash) (rev (render cs))) = last cs"
proof -
  obtain ds c where cs: "cs = ds @ [c]" using assms(2) by (cases cs rule: rev_cases) auto
  obtain pre where r: "render cs = pre @ slash # c" unfolding cs render_snoc by (cases ds) (auto simp: render_def)
  have "slash \<notin> set c" using assms(1) cs by (simp add: name_ok_def)
  then have "takeWhile (\<lambda>c. c \<noteq> slash) (rev (render cs)) = rev c" unfolding r by (auto simp: takeWhile_append)
  then show ?thesis by (simp add: cs)
qed

lemma password_file_iff:
  assumes "\<forall>c\<in>set cs. name_ok c"
  shows "is_password_file (render cs) \<longleftrightarrow> (\<exists>n. cs = [n_userconfig, n, PASSWORD])"
proof (cases "prefix [n_userconfig] cs")
  case True
  then have ne: "cs \<noteq> []" by auto
  have sl: "slash \<in> set (render cs)" by (cases cs) (simp_all add: render_def)
  have "is_password_file (render cs) \<longleftrightarrow> last cs = PASSWORD \<and> length cs = 3"
    using True sl slashes[OF assms ne] last_name[OF assms ne] within_dir(2)[OF assms] by (simp add: is_password_file_def)
  also have "\<dots> \<longleftrightarrow> (\<exists>n. cs = [n_userconfig, n, PASSWORD])" using True by (auto simp: prefix_def length_Suc_conv numeral_3_eq_3)
  finally show ?thesis .
next
  case False
  then show ?thesis using within_dir(2)[OF assms] by (auto simp: is_password_file_def)
qed

definition plain_name :: "'d accounts \<Rightarrow> u32 \<Rightarrow> bool" where
  "plain_name st u \<longleftrightarrow> (case user_by_uid st u of Inl _ \<Rightarrow> True | Inr me \<Rightarrow> name_ok (wname me))"

lemma home_render:
  assumes "user_by_uid st u = Inr me"
  shows "home_of st u (W_PATH_MAX + 1) = Some (render [n_home, wname me])"
proof -
  have "length (wname me) \<le> 31" using assms by (auto simp: user_by_uid_def fill_wuser_def W_NAME_LEN_def split: option.splits)
  then show ?thesis using assms by (simp add: home_of_def append_str_def HOME_DIR_def W_PATH_MAX_def render_def n_home_def HOME_def slash_def)
qed

lemma within_home:
  assumes "plain_name st u" "\<forall>c\<in>set cs. name_ok c"
  shows "(case home_of st u (W_PATH_MAX + 1) of None \<Rightarrow> False | Some home \<Rightarrow> path_within (render cs) home) \<longleftrightarrow>
    (\<exists>me. user_by_uid st u = Inr me \<and> prefix [n_home, wname me] cs)"
proof (cases "user_by_uid st u")
  case (Inl e)
  then show ?thesis by (simp add: home_of_def)
next
  case (Inr me)
  then have "name_ok (wname me)" using assms(1) by (simp add: plain_name_def)
  then show ?thesis using path_within_iff[OF assms(2), of "[n_home, wname me]"] dir_names home_render[OF Inr] Inr by simp
qed

text \<open>What the rules allow, in terms of the components of the path: \<open>/kernel\<close> is closed to everybody but the
  superuser, \<open>/userconfig\<close>, \<open>/app\<close> and \<open>/services\<close> are open to the holders of a role, password files excepted,
  \<open>/ramdisk\<close> is open to all, and elsewhere there is only the own home directory.\<close>

theorem may_write_exact:
  assumes "u \<noteq> ROOT_UID" "plain_name st u" "\<forall>c\<in>set cs. name_ok c"
  shows "may_write st u (render cs) \<longleftrightarrow>
    (case cs of
       [] \<Rightarrow> False
     | c # rest \<Rightarrow>
         if c = n_kernel then False
         else if c = n_userconfig then (\<nexists>n. rest = [n, PASSWORD]) \<and> user_has_role (users st) u W_ROLE_USEREDITOR
         else if c = n_app then user_has_role (users st) u W_ROLE_APPEDITOR
         else if c = n_services then user_has_role (users st) u W_ROLE_SYSCTLEDIT
         else if c = n_ramdisk then True
         else \<exists>me. user_by_uid st u = Inr me \<and> prefix [n_home, wname me] cs)"
proof -
  note W = within_dir[OF assms(3)] and P = password_file_iff[OF assms(3)] and H = within_home[OF assms(2,3)]
  have "may_write st u (render cs) \<longleftrightarrow>
      (if prefix [n_kernel] cs then False
       else if \<exists>n. cs = [n_userconfig, n, PASSWORD] then False
       else if prefix [n_userconfig] cs then user_has_role (users st) u W_ROLE_USEREDITOR
       else if prefix [n_app] cs then user_has_role (users st) u W_ROLE_APPEDITOR
       else if prefix [n_services] cs then user_has_role (users st) u W_ROLE_SYSCTLEDIT
       else if prefix [n_ramdisk] cs then True
       else \<exists>me. user_by_uid st u = Inr me \<and> prefix [n_home, wname me] cs)"
    unfolding may_write_def W P H using assms(1) by (simp only: if_False)
  then show ?thesis by (cases cs) auto
qed

lemma write_confined_paths:
  assumes "u \<noteq> ROOT_UID" "plain_name st u" "normal cs" "may_write st u (render cs)"
    and "\<not> user_has_role (users st) u W_ROLE_USEREDITOR" "\<not> user_has_role (users st) u W_ROLE_APPEDITOR" "\<not> user_has_role (users st) u W_ROLE_SYSCTLEDIT"
  shows "prefix [n_ramdisk] cs \<or> (\<exists>me. user_by_uid st u = Inr me \<and> prefix [n_home, wname me] cs)"
proof -
  note names = normal_names[OF assms(3)]
  have "\<not> path_within (render cs) USERCONFIG_DIR" "\<not> path_within (render cs) APP_DIR" "\<not> path_within (render cs) SERVICES_DIR"
    using assms(1,4-7) unfolding may_write_def by (auto split: if_splits)
  then have "path_within (render cs) RAMFS_MOUNT \<or>
      (case home_of st u (W_PATH_MAX + 1) of None \<Rightarrow> False | Some home \<Rightarrow> path_within (render cs) home)"
    using assms(1,4) unfolding may_write_def by (simp split: if_splits)
  then show ?thesis unfolding within_dir(5)[OF names] within_home[OF assms(2) names] .
qed

text \<open>C8. A user without a role can change files only below \<open>/ramdisk\<close> and below their own home directory, however
  the path is written: with dots, with repeated slashes, relative or absolute.\<close>

theorem ordinary_writes_confined:
  assumes "resolve_for_write st u cwd path n = Inr out" "1 < n" "u \<noteq> ROOT_UID" "plain_name st u"
    and "\<not> user_has_role (users st) u W_ROLE_USEREDITOR" "\<not> user_has_role (users st) u W_ROLE_APPEDITOR" "\<not> user_has_role (users st) u W_ROLE_SYSCTLEDIT"
  shows "\<exists>cs. out = render cs \<and> normal cs \<and> (prefix [n_ramdisk] cs \<or> (\<exists>me. user_by_uid st u = Inr me \<and> prefix [n_home, wname me] cs))"
proof -
  have r: "vfs_resolve cwd path n = Inr out" "may_write st u out"
    using assms(1) by (auto simp: resolve_for_write_def split: sum.splits if_splits)
  obtain joined where j: "path \<noteq> []" "join_path cwd path = Inr joined" using r(1) by (auto simp: vfs_resolve_def split: if_splits sum.splits)
  obtain cs where w: "walk_comps n [] (comps joined) = Inr cs" and out: "out = render cs"
    using r(1) vfs_resolve_walk[OF j] by (cases "walk_comps n [] (comps joined)") auto
  have N: "normal cs" using walk_normal(1)[OF w] comps_name_ok assms(2) by (auto simp: normal_def render_def)
  then show ?thesis using write_confined_paths[OF assms(3,4) N _ assms(5-7)] r(2) out by blast
qed




section \<open>Some paths\<close>

text \<open>The path \<^verbatim>\<open>/home/.././home//a/x\<close>, its normal form, and the accounts of the small machine.\<close>

definition demo_crooked :: bytes where
  "demo_crooked = HOME @ [47, 46, 46, 47, 46] @ HOME @ [47, 47, 97, 47, 120]"

lemma demo_crooked_resolves: "vfs_resolve [47] demo_crooked 256 = Inr (render [n_home, [97], [120]])"
  by code_simp

theorem vfs_resolve_correct_witness:
  "\<exists>cs. render [n_home, [97], [120]] = render cs \<and> normal cs \<and> vfs_resolve [] (render [n_home, [97], [120]]) 256 = Inr (render [n_home, [97], [120]])"
proof -
  have "length (render [n_home, [97], [120]]) \<le> W_PATH_MAX" by (simp add: render_def n_home_def HOME_def W_PATH_MAX_def)
  then show ?thesis using vfs_resolve_correct[OF demo_crooked_resolves, of "[]"] by auto
qed

lemma demo_me: "user_by_uid demo_accounts 1 = Inr \<lparr>wuid = 1, wroles = 0, wname = [97]\<rparr>"
  by (simp add: user_by_uid_def demo_find demo_nth demo_account_fields fill_wuser_def W_NAME_LEN_def)

lemma demo_plain: "plain_name demo_accounts 1" "name_ok [97]" "name_ok [120]"
  by (simp_all add: plain_name_def demo_me name_ok_def slash_def)

lemma demo_no_role: "\<not> user_has_role (users demo_accounts) 1 r"
  by (simp add: user_has_role_def demo_find demo_nth demo_account_fields ROOT_UID_def)

theorem may_write_exact_witness:
  "may_write demo_accounts 1 (render [n_home, [97], [120]]) \<and> \<not> may_write demo_accounts 1 (render [n_home, [120]])
    \<and> \<not> may_write demo_accounts 1 (render [n_kernel])"
  using may_write_exact[of 1 demo_accounts "[n_home, [97], [120]]"] may_write_exact[of 1 demo_accounts "[n_home, [120]]"]
    may_write_exact[of 1 demo_accounts "[n_kernel]"] demo_plain dir_names dir_differ
  by (simp add: demo_me ROOT_UID_def)

theorem ordinary_writes_confined_witness:
  "\<exists>cs. render [n_home, [97], [120]] = render cs \<and> normal cs \<and> (prefix [n_ramdisk] cs \<or> prefix [n_home, [97]] cs)"
proof -
  have "may_write demo_accounts 1 (render [n_home, [97], [120]])"
    using within_dir[of "[n_home, [97], [120]]"] password_file_iff[of "[n_home, [97], [120]]"] within_home[OF demo_plain(1), of "[n_home, [97], [120]]"]
      demo_plain dir_names dir_differ by (simp add: may_write_def demo_me)
  then have "resolve_for_write demo_accounts 1 [47] demo_crooked 256 = Inr (render [n_home, [97], [120]])"
    by (simp add: resolve_for_write_def demo_crooked_resolves)
  from ordinary_writes_confined[OF this _ _ demo_plain(1) demo_no_role demo_no_role demo_no_role] show ?thesis by (simp add: demo_me ROOT_UID_def)
qed


definition demo_editors :: "unit accounts" where
  "demo_editors = demo_accounts\<lparr>users := demo_root # demo_user\<lparr>roles := 2\<rparr> # replicate 30 no_entry\<rparr>"

lemma demo_editors_nth:
  "i < 32 \<Longrightarrow> users demo_editors ! i = (if i = 0 then demo_root else if i = 1 then demo_user\<lparr>roles := 2\<rparr> else no_entry)" "length (users demo_editors) = 32"
  by (simp_all add: demo_editors_def nth_Cons')

lemma demo_editors_find: "find_by_uid (users demo_editors) 1 = Some 1" "find_by_uid (users demo_editors) 2 = None"
proof -
  show "find_by_uid (users demo_editors) 1 = Some 1"
    by (auto simp: find_by_uid_def find_slot_Some demo_editors_nth demo_account_fields less_Suc_eq numeral_2_eq_2)
  show "find_by_uid (users demo_editors) 2 = None"
    using has_root[of "users demo_editors" 2] by (auto simp: demo_editors_nth demo_account_fields split: if_splits)
qed


end
