(* ===== verification/Rtc.thy ===== *)
theory Rtc
  imports Wos_Prelude "HOL-Library.Signed_Division"
begin

text \<open>
  The clock, \<^verbatim>\<open>kernel/drivers/rtc.c\<close>: reading and setting the date and time in the registers of the CMOS chip,
  and the count of seconds files are stamped with.

  The registers are a function from their number to their contents.  What the chip shows in the
  successive attempts of \<open>rtc_read\<close> is a parameter, since the clock runs on meanwhile.  The lemmas show that
  what is set is what is read, in each of the four formats the chip may be in, and that the count of
  days is the number of steps of the calendar from 1 January 1970.
\<close>

unbundle bit_operations_syntax

section \<open>Registers\<close>

type_synonym regs = "u8 \<Rightarrow> u8"

abbreviation REG_SECOND :: u8 where "REG_SECOND \<equiv> 0x00"
abbreviation REG_MINUTE :: u8 where "REG_MINUTE \<equiv> 0x02"
abbreviation REG_HOUR :: u8 where "REG_HOUR \<equiv> 0x04"
abbreviation REG_DAY :: u8 where "REG_DAY \<equiv> 0x07"
abbreviation REG_MONTH :: u8 where "REG_MONTH \<equiv> 0x08"
abbreviation REG_YEAR :: u8 where "REG_YEAR \<equiv> 0x09"
abbreviation REG_STATUS_B :: u8 where "REG_STATUS_B \<equiv> 0x0B"
abbreviation STATUS_B_24HOUR :: u8 where "STATUS_B_24HOUR \<equiv> 0x02"
abbreviation STATUS_B_BINARY :: u8 where "STATUS_B_BINARY \<equiv> 0x04"
abbreviation STATUS_B_SET :: u8 where "STATUS_B_SET \<equiv> 0x80"

record wtime =
  year :: int
  month :: int
  day :: int
  hour :: int
  minute :: int
  second :: int

definition bcd_to_bin :: "u8 \<Rightarrow> u8" where
  "bcd_to_bin v = (v AND 0x0F) + drop_bit 4 v * 10"

definition bin_to_bcd :: "u8 \<Rightarrow> u8" where
  "bin_to_bcd v = push_bit 4 (v div 10) OR (v mod 10)"

section \<open>Reading\<close>

text \<open>The attempts, until the second is the one of the attempt before.\<close>

function read_tries :: "(nat \<Rightarrow> regs) \<Rightarrow> nat \<Rightarrow> u8 \<Rightarrow> regs" where
  "read_tries shown tries last_sec =
     (let r = shown tries in if r REG_SECOND = last_sec \<or> tries + 1 \<ge> 100 then r else read_tries shown (tries + 1) (r REG_SECOND))"
  by auto
termination by (relation "measure (\<lambda>(shown, tries, last_sec). 100 - tries)") auto

declare read_tries.simps [simp del]

definition decode_hour :: "u8 \<Rightarrow> u8 \<Rightarrow> u8" where
  "decode_hour status_b h =
     (let pm = (status_b AND STATUS_B_24HOUR = 0 \<and> h AND 0x80 \<noteq> 0);
          h = h AND 0x7F;
          h = (if status_b AND STATUS_B_BINARY = 0 then bcd_to_bin h else h)
      in if status_b AND STATUS_B_24HOUR = 0 then (if pm then h mod 12 + 12 else if h = 12 then 0 else h) else h)"

definition decode_field :: "u8 \<Rightarrow> u8 \<Rightarrow> u8" where
  "decode_field status_b v = (if status_b AND STATUS_B_BINARY = 0 then bcd_to_bin v else v)"

definition rtc_read :: "(nat \<Rightarrow> regs) \<Rightarrow> u8 \<Rightarrow> wtime" where
  "rtc_read shown status_b =
     (let r = read_tries shown 0 0xFF
      in \<lparr>year = 2000 + uint (decode_field status_b (r REG_YEAR)), month = uint (decode_field status_b (r REG_MONTH)),
          day = uint (decode_field status_b (r REG_DAY)), hour = uint (decode_hour status_b (r REG_HOUR)),
          minute = uint (decode_field status_b (r REG_MINUTE)), second = uint (decode_field status_b (r REG_SECOND))\<rparr>)"

section \<open>Counting days\<close>

definition leap :: "int \<Rightarrow> bool" where
  "leap y \<longleftrightarrow> (y mod 4 = 0 \<and> y mod 100 \<noteq> 0) \<or> y mod 400 = 0"

definition month_days :: "int list" where
  "month_days = [31, 28, 31, 30, 31, 30, 31, 31, 30, 31, 30, 31]"

definition days_before :: "int \<Rightarrow> int \<Rightarrow> int \<Rightarrow> u32" where
  "days_before yr mon dy =
     (let days = fold (\<lambda>y days. days + (if leap y then 366 else 365)) [1970..yr - 1] 0;
          days = fold (\<lambda>m days. let days = days + of_int (month_days ! nat (m - 1)) in if m = 2 \<and> leap yr then days + 1 else days) [1..mon - 1] days
      in days + of_int (dy - 1))"

definition rtc_epoch :: "(nat \<Rightarrow> regs) \<Rightarrow> u8 \<Rightarrow> u32" where
  "rtc_epoch shown status_b =
     (let t = rtc_read shown status_b
      in if year t < 1970 \<or> month t < 1 \<or> month t > 12 \<or> day t < 1 \<or> day t > 31 then 0
         else days_before (year t) (month t) (day t) * 86400 + of_int (hour t) * 3600 + of_int (minute t) * 60 + of_int (second t))"

section \<open>Setting\<close>

definition encode_hour :: "u8 \<Rightarrow> u8 \<Rightarrow> u8" where
  "encode_hour status_b h =
     (if status_b AND STATUS_B_24HOUR = 0
      then
        (let pm = (h \<ge> 12); h12 = h mod 12; h12 = (if h12 = 0 then 12 else h12);
             h = (if status_b AND STATUS_B_BINARY = 0 then bin_to_bcd h12 else h12)
         in if pm then h OR 0x80 else h)
      else if status_b AND STATUS_B_BINARY = 0 then bin_to_bcd h else h)"

definition encode_field :: "u8 \<Rightarrow> u8 \<Rightarrow> u8" where
  "encode_field status_b v = (if status_b AND STATUS_B_BINARY = 0 then bin_to_bcd v else v)"

definition rtc_set :: "wtime \<Rightarrow> regs \<Rightarrow> regs" where
  "rtc_set t r =
     (let status_b = r REG_STATUS_B;
          r = r(REG_STATUS_B := status_b OR STATUS_B_SET);
          r = r(REG_SECOND := encode_field status_b (of_int (second t)));
          r = r(REG_MINUTE := encode_field status_b (of_int (minute t)));
          r = r(REG_HOUR := encode_hour status_b (of_int (hour t)));
          r = r(REG_DAY := encode_field status_b (of_int (day t)));
          r = r(REG_MONTH := encode_field status_b (of_int (month t)));
          r = r(REG_YEAR := encode_field status_b (of_int (year t smod 100)))
      in r(REG_STATUS_B := status_b))"

section \<open>What is set is read\<close>

lemma bcd_table: "list_all (\<lambda>n. bcd_to_bin (bin_to_bcd (of_nat n)) = of_nat n) [0..<100]"
  by code_simp

lemma hour_table:
  "list_all (\<lambda>st. list_all (\<lambda>n. decode_hour st (encode_hour st (of_nat n)) = of_nat n) [0..<24]) [0, 2, 4, 6]"
  by code_simp

lemma field_roundtrip:
  assumes "0 \<le> x" "x < 100"
  shows "uint (decode_field st (encode_field st (of_int x))) = x"
proof -
  have "bcd_to_bin (bin_to_bcd (of_int x)) = of_int x"
    using bcd_table[unfolded list_all_iff, rule_format, of "nat x"] assms by simp
  moreover have "uint (of_int x :: u8) = x" using assms by (simp add: unsigned_of_int take_bit_int_eq_self)
  ultimately show ?thesis by (simp add: decode_field_def encode_field_def)
qed

text \<open>Only two bits of the status matter.\<close>

lemma hour_status:
  assumes "(a AND STATUS_B_24HOUR = 0) = (b AND STATUS_B_24HOUR = 0)" "(a AND STATUS_B_BINARY = 0) = (b AND STATUS_B_BINARY = 0)"
  shows "decode_hour a = decode_hour b" "encode_hour a = encode_hour b"
  by (simp_all only: decode_hour_def encode_hour_def fun_eq_iff assms simp_thms)

lemma status_formats:
  "\<exists>st\<in>{0, 2, 4, 6}. (status_b AND STATUS_B_24HOUR = 0) = (st AND STATUS_B_24HOUR = 0) \<and> (status_b AND STATUS_B_BINARY = 0) = (st AND STATUS_B_BINARY = 0)"
  by (cases "status_b AND STATUS_B_24HOUR = 0"; cases "status_b AND STATUS_B_BINARY = 0") simp_all

lemma hour_roundtrip:
  assumes "0 \<le> x" "x < 24"
  shows "uint (decode_hour st (encode_hour st (of_int x))) = x"
proof -
  obtain t where t: "t \<in> {0, 2, 4, 6}" "(st AND STATUS_B_24HOUR = 0) = (t AND STATUS_B_24HOUR = 0)" "(st AND STATUS_B_BINARY = 0) = (t AND STATUS_B_BINARY = 0)"
    using status_formats[of st] by blast
  have "decode_hour t (encode_hour t (of_nat (nat x))) = of_nat (nat x)"
    using hour_table[unfolded list_all_iff, rule_format, of t "nat x"] t(1) assms
    by (simp del: of_nat_nat add: nat_less_iff)
  then have "decode_hour st (encode_hour st (of_int x)) = of_int x" using hour_status[OF t(2,3)] assms(1) by simp
  then show ?thesis using assms by (simp add: unsigned_of_int take_bit_int_eq_self)
qed

lemma read_tries_same: "read_tries (\<lambda>_. r) n l = r"
  by (induction "\<lambda>_ :: nat. r" n l rule: read_tries.induct) (subst read_tries.simps, simp add: Let_def)

text \<open>C24. A date and time of this century that is written to the clock is read back as it was, whichever of the
  four formats the chip is in.\<close>

theorem rtc_set_read:
  assumes "2000 \<le> year t" "year t < 2100" "0 \<le> month t" "month t < 100" "0 \<le> day t" "day t < 100"
    and "0 \<le> hour t" "hour t < 24" "0 \<le> minute t" "minute t < 100" "0 \<le> second t" "second t < 100"
  shows "rtc_read (\<lambda>_. rtc_set t r) (rtc_set t r REG_STATUS_B) = t"
proof -
  have "year t smod 100 = year t mod 100" using assms(1) by (simp add: signed_modulo_int_def)
  then have y: "year t smod 100 = year t - 2000" using assms(1,2) by presburger
  show ?thesis
    using assms field_roundtrip[of "year t smod 100"] field_roundtrip[of "month t"] field_roundtrip[of "day t"] field_roundtrip[of "minute t"]
      field_roundtrip[of "second t"] hour_roundtrip[of "hour t"] y
    by (cases t) (simp add: rtc_read_def read_tries_same rtc_set_def Let_def
       )
qed

section \<open>The calendar\<close>

definition month_length :: "int \<Rightarrow> int \<Rightarrow> int" where
  "month_length y m = month_days ! nat (m - 1) + (if m = 2 \<and> leap y then 1 else 0)"

fun next_day :: "int \<times> int \<times> int \<Rightarrow> int \<times> int \<times> int" where
  "next_day (y, m, d) =
     (if d < month_length y m then (y, m, d + 1) else if m < 12 then (y, m + 1, 1) else (y + 1, 1, 1))"

definition date_after :: "nat \<Rightarrow> int \<times> int \<times> int" where
  "date_after n = (next_day ^^ n) (1970, 1, 1)"

definition date_ok :: "int \<times> int \<times> int \<Rightarrow> bool" where
  "date_ok x = (case x of (y, m, d) \<Rightarrow> 1970 \<le> y \<and> 1 \<le> m \<and> m \<le> 12 \<and> 1 \<le> d \<and> d \<le> month_length y m)"

lemma month_cases: "1 \<le> m \<Longrightarrow> m \<le> 12 \<Longrightarrow> m \<in> {1, 2, 3, 4, 5, 6, 7, 8, 9, 10, 11, 12}" for m :: int
  by simp presburger

lemma month_length_pos: "1 \<le> m \<Longrightarrow> m \<le> 12 \<Longrightarrow> 28 \<le> month_length y m \<and> month_length y m \<le> 31"
  using month_cases[of m] by (auto simp: month_length_def month_days_def)

lemma next_day_ok:
  assumes "date_ok x"
  shows "date_ok (next_day x)"
proof -
  obtain y m d where x: "x = (y, m, d)" by (cases x)
  show ?thesis
    using assms month_length_pos[of 1 "y + 1"] month_length_pos[of "m + 1" y] by (auto simp: x date_ok_def)
qed

lemma date_after_ok: "date_ok (date_after n)"
proof (induction n)
  case 0
  then show ?case by (simp add: date_after_def date_ok_def month_length_def month_days_def)
next
  case (Suc n)
  then show ?case using next_day_ok by (simp add: date_after_def del: next_day.simps)
qed

abbreviation days_of :: "int \<times> int \<times> int \<Rightarrow> u32" where
  "days_of x \<equiv> (case x of (y, m, d) \<Rightarrow> days_before y m d)"

lemma months_step:
  assumes "1 \<le> m"
  shows "days_before y (m + 1) 1 = days_before y m 1 + of_int (month_length y m)"
proof -
  have "[1..m] = [1..m - 1] @ [m]" using assms by (simp add: upto_rec2)
  then show ?thesis by (simp add: days_before_def month_length_def Let_def)
qed

lemma days_before_day: "days_before y m d = days_before y m 1 + of_int (d - 1)"
  by (simp add: days_before_def Let_def)

lemma year_days: "days_before y 13 1 = days_before y 1 1 + (if leap y then 366 else 365)"
proof -
  have "[1..12] = [1, 2, 3, 4, 5, 6, 7, 8, 9, 10, 11, 12 :: int]" by (simp add: upto_rec1)
  then show ?thesis by (simp add: days_before_def month_days_def Let_def)
qed

lemma years_step: "1970 \<le> y \<Longrightarrow> days_before (y + 1) 1 1 = days_before y 1 1 + (if leap y then 366 else 365)"
  by (simp add: days_before_def Let_def upto_rec2)

lemma next_day_days:
  assumes "date_ok x"
  shows "days_of (next_day x) = days_of x + 1"
proof -
  obtain y m d where x: "x = (y, m, d)" by (cases x)
  have ok: "1970 \<le> y" "1 \<le> m" "m \<le> 12" "1 \<le> d" "d \<le> month_length y m" using assms x by (auto simp: date_ok_def)
  consider "d < month_length y m" | "d = month_length y m" "m < 12" | "d = month_length y m" "m = 12" using ok by linarith
  then show ?thesis
  proof cases
    case 1
    then show ?thesis using days_before_day[of y m d] days_before_day[of y m "d + 1"] by (simp add: x)
  next
    case 2
    then show ?thesis using days_before_day[of y m d] months_step[of m y] ok by (simp add: x)
  next
    case 3
    have "days_before (y + 1) 1 1 = days_before y 13 1" using years_step[OF ok(1)] year_days[of y] by simp
    also have "\<dots> = days_before y 12 1 + of_int (month_length y 12)" using months_step[of 12 y] by simp
    finally show ?thesis using 3 days_before_day[of y 12 d] by (simp add: x)
  qed
qed

lemma days_after: "days_of (date_after n) = of_nat n"
proof (induction n)
  case 0
  then show ?case by (simp add: date_after_def days_before_def Let_def)
next
  case (Suc n)
  then show ?case using next_day_days[OF date_after_ok[of n]] by (simp add: date_after_def del: next_day.simps)
qed


section \<open>A moment\<close>

definition demo_time :: wtime where
  "demo_time = \<lparr>year = 2026, month = 11, day = 15, hour = 0, minute = 30, second = 59\<rparr>"

definition first_hour :: wtime where
  "first_hour = \<lparr>year = 2000, month = 1, day = 1, hour = 1, minute = 0, second = 2\<rparr>"

definition demo_regs :: regs where
  "demo_regs = rtc_set first_hour (\<lambda>_. 0)"

theorem rtc_set_read_witness: "rtc_read (\<lambda>_. rtc_set demo_time (\<lambda>_. 0)) (rtc_set demo_time (\<lambda>_. 0) REG_STATUS_B) = demo_time"
  by (rule rtc_set_read) (simp_all add: demo_time_def)

text \<open>A whole month and a whole year of days.\<close>

lemma days_in_month: "int k < month_length y m \<Longrightarrow> (next_day ^^ k) (y, m, 1) = (y, m, 1 + int k)"
  by (induction k) auto

lemma month_jump:
  assumes "1 \<le> m" "m \<le> 12"
  shows "(next_day ^^ nat (month_length y m)) (y, m, 1) = (if m < 12 then (y, m + 1, 1) else (y + 1, 1, 1))"
proof -
  define k where "k = nat (month_length y m) - 1"
  have k: "nat (month_length y m) = Suc k" "int k = month_length y m - 1" using month_length_pos[OF assms, of y] by (auto simp: k_def)
  then show ?thesis using days_in_month[of k y m] by simp
qed

lemma months_jump:
  assumes "m \<le> 11"
  shows "(next_day ^^ sum_list (map (\<lambda>i. nat (month_length y (int i + 1))) [0..<m])) (y, 1, 1) = (y, int m + 1, 1)"
  using assms
proof (induction m)
  case (Suc m)
  then show ?case using month_jump[of "int m + 1" y] by (simp add: add.commute funpow_add)
qed simp

lemma year_jump: "(next_day ^^ (if leap y then 366 else 365)) (y, 1, 1) = (y + 1, 1, 1)"
proof -
  define k where "k = sum_list (map (\<lambda>i. nat (month_length y (int i + 1))) [0..<11])"
  have "nat (month_length y 12) + k = (if leap y then 366 else 365)"
    by (simp add: k_def month_length_def month_days_def upt_rec)
  moreover have "(next_day ^^ (nat (month_length y 12) + k)) (y, 1, 1) = (y + 1, 1, 1)"
    using months_jump[of 11 y, folded k_def] month_jump[of 12 y] by (simp only: funpow_add comp_apply) simp
  ultimately show ?thesis by (simp only:)
qed

fun year_start :: "nat \<Rightarrow> nat" where
  "year_start 0 = 0"
| "year_start (Suc k) = (if leap (1970 + int k) then 366 else 365) + year_start k"

lemma date_after_years: "date_after (year_start k) = (1970 + int k, 1, 1)"
proof (induction k)
  case (Suc k)
  then show ?case using year_jump[of "1970 + int k"] by (simp only: date_after_def funpow_add comp_apply year_start.simps) simp
qed (simp add: date_after_def)


end
