(* ===== verification/Spec2Isabelle.thy ===== *)
theory Spec2Isabelle
  imports Pmm_Init Socket Aes_Modes Uaccess Wfs_Write Sched Elf Vfs_Path Rtc
begin

text \<open>
  A verification development of WOS, a small operating system for x86-64 written in C.

  \<^bold>\<open>The program.\<close>  The kernel (\<^verbatim>\<open>src/kernel\<close>) starts from the memory map of the boot loader, hands out
  physical frames (\<^verbatim>\<open>mm/pmm.c\<close>), keeps a heap of its own (\<^verbatim>\<open>mm/kheap.c\<close>) and builds four-level page
  tables for itself and every process (\<^verbatim>\<open>mm/paging.c\<close>).  Files live on a block file system
  (\<^verbatim>\<open>fs/wfs.c\<close>) on a RAM disk or a drive; accounts are kept in files of it (\<^verbatim>\<open>fs/user.c\<close>); processes
  talk through pipes and local sockets (\<^verbatim>\<open>fs/pipe.c\<close>, \<^verbatim>\<open>fs/socket.c\<close>).  System calls
  (\<^verbatim>\<open>proc/syscall.c\<close>) check what a program passes before anything of this is reached.

  \<^bold>\<open>How the theories follow the code.\<close>  A structure or the static variables of a file are a \<open>record\<close>, a
  function is a definition of the same name that takes the state and returns it, and an error code is
  the left side of a sum (\<open>res\<close>, \<^theory_text>\<open>Wos_Prelude\<close>).  A panic is \<^const>\<open>None\<close>, a call that sleeps is an
  outcome of its own, and machine integers keep their width wherever a sum can wrap.

  \<^item> \<^theory_text>\<open>Wos_Prelude\<close>: integer types, error codes and lemmas on words, lists and options.
  \<^item> \<^theory_text>\<open>Allocator\<close>: the interface of an allocator and what a client may rely on.
  \<^item> \<^theory_text>\<open>Pmm\<close>, \<^theory_text>\<open>Pmm_Init\<close>: \<^verbatim>\<open>kernel/mm/pmm.c\<close>.  The bitmap refines a set of free frames, counters are
    exact, contiguous allocation is first fit, and start-up marks exactly the usable frames.
  \<^item> \<^theory_text>\<open>Kheap\<close>: \<^verbatim>\<open>kernel/mm/kheap.c\<close>.  Blocks never overlap, and freeing gives back what was taken.
  \<^item> \<^theory_text>\<open>Ring\<close>, \<^theory_text>\<open>Pipe\<close>, \<^theory_text>\<open>Socket\<close>: \<^verbatim>\<open>kernel/fs/pipe.c\<close> and \<^verbatim>\<open>kernel/fs/socket.c\<close>.  Bytes and descriptors
    arrive in order and once; polling and closing do what they promise.
  \<^item> \<^theory_text>\<open>Sha1\<close>, \<^theory_text>\<open>Aes\<close>, \<^theory_text>\<open>Aes_Modes\<close>: \<^verbatim>\<open>kernel/lib/crypto.c\<close> against the standards.
  \<^item> \<^theory_text>\<open>Kstring\<close>: \<^verbatim>\<open>kernel/lib/string.c\<close>.
  \<^item> \<^theory_text>\<open>Wfs_Disk\<close>, \<^theory_text>\<open>Wfs\<close>, \<^theory_text>\<open>Wfs_Alloc\<close>, \<^theory_text>\<open>Wfs_Tree\<close>, \<^theory_text>\<open>Wfs_Read\<close>: \<^verbatim>\<open>kernel/fs/wfs.c\<close> and
    \<^verbatim>\<open>kernel/drivers/ramdisk.c\<close>.  The block cache is transparent, allocation is sound, and reading returns
    the bytes of the file.
  \<^item> \<^theory_text>\<open>User\<close>: \<^verbatim>\<open>kernel/fs/user.c\<close> and the account calls of \<^verbatim>\<open>kernel/proc/syscall.c\<close>.
  \<^item> \<^theory_text>\<open>Paging\<close>, \<^theory_text>\<open>Paging_Space\<close>: \<^verbatim>\<open>kernel/mm/paging.c\<close>.  The tables stay a tree, a mapping changes one
    page of one space, and no stale translation survives.
  \<^item> \<^theory_text>\<open>Uaccess\<close>: the checks of user pointers of \<^verbatim>\<open>kernel/proc/syscall.c\<close>.

  \<^bold>\<open>Bounds.\<close>  Loops are total functions with a measure, or \<open>partial_function (option)\<close> where C may not
  return; then that they return is proved.  The sizes of buffers and tables are the constants of the
  code.

  \<^bold>\<open>Not modelled.\<close>  Device registers, descriptor tables and assembly have no state the kernel can
  observe here; the applications, the user library, the network stack and the interpreter of ACPI
  machine language lie above or beside the parts above.
\<close>

end
